(* ===== verification/Mem_Prelude.thy ===== *)
theory Mem_Prelude
  imports Main "HOL-Library.Word" "HOL-Library.Multiset"
begin

text \<open>
  The prelude of the development: the names of the machine integer types of the code, the lemmas
  that read unsigned 64-bit arithmetic as arithmetic on natural numbers, a byte-addressed memory,
  and the list lemmas the components share.

  \<^item> \<open>uint64_t\<close>, \<open>size_t\<close> and \<open>uintptr_t\<close> are \<open>64 word\<close> (a 64-bit target), a generation
    (\<open>uint32_t\<close>, only incremented and compared) is \<open>32 word\<close>: both wrap as in the code.
  \<^item> An index into a vector, and a count that a lemma bounds by the size of a vector, is \<open>nat\<close>;
    where the code computes one in \<open>uint32_t\<close> and the result could wrap, the model applies \<open>u32\<close>.
\<close>

unbundle bit_operations_syntax

type_synonym u64 = "64 word"
type_synonym gen = "32 word"
type_synonym byte = "8 word"
type_synonym memory = "u64 \<Rightarrow> byte"

text \<open>Reduction of a count to the range of \<open>std::uint32_t\<close>, and the constants of the code.\<close>

definition u32 :: "nat \<Rightarrow> nat" where
  "u32 n = n mod 4294967296"

definition UINT32_MAX :: nat where
  "UINT32_MAX = 4294967295"

definition UINT64_MAX :: u64 where
  "UINT64_MAX = 18446744073709551615"

lemma u32_id [simp]: "n < 4294967296 \<Longrightarrow> u32 n = n"
  by (simp add: u32_def)

named_theorems word_nat \<open>reading word arithmetic as arithmetic on natural numbers\<close>

section \<open>Words as natural numbers\<close>

lemma unat_lt_pow_64: "unat (x :: u64) < 2 ^ LENGTH(64)"
  by (rule unsigned_less)

lemma unat_lt_64: "unat (x :: u64) < 18446744073709551616"
  using unat_lt_pow_64 [of x] by (simp del: unsigned_less)

lemma u64_eqI: "unat (a :: u64) = unat b \<Longrightarrow> a = b"
  by (rule unsigned_word_eqI)

lemma unat_UINT64_MAX [simp]: "unat UINT64_MAX = 18446744073709551615"
  by (simp add: UINT64_MAX_def)

lemma UINT64_MAX_max: "(x :: u64) \<le> UINT64_MAX"
  using unat_lt_64 [of x] by (simp add: word_le_nat_alt)

lemma unat_UINT64_MAX_minus: "unat (UINT64_MAX - x) = 18446744073709551615 - unat x"
  by (simp add: unat_sub UINT64_MAX_max)

lemma unat_plus_64:
  "unat (a :: u64) + unat b < 18446744073709551616 \<Longrightarrow> unat (a + b) = unat a + unat b"
  by (subst unat_add_lem [symmetric]) simp

lemma unat_times_64:
  "unat (a :: u64) * unat b < 18446744073709551616 \<Longrightarrow> unat (a * b) = unat a * unat b"
  by (subst unat_mult_lem [symmetric]) simp

lemma unat_of_nat_64 [simp]: "n < 18446744073709551616 \<Longrightarrow> unat (of_nat n :: u64) = n"
  by (simp add: unat_of_nat take_bit_nat_eq_self)

lemma unat_minus_64: "(b :: u64) \<le> a \<Longrightarrow> unat (a - b) = unat a - unat b"
  by (rule unat_sub)

lemma unat_div_64: "unat ((a :: u64) div b) = unat a div unat b"
  by (simp add: unat_div_distrib)

lemma unat_min_64: "unat (min (a :: u64) b) = min (unat a) (unat b)"
  by (simp add: min_def word_le_nat_alt)

lemma unat_max_64: "unat (max (a :: u64) b) = max (unat a) (unat b)"
  by (simp add: max_def word_le_nat_alt)

lemma of_nat_eq_64:
  "i < 18446744073709551616 \<Longrightarrow> j < 18446744073709551616 \<Longrightarrow>
     (of_nat i :: u64) = of_nat j \<longleftrightarrow> i = j"
  by (metis unat_of_nat_64)

lemmas [word_nat] = word_le_nat_alt word_less_nat_alt unat_plus_64 unat_times_64 unat_minus_64
  unat_div_64 unat_min_64 unat_max_64 unat_UINT64_MAX_minus

section \<open>Spans of memory\<close>

text \<open>\<open>std::span\<close> over bytes: the address of the first byte and the number of bytes.\<close>

record span =
  span_data :: u64
  span_size :: u64

definition subspan :: "span \<Rightarrow> u64 \<Rightarrow> u64 \<Rightarrow> span" where
  "subspan s off len = \<lparr>span_data = span_data s + off, span_size = len\<rparr>"

definition empty_span :: span where
  "empty_span = \<lparr>span_data = 0, span_size = 0\<rparr>"

definition span_addrs :: "span \<Rightarrow> u64 set" where
  "span_addrs s = (\<lambda>k. span_data s + of_nat k) ` {k. k < unat (span_size s)}"

lemma subspan_simps [simp]:
  "span_data (subspan s off len) = span_data s + off" "span_size (subspan s off len) = len"
  by (simp_all add: subspan_def)

lemma span_addrs_iff:
  "a \<in> span_addrs s \<longleftrightarrow> (\<exists>k < unat (span_size s). a = span_data s + of_nat k)"
  by (auto simp: span_addrs_def)

text \<open>Sub-spans of one span are disjoint exactly when their index ranges are.\<close>

lemma subspan_disjoint:
  fixes o1 l1 o2 l2 :: u64
  assumes "unat o1 + unat l1 < 18446744073709551616" "unat o2 + unat l2 < 18446744073709551616"
    and "unat o1 + unat l1 \<le> unat o2 \<or> unat o2 + unat l2 \<le> unat o1"
  shows "span_addrs (subspan s o1 l1) \<inter> span_addrs (subspan s o2 l2) = {}"
proof (rule ccontr)
  assume "\<not> ?thesis"
  then obtain i j where ij: "i < unat l1" "j < unat l2"
      and eq: "span_data s + o1 + of_nat i = span_data s + o2 + (of_nat j :: u64)"
    by (auto simp: span_addrs_iff)
  have "of_nat (unat o1 + i) = (of_nat (unat o2 + j) :: u64)"
    using eq by simp
  moreover have "unat o1 + i < 18446744073709551616" "unat o2 + j < 18446744073709551616"
    using ij assms(1,2) by auto
  ultimately have "unat o1 + i = unat o2 + j"
    by (simp only: of_nat_eq_64)
  with ij assms(3) show False
    by auto
qed

lemma subspan_subset:
  fixes o1 l1 o2 l2 :: u64
  assumes "unat o2 \<le> unat o1" "unat o1 + unat l1 \<le> unat o2 + unat l2"
  shows "span_addrs (subspan s o1 l1) \<subseteq> span_addrs (subspan s o2 l2)"
proof
  fix a
  assume "a \<in> span_addrs (subspan s o1 l1)"
  then obtain i where i: "i < unat l1" "a = span_data s + o1 + of_nat i"
    by (auto simp: span_addrs_iff)
  have "of_nat (unat o1 - unat o2 + i) = o1 - o2 + (of_nat i :: u64)"
    using assms(1) by (simp add: of_nat_diff)
  then have "a = span_data s + o2 + of_nat (unat o1 - unat o2 + i)"
    using i(2) by simp
  moreover have "unat o1 - unat o2 + i < unat l2"
    using assms i(1) by simp
  ultimately show "a \<in> span_addrs (subspan s o2 l2)"
    by (auto simp: span_addrs_iff)
qed

section \<open>Writing bytes\<close>

text \<open>\<open>n\<close> bytes of \<open>f\<close> written from address \<open>base\<close> on, in increasing order.\<close>

primrec write_bytes :: "memory \<Rightarrow> u64 \<Rightarrow> (nat \<Rightarrow> byte) \<Rightarrow> nat \<Rightarrow> memory" where
  "write_bytes m base f 0 = m"
| "write_bytes m base f (Suc n) = (write_bytes m base f n)(base + of_nat n := f n)"

lemma write_bytes_outside:
  "(\<And>k. k < n \<Longrightarrow> a \<noteq> base + of_nat k) \<Longrightarrow> write_bytes m base f n a = m a"
  by (induction n) auto

lemma write_bytes_inside:
  "k < n \<Longrightarrow> n \<le> 18446744073709551616 \<Longrightarrow> write_bytes m base f n (base + of_nat k) = f k"
proof (induction n)
  case (Suc n)
  show ?case
  proof (cases "k = n")
    case False
    then have "(of_nat k :: u64) \<noteq> of_nat n"
      using Suc.prems by (simp add: of_nat_eq_64)
    with False Suc show ?thesis by simp
  qed simp
qed simp

section \<open>Lists\<close>

lemma nth_list_update_if: "i < length xs \<Longrightarrow> xs[i := x] ! j = (if i = j then x else xs ! j)"
  by (simp add: nth_list_update)

lemma nth_upd: "j < length xs \<Longrightarrow> xs[i := x] ! j = (if i = j then x else xs ! j)"
  by (cases "i = j") auto

text \<open>A list split at a position, and its multiset without the element there.\<close>

definition remove_at :: "nat \<Rightarrow> 'a list \<Rightarrow> 'a list" where
  "remove_at i xs = take i xs @ drop (Suc i) xs"

lemma mset_remove_at: "i < length xs \<Longrightarrow> mset (remove_at i xs) = mset xs - {# xs ! i #}"
  by (subst (2) id_take_nth_drop [of i xs]) (simp_all add: remove_at_def)

lemma length_remove_at: "i < length xs \<Longrightarrow> length (remove_at i xs) = length xs - 1"
  by (simp add: remove_at_def)

text \<open>How many positions of a list satisfy a predicate: what the counters of the code count.\<close>

definition count_where :: "('a \<Rightarrow> bool) \<Rightarrow> 'a list \<Rightarrow> nat" where
  "count_where P xs = length (filter P xs)"

lemma count_where_simps [simp]:
  "count_where P [] = 0"
  "count_where P (x # xs) = (if P x then 1 else 0) + count_where P xs"
  by (simp_all add: count_where_def)

lemma count_where_append [simp]: "count_where P (xs @ ys) = count_where P xs + count_where P ys"
  by (simp add: count_where_def)

lemma count_where_replicate [simp]: "count_where P (replicate n x) = (if P x then n else 0)"
  by (induction n) auto

lemma count_where_le_length: "count_where P xs \<le> length xs"
  by (simp add: count_where_def)

lemma count_where_0_iff: "count_where P xs = 0 \<longleftrightarrow> (\<forall>x \<in> set xs. \<not> P x)"
  by (auto simp: count_where_def filter_empty_conv)

lemma count_where_update:
  assumes "i < length xs"
  shows "count_where P (xs[i := x]) + (if P (xs ! i) then 1 else 0)
       = count_where P xs + (if P x then 1 else 0)"
proof -
  have "xs = take i xs @ xs ! i # drop (Suc i) xs"
    using assms by (rule id_take_nth_drop)
  then have "count_where P xs
      = count_where P (take i xs) + (if P (xs ! i) then 1 else 0) + count_where P (drop (Suc i) xs)"
    by (metis count_where_append count_where_simps(2) add.assoc)
  moreover have "count_where P (xs[i := x])
      = count_where P (take i xs) + (if P x then 1 else 0) + count_where P (drop (Suc i) xs)"
    using assms by (simp add: upd_conv_take_nth_drop)
  ultimately show ?thesis by simp
qed

lemma count_where_pos: "i < length xs \<Longrightarrow> P (xs ! i) \<Longrightarrow> 0 < count_where P xs"
  using count_where_0_iff [of P xs] by (meson gr0I nth_mem)

end
