(* ===== verification/Transfer_Core.thy ===== *)
theory Transfer_Core
  imports Mem_Prelude
begin

text \<open>
  The vocabulary shared by both ownership modes, \<open>include/sub0mempage/transfer.hpp\<close>: status codes,
  byte ranges, transfer tokens, the range checks, and the one seam every fill goes through. A backend
  is a state of type \<open>'b\<close> and a function \<open>fill_request \<Rightarrow> 'b \<Rightarrow> bool \<times> 'b\<close> (\<open>FillBackendRef::submit\<close>);
  its contract is the locale \<open>fill_backend\<close>, which the fake backend and the local-file backend
  interpret and under which the pool and the transfer set are verified.
\<close>

section \<open>Status codes, ranges and tokens\<close>

datatype status =
    Ok | Pending | Not_Resident | Pool_Exhausted | Batch_Too_Large | Queue_Exhausted
  | Ticket_Exhausted | Out_Of_Range | Empty_Range | Invalid_Argument | Busy | Short_Read
  | Io_Error | Cancelled | Timeout | Declined

record byte_range =
  range_offset :: u64
  range_length :: u64

datatype admission_class = Declared | Speculative

type_synonym source_id = "32 word"

record transfer_token =
  token_index :: nat
  token_generation :: gen

record fill_result =
  result_status :: status
  result_bytes :: u64

text \<open>
  A completion sink is a function pointer with its context object; the model keeps the identity of
  the object that issued the request.
\<close>

type_synonym sink = nat

record fill_request =
  req_source :: source_id
  req_source_offset :: u64
  req_destination :: span
  req_token :: transfer_token
  req_sink :: sink

section \<open>Range checks\<close>

definition checked_end :: "u64 \<Rightarrow> u64 \<Rightarrow> u64 option" where
  "checked_end off len = (if len > UINT64_MAX - off then None else Some (off + len))"

definition validate_range :: "byte_range \<Rightarrow> u64 \<Rightarrow> status" where
  "validate_range r extent =
     (if range_length r = 0 then Empty_Range
      else case checked_end (range_offset r) (range_length r) of
             None \<Rightarrow> Out_Of_Range
           | Some e \<Rightarrow> if e \<le> extent then Ok else Out_Of_Range)"

definition classify_fill :: "fill_result \<Rightarrow> u64 \<Rightarrow> status" where
  "classify_fill result requested =
     (if result_status result \<noteq> Ok then result_status result
      else if result_bytes result = requested then Ok else Short_Read)"

lemma checked_end_Some_iff:
  "checked_end off len = Some e \<longleftrightarrow>
     unat off + unat len < 18446744073709551616 \<and> unat e = unat off + unat len"
proof -
  have "len > UINT64_MAX - off \<longleftrightarrow> \<not> unat off + unat len < 18446744073709551616"
    using unat_lt_64 [of off] unat_lt_64 [of len]
    by (simp only: word_nat) linarith
  then show ?thesis
    by (auto simp: checked_end_def unat_plus_64 intro!: u64_eqI)
qed

lemma checked_end_None_iff:
  "checked_end off len = None \<longleftrightarrow> 18446744073709551616 \<le> unat off + unat len"
  using checked_end_Some_iff [of off len "off + len"] checked_end_Some_iff [of off len]
  by (cases "checked_end off len") (force simp: unat_plus_64)+

lemma validate_range_Ok_unat:
  "validate_range r extent = Ok \<longleftrightarrow>
     0 < unat (range_length r) \<and> unat (range_offset r) + unat (range_length r) \<le> unat extent"
proof (cases "checked_end (range_offset r) (range_length r)")
  case None
  then have "18446744073709551616 \<le> unat (range_offset r) + unat (range_length r)"
    by (simp add: checked_end_None_iff)
  with None unat_lt_64 [of extent] show ?thesis
    by (auto simp: validate_range_def)
next
  case (Some e)
  then have "unat e = unat (range_offset r) + unat (range_length r)"
    by (simp add: checked_end_Some_iff)
  with Some show ?thesis
    by (auto simp: validate_range_def word_le_nat_alt unat_gt_0)
qed

lemma validate_range_cases:
  "validate_range r extent = Ok \<or> validate_range r extent = Empty_Range
     \<or> validate_range r extent = Out_Of_Range"
  by (auto simp: validate_range_def split: option.splits)

lemma validate_range_unat:
  "validate_range r extent =
     (if unat (range_length r) = 0 then Empty_Range
      else if unat (range_offset r) + unat (range_length r) \<le> unat extent then Ok
      else Out_Of_Range)"
proof (cases "range_length r = 0")
  case True
  then show ?thesis by (simp add: validate_range_def)
next
  case False
  then have "validate_range r extent \<noteq> Empty_Range"
    by (simp add: validate_range_def split: option.splits)
  with False validate_range_cases [of r extent] validate_range_Ok_unat [of r extent] show ?thesis
    by (cases "validate_range r extent = Ok") (simp_all add: unat_eq_zero unat_gt_0)
qed

lemma validate_range_Ok_no_wrap:
  "validate_range r extent = Ok \<Longrightarrow>
     unat (range_offset r + range_length r) = unat (range_offset r) + unat (range_length r)"
  using unat_lt_64 [of extent] by (intro unat_plus_64) (simp only: validate_range_Ok_unat, linarith)

section \<open>The backend seam\<close>

type_synonym 'b submit_fn = "fill_request \<Rightarrow> 'b \<Rightarrow> bool \<times> 'b"

text \<open>
  The contract of \<open>FillBackendRef\<close>: an accepted request joins the outstanding requests (those with
  no terminal delivery yet), a refused one changes none of them. \<open>completes b r res m b' m'\<close> is a
  terminal delivery of \<open>res\<close> for the outstanding request \<open>r\<close>, with the memory before and after it:
  each outstanding request is delivered once, the backend writes inside the request's destination
  only, and a full successful delivery leaves the bytes of the source there.
\<close>

locale fill_backend =
  fixes submit :: "'b submit_fn"
    and outstanding :: "'b \<Rightarrow> fill_request multiset"
    and valid :: "'b \<Rightarrow> bool"
  assumes submit_accepted:
      "valid b \<Longrightarrow> submit r b = (True, b') \<Longrightarrow> outstanding b' = add_mset r (outstanding b)"
    and submit_refused: "valid b \<Longrightarrow> submit r b = (False, b') \<Longrightarrow> outstanding b' = outstanding b"
    and submit_valid: "valid b \<Longrightarrow> submit r b = (a, b') \<Longrightarrow> valid b'"
begin

lemma submit_outstanding:
  "valid b \<Longrightarrow> submit r b = (a, b') \<Longrightarrow>
     outstanding b' = (if a then add_mset r (outstanding b) else outstanding b)"
  using submit_accepted submit_refused by (cases a) auto

end

locale completing_backend = fill_backend submit outstanding valid
  for submit :: "'b submit_fn" and outstanding and valid +
  fixes completes :: "'b \<Rightarrow> fill_request \<Rightarrow> fill_result \<Rightarrow> memory \<Rightarrow> 'b \<Rightarrow> memory \<Rightarrow> bool"
    and content :: "source_id \<Rightarrow> u64 \<Rightarrow> byte"
  assumes completes_outstanding: "valid b \<Longrightarrow> completes b r res m b' m' \<Longrightarrow> r \<in># outstanding b"
    and completes_once:
      "valid b \<Longrightarrow> completes b r res m b' m' \<Longrightarrow> outstanding b' = outstanding b - {# r #}"
    and completes_valid: "valid b \<Longrightarrow> completes b r res m b' m' \<Longrightarrow> valid b'"
    and completes_frame:
      "valid b \<Longrightarrow> completes b r res m b' m' \<Longrightarrow> a \<notin> span_addrs (req_destination r) \<Longrightarrow> m' a = m a"
    and completes_content:
      "valid b \<Longrightarrow> completes b r res m b' m' \<Longrightarrow>
         classify_fill res (span_size (req_destination r)) = Ok \<Longrightarrow>
         k < unat (span_size (req_destination r)) \<Longrightarrow>
         m' (span_data (req_destination r) + of_nat k)
           = content (req_source r) (req_source_offset r + of_nat k)"

text \<open>Deliveries are terminal: a backend never reports a request as still pending.\<close>

locale terminal_backend = completing_backend submit outstanding valid completes content
  for submit :: "'b submit_fn" and outstanding and valid and completes and content +
  assumes completes_terminal: "valid b \<Longrightarrow> completes b r res m b' m' \<Longrightarrow> result_status res \<noteq> Pending"

section \<open>Properties\<close>

text \<open>
  The bound check never wraps: for every 64-bit offset, length and extent, it reports an empty
  range, accepts exactly when the mathematical end of the range lies inside the extent, and refuses
  every other range, the ones whose end overflows included.
\<close>

theorem validate_range_exact:
  "validate_range r extent =
     (if unat (range_length r) = 0 then Empty_Range
      else if unat (range_offset r) + unat (range_length r) \<le> unat extent then Ok
      else Out_Of_Range)"
  by (rule validate_range_unat)

end
