(* ===== verification/Transfer_Set.thy ===== *)
theory Transfer_Set
  imports Transfer_Core
begin

text \<open>
  The explicit-destination mode, \<open>include/sub0mempage/transfer_set.hpp\<close>: the caller chooses where each
  transfer lands, and a record keeps the range reserved until the transfer is terminal and its claim
  handle is gone. Every operation below is one critical section of the code (they all hold \<open>mutex_\<close>).

  \<^item> A call that the code ends with \<open>std::terminate\<close> is \<open>None\<close>.
  \<^item> A call that waits on the condition variable is a function of the state it wakes up in, with
    \<open>None\<close> for "still waiting"; \<open>expired\<close> says whether a deadline was given and has passed.
  \<^item> \<open>Claim\<close> and \<open>TransferSet\<close> point to each other: a claim's \<open>set_\<close> is the flag \<open>claim_set\<close> (not
    null), and its set is passed with it. The identity of the set as a completion sink is \<open>self\<close>.
\<close>

section \<open>State\<close>

datatype record_state = Rec_Free | Rec_Submitted | Rec_Completed | Rec_Failed

record transfer_record =
  rec_destination_offset :: u64
  rec_length :: u64
  rec_generation :: gen
  rec_state :: record_state
  rec_result :: status
  rec_held :: bool

record transfer_set_config =
  tc_source :: source_id
  tc_source_bytes :: u64
  tc_destination :: span
  tc_max_claims :: nat

record transfer_set_stats =
  tst_submitted :: nat
  tst_completed :: nat
  tst_failed :: nat
  tst_stale_completions :: nat
  tst_bytes_read :: nat
  tst_in_flight :: nat
  tst_records_in_use :: nat

record transfer_set =
  ts_config :: transfer_set_config
  ts_records :: "transfer_record list"
  ts_free :: "nat list"
  ts_live :: "nat list"
  ts_live_at :: "nat list"
  ts_counters :: transfer_set_stats
  ts_held :: nat

record claim =
  claim_set :: bool
  claim_record :: nat
  claim_generation :: gen
  claim_bytes :: span

definition default_record :: transfer_record where
  "default_record =
     \<lparr>rec_destination_offset = 0, rec_length = 0, rec_generation = 0, rec_state = Rec_Free,
      rec_result = Pending, rec_held = False\<rparr>"

definition default_stats :: transfer_set_stats where
  "default_stats =
     \<lparr>tst_submitted = 0, tst_completed = 0, tst_failed = 0, tst_stale_completions = 0,
      tst_bytes_read = 0, tst_in_flight = 0, tst_records_in_use = 0\<rparr>"

definition default_claim :: claim where
  "default_claim = \<lparr>claim_set = False, claim_record = 0, claim_generation = 0, claim_bytes = empty_span\<rparr>"

section \<open>Construction and destruction\<close>

text \<open>The constructor: free records are stacked so that record 0 is taken first.\<close>

definition ts_construct :: "transfer_set_config \<Rightarrow> transfer_set" where
  "ts_construct config =
     \<lparr>ts_config = config,
      ts_records = replicate (tc_max_claims config) default_record,
      ts_free = rev [0..<tc_max_claims config],
      ts_live = [],
      ts_live_at = replicate (tc_max_claims config) 0,
      ts_counters = default_stats,
      ts_held = 0\<rparr>"

definition ts_create :: "transfer_set_config \<Rightarrow> status + transfer_set" where
  "ts_create config =
     (if tc_source_bytes config = 0 \<or> span_size (tc_destination config) = 0
         \<or> tc_max_claims config = 0 \<or> tc_max_claims config = UINT32_MAX
      then Inl Invalid_Argument
      else Inr (ts_construct config))"

text \<open>The destructor: \<open>None\<close> where the code terminates.\<close>

definition ts_destroy :: "transfer_set \<Rightarrow> unit option" where
  "ts_destroy ts = (if tst_in_flight (ts_counters ts) \<noteq> 0 \<or> ts_held ts \<noteq> 0 then None else Some ())"

section \<open>Operations\<close>

definition retire_record :: "nat \<Rightarrow> transfer_set \<Rightarrow> transfer_set" where
  "retire_record r ts =
     (let at = ts_live_at ts ! r;
          live = (ts_live ts)[at := last (ts_live ts)];
          live_at = (ts_live_at ts)[live ! at := at]
      in ts\<lparr>ts_live_at := live_at, ts_live := butlast live, ts_free := ts_free ts @ [r]\<rparr>)"

text \<open>The overlap test of one record, and the scan over the records in use.\<close>

definition overlaps :: "u64 \<Rightarrow> u64 \<Rightarrow> transfer_record \<Rightarrow> bool" where
  "overlaps destination_offset destination_end live \<longleftrightarrow>
     destination_offset < rec_destination_offset live + rec_length live \<and>
     rec_destination_offset live < destination_end"

fun busy_scan :: "transfer_record list \<Rightarrow> u64 \<Rightarrow> u64 \<Rightarrow> nat list \<Rightarrow> bool" where
  "busy_scan records destination_offset destination_end [] = False"
| "busy_scan records destination_offset destination_end (i # live) =
     (if overlaps destination_offset destination_end (records ! i) then True
      else busy_scan records destination_offset destination_end live)"

definition ts_request :: "transfer_set \<Rightarrow> sink \<Rightarrow> nat \<Rightarrow> byte_range \<Rightarrow> u64 \<Rightarrow> fill_request" where
  "ts_request ts self free_record source destination_offset =
     \<lparr>req_source = tc_source (ts_config ts),
      req_source_offset = range_offset source,
      req_destination = subspan (tc_destination (ts_config ts)) destination_offset (range_length source),
      req_token = \<lparr>token_index = free_record,
                   token_generation = rec_generation (ts_records ts ! free_record) + 1\<rparr>,
      req_sink = self\<rparr>"

text \<open>The bookkeeping after the backend has accepted the request.\<close>

definition ts_admit :: "nat \<Rightarrow> byte_range \<Rightarrow> u64 \<Rightarrow> transfer_set \<Rightarrow> transfer_set" where
  "ts_admit free_record source destination_offset ts =
     (let generation = rec_generation (ts_records ts ! free_record) + 1; c = ts_counters ts
      in ts\<lparr>ts_records := (ts_records ts)[free_record :=
               \<lparr>rec_destination_offset = destination_offset, rec_length = range_length source,
                rec_generation = generation, rec_state = Rec_Submitted, rec_result = Pending,
                rec_held = True\<rparr>],
            ts_free := butlast (ts_free ts),
            ts_live_at := (ts_live_at ts)[free_record := length (ts_live ts)],
            ts_live := ts_live ts @ [free_record],
            ts_held := ts_held ts + 1,
            ts_counters := c\<lparr>tst_submitted := tst_submitted c + 1,
                             tst_in_flight := tst_in_flight c + 1,
                             tst_records_in_use := tst_records_in_use c + 1\<rparr>\<rparr>)"

definition ts_submit ::
    "'b submit_fn \<Rightarrow> sink \<Rightarrow> byte_range \<Rightarrow> u64 \<Rightarrow> transfer_set \<Rightarrow> 'b
       \<Rightarrow> (status + claim) \<times> transfer_set \<times> 'b" where
  "ts_submit submit self source destination_offset ts b =
     (let status = validate_range source (tc_source_bytes (ts_config ts)) in
      if status \<noteq> Ok then (Inl status, ts, b)
      else case checked_end destination_offset (range_length source) of
        None \<Rightarrow> (Inl Out_Of_Range, ts, b)
      | Some destination_end \<Rightarrow>
          if destination_end > span_size (tc_destination (ts_config ts))
          then (Inl Out_Of_Range, ts, b)
          else if busy_scan (ts_records ts) destination_offset destination_end (ts_live ts)
          then (Inl Busy, ts, b)
          else if ts_free ts = [] then (Inl Ticket_Exhausted, ts, b)
          else let free_record = last (ts_free ts);
                   request = ts_request ts self free_record source destination_offset;
                   (accepted, b') = submit request b
               in if \<not> accepted then (Inl Queue_Exhausted, ts, b')
                  else (Inr \<lparr>claim_set = True, claim_record = free_record,
                             claim_generation = token_generation (req_token request),
                             claim_bytes = req_destination request\<rparr>,
                        ts_admit free_record source destination_offset ts, b'))"

definition ts_on_complete :: "transfer_token \<Rightarrow> fill_result \<Rightarrow> transfer_set \<Rightarrow> transfer_set" where
  "ts_on_complete token result ts =
     (if token_index token \<ge> length (ts_records ts)
         \<or> rec_generation (ts_records ts ! token_index token) \<noteq> token_generation token
         \<or> rec_state (ts_records ts ! token_index token) \<noteq> Rec_Submitted
      then ts\<lparr>ts_counters := (ts_counters ts)
                \<lparr>tst_stale_completions := tst_stale_completions (ts_counters ts) + 1\<rparr>\<rparr>
      else let i = token_index token;
               r = ts_records ts ! i;
               status = classify_fill result (rec_length r);
               c = (ts_counters ts)\<lparr>tst_in_flight := tst_in_flight (ts_counters ts) - 1\<rparr>;
               (state, c) =
                 (if status = Ok
                  then (Rec_Completed, c\<lparr>tst_completed := tst_completed c + 1,
                                         tst_bytes_read := tst_bytes_read c + unat (result_bytes result)\<rparr>)
                  else (Rec_Failed, c\<lparr>tst_failed := tst_failed c + 1\<rparr>));
               ts1 = ts\<lparr>ts_records := (ts_records ts)[i := r\<lparr>rec_result := status, rec_state := state\<rparr>],
                        ts_counters := c\<rparr>
           in if rec_held r then ts1
              else retire_record i
                     (ts1\<lparr>ts_records := (ts_records ts1)[i := (ts_records ts1 ! i)\<lparr>rec_state := Rec_Free\<rparr>],
                          ts_counters := c\<lparr>tst_records_in_use := tst_records_in_use c - 1\<rparr>\<rparr>))"

definition ts_release_claim :: "nat \<Rightarrow> gen \<Rightarrow> transfer_set \<Rightarrow> transfer_set option" where
  "ts_release_claim i generation ts =
     (let r = ts_records ts ! i in
      if rec_generation r \<noteq> generation \<or> \<not> rec_held r then None
      else let ts1 = ts\<lparr>ts_records := (ts_records ts)[i := r\<lparr>rec_held := False\<rparr>],
                        ts_held := ts_held ts - 1\<rparr>
           in if rec_state r \<noteq> Rec_Submitted
              then Some (retire_record i
                     (ts1\<lparr>ts_records := (ts_records ts1)[i := (ts_records ts1 ! i)\<lparr>rec_state := Rec_Free\<rparr>],
                          ts_counters := (ts_counters ts1)
                            \<lparr>tst_records_in_use := tst_records_in_use (ts_counters ts1) - 1\<rparr>\<rparr>))
              else Some ts1)"

definition ts_claim_status :: "nat \<Rightarrow> bool \<Rightarrow> bool \<Rightarrow> transfer_set \<Rightarrow> status option" where
  "ts_claim_status i block expired ts =
     (let r = ts_records ts ! i; terminal = (rec_state r \<noteq> Rec_Submitted) in
      if block \<and> \<not> terminal \<and> \<not> expired then None
      else if \<not> terminal then Some (if block then Timeout else Pending)
      else Some (rec_result r))"

definition ts_drain :: "bool \<Rightarrow> transfer_set \<Rightarrow> status option" where
  "ts_drain expired ts =
     (if tst_in_flight (ts_counters ts) = 0 then Some Ok
      else if expired then Some Timeout else None)"

definition ts_stats :: "transfer_set \<Rightarrow> transfer_set_stats" where
  "ts_stats ts = ts_counters ts"

subsection \<open>Claim handles\<close>

definition claim_is_held :: "claim \<Rightarrow> bool" where
  "claim_is_held c = claim_set c"

definition claim_status :: "claim \<Rightarrow> transfer_set \<Rightarrow> status option" where
  "claim_status c ts =
     (if \<not> claim_set c then Some Invalid_Argument else ts_claim_status (claim_record c) False False ts)"

definition claim_wait :: "claim \<Rightarrow> bool \<Rightarrow> transfer_set \<Rightarrow> status option" where
  "claim_wait c expired ts =
     (if \<not> claim_set c then Some Invalid_Argument else ts_claim_status (claim_record c) True expired ts)"

definition claim_reset :: "claim \<Rightarrow> transfer_set \<Rightarrow> (claim \<times> transfer_set) option" where
  "claim_reset c ts =
     (if \<not> claim_set c then Some (c, ts)
      else map_option (\<lambda>ts'. (c\<lparr>claim_set := False, claim_bytes := empty_span\<rparr>, ts'))
             (ts_release_claim (claim_record c) (claim_generation c) ts))"

text \<open>
  Move assignment of \<open>other\<close> to \<open>this\<close> (two distinct objects, both of one set): the new values of both.
\<close>

definition claim_move_assign ::
    "claim \<Rightarrow> claim \<Rightarrow> transfer_set \<Rightarrow> (claim \<times> claim \<times> transfer_set) option" where
  "claim_move_assign this other ts =
     map_option (\<lambda>(this', ts').
         (\<lparr>claim_set = claim_set other, claim_record = claim_record other,
           claim_generation = claim_generation other, claim_bytes = claim_bytes other\<rparr>,
          other\<lparr>claim_set := False, claim_bytes := empty_span\<rparr>, ts'))
       (claim_reset this ts)"

end
