(* ===== verification/Transfer_Set_Inv.thy ===== *)
theory Transfer_Set_Inv
  imports Transfer_Set
begin

text \<open>
  The invariant of \<open>TransferSet\<close> and the proof that every operation keeps it: the free stack, the
  unordered list of records in use and the position table stay consistent under swap-remove; the
  ranges of records in use lie inside the destination and are pairwise disjoint; the counters are
  the counts they stand for.
\<close>

section \<open>The free stack and the list of records in use\<close>

definition live_ok :: "nat \<Rightarrow> nat list \<Rightarrow> nat list \<Rightarrow> nat list \<Rightarrow> bool" where
  "live_ok n free live live_at \<longleftrightarrow>
     distinct (free @ live) \<and> set free \<union> set live = {..<n} \<and> length live_at = n \<and>
     (\<forall>k < length live. live_at ! (live ! k) = k)"

lemma mset_swap_remove:
  assumes "i < length xs"
  shows "mset (butlast (xs[i := last xs])) = mset xs - {# xs ! i #}"
proof (cases xs rule: rev_cases)
  case Nil
  with assms show ?thesis by simp
next
  case (snoc ys l)
  show ?thesis
  proof (cases "i = length ys")
    case True
    with snoc show ?thesis by simp
  next
    case False
    with assms snoc have i: "i < length ys" by simp
    then have "mset (ys[i := l]) = add_mset l (mset ys - {# ys ! i #})"
      by (rule mset_update)
    with i snoc show ?thesis
      by (simp add: list_update_append nth_append butlast_append)
  qed
qed

lemma live_ok_at:
  assumes "live_ok n free live live_at" "r \<in> set live"
  shows "live_at ! r < length live" "live ! (live_at ! r) = r"
  using assms by (auto simp: live_ok_def in_set_conv_nth)

lemma live_ok_bound: "live_ok n free live live_at \<Longrightarrow> r \<in> set live \<Longrightarrow> r < n"
  by (auto simp: live_ok_def)

lemma live_ok_retire:
  assumes ok: "live_ok n free live live_at" and r: "r \<in> set live"
  defines "live' \<equiv> live[live_at ! r := last live]"
  shows "live_ok n (free @ [r]) (butlast live') (live_at[live' ! (live_at ! r) := live_at ! r])"
    and "set (butlast live') = set live - {r}"
    and "length (butlast live') = length live - 1"
proof -
  let ?at = "live_at ! r"
  have at: "?at < length live" "live ! ?at = r"
    using live_ok_at [OF ok r] by auto
  have dist: "distinct live" "distinct free" "set free \<inter> set live = {}"
      and cover: "set free \<union> set live = {..<n}" and len: "length live_at = n"
      and pos: "\<And>k. k < length live \<Longrightarrow> live_at ! (live ! k) = k"
    using ok by (auto simp: live_ok_def)
  have m: "mset (butlast live') = mset live - {# r #}"
    using mset_swap_remove [OF at(1)] at(2) by (simp add: live'_def)
  have dist': "distinct (butlast live')"
  proof -
    have "distinct (remove1 r live)"
      using dist(1) by simp
    then show ?thesis
      using m mset_eq_imp_distinct_iff [of "butlast live'" "remove1 r live"] by simp
  qed
  show set': "set (butlast live') = set live - {r}"
  proof -
    have "set (butlast live') = set (remove1 r live)"
      using m by (metis mset_remove1 set_mset_mset)
    then show ?thesis
      using dist(1) by simp
  qed
  show "length (butlast live') = length live - 1"
    by (simp add: live'_def)
  have l: "live' ! ?at = last live" "last live \<in> set live"
    using at(1) by (auto simp: live'_def intro: last_in_set)
  have "live_at[last live := ?at] ! (butlast live' ! k) = k" if k: "k < length (butlast live')" for k
  proof (cases "k = ?at")
    case True
    then have "butlast live' ! k = last live"
      using k l(1) by (simp add: nth_butlast)
    moreover have "last live \<in> {..<n}"
      using l(2) cover by blast
    ultimately show ?thesis
      using True len by simp
  next
    case False
    then have nth: "butlast live' ! k = live ! k"
      using k by (simp add: nth_butlast live'_def)
    have "last live = live ! (length live - 1)"
      using at(1) by (intro last_conv_nth) auto
    then have "live ! k \<noteq> last live"
      using k dist(1) at(1) by (simp add: live'_def nth_eq_iff_index_eq)
    then show ?thesis
      using nth pos [of k] k by (simp add: live'_def)
  qed
  note pos' = this
  have "distinct ((free @ [r]) @ butlast live')"
    using dist dist' set' r by auto
  moreover have "set (free @ [r]) \<union> set (butlast live') = {..<n}"
    using set' cover r by auto
  ultimately show "live_ok n (free @ [r]) (butlast live') (live_at[live' ! ?at := ?at])"
    using pos' len l(1) by (simp add: live_ok_def)
qed

lemma live_ok_admit:
  assumes ok: "live_ok n free live live_at" and free: "free \<noteq> []"
  shows "live_ok n (butlast free) (live @ [last free]) (live_at[last free := length live])"
proof -
  obtain fs r where fs: "free = fs @ [r]"
    using free by (cases free rule: rev_cases) auto
  have "set free \<union> set live = {..<n}" "r \<in> set free"
    using ok fs by (simp_all add: live_ok_def)
  then have "r < n"
    by blast
  have "live_at[r := length live] ! ((live @ [r]) ! k) = k" if "k < Suc (length live)" for k
  proof (cases "k = length live")
    case True
    with ok \<open>r < n\<close> show ?thesis by (simp add: live_ok_def)
  next
    case False
    with that have k: "k < length live" by simp
    then have "live ! k \<noteq> r"
      using ok fs by (auto simp: live_ok_def)
    with ok k show ?thesis by (simp add: live_ok_def nth_append)
  qed
  with ok fs show ?thesis
    by (auto simp: live_ok_def)
qed

section \<open>The invariant\<close>

definition ranges_disjoint :: "transfer_record \<Rightarrow> transfer_record \<Rightarrow> bool" where
  "ranges_disjoint r s \<longleftrightarrow>
     unat (rec_destination_offset r) + unat (rec_length r) \<le> unat (rec_destination_offset s) \<or>
     unat (rec_destination_offset s) + unat (rec_length s) \<le> unat (rec_destination_offset r)"

definition range_inside :: "u64 \<Rightarrow> transfer_record \<Rightarrow> bool" where
  "range_inside n r \<longleftrightarrow>
     0 < unat (rec_length r) \<and> unat (rec_destination_offset r) + unat (rec_length r) \<le> unat n"

text \<open>The states of one record: what the state says of its result, its claim and its range.\<close>

definition record_ok :: "u64 \<Rightarrow> transfer_record \<Rightarrow> bool" where
  "record_ok n r \<longleftrightarrow>
     (case rec_state r of
        Rec_Free \<Rightarrow> \<not> rec_held r
      | Rec_Submitted \<Rightarrow> rec_result r = Pending \<and> range_inside n r
      | Rec_Completed \<Rightarrow> rec_held r \<and> rec_result r = Ok \<and> range_inside n r
      | Rec_Failed \<Rightarrow> rec_held r \<and> rec_result r \<noteq> Ok \<and> range_inside n r)"

definition rec_submitted :: "transfer_record \<Rightarrow> bool" where
  "rec_submitted r \<longleftrightarrow> rec_state r = Rec_Submitted"

definition records_ok :: "u64 \<Rightarrow> transfer_record list \<Rightarrow> nat set \<Rightarrow> bool" where
  "records_ok n rs live \<longleftrightarrow>
     (\<forall>i < length rs. record_ok n (rs ! i) \<and> (i \<in> live \<longleftrightarrow> rec_state (rs ! i) \<noteq> Rec_Free)) \<and>
     (\<forall>i < length rs. \<forall>j < length rs. i \<noteq> j \<longrightarrow> rec_state (rs ! i) \<noteq> Rec_Free \<longrightarrow>
        rec_state (rs ! j) \<noteq> Rec_Free \<longrightarrow> ranges_disjoint (rs ! i) (rs ! j))"

definition counters_ok :: "transfer_set \<Rightarrow> bool" where
  "counters_ok ts \<longleftrightarrow>
     tst_in_flight (ts_counters ts) = count_where rec_submitted (ts_records ts) \<and>
     tst_records_in_use (ts_counters ts) = length (ts_live ts) \<and>
     ts_held ts = count_where rec_held (ts_records ts) \<and>
     tst_submitted (ts_counters ts)
       = tst_completed (ts_counters ts) + tst_failed (ts_counters ts) + tst_in_flight (ts_counters ts)"

definition ts_size :: "transfer_set \<Rightarrow> u64" where
  "ts_size ts = span_size (tc_destination (ts_config ts))"

definition ts_inv :: "transfer_set \<Rightarrow> bool" where
  "ts_inv ts \<longleftrightarrow>
     length (ts_records ts) = tc_max_claims (ts_config ts) \<and>
     live_ok (tc_max_claims (ts_config ts)) (ts_free ts) (ts_live ts) (ts_live_at ts) \<and>
     records_ok (ts_size ts) (ts_records ts) (set (ts_live ts)) \<and> counters_ok ts"

lemma ts_invD:
  assumes "ts_inv ts"
  shows "length (ts_records ts) = tc_max_claims (ts_config ts)"
    and "live_ok (tc_max_claims (ts_config ts)) (ts_free ts) (ts_live ts) (ts_live_at ts)"
    and "records_ok (ts_size ts) (ts_records ts) (set (ts_live ts))" and "counters_ok ts"
  using assms by (simp_all add: ts_inv_def)

lemma records_okD:
  assumes "records_ok n rs live" "i < length rs"
  shows "record_ok n (rs ! i)" and "i \<in> live \<longleftrightarrow> rec_state (rs ! i) \<noteq> Rec_Free"
  using assms by (auto simp: records_ok_def)

lemma records_ok_disjoint:
  "records_ok n rs live \<Longrightarrow> i < length rs \<Longrightarrow> j < length rs \<Longrightarrow> i \<noteq> j \<Longrightarrow>
     rec_state (rs ! i) \<noteq> Rec_Free \<Longrightarrow> rec_state (rs ! j) \<noteq> Rec_Free \<Longrightarrow>
     ranges_disjoint (rs ! i) (rs ! j)"
  by (auto simp: records_ok_def)

lemma ranges_disjoint_sym: "ranges_disjoint r s \<Longrightarrow> ranges_disjoint s r"
  by (auto simp: ranges_disjoint_def)

lemma record_ok_inside:
  "record_ok n r \<Longrightarrow> rec_state r \<noteq> Rec_Free \<Longrightarrow> range_inside n r"
  by (cases "rec_state r") (auto simp: record_ok_def)

lemma record_ok_held: "record_ok n r \<Longrightarrow> rec_held r \<Longrightarrow> rec_state r \<noteq> Rec_Free"
  by (auto simp: record_ok_def)

lemma ts_inv_live_record:
  assumes "ts_inv ts" "i < length (ts_records ts)"
  shows "i \<in> set (ts_live ts) \<longleftrightarrow> rec_state (ts_records ts ! i) \<noteq> Rec_Free"
  using records_okD(2) [OF ts_invD(3) [OF assms(1)] assms(2)] .

lemma ts_construct_inv: "ts_inv (ts_construct config)"
  by (auto simp: ts_inv_def ts_construct_def live_ok_def records_ok_def counters_ok_def
      record_ok_def default_record_def default_stats_def rec_submitted_def)

section \<open>The overlap scan\<close>

text \<open>
  \<open>destination_offset + length\<close> of a record in use does not wrap, so the scan over the records in
  use answers whether any record in use meets the requested range.
\<close>

lemma overlaps_iff:
  assumes "range_inside n r"
  shows "overlaps off e r \<longleftrightarrow>
    unat off < unat (rec_destination_offset r) + unat (rec_length r) \<and>
    unat (rec_destination_offset r) < unat e"
proof -
  have "unat (rec_destination_offset r + rec_length r)
      = unat (rec_destination_offset r) + unat (rec_length r)"
    using assms unat_lt_64 [of n] by (intro unat_plus_64) (simp add: range_inside_def)
  then show ?thesis
    by (simp add: overlaps_def word_less_nat_alt)
qed

lemma busy_scan_iff:
  "busy_scan records off e live \<longleftrightarrow> (\<exists>i \<in> set live. overlaps off e (records ! i))"
  by (induction live) auto

lemma busy_scan_all_records:
  assumes "ts_inv ts"
  shows "busy_scan (ts_records ts) off e (ts_live ts) \<longleftrightarrow>
    (\<exists>i < tc_max_claims (ts_config ts).
       rec_state (ts_records ts ! i) \<noteq> Rec_Free \<and> overlaps off e (ts_records ts ! i))"
proof -
  have "set (ts_live ts) = {i. i < tc_max_claims (ts_config ts) \<and> rec_state (ts_records ts ! i) \<noteq> Rec_Free}"
    using ts_invD(1) [OF assms] live_ok_bound [OF ts_invD(2) [OF assms]]
      ts_inv_live_record [OF assms] by auto
  then show ?thesis
    by (auto simp: busy_scan_iff)
qed

lemma not_overlaps_disjoint:
  assumes "range_inside n r" "\<not> overlaps off e r" "unat e = unat off + unat len"
  shows "unat off + unat len \<le> unat (rec_destination_offset r) \<or>
    unat (rec_destination_offset r) + unat (rec_length r) \<le> unat off"
  using assms by (auto simp: overlaps_iff [OF assms(1)] not_less)

section \<open>Changing one record\<close>

lemma records_ok_update:
  assumes ok: "records_ok n rs live" and i: "i < length rs" and live: "rec_state (rs ! i) \<noteq> Rec_Free"
    and r: "record_ok n r" "rec_state r \<noteq> Rec_Free"
    and same: "rec_destination_offset r = rec_destination_offset (rs ! i)"
      "rec_length r = rec_length (rs ! i)"
  shows "records_ok n (rs[i := r]) live"
proof -
  have "ranges_disjoint r s \<longleftrightarrow> ranges_disjoint (rs ! i) s"
    and "ranges_disjoint s r \<longleftrightarrow> ranges_disjoint s (rs ! i)" for s
    using same by (simp_all add: ranges_disjoint_def)
  with ok i live r show ?thesis
    by (simp add: records_ok_def nth_list_update)
qed

lemma records_ok_retire:
  assumes "records_ok n rs live" "i < length rs" "rec_state r = Rec_Free" "\<not> rec_held r"
  shows "records_ok n (rs[i := r]) (live - {i})"
  using assms by (simp add: records_ok_def nth_list_update record_ok_def)

lemma records_ok_admit:
  assumes ok: "records_ok n rs live" and i: "i < length rs" and free: "rec_state (rs ! i) = Rec_Free"
    and r: "record_ok n r" "rec_state r = Rec_Submitted"
    and disj: "\<And>j. j < length rs \<Longrightarrow> j \<noteq> i \<Longrightarrow> rec_state (rs ! j) \<noteq> Rec_Free \<Longrightarrow> ranges_disjoint r (rs ! j)"
  shows "records_ok n (rs[i := r]) (insert i live)"
proof -
  have "ranges_disjoint (rs ! j) r"
    if "j < length rs" "j \<noteq> i" "rec_state (rs ! j) \<noteq> Rec_Free" for j
    using disj [OF that] by (rule ranges_disjoint_sym)
  with ok i r disj show ?thesis
    by (simp add: records_ok_def nth_list_update)
qed

section \<open>Every operation keeps the invariant\<close>

lemma ts_retire_inv:
  fixes ts :: transfer_set
  assumes len: "length (ts_records ts) = tc_max_claims (ts_config ts)"
    and live: "live_ok (tc_max_claims (ts_config ts)) (ts_free ts) (ts_live ts) (ts_live_at ts)"
    and i: "i \<in> set (ts_live ts)"
    and recs: "records_ok (ts_size ts) (ts_records ts) (set (ts_live ts) - {i})"
    and counters: "tst_in_flight (ts_counters ts) = count_where rec_submitted (ts_records ts)"
      "tst_records_in_use (ts_counters ts) = length (ts_live ts) - 1"
      "ts_held ts = count_where rec_held (ts_records ts)"
      "tst_submitted (ts_counters ts)
         = tst_completed (ts_counters ts) + tst_failed (ts_counters ts) + tst_in_flight (ts_counters ts)"
  shows "ts_inv (retire_record i ts)"
  using live_ok_retire [OF live i] len recs counters
  by (simp add: ts_inv_def retire_record_def Let_def ts_size_def counters_ok_def)

lemma retire_record_simps [simp]:
  "ts_config (retire_record i ts) = ts_config ts" "ts_records (retire_record i ts) = ts_records ts"
  "ts_counters (retire_record i ts) = ts_counters ts" "ts_held (retire_record i ts) = ts_held ts"
  "ts_size (retire_record i ts) = ts_size ts"
  by (simp_all add: retire_record_def Let_def ts_size_def)

lemma ts_admit_inv:
  assumes inv: "ts_inv ts" and free: "ts_free ts \<noteq> []"
    and len: "0 < unat (range_length source)"
    and fits: "unat off + unat (range_length source) \<le> unat (ts_size ts)"
    and e: "unat e = unat off + unat (range_length source)"
    and idle: "\<not> busy_scan (ts_records ts) off e (ts_live ts)"
  shows "ts_inv (ts_admit (last (ts_free ts)) source off ts)"
proof -
  let ?i = "last (ts_free ts)" and ?rs = "ts_records ts"
  let ?r = "\<lparr>rec_destination_offset = off, rec_length = range_length source,
    rec_generation = rec_generation (?rs ! ?i) + 1, rec_state = Rec_Submitted,
    rec_result = Pending, rec_held = True\<rparr>"
  note live = ts_invD(2) [OF inv] and recs = ts_invD(3) [OF inv]
  have mem: "?i \<in> set (ts_free ts)"
    using free by simp
  then have i: "?i < length ?rs" "?i \<notin> set (ts_live ts)"
    using live ts_invD(1) [OF inv] by (auto simp: live_ok_def)
  then have st: "rec_state (?rs ! ?i) = Rec_Free"
    using ts_inv_live_record [OF inv] by auto
  then have held: "\<not> rec_held (?rs ! ?i)"
    using records_okD(1) [OF recs i(1)] by (simp add: record_ok_def)
  have disj: "ranges_disjoint ?r (?rs ! j)"
    if j: "j < length ?rs" "rec_state (?rs ! j) \<noteq> Rec_Free" for j
  proof -
    have "\<not> overlaps off e (?rs ! j)"
      using idle j ts_inv_live_record [OF inv j(1)] by (auto simp: busy_scan_iff)
    then show ?thesis
      using not_overlaps_disjoint [OF record_ok_inside [OF records_okD(1) [OF recs j(1)] j(2)] _ e]
      by (auto simp: ranges_disjoint_def)
  qed
  have "record_ok (ts_size ts) ?r"
    using len fits by (simp add: record_ok_def range_inside_def)
  then have recs': "records_ok (ts_size ts) (?rs[?i := ?r]) (insert ?i (set (ts_live ts)))"
    using disj by (intro records_ok_admit [OF recs i(1) st]) auto
  have "count_where rec_submitted (?rs[?i := ?r]) = count_where rec_submitted ?rs + 1"
    using count_where_update [OF i(1), of rec_submitted ?r] st by (simp add: rec_submitted_def)
  moreover have "count_where rec_held (?rs[?i := ?r]) = count_where rec_held ?rs + 1"
    using count_where_update [OF i(1), of rec_held ?r] held by simp
  ultimately show ?thesis
    using recs' live_ok_admit [OF live free] ts_invD(1,4) [OF inv]
    by (simp add: ts_inv_def ts_admit_def Let_def ts_size_def counters_ok_def)
qed

lemma ts_submit_inv:
  assumes inv: "ts_inv ts" and s: "ts_submit submit self source off ts b = (res, ts', b')"
  shows "ts_inv ts'"
proof (cases res)
  case (Inl e)
  with inv s show ?thesis
    by (auto simp: ts_submit_def Let_def split: if_splits option.splits prod.splits)
next
  case (Inr c)
  obtain e where v: "validate_range source (tc_source_bytes (ts_config ts)) = Ok"
      and e: "checked_end off (range_length source) = Some e" "e \<le> span_size (tc_destination (ts_config ts))"
      and idle: "\<not> busy_scan (ts_records ts) off e (ts_live ts)" and free: "ts_free ts \<noteq> []"
      and ts': "ts' = ts_admit (last (ts_free ts)) source off ts"
    using s Inr by (auto simp: ts_submit_def Let_def not_less split: if_splits option.splits prod.splits)
  have "unat e = unat off + unat (range_length source)"
    using e(1) by (simp add: checked_end_Some_iff)
  with v e(2) show ?thesis
    unfolding ts' by (intro ts_admit_inv [OF inv free _ _ _ idle])
      (simp_all add: validate_range_Ok_unat ts_size_def word_le_nat_alt)
qed

text \<open>
  A delivery is stale when it does not name the current generation of a submitted record. A live
  delivery settles that record, and retires it when its claim is already gone.
\<close>

definition ts_stale :: "transfer_set \<Rightarrow> transfer_token \<Rightarrow> bool" where
  "ts_stale ts token \<longleftrightarrow>
     token_index token \<ge> length (ts_records ts)
     \<or> rec_generation (ts_records ts ! token_index token) \<noteq> token_generation token
     \<or> rec_state (ts_records ts ! token_index token) \<noteq> Rec_Submitted"

definition settle :: "fill_result \<Rightarrow> transfer_record \<Rightarrow> transfer_record" where
  "settle result r =
     (let status = classify_fill result (rec_length r)
      in r\<lparr>rec_result := status,
           rec_state := if \<not> rec_held r then Rec_Free
                        else if status = Ok then Rec_Completed else Rec_Failed\<rparr>)"

definition settle_counters ::
    "fill_result \<Rightarrow> transfer_record \<Rightarrow> transfer_set_stats \<Rightarrow> transfer_set_stats" where
  "settle_counters result r c =
     (let ok = (classify_fill result (rec_length r) = Ok)
      in c\<lparr>tst_in_flight := tst_in_flight c - 1,
           tst_completed := tst_completed c + (if ok then 1 else 0),
           tst_failed := tst_failed c + (if ok then 0 else 1),
           tst_bytes_read := tst_bytes_read c + (if ok then unat (result_bytes result) else 0),
           tst_records_in_use := tst_records_in_use c - (if rec_held r then 0 else 1)\<rparr>)"

lemma ts_on_complete_stale:
  "ts_stale ts token \<Longrightarrow> ts_on_complete token result ts =
     ts\<lparr>ts_counters := (ts_counters ts)
         \<lparr>tst_stale_completions := tst_stale_completions (ts_counters ts) + 1\<rparr>\<rparr>"
  unfolding ts_stale_def ts_on_complete_def by (rule if_P)

lemma ts_on_complete_live:
  assumes "\<not> ts_stale ts token"
  shows "ts_on_complete token result ts =
    (let i = token_index token; r = ts_records ts ! i;
         ts1 = ts\<lparr>ts_records := (ts_records ts)[i := settle result r],
                  ts_counters := settle_counters result r (ts_counters ts)\<rparr>
     in if rec_held r then ts1 else retire_record i ts1)"
proof -
  have "token_index token < length (ts_records ts)"
    using assms by (simp add: ts_stale_def)
  with assms show ?thesis
    unfolding ts_stale_def ts_on_complete_def
    by (auto simp: Let_def settle_def settle_counters_def)
qed

lemma ts_on_complete_inv:
  assumes inv: "ts_inv ts"
  shows "ts_inv (ts_on_complete token result ts)"
proof (cases "ts_stale ts token")
  case True
  with inv show ?thesis
    by (simp add: ts_on_complete_stale ts_inv_def counters_ok_def ts_size_def)
next
  case False
  let ?i = "token_index token" and ?rs = "ts_records ts"
  let ?r = "?rs ! ?i"
  have i: "?i < length ?rs" and st: "rec_state ?r = Rec_Submitted"
    using False by (auto simp: ts_stale_def)
  note recs = ts_invD(3) [OF inv] and cnt = ts_invD(4) [OF inv]
  have ok: "rec_result ?r = Pending" "range_inside (ts_size ts) ?r"
    using records_okD(1) [OF recs i] st by (simp_all add: record_ok_def)
  have live: "?i \<in> set (ts_live ts)"
    using ts_inv_live_record [OF inv i] st by simp
  have sub: "count_where rec_submitted (?rs[?i := settle result ?r]) + 1 = count_where rec_submitted ?rs"
    using count_where_update [OF i, of rec_submitted "settle result ?r"] st
    by (auto simp: rec_submitted_def settle_def Let_def)
  have held: "count_where rec_held (?rs[?i := settle result ?r]) = count_where rec_held ?rs"
    using count_where_update [OF i, of rec_held "settle result ?r"]
    by (simp add: settle_def Let_def)
  show ?thesis
  proof (cases "rec_held ?r")
    case True
    have "records_ok (ts_size ts) (?rs[?i := settle result ?r]) (set (ts_live ts))"
      using True st ok by (intro records_ok_update [OF recs i])
        (auto simp: settle_def Let_def record_ok_def range_inside_def)
    with True show ?thesis
      using ts_invD(1,2) [OF inv] cnt sub held
      by (auto simp: ts_on_complete_live [OF False] ts_inv_def Let_def ts_size_def counters_ok_def
          settle_counters_def)
  next
    case unheld: False
    have recs': "records_ok (ts_size ts) (?rs[?i := settle result ?r]) (set (ts_live ts) - {?i})"
      using unheld by (intro records_ok_retire [OF recs i]) (auto simp: settle_def Let_def)
    have "ts_inv (retire_record ?i
        (ts\<lparr>ts_records := ?rs[?i := settle result ?r],
            ts_counters := settle_counters result ?r (ts_counters ts)\<rparr>))"
      using ts_invD(1,2) [OF inv] live recs' cnt sub held unheld
      by (intro ts_retire_inv) (auto simp: counters_ok_def settle_counters_def Let_def ts_size_def)
    with unheld show ?thesis
      by (simp add: ts_on_complete_live [OF False] Let_def)
  qed
qed

lemma ts_release_claim_inv:
  assumes inv: "ts_inv ts" and i: "i < length (ts_records ts)"
    and r: "ts_release_claim i g ts = Some ts'"
  shows "ts_inv ts'"
proof -
  let ?rs = "ts_records ts"
  let ?r = "?rs ! i"
  have held: "rec_held ?r"
    using r by (auto simp: ts_release_claim_def Let_def split: if_splits)
  note recs = ts_invD(3) [OF inv] and cnt = ts_invD(4) [OF inv]
  have st: "rec_state ?r \<noteq> Rec_Free"
    using record_ok_held [OF records_okD(1) [OF recs i] held] .
  have live: "i \<in> set (ts_live ts)"
    using ts_inv_live_record [OF inv i] st by simp
  show ?thesis
  proof (cases "rec_state ?r = Rec_Submitted")
    case True
    let ?r' = "?r\<lparr>rec_held := False\<rparr>"
    have ts': "ts' = ts\<lparr>ts_records := ?rs[i := ?r'], ts_held := ts_held ts - 1\<rparr>"
      using r True by (auto simp: ts_release_claim_def Let_def split: if_splits)
    have "records_ok (ts_size ts) (?rs[i := ?r']) (set (ts_live ts))"
      using True records_okD(1) [OF recs i]
      by (intro records_ok_update [OF recs i]) (auto simp: record_ok_def range_inside_def)
    moreover have "count_where rec_submitted (?rs[i := ?r']) = count_where rec_submitted ?rs"
      using count_where_update [OF i, of rec_submitted ?r'] by (simp add: rec_submitted_def)
    moreover have "count_where rec_held (?rs[i := ?r']) + 1 = count_where rec_held ?rs"
      using count_where_update [OF i, of rec_held ?r'] held by simp
    ultimately show ?thesis
      using ts_invD(1,2) [OF inv] cnt
      by (auto simp: ts' ts_inv_def ts_size_def counters_ok_def)
  next
    case False
    let ?r' = "?r\<lparr>rec_held := False, rec_state := Rec_Free\<rparr>"
    have ts': "ts' = retire_record i (ts\<lparr>ts_held := ts_held ts - 1, ts_records := ?rs[i := ?r'],
        ts_counters := (ts_counters ts)
          \<lparr>tst_records_in_use := tst_records_in_use (ts_counters ts) - 1\<rparr>\<rparr>)"
      using r False i by (auto simp: ts_release_claim_def Let_def split: if_splits)
    have recs': "records_ok (ts_size ts) (?rs[i := ?r']) (set (ts_live ts) - {i})"
      by (intro records_ok_retire [OF recs i]) auto
    have "count_where rec_submitted (?rs[i := ?r']) = count_where rec_submitted ?rs"
      using count_where_update [OF i, of rec_submitted ?r'] False by (simp add: rec_submitted_def)
    moreover have "count_where rec_held (?rs[i := ?r']) + 1 = count_where rec_held ?rs"
      using count_where_update [OF i, of rec_held ?r'] held by simp
    ultimately show ?thesis
      unfolding ts' using ts_invD(1,2) [OF inv] cnt recs' live
      by (intro ts_retire_inv) (auto simp: counters_ok_def ts_size_def)
  qed
qed

end
