(* ===== verification/Fake_Backend.thy ===== *)
theory Fake_Backend
  imports Transfer_Core
begin

text \<open>
  The deterministic in-memory backend of \<open>testing/include/sub0mempage/testing/fake_backend.hpp\<close>: a
  bounded list of accepted requests, completed in any order and with any result by the test. The
  bytes of its source are a function of the offset (\<open>source_byte\<close>). The theory ends with the proof
  that it meets the backend contract (\<open>completing_backend\<close>).
\<close>

section \<open>State and operations\<close>

definition source_byte :: "u64 \<Rightarrow> byte" where
  "source_byte off = ucast ((off * 131 + drop_bit 9 off) AND 0xff)"

datatype fake_completion = Full | Fake_Short_Read | Fake_Io_Error | Fake_Cancelled

record fake_backend =
  fb_capacity :: nat
  fb_pending :: "fill_request list"
  fb_last :: "fill_request option"
  fb_accepted :: nat
  fb_rejected :: nat

definition fake_create :: "nat \<Rightarrow> fake_backend" where
  "fake_create capacity =
     \<lparr>fb_capacity = capacity, fb_pending = [], fb_last = None, fb_accepted = 0, fb_rejected = 0\<rparr>"

definition fake_submit :: "fake_backend submit_fn" where
  "fake_submit request b =
     (if length (fb_pending b) = fb_capacity b then (False, b\<lparr>fb_rejected := fb_rejected b + 1\<rparr>)
      else (True, b\<lparr>fb_pending := fb_pending b @ [request], fb_accepted := fb_accepted b + 1\<rparr>))"

definition fake_written :: "fake_completion \<Rightarrow> u64 \<Rightarrow> u64" where
  "fake_written how n =
     (if how = Fake_Short_Read then n div 2 else if how \<noteq> Full then 0 else n)"

definition fake_status :: "fake_completion \<Rightarrow> status" where
  "fake_status how =
     (if how = Fake_Io_Error then Io_Error else if how = Fake_Cancelled then Cancelled else Ok)"

text \<open>
  \<open>deliver\<close>: what the completion writes, and the result handed to the request's sink.
\<close>

definition fake_deliver :: "fill_request \<Rightarrow> fake_completion \<Rightarrow> memory \<Rightarrow> fill_result \<times> memory" where
  "fake_deliver request how m =
     (let written = fake_written how (span_size (req_destination request))
      in (\<lparr>result_status = fake_status how, result_bytes = written\<rparr>,
          write_bytes m (span_data (req_destination request))
            (\<lambda>i. source_byte (req_source_offset request + of_nat i)) (unat written)))"

text \<open>
  \<open>complete\<close> of the \<open>position\<close>-th pending request; \<open>None\<close> is the return value \<open>false\<close>. The delivery
  (request, result) is passed on to the sink by the composed systems.
\<close>

definition fake_complete ::
    "nat \<Rightarrow> fake_completion \<Rightarrow> fake_backend \<Rightarrow> memory
       \<Rightarrow> (fill_request \<times> fill_result \<times> fake_backend \<times> memory) option" where
  "fake_complete position how b m =
     (if position \<ge> length (fb_pending b) then None
      else let request = fb_pending b ! position;
               b' = b\<lparr>fb_pending := remove_at position (fb_pending b), fb_last := Some request\<rparr>;
               (result, m') = fake_deliver request how m
           in Some (request, result, b', m'))"

definition fake_complete_newest ::
    "fake_completion \<Rightarrow> fake_backend \<Rightarrow> memory
       \<Rightarrow> (fill_request \<times> fill_result \<times> fake_backend \<times> memory) option" where
  "fake_complete_newest how b m =
     (let count = length (fb_pending b)
      in if count = 0 then None else fake_complete (count - 1) how b m)"

text \<open>
  \<open>complete_all_newest_first\<close>, with the sink's state \<open>s\<close> and its \<open>on_complete\<close> as a parameter. The
  loop ends because every round takes one request off the list, and a sink never submits.
\<close>

lemma fake_complete_shrinks:
  "fake_complete position how b m = Some (r, res, b', m') \<Longrightarrow>
     length (fb_pending b') < length (fb_pending b)"
  by (auto simp: fake_complete_def Let_def length_remove_at split: if_splits prod.splits)

function fake_complete_all ::
    "(transfer_token \<Rightarrow> fill_result \<Rightarrow> 's \<Rightarrow> 's) \<Rightarrow> fake_backend \<Rightarrow> memory \<Rightarrow> 's
       \<Rightarrow> fake_backend \<times> memory \<times> 's" where
  "fake_complete_all on_complete b m s =
     (case fake_complete_newest Full b m of
        None \<Rightarrow> (b, m, s)
      | Some (r, res, b', m') \<Rightarrow>
          fake_complete_all on_complete b' m' (on_complete (req_token r) res s))"
  by pat_completeness auto
termination
  by (relation "measure (\<lambda>(on_complete, b, m, s). length (fb_pending b))")
    (auto simp: fake_complete_newest_def Let_def split: if_splits dest: fake_complete_shrinks)

declare fake_complete_all.simps [simp del]

text \<open>\<open>redeliver_last\<close>: the duplicate delivery of the last completed request.\<close>

definition fake_redeliver ::
    "fake_completion \<Rightarrow> fake_backend \<Rightarrow> memory \<Rightarrow> (fill_request \<times> fill_result \<times> memory) option" where
  "fake_redeliver how b m =
     (case fb_last b of
        None \<Rightarrow> None
      | Some request \<Rightarrow> (let (result, m') = fake_deliver request how m in Some (request, result, m')))"

section \<open>The contract\<close>

definition fake_outstanding :: "fake_backend \<Rightarrow> fill_request multiset" where
  "fake_outstanding b = mset (fb_pending b)"

definition fake_valid :: "fake_backend \<Rightarrow> bool" where
  "fake_valid b \<longleftrightarrow> length (fb_pending b) \<le> fb_capacity b"

definition fake_completes ::
    "fake_backend \<Rightarrow> fill_request \<Rightarrow> fill_result \<Rightarrow> memory \<Rightarrow> fake_backend \<Rightarrow> memory \<Rightarrow> bool" where
  "fake_completes b r res m b' m' \<longleftrightarrow>
     (\<exists>position how. fake_complete position how b m = Some (r, res, b', m'))"

definition fake_content :: "source_id \<Rightarrow> u64 \<Rightarrow> byte" where
  "fake_content source off = source_byte off"

lemma fake_written_le: "unat (fake_written how n) \<le> unat n"
  by (simp add: fake_written_def word_nat)

lemma fake_deliver_frame:
  assumes "fake_deliver r how m = (res, m')" "a \<notin> span_addrs (req_destination r)"
  shows "m' a = m a"
proof -
  have "a \<noteq> span_data (req_destination r) + of_nat k"
    if "k < unat (fake_written how (span_size (req_destination r)))" for k
    using that assms(2) fake_written_le [of how "span_size (req_destination r)"]
    by (auto simp: span_addrs_iff)
  then show ?thesis
    using assms(1) by (auto simp: fake_deliver_def Let_def write_bytes_outside)
qed

lemma fake_deliver_content:
  assumes "fake_deliver r how m = (res, m')"
    and "classify_fill res (span_size (req_destination r)) = Ok"
    and "k < unat (span_size (req_destination r))"
  shows "m' (span_data (req_destination r) + of_nat k)
           = fake_content (req_source r) (req_source_offset r + of_nat k)"
  using assms unat_lt_64 [of "span_size (req_destination r)"]
  by (auto simp: fake_deliver_def Let_def classify_fill_def fake_content_def write_bytes_inside
      split: if_splits)

lemma fake_completesE:
  assumes "fake_completes b r res m b' m'"
  obtains position how where "position < length (fb_pending b)" "r = fb_pending b ! position"
    "b' = b\<lparr>fb_pending := remove_at position (fb_pending b), fb_last := Some r\<rparr>"
    "fake_deliver r how m = (res, m')"
  using assms
  by (auto simp: fake_completes_def fake_complete_def Let_def not_le split: if_splits prod.splits)

interpretation fake: terminal_backend fake_submit fake_outstanding fake_valid fake_completes
  fake_content
proof unfold_locales
  fix b r b' and a :: bool
  assume "fake_valid b"
  then show "fake_submit r b = (True, b') \<Longrightarrow> fake_outstanding b' = add_mset r (fake_outstanding b)"
    and "fake_submit r b = (False, b') \<Longrightarrow> fake_outstanding b' = fake_outstanding b"
    and "fake_submit r b = (a, b') \<Longrightarrow> fake_valid b'"
    by (auto simp: fake_submit_def fake_outstanding_def fake_valid_def split: if_splits)
next
  fix b r res m b' m'
  assume valid: "fake_valid b" and c: "fake_completes b r res m b' m'"
  from c obtain position how where pos: "position < length (fb_pending b)"
      and r: "r = fb_pending b ! position"
      and b': "b' = b\<lparr>fb_pending := remove_at position (fb_pending b), fb_last := Some r\<rparr>"
      and d: "fake_deliver r how m = (res, m')"
    by (rule fake_completesE)
  show "r \<in># fake_outstanding b"
    using pos r by (simp add: fake_outstanding_def)
  show "fake_outstanding b' = fake_outstanding b - {# r #}"
    using pos r b' by (simp add: fake_outstanding_def mset_remove_at)
  show "fake_valid b'"
    using valid pos b' by (simp add: fake_valid_def length_remove_at)
  show "result_status res \<noteq> Pending"
    using d by (auto simp: fake_deliver_def fake_status_def Let_def split: if_splits)
  show "a \<notin> span_addrs (req_destination r) \<Longrightarrow> m' a = m a" for a
    using d by (rule fake_deliver_frame)
  show "classify_fill res (span_size (req_destination r)) = Ok \<Longrightarrow>
      k < unat (span_size (req_destination r)) \<Longrightarrow>
      m' (span_data (req_destination r) + of_nat k)
        = fake_content (req_source r) (req_source_offset r + of_nat k)" for k
    using d by (rule fake_deliver_content)
qed

text \<open>Completing everything leaves nothing outstanding.\<close>

lemma fake_complete_newest_None_iff: "fake_complete_newest how b m = None \<longleftrightarrow> fb_pending b = []"
  by (cases "fb_pending b" rule: rev_cases)
    (auto simp: fake_complete_newest_def fake_complete_def Let_def split: prod.splits)

lemma fake_complete_all_drains:
  "fake_complete_all on_complete b m s = (b', m', s') \<Longrightarrow> fb_pending b' = []"
proof (induction on_complete b m s rule: fake_complete_all.induct)
  case (1 on_complete b m s)
  show ?case
  proof (cases "fake_complete_newest Full b m")
    case None
    with "1.prems" have "b' = b"
      by (simp add: fake_complete_all.simps [of on_complete b])
    with None show ?thesis
      by (simp add: fake_complete_newest_None_iff)
  next
    case (Some x)
    obtain r res b2 m2 where x: "x = (r, res, b2, m2)"
      by (cases x)
    from "1.prems" Some x
    have "fake_complete_all on_complete b2 m2 (on_complete (req_token r) res s) = (b', m', s')"
      by (simp add: fake_complete_all.simps [of on_complete b])
    with "1.IH" Some x show ?thesis by blast
  qed
qed

end
