(* ===== verification/Transfer_System.thy ===== *)
theory Transfer_System
  imports Transfer_Set_Inv Fake_Backend
begin

text \<open>
  A transfer set at work: the set, a backend that meets its contract, the memory, and the claims
  its clients hold. A step is one critical section of the code, one write of the backend into the
  destination of an outstanding request (at any time before its delivery), or one terminal delivery;
  the steps interleave in any order. The invariant ties the records to the outstanding requests and
  to the claims; from it follow exclusive use of each range, byte-exact completed claims, and that
  no drop of a claim terminates.
\<close>

section \<open>States and steps\<close>

text \<open>\<open>sys_offsets\<close> remembers the source offset of each record's request, which the code forgets.\<close>

record 'b ts_system =
  sys_set :: transfer_set
  sys_backend :: 'b
  sys_memory :: memory
  sys_claims :: "claim list"
  sys_offsets :: "nat \<Rightarrow> u64"

type_synonym 'b completes_rel =
  "'b \<Rightarrow> fill_request \<Rightarrow> fill_result \<Rightarrow> memory \<Rightarrow> 'b \<Rightarrow> memory \<Rightarrow> bool"

definition ts_system_init :: "transfer_set \<Rightarrow> 'b \<Rightarrow> memory \<Rightarrow> 'b ts_system" where
  "ts_system_init ts b m =
     \<lparr>sys_set = ts, sys_backend = b, sys_memory = m, sys_claims = [], sys_offsets = (\<lambda>_. 0)\<rparr>"

inductive ts_step ::
    "'b submit_fn \<Rightarrow> ('b \<Rightarrow> fill_request multiset) \<Rightarrow> 'b completes_rel \<Rightarrow> sink
       \<Rightarrow> 'b ts_system \<Rightarrow> 'b ts_system \<Rightarrow> bool"
  for submit outstanding completes self where
  submitted: "ts_submit submit self source off (sys_set s) (sys_backend s) = (Inr c, ts', b') \<Longrightarrow>
     ts_step submit outstanding completes self s
       (s\<lparr>sys_set := ts', sys_backend := b', sys_claims := c # sys_claims s,
          sys_offsets := (sys_offsets s)(claim_record c := range_offset source)\<rparr>)"
| rejected: "ts_submit submit self source off (sys_set s) (sys_backend s) = (Inl e, ts', b') \<Longrightarrow>
     ts_step submit outstanding completes self s (s\<lparr>sys_set := ts', sys_backend := b'\<rparr>)"
| writing: "r \<in># outstanding (sys_backend s) \<Longrightarrow>
     (\<And>a. a \<notin> span_addrs (req_destination r) \<Longrightarrow> m' a = sys_memory s a) \<Longrightarrow>
     ts_step submit outstanding completes self s (s\<lparr>sys_memory := m'\<rparr>)"
| delivered: "completes (sys_backend s) r res (sys_memory s) b' m' \<Longrightarrow>
     ts_step submit outstanding completes self s
       (s\<lparr>sys_set := ts_on_complete (req_token r) res (sys_set s), sys_backend := b', sys_memory := m'\<rparr>)"
| duplicate: "ts_stale (sys_set s) token \<Longrightarrow>
     ts_step submit outstanding completes self s
       (s\<lparr>sys_set := ts_on_complete token res (sys_set s)\<rparr>)"
| dropped: "c \<in> set (sys_claims s) \<Longrightarrow> claim_reset c (sys_set s) = Some (c', ts') \<Longrightarrow>
     ts_step submit outstanding completes self s
       (s\<lparr>sys_set := ts', sys_claims := remove1 c (sys_claims s)\<rparr>)"

inductive ts_reachable ::
    "'b submit_fn \<Rightarrow> ('b \<Rightarrow> fill_request multiset) \<Rightarrow> ('b \<Rightarrow> bool) \<Rightarrow> 'b completes_rel \<Rightarrow> sink
       \<Rightarrow> 'b ts_system \<Rightarrow> bool"
  for submit outstanding valid completes self where
  start: "ts_create config = Inr ts \<Longrightarrow> valid b \<Longrightarrow> outstanding b = {#} \<Longrightarrow>
     ts_reachable submit outstanding valid completes self (ts_system_init ts b m)"
| step: "ts_reachable submit outstanding valid completes self s \<Longrightarrow>
     ts_step submit outstanding completes self s t \<Longrightarrow>
     ts_reachable submit outstanding valid completes self t"

section \<open>The records an operation leaves behind\<close>

lemma ts_admit_simps [simp]:
  "ts_config (ts_admit i source off ts) = ts_config ts"
  "ts_records (ts_admit i source off ts) = (ts_records ts)[i :=
     \<lparr>rec_destination_offset = off, rec_length = range_length source,
      rec_generation = rec_generation (ts_records ts ! i) + 1, rec_state = Rec_Submitted,
      rec_result = Pending, rec_held = True\<rparr>]"
  by (simp_all add: ts_admit_def Let_def)

lemma ts_submit_InrE:
  assumes "ts_inv ts" "ts_submit submit self source off ts b = (Inr c, ts', b')"
  obtains i where "i < length (ts_records ts)" "rec_state (ts_records ts ! i) = Rec_Free"
    "c = \<lparr>claim_set = True, claim_record = i,
          claim_generation = rec_generation (ts_records ts ! i) + 1,
          claim_bytes = subspan (tc_destination (ts_config ts)) off (range_length source)\<rparr>"
    "submit (ts_request ts self i source off) b = (True, b')" "ts' = ts_admit i source off ts"
proof (rule that [of "last (ts_free ts)"])
  let ?i = "last (ts_free ts)"
  have free: "ts_free ts \<noteq> []"
    using assms(2) by (auto simp: ts_submit_def Let_def split: if_splits option.splits prod.splits)
  then have "?i \<in> set (ts_free ts)"
    by simp
  with ts_invD(1,2) [OF assms(1)] have i: "?i < length (ts_records ts)" "?i \<notin> set (ts_live ts)"
    by (auto simp: live_ok_def)
  then show "?i < length (ts_records ts)" and "rec_state (ts_records ts ! ?i) = Rec_Free"
    using ts_inv_live_record [OF assms(1) i(1)] by auto
qed (use assms(2) in \<open>auto simp: ts_submit_def ts_request_def Let_def
      split: if_splits option.splits prod.splits\<close>)

lemma ts_submit_InlD:
  assumes "ts_submit submit self source off ts b = (Inl e, ts', b')"
  shows "ts' = ts" "b' = b \<or> (\<exists>r. submit r b = (False, b'))"
  using assms by (auto simp: ts_submit_def Let_def split: if_splits option.splits prod.splits)

lemma ts_on_complete_config [simp]: "ts_config (ts_on_complete token res ts) = ts_config ts"
  by (cases "ts_stale ts token")
    (simp_all add: ts_on_complete_stale ts_on_complete_live Let_def)

lemma ts_on_complete_records:
  "ts_records (ts_on_complete token res ts) =
     (if ts_stale ts token then ts_records ts
      else (ts_records ts)[token_index token := settle res (ts_records ts ! token_index token)])"
  by (simp add: ts_on_complete_stale ts_on_complete_live Let_def)

definition drop_record :: "transfer_record \<Rightarrow> transfer_record" where
  "drop_record r =
     (if rec_state r = Rec_Submitted then r\<lparr>rec_held := False\<rparr>
      else r\<lparr>rec_held := False, rec_state := Rec_Free\<rparr>)"

lemma ts_release_claim_Some:
  assumes "ts_release_claim i g ts = Some ts'" "i < length (ts_records ts)"
  shows "ts_config ts' = ts_config ts"
    and "ts_records ts' = (ts_records ts)[i := drop_record (ts_records ts ! i)]"
    and "rec_held (ts_records ts ! i)"
  using assms by (auto simp: ts_release_claim_def drop_record_def Let_def split: if_splits)

lemma claim_reset_Some:
  assumes "claim_reset c ts = Some (c', ts')" "claim_set c"
  shows "ts_release_claim (claim_record c) (claim_generation c) ts = Some ts'"
  using assms by (auto simp: claim_reset_def split: option.splits)

section \<open>The invariant of the system\<close>

definition submitted_set :: "transfer_set \<Rightarrow> nat set" where
  "submitted_set ts = {i. i < length (ts_records ts) \<and> rec_state (ts_records ts ! i) = Rec_Submitted}"

lemma submitted_set_simps [simp]: "finite (submitted_set ts)"
  by (simp add: submitted_set_def)

definition sys_request :: "sink \<Rightarrow> 'b ts_system \<Rightarrow> nat \<Rightarrow> fill_request" where
  "sys_request self s i =
     (let ts = sys_set s; r = ts_records ts ! i in
      \<lparr>req_source = tc_source (ts_config ts), req_source_offset = sys_offsets s i,
       req_destination = subspan (tc_destination (ts_config ts)) (rec_destination_offset r) (rec_length r),
       req_token = \<lparr>token_index = i, token_generation = rec_generation r\<rparr>, req_sink = self\<rparr>)"

definition ts_requests_ok :: "('b \<Rightarrow> fill_request multiset) \<Rightarrow> sink \<Rightarrow> 'b ts_system \<Rightarrow> bool" where
  "ts_requests_ok outstanding self s \<longleftrightarrow>
     outstanding (sys_backend s) = image_mset (sys_request self s) (mset_set (submitted_set (sys_set s)))"

definition claims_ok :: "transfer_set \<Rightarrow> claim list \<Rightarrow> bool" where
  "claims_ok ts claims \<longleftrightarrow>
     distinct (map claim_record claims) \<and>
     claim_record ` set claims = {i. i < length (ts_records ts) \<and> rec_held (ts_records ts ! i)} \<and>
     (\<forall>c \<in> set claims. claim_set c \<and>
        claim_generation c = rec_generation (ts_records ts ! claim_record c) \<and>
        claim_bytes c = subspan (tc_destination (ts_config ts))
          (rec_destination_offset (ts_records ts ! claim_record c)) (rec_length (ts_records ts ! claim_record c)))"

definition ts_content_ok :: "(source_id \<Rightarrow> u64 \<Rightarrow> byte) \<Rightarrow> 'b ts_system \<Rightarrow> bool" where
  "ts_content_ok content s \<longleftrightarrow>
     (\<forall>i < length (ts_records (sys_set s)). rec_state (ts_records (sys_set s) ! i) = Rec_Completed \<longrightarrow>
        (\<forall>k < unat (rec_length (ts_records (sys_set s) ! i)).
           sys_memory s (span_data (tc_destination (ts_config (sys_set s)))
               + rec_destination_offset (ts_records (sys_set s) ! i) + of_nat k)
             = content (tc_source (ts_config (sys_set s))) (sys_offsets s i + of_nat k)))"

lemma claims_okD:
  assumes "claims_ok ts claims" "c \<in> set claims"
  shows "claim_set c" "claim_record c < length (ts_records ts)"
    "rec_held (ts_records ts ! claim_record c)"
    "claim_generation c = rec_generation (ts_records ts ! claim_record c)"
    "claim_bytes c = subspan (tc_destination (ts_config ts))
       (rec_destination_offset (ts_records ts ! claim_record c)) (rec_length (ts_records ts ! claim_record c))"
proof -
  have "claim_record c \<in> {i. i < length (ts_records ts) \<and> rec_held (ts_records ts ! i)}"
    using assms unfolding claims_ok_def by (metis imageI)
  then show "claim_record c < length (ts_records ts)" "rec_held (ts_records ts ! claim_record c)"
    by auto
qed (use assms in \<open>auto simp: claims_ok_def\<close>)

text \<open>Distinct records in use have disjoint spans of memory.\<close>

definition rec_span :: "transfer_set \<Rightarrow> nat \<Rightarrow> span" where
  "rec_span ts i = subspan (tc_destination (ts_config ts))
     (rec_destination_offset (ts_records ts ! i)) (rec_length (ts_records ts ! i))"

lemma rec_spans_disjoint:
  assumes inv: "ts_inv ts" and ij: "i < length (ts_records ts)" "j < length (ts_records ts)" "i \<noteq> j"
    and live: "rec_state (ts_records ts ! i) \<noteq> Rec_Free" "rec_state (ts_records ts ! j) \<noteq> Rec_Free"
  shows "span_addrs (rec_span ts i) \<inter> span_addrs (rec_span ts j) = {}"
proof -
  note recs = ts_invD(3) [OF inv]
  have "range_inside (ts_size ts) (ts_records ts ! i)" "range_inside (ts_size ts) (ts_records ts ! j)"
    using record_ok_inside [OF records_okD(1) [OF recs]] ij live by auto
  moreover have "ranges_disjoint (ts_records ts ! i) (ts_records ts ! j)"
    using records_ok_disjoint [OF recs ij live] .
  ultimately show ?thesis
    using unat_lt_64 [of "ts_size ts"] unfolding rec_span_def
    by (intro subspan_disjoint) (auto simp: range_inside_def ranges_disjoint_def)
qed

lemma sys_request_destination: "req_destination (sys_request self s i) = rec_span (sys_set s) i"
  by (simp add: sys_request_def rec_span_def Let_def)

lemma ts_content_okI:
  assumes ok: "ts_content_ok content s" and inv: "ts_inv (sys_set s)" and j: "j \<in> submitted_set (sys_set s)"
    and frame: "\<And>a. a \<notin> span_addrs (rec_span (sys_set s) j) \<Longrightarrow> m' a = sys_memory s a"
  shows "ts_content_ok content (s\<lparr>sys_memory := m'\<rparr>)"
proof -
  have "m' (span_data (rec_span (sys_set s) i) + of_nat k)
      = sys_memory s (span_data (rec_span (sys_set s) i) + of_nat k)"
    if i: "i < length (ts_records (sys_set s))" "rec_state (ts_records (sys_set s) ! i) = Rec_Completed"
      and k: "k < unat (rec_length (ts_records (sys_set s) ! i))" for i k
  proof (rule frame)
    have "span_addrs (rec_span (sys_set s) i) \<inter> span_addrs (rec_span (sys_set s) j) = {}"
      using i j by (intro rec_spans_disjoint [OF inv]) (auto simp: submitted_set_def)
    moreover have "span_data (rec_span (sys_set s) i) + of_nat k \<in> span_addrs (rec_span (sys_set s) i)"
      using k by (auto simp: span_addrs_iff rec_span_def)
    ultimately show "span_data (rec_span (sys_set s) i) + of_nat k \<notin> span_addrs (rec_span (sys_set s) j)"
      by blast
  qed
  with ok show ?thesis
    by (simp add: ts_content_ok_def rec_span_def)
qed

section \<open>The invariant is kept\<close>

lemma ts_requests_okD:
  assumes "ts_requests_ok outstanding self s" "r \<in># outstanding (sys_backend s)"
  obtains i where "i \<in> submitted_set (sys_set s)" "r = sys_request self s i"
  using assms by (auto simp: ts_requests_ok_def)

lemma submitted_set_update:
  assumes "i < length (ts_records ts)" "ts_records ts' = (ts_records ts)[i := r]"
  shows "submitted_set ts' = (if rec_state r = Rec_Submitted then insert i (submitted_set ts)
                              else submitted_set ts - {i})"
  using assms by (auto simp: submitted_set_def nth_list_update split: if_splits)

lemma sys_request_other:
  assumes "ts_config (sys_set t) = ts_config (sys_set s)"
    and "ts_records (sys_set t) = (ts_records (sys_set s))[i := r]" "j \<noteq> i"
    and "sys_offsets t j = sys_offsets s j"
  shows "sys_request self t j = sys_request self s j"
  using assms by (simp add: sys_request_def Let_def)

lemma ts_requests_ok_add:
  assumes ok: "ts_requests_ok outstanding self s" and i: "i < length (ts_records (sys_set s))"
    and i': "i \<notin> submitted_set (sys_set s)" and sub: "rec_state r = Rec_Submitted"
    and t: "ts_config (sys_set t) = ts_config (sys_set s)"
      "ts_records (sys_set t) = (ts_records (sys_set s))[i := r]"
      "\<And>j. j \<noteq> i \<Longrightarrow> sys_offsets t j = sys_offsets s j"
    and out: "outstanding (sys_backend t) = add_mset (sys_request self t i) (outstanding (sys_backend s))"
  shows "ts_requests_ok outstanding self t"
proof -
  have "image_mset (sys_request self t) (mset_set (submitted_set (sys_set s)))
      = image_mset (sys_request self s) (mset_set (submitted_set (sys_set s)))"
  proof (rule image_mset_cong)
    fix j
    assume "j \<in># mset_set (submitted_set (sys_set s))"
    with i' have "j \<noteq> i" by auto
    with t show "sys_request self t j = sys_request self s j"
      by (intro sys_request_other) auto
  qed
  with ok i i' sub out show ?thesis
    by (simp add: ts_requests_ok_def submitted_set_update [OF i t(2)])
qed

lemma ts_requests_ok_remove:
  assumes ok: "ts_requests_ok outstanding self s" and i: "i \<in> submitted_set (sys_set s)"
    and sub: "rec_state r \<noteq> Rec_Submitted"
    and t: "ts_config (sys_set t) = ts_config (sys_set s)"
      "ts_records (sys_set t) = (ts_records (sys_set s))[i := r]" "sys_offsets t = sys_offsets s"
    and out: "outstanding (sys_backend t) = outstanding (sys_backend s) - {# sys_request self s i #}"
  shows "ts_requests_ok outstanding self t"
proof -
  have "i < length (ts_records (sys_set s))"
    using i by (simp add: submitted_set_def)
  then have set: "submitted_set (sys_set t) = submitted_set (sys_set s) - {i}"
    using submitted_set_update [OF _ t(2)] sub by simp
  have "image_mset (sys_request self t) (mset_set (submitted_set (sys_set s) - {i}))
      = image_mset (sys_request self s) (mset_set (submitted_set (sys_set s) - {i}))"
    using t by (intro image_mset_cong sys_request_other) auto
  moreover have "mset_set (submitted_set (sys_set s)) = add_mset i (mset_set (submitted_set (sys_set s) - {i}))"
    using i by (simp add: mset_set.remove)
  ultimately show ?thesis
    using ok out by (simp add: ts_requests_ok_def set)
qed

lemma ts_requests_ok_same:
  assumes ok: "ts_requests_ok outstanding self s" and i: "i < length (ts_records (sys_set s))"
    and same: "rec_state r = Rec_Submitted \<longleftrightarrow> rec_state (ts_records (sys_set s) ! i) = Rec_Submitted"
      "rec_generation r = rec_generation (ts_records (sys_set s) ! i)"
      "rec_destination_offset r = rec_destination_offset (ts_records (sys_set s) ! i)"
      "rec_length r = rec_length (ts_records (sys_set s) ! i)"
    and t: "ts_config (sys_set t) = ts_config (sys_set s)"
      "ts_records (sys_set t) = (ts_records (sys_set s))[i := r]" "sys_offsets t = sys_offsets s"
      "outstanding (sys_backend t) = outstanding (sys_backend s)"
  shows "ts_requests_ok outstanding self t"
proof -
  have "sys_request self t j = sys_request self s j" for j
    using i same t by (cases "j = i") (simp_all add: sys_request_def Let_def)
  then have "sys_request self t = sys_request self s"
    by (rule ext)
  moreover have "submitted_set (sys_set t) = submitted_set (sys_set s)"
    using i same(1) by (auto simp: submitted_set_def t(2) nth_list_update)
  ultimately show ?thesis
    using ok t(4) by (simp add: ts_requests_ok_def)
qed

lemma claims_ok_update:
  assumes ok: "claims_ok ts claims" and i: "i < length (ts_records ts)"
    and t: "ts_config ts' = ts_config ts" "ts_records ts' = (ts_records ts)[i := r]"
    and same: "rec_held r = rec_held (ts_records ts ! i)"
      "rec_generation r = rec_generation (ts_records ts ! i)"
      "rec_destination_offset r = rec_destination_offset (ts_records ts ! i)"
      "rec_length r = rec_length (ts_records ts ! i)"
  shows "claims_ok ts' claims"
proof -
  have "{j. j < length (ts_records ts') \<and> rec_held (ts_records ts' ! j)}
      = {j. j < length (ts_records ts) \<and> rec_held (ts_records ts ! j)}"
    using i same(1) by (auto simp: t(2) nth_list_update)
  moreover have "rec_generation (ts_records ts' ! j) = rec_generation (ts_records ts ! j)"
    "rec_destination_offset (ts_records ts' ! j) = rec_destination_offset (ts_records ts ! j)"
    "rec_length (ts_records ts' ! j) = rec_length (ts_records ts ! j)" for j
    using i same by (cases "j = i"; simp add: t(2))+
  ultimately show ?thesis
    using ok by (simp add: claims_ok_def t(1))
qed

lemma claims_ok_add:
  assumes ok: "claims_ok ts claims" and i: "i < length (ts_records ts)"
    and unheld: "\<not> rec_held (ts_records ts ! i)" and held: "rec_held r"
    and t: "ts_config ts' = ts_config ts" "ts_records ts' = (ts_records ts)[i := r]"
    and c: "claim_set c" "claim_record c = i" "claim_generation c = rec_generation r"
      "claim_bytes c = subspan (tc_destination (ts_config ts)) (rec_destination_offset r) (rec_length r)"
  shows "claims_ok ts' (c # claims)"
proof -
  have fresh: "i \<noteq> claim_record d" if "d \<in> set claims" for d
    using claims_okD(3) [OF ok that] unheld by auto
  then have "ts_records ts' ! claim_record d = ts_records ts ! claim_record d"
    if "d \<in> set claims" for d
    using that by (simp add: t(2))
  note frame = this
  have "{j. j < length (ts_records ts') \<and> rec_held (ts_records ts' ! j)}
      = insert i {j. j < length (ts_records ts) \<and> rec_held (ts_records ts ! j)}"
    using i held by (auto simp: t(2) nth_list_update)
  moreover have "claim_record c \<notin> claim_record ` set claims"
    using fresh c(2) by blast
  moreover have "ts_records ts' ! i = r"
    using i by (simp add: t(2))
  ultimately show ?thesis
    using ok c frame by (simp add: claims_ok_def t(1))
qed

lemma claims_ok_remove:
  assumes ok: "claims_ok ts claims" and c: "c \<in> set claims" and held: "\<not> rec_held r"
    and t: "ts_config ts' = ts_config ts" "ts_records ts' = (ts_records ts)[claim_record c := r]"
  shows "claims_ok ts' (remove1 c claims)"
proof -
  let ?i = "claim_record c"
  have i: "?i < length (ts_records ts)"
    using claims_okD(2) [OF ok c] .
  have dist: "distinct (map claim_record claims)"
    and set: "claim_record ` set claims = {j. j < length (ts_records ts) \<and> rec_held (ts_records ts ! j)}"
    using ok by (simp_all add: claims_ok_def)
  have inj: "inj_on claim_record (set claims)" and dist': "distinct claims"
    using dist by (simp_all add: distinct_map)
  have set': "set (remove1 c claims) = set claims - {c}"
    using dist' by simp
  have other: "ts_records ts' ! claim_record d = ts_records ts ! claim_record d"
    if "d \<in> set claims - {c}" for d
  proof -
    have "?i \<noteq> claim_record d"
      using inj c that by (auto dest: inj_onD)
    then show ?thesis by (simp add: t(2))
  qed
  have "claim_record ` (set claims - {c}) = claim_record ` set claims - {?i}"
    using inj c by (auto simp: inj_on_def)
  moreover have "{j. j < length (ts_records ts') \<and> rec_held (ts_records ts' ! j)}
      = {j. j < length (ts_records ts) \<and> rec_held (ts_records ts ! j)} - {?i}"
    using held i by (auto simp: t(2) nth_list_update split: if_splits)
  moreover have "distinct (map claim_record (remove1 c claims))"
    using inj dist' set' by (simp add: distinct_map inj_on_def)
  ultimately show ?thesis
    using ok other unfolding claims_ok_def set' set [symmetric] by (simp add: t(1))
qed

lemma ts_content_ok_update:
  assumes ok: "ts_content_ok content s" and i: "i < length (ts_records (sys_set s))"
    and t: "ts_config (sys_set t) = ts_config (sys_set s)"
      "ts_records (sys_set t) = (ts_records (sys_set s))[i := r]"
      "\<And>j. j \<noteq> i \<Longrightarrow> sys_offsets t j = sys_offsets s j" "sys_memory t = sys_memory s"
    and r: "\<And>k. rec_state r = Rec_Completed \<Longrightarrow> k < unat (rec_length r) \<Longrightarrow>
      sys_memory s (span_data (tc_destination (ts_config (sys_set s)))
          + rec_destination_offset r + of_nat k)
        = content (tc_source (ts_config (sys_set s))) (sys_offsets t i + of_nat k)"
  shows "ts_content_ok content t"
proof -
  have nth: "ts_records (sys_set t) ! j = (if j = i then r else ts_records (sys_set s) ! j)" for j
    using i t(2) by auto
  have len: "length (ts_records (sys_set t)) = length (ts_records (sys_set s))"
    by (simp add: t(2))
  show ?thesis
    using ok r by (simp add: ts_content_ok_def nth len t(1,3,4))
qed

definition sys_inv ::
    "('b \<Rightarrow> fill_request multiset) \<Rightarrow> ('b \<Rightarrow> bool) \<Rightarrow> (source_id \<Rightarrow> u64 \<Rightarrow> byte) \<Rightarrow> sink
       \<Rightarrow> 'b ts_system \<Rightarrow> bool" where
  "sys_inv outstanding valid content self s \<longleftrightarrow>
     ts_inv (sys_set s) \<and> valid (sys_backend s) \<and> ts_requests_ok outstanding self s \<and>
     claims_ok (sys_set s) (sys_claims s) \<and> ts_content_ok content s"

lemma sys_invD:
  assumes "sys_inv outstanding valid content self s"
  shows "ts_inv (sys_set s)" "valid (sys_backend s)" "ts_requests_ok outstanding self s"
    "claims_ok (sys_set s) (sys_claims s)" "ts_content_ok content s"
  using assms by (simp_all add: sys_inv_def)

lemma sys_inv_start:
  assumes "ts_create config = Inr ts" "valid b" "outstanding b = {#}"
  shows "sys_inv outstanding valid content self (ts_system_init ts b m)"
proof -
  have ts: "ts = ts_construct config"
    using assms(1) by (simp add: ts_create_def split: if_splits)
  then have "ts_inv ts"
    using ts_construct_inv by simp
  moreover have "submitted_set ts = {}"
      "\<And>i. i < length (ts_records ts) \<Longrightarrow> ts_records ts ! i = default_record"
    by (simp_all add: ts submitted_set_def ts_construct_def default_record_def)
  ultimately show ?thesis
    using assms(2,3)
    by (auto simp: sys_inv_def ts_system_init_def ts_requests_ok_def claims_ok_def ts_content_ok_def
        default_record_def)
qed

context completing_backend
begin

lemma step_submitted:
  assumes inv: "sys_inv outstanding valid content self s"
    and sub: "ts_submit submit self source off (sys_set s) (sys_backend s) = (Inr c, ts', b')"
  shows "sys_inv outstanding valid content self
    (s\<lparr>sys_set := ts', sys_backend := b', sys_claims := c # sys_claims s,
       sys_offsets := (sys_offsets s)(claim_record c := range_offset source)\<rparr>)"
    (is "sys_inv _ _ _ _ ?t")
proof -
  note I = sys_invD [OF inv]
  obtain i where i: "i < length (ts_records (sys_set s))" "rec_state (ts_records (sys_set s) ! i) = Rec_Free"
    and c: "c = \<lparr>claim_set = True, claim_record = i,
          claim_generation = rec_generation (ts_records (sys_set s) ! i) + 1,
          claim_bytes = subspan (tc_destination (ts_config (sys_set s))) off (range_length source)\<rparr>"
    and b': "submit (ts_request (sys_set s) self i source off) (sys_backend s) = (True, b')"
    and ts': "ts' = ts_admit i source off (sys_set s)"
    using ts_submit_InrE [OF I(1) sub] .
  have unheld: "\<not> rec_held (ts_records (sys_set s) ! i)"
    using records_okD(1) [OF ts_invD(3) [OF I(1)] i(1)] i(2) by (simp add: record_ok_def)
  have "ts_requests_ok outstanding self ?t"
    using i c submit_accepted [OF I(2) b']
    by (intro ts_requests_ok_add [OF I(3) i(1)])
      (auto simp: ts' submitted_set_def sys_request_def ts_request_def Let_def)
  moreover have "claims_ok ts' (c # sys_claims s)"
    using c by (intro claims_ok_add [OF I(4) i(1) unheld]) (auto simp: ts')
  moreover have "ts_content_ok content ?t"
    using c by (intro ts_content_ok_update [OF I(5) i(1)]) (auto simp: ts')
  ultimately show ?thesis
    using ts_submit_inv [OF I(1) sub] submit_valid [OF I(2) b'] by (simp add: sys_inv_def)
qed

lemma step_rejected:
  assumes inv: "sys_inv outstanding valid content self s"
    and sub: "ts_submit submit self source off (sys_set s) (sys_backend s) = (Inl e, ts', b')"
  shows "sys_inv outstanding valid content self (s\<lparr>sys_set := ts', sys_backend := b'\<rparr>)"
proof -
  note I = sys_invD [OF inv] and D = ts_submit_InlD [OF sub]
  have "outstanding b' = outstanding (sys_backend s)" "valid b'"
    using D(2) submit_refused [OF I(2)] submit_valid [OF I(2)] I(2) by auto
  with I D(1) show ?thesis
    by (simp add: sys_inv_def ts_requests_ok_def ts_content_ok_def sys_request_def [abs_def])
qed

lemma step_writing:
  assumes inv: "sys_inv outstanding valid content self s" and r: "r \<in># outstanding (sys_backend s)"
    and frame: "\<And>a. a \<notin> span_addrs (req_destination r) \<Longrightarrow> m' a = sys_memory s a"
  shows "sys_inv outstanding valid content self (s\<lparr>sys_memory := m'\<rparr>)"
proof -
  note I = sys_invD [OF inv]
  obtain j where j: "j \<in> submitted_set (sys_set s)" "r = sys_request self s j"
    using ts_requests_okD [OF I(3) r] .
  have "ts_content_ok content (s\<lparr>sys_memory := m'\<rparr>)"
    using frame by (intro ts_content_okI [OF I(5,1) j(1)]) (simp add: j(2) sys_request_destination)
  with I show ?thesis
    by (simp add: sys_inv_def ts_requests_ok_def sys_request_def [abs_def])
qed

lemma step_duplicate:
  assumes inv: "sys_inv outstanding valid content self s" and stale: "ts_stale (sys_set s) token"
  shows "sys_inv outstanding valid content self (s\<lparr>sys_set := ts_on_complete token res (sys_set s)\<rparr>)"
proof -
  note I = sys_invD [OF inv]
  have "ts_inv (ts_on_complete token res (sys_set s))"
    using ts_on_complete_inv [OF I(1)] .
  with I stale show ?thesis
    by (simp add: sys_inv_def ts_requests_ok_def ts_content_ok_def claims_ok_def submitted_set_def
        sys_request_def [abs_def] ts_on_complete_stale Let_def)
qed

lemma step_delivered:
  assumes inv: "sys_inv outstanding valid content self s"
    and c: "completes (sys_backend s) r res (sys_memory s) b' m'"
  shows "sys_inv outstanding valid content self
    (s\<lparr>sys_set := ts_on_complete (req_token r) res (sys_set s), sys_backend := b', sys_memory := m'\<rparr>)"
    (is "sys_inv _ _ _ _ ?t")
proof -
  note I = sys_invD [OF inv]
  let ?ts = "sys_set s"
  obtain i where i: "i \<in> submitted_set ?ts" and r: "r = sys_request self s i"
    using ts_requests_okD [OF I(3) completes_outstanding [OF I(2) c]] .
  have lt: "i < length (ts_records ?ts)" and sub: "rec_state (ts_records ?ts ! i) = Rec_Submitted"
    using i by (auto simp: submitted_set_def)
  have tok: "token_index (req_token r) = i"
    and live: "\<not> ts_stale ?ts (req_token r)"
    using lt sub by (simp_all add: r sys_request_def Let_def ts_stale_def)
  let ?r = "settle res (ts_records ?ts ! i)"
  have recs: "ts_records (sys_set ?t) = (ts_records ?ts)[i := ?r]"
    using live tok by (simp add: ts_on_complete_records)
  have settled: "rec_state ?r \<noteq> Rec_Submitted" "rec_held ?r = rec_held (ts_records ?ts ! i)"
    "rec_generation ?r = rec_generation (ts_records ?ts ! i)"
    "rec_destination_offset ?r = rec_destination_offset (ts_records ?ts ! i)"
    "rec_length ?r = rec_length (ts_records ?ts ! i)"
    "rec_state ?r = Rec_Completed \<Longrightarrow> classify_fill res (rec_length (ts_records ?ts ! i)) = Ok"
    by (auto simp: settle_def Let_def split: if_splits)
  have "ts_requests_ok outstanding self ?t"
    using completes_once [OF I(2) c] r settled(1) recs
    by (intro ts_requests_ok_remove [OF I(3) i]) auto
  moreover have "claims_ok (sys_set ?t) (sys_claims s)"
    using recs settled by (intro claims_ok_update [OF I(4) lt, where r = ?r]) auto
  moreover have "ts_content_ok content ?t"
  proof (rule ts_content_ok_update [of content "s\<lparr>sys_memory := m'\<rparr>" i])
    show "ts_content_ok content (s\<lparr>sys_memory := m'\<rparr>)"
      using completes_frame [OF I(2) c] r
      by (intro ts_content_okI [OF I(5,1) i]) (simp add: sys_request_destination)
    fix k
    assume "rec_state ?r = Rec_Completed" and k: "k < unat (rec_length ?r)"
    then have "classify_fill res (span_size (req_destination r)) = Ok"
      using settled by (simp add: r sys_request_def Let_def)
    with k show "sys_memory (s\<lparr>sys_memory := m'\<rparr>)
          (span_data (tc_destination (ts_config (sys_set (s\<lparr>sys_memory := m'\<rparr>))))
            + rec_destination_offset ?r + of_nat k)
        = content (tc_source (ts_config (sys_set (s\<lparr>sys_memory := m'\<rparr>)))) (sys_offsets ?t i + of_nat k)"
      using completes_content [OF I(2) c, of k] settled
      by (simp add: r sys_request_def Let_def)
  qed (use lt recs in auto)
  ultimately show ?thesis
    using completes_valid [OF I(2) c] ts_on_complete_inv [OF I(1)] by (simp add: sys_inv_def)
qed

lemma step_dropped:
  assumes inv: "sys_inv outstanding valid content self s" and c: "c \<in> set (sys_claims s)"
    and d: "claim_reset c (sys_set s) = Some (c', ts')"
  shows "sys_inv outstanding valid content self
    (s\<lparr>sys_set := ts', sys_claims := remove1 c (sys_claims s)\<rparr>)" (is "sys_inv _ _ _ _ ?t")
proof -
  note I = sys_invD [OF inv]
  note C = claims_okD [OF I(4) c]
  let ?r = "drop_record (ts_records (sys_set s) ! claim_record c)"
  note rel = claim_reset_Some [OF d C(1)]
  note R = ts_release_claim_Some [OF rel C(2)]
  have ok: "record_ok (ts_size (sys_set s)) (ts_records (sys_set s) ! claim_record c)"
    using records_okD(1) [OF ts_invD(3) [OF I(1)] C(2)] .
  have dropped: "rec_state ?r = Rec_Submitted \<longleftrightarrow>
        rec_state (ts_records (sys_set s) ! claim_record c) = Rec_Submitted"
    "rec_state ?r \<noteq> Rec_Completed" "\<not> rec_held ?r"
    "rec_generation ?r = rec_generation (ts_records (sys_set s) ! claim_record c)"
    "rec_destination_offset ?r = rec_destination_offset (ts_records (sys_set s) ! claim_record c)"
    "rec_length ?r = rec_length (ts_records (sys_set s) ! claim_record c)"
    by (auto simp: drop_record_def)
  have "ts_requests_ok outstanding self ?t"
    using R dropped by (intro ts_requests_ok_same [OF I(3) C(2)]) auto
  moreover have "claims_ok ts' (remove1 c (sys_claims s))"
    using R dropped by (intro claims_ok_remove [OF I(4) c]) auto
  moreover have "ts_content_ok content ?t"
    using R dropped by (intro ts_content_ok_update [OF I(5) C(2)]) auto
  ultimately show ?thesis
    using ts_release_claim_inv [OF I(1) C(2) rel] I(2) by (simp add: sys_inv_def)
qed

lemma step_inv:
  "ts_step submit outstanding completes self s t \<Longrightarrow> sys_inv outstanding valid content self s \<Longrightarrow>
     sys_inv outstanding valid content self t"
  by (induction rule: ts_step.induct)
    (blast intro: step_submitted step_rejected step_writing step_delivered step_duplicate step_dropped)+

lemma reachable_inv:
  "ts_reachable submit outstanding valid completes self s \<Longrightarrow>
     sys_inv outstanding valid content self s"
  by (induction rule: ts_reachable.induct) (blast intro: sys_inv_start step_inv)+

lemma claim_content:
  assumes "sys_inv outstanding valid content self s" "c \<in> set (sys_claims s)"
    and "claim_status c (sys_set s) = Some Ok" "k < unat (span_size (claim_bytes c))"
  shows "sys_memory s (span_data (claim_bytes c) + of_nat k)
    = content (tc_source (ts_config (sys_set s))) (sys_offsets s (claim_record c) + of_nat k)"
proof -
  note I = sys_invD [OF assms(1)]
  note C = claims_okD [OF I(4) assms(2)]
  have "record_ok (ts_size (sys_set s)) (ts_records (sys_set s) ! claim_record c)"
    using records_okD(1) [OF ts_invD(3) [OF I(1)] C(2)] .
  then have "rec_state (ts_records (sys_set s) ! claim_record c) = Rec_Completed"
    using assms(3) C(1,3)
    by (auto simp: claim_status_def ts_claim_status_def Let_def record_ok_def
        split: record_state.splits if_splits)
  then show ?thesis
    using I(5) C(2,5) assms(4) by (simp add: ts_content_ok_def)
qed

lemma claims_disjoint:
  assumes "sys_inv outstanding valid content self s" "c \<in> set (sys_claims s)" "d \<in> set (sys_claims s)"
    and "claim_record c \<noteq> claim_record d"
  shows "span_addrs (claim_bytes c) \<inter> span_addrs (claim_bytes d) = {}"
proof -
  note I = sys_invD [OF assms(1)]
  note C = claims_okD [OF I(4) assms(2)] and D = claims_okD [OF I(4) assms(3)]
  show ?thesis
    using rec_spans_disjoint [OF I(1) C(2) D(2) assms(4)]
      record_ok_held [OF records_okD(1) [OF ts_invD(3) [OF I(1)]]] C D
    by (simp add: rec_span_def)
qed

lemma writer_exclusive:
  assumes inv: "sys_inv outstanding valid content self s" and c: "c \<in> set (sys_claims s)"
    and r: "r \<in># outstanding (sys_backend s)"
    and other: "token_index (req_token r) \<noteq> claim_record c
      \<or> claim_status c (sys_set s) \<noteq> Some Pending"
  shows "span_addrs (req_destination r) \<inter> span_addrs (claim_bytes c) = {}"
proof -
  note I = sys_invD [OF inv]
  note C = claims_okD [OF I(4) c]
  obtain i where i: "i \<in> submitted_set (sys_set s)" "r = sys_request self s i"
    using ts_requests_okD [OF I(3) r] .
  then have lt: "i < length (ts_records (sys_set s))"
      and st: "rec_state (ts_records (sys_set s) ! i) = Rec_Submitted"
    by (auto simp: submitted_set_def)
  have "i \<noteq> claim_record c"
    using other st C(1) i(2)
    by (auto simp: claim_status_def ts_claim_status_def sys_request_def Let_def)
  then show ?thesis
    using rec_spans_disjoint [OF I(1) lt C(2)] st
      record_ok_held [OF records_okD(1) [OF ts_invD(3) [OF I(1)] C(2)] C(3)] C(5)
    by (simp add: i(2) sys_request_destination rec_span_def)
qed

lemma drop_never_terminates:
  assumes "sys_inv outstanding valid content self s" "c \<in> set (sys_claims s)"
  shows "\<exists>c' ts'. claim_reset c (sys_set s) = Some (c', ts')"
  using claims_okD [OF sys_invD(4) [OF assms(1)] assms(2)]
  by (auto simp: claim_reset_def ts_release_claim_def Let_def)

lemma destroy_iff:
  assumes "sys_inv outstanding valid content self s"
  shows "ts_destroy (sys_set s) = Some () \<longleftrightarrow>
    outstanding (sys_backend s) = {#} \<and> sys_claims s = []"
proof -
  note I = sys_invD [OF assms]
  have "tst_in_flight (ts_counters (sys_set s)) = 0 \<longleftrightarrow> submitted_set (sys_set s) = {}"
    using ts_invD(4) [OF I(1)]
    by (auto simp: counters_ok_def count_where_0_iff submitted_set_def rec_submitted_def
        all_set_conv_all_nth)
  moreover have "ts_held (sys_set s) = 0 \<longleftrightarrow> claim_record ` set (sys_claims s) = {}"
    using ts_invD(4) [OF I(1)] I(4)
    by (auto simp: counters_ok_def count_where_0_iff claims_ok_def all_set_conv_all_nth)
  moreover have "outstanding (sys_backend s) = {#} \<longleftrightarrow> submitted_set (sys_set s) = {}"
    using I(3) by (simp add: ts_requests_ok_def mset_set_empty_iff)
  ultimately show ?thesis
    by (simp add: ts_destroy_def)
qed

end

end
