(* ===== verification/Transfer_Props.thy ===== *)
theory Transfer_Props
  imports Transfer_System
begin

text \<open>
  What the explicit-destination mode promises, for every backend that meets its contract, with
  witnesses that run the transfer set over the fake backend.
\<close>

section \<open>Running a transfer set over the fake backend\<close>

text \<open>The commands of the tests: submit, complete a pending request, drop the claim at a position.\<close>

datatype ts_command =
    Do_Submit byte_range u64
  | Do_Complete nat fake_completion
  | Do_Drop nat

definition ts_exec :: "sink \<Rightarrow> ts_command \<Rightarrow> fake_backend ts_system \<Rightarrow> fake_backend ts_system option" where
  "ts_exec self cmd s =
     (case cmd of
        Do_Submit source off \<Rightarrow>
          (case ts_submit fake_submit self source off (sys_set s) (sys_backend s) of
             (Inr c, ts', b') \<Rightarrow>
               Some (s\<lparr>sys_set := ts', sys_backend := b', sys_claims := c # sys_claims s,
                        sys_offsets := (sys_offsets s)(claim_record c := range_offset source)\<rparr>)
           | (Inl e, ts', b') \<Rightarrow> Some (s\<lparr>sys_set := ts', sys_backend := b'\<rparr>))
      | Do_Complete position how \<Rightarrow>
          map_option (\<lambda>(r, res, b', m').
              s\<lparr>sys_set := ts_on_complete (req_token r) res (sys_set s), sys_backend := b',
                sys_memory := m'\<rparr>)
            (fake_complete position how (sys_backend s) (sys_memory s))
      | Do_Drop k \<Rightarrow>
          (if k < length (sys_claims s)
           then map_option (\<lambda>(c', ts'). s\<lparr>sys_set := ts',
                    sys_claims := remove1 (sys_claims s ! k) (sys_claims s)\<rparr>)
                  (claim_reset (sys_claims s ! k) (sys_set s))
           else None))"

fun ts_run :: "sink \<Rightarrow> ts_command list \<Rightarrow> fake_backend ts_system \<Rightarrow> fake_backend ts_system option" where
  "ts_run self [] s = Some s"
| "ts_run self (cmd # cmds) s =
     (case ts_exec self cmd s of None \<Rightarrow> None | Some t \<Rightarrow> ts_run self cmds t)"

abbreviation fake_ts_step where
  "fake_ts_step \<equiv> ts_step fake_submit fake_outstanding fake_completes"

abbreviation fake_ts_reachable where
  "fake_ts_reachable \<equiv> ts_reachable fake_submit fake_outstanding fake_valid fake_completes"

lemma ts_exec_step: "ts_exec self cmd s = Some t \<Longrightarrow> fake_ts_step self s t"
  by (cases cmd)
    (force simp: ts_exec_def fake_completes_def split: prod.splits sum.splits if_splits
      intro: ts_step.intros)+

lemma ts_run_reachable:
  "fake_ts_reachable self s \<Longrightarrow> ts_run self cmds s = Some t \<Longrightarrow> fake_ts_reachable self t"
proof (induction cmds arbitrary: s)
  case (Cons cmd cmds)
  from Cons.prems(2) obtain u where "ts_exec self cmd s = Some u" "ts_run self cmds u = Some t"
    by (auto split: option.splits)
  with Cons.prems(1) Cons.IH show ?case
    by (blast intro: ts_reachable.step ts_exec_step)
qed simp

definition demo_config :: transfer_set_config where
  "demo_config =
     \<lparr>tc_source = 3, tc_source_bytes = 1000,
      tc_destination = \<lparr>span_data = 4096, span_size = 64\<rparr>, tc_max_claims = 3\<rparr>"

definition demo_start :: "fake_backend ts_system" where
  "demo_start = ts_system_init (ts_construct demo_config) (fake_create 8) (\<lambda>_. 205)"

lemma demo_start_reachable: "fake_ts_reachable self demo_start"
  unfolding demo_start_def
  by (rule ts_reachable.start [where config = demo_config])
    (auto simp: ts_create_def demo_config_def UINT32_MAX_def fake_create_def fake_valid_def
      fake_outstanding_def)

text \<open>Two claims, the newer one completed, the older one in flight.\<close>

definition demo_commands :: "ts_command list" where
  "demo_commands =
     [Do_Submit \<lparr>range_offset = 100, range_length = 4\<rparr> 0,
      Do_Submit \<lparr>range_offset = 200, range_length = 3\<rparr> 8, Do_Complete 1 Full]"

definition demo_state :: "fake_backend ts_system" where
  "demo_state = the (ts_run 7 demo_commands demo_start)"

lemma demo_state_reachable: "fake_ts_reachable 7 demo_state"
proof (rule ts_run_reachable [OF demo_start_reachable])
  have "\<not> Option.is_none (ts_run 7 demo_commands demo_start)"
    by code_simp
  then show "ts_run 7 demo_commands demo_start = Some demo_state"
    by (simp add: demo_state_def Option.is_none_def)
qed

lemma demo_state_claims:
  "map (\<lambda>c. (claim_record c, claim_status c (sys_set demo_state))) (sys_claims demo_state)
     = [(1, Some Ok), (0, Some Pending)]"
  by code_simp

section \<open>Submission\<close>

text \<open>
  The bounds of a submission over the natural numbers, and the reservation it would collide with.
\<close>

definition ts_fits :: "transfer_set \<Rightarrow> byte_range \<Rightarrow> u64 \<Rightarrow> bool" where
  "ts_fits ts source off \<longleftrightarrow>
     unat (range_offset source) + unat (range_length source) \<le> unat (tc_source_bytes (ts_config ts)) \<and>
     unat off + unat (range_length source) \<le> unat (ts_size ts)"

definition ts_clash :: "transfer_set \<Rightarrow> u64 \<Rightarrow> u64 \<Rightarrow> bool" where
  "ts_clash ts off len \<longleftrightarrow>
     (\<exists>i < length (ts_records ts).
        rec_state (ts_records ts ! i) \<noteq> Rec_Free \<and>
        unat off < unat (rec_destination_offset (ts_records ts ! i)) + unat (rec_length (ts_records ts ! i)) \<and>
        unat (rec_destination_offset (ts_records ts ! i)) < unat off + unat len)"

definition ts_full :: "transfer_set \<Rightarrow> bool" where
  "ts_full ts \<longleftrightarrow> (\<forall>i < length (ts_records ts). rec_state (ts_records ts ! i) \<noteq> Rec_Free)"

lemma busy_scan_clash:
  assumes inv: "ts_inv ts" and e: "unat e = unat off + unat len"
  shows "busy_scan (ts_records ts) off e (ts_live ts) \<longleftrightarrow> ts_clash ts off len"
proof -
  have "overlaps off e (ts_records ts ! i) \<longleftrightarrow>
      unat off < unat (rec_destination_offset (ts_records ts ! i)) + unat (rec_length (ts_records ts ! i)) \<and>
      unat (rec_destination_offset (ts_records ts ! i)) < unat off + unat len"
    if "i < length (ts_records ts)" "rec_state (ts_records ts ! i) \<noteq> Rec_Free" for i
    using overlaps_iff [OF record_ok_inside [OF records_okD(1) [OF ts_invD(3) [OF inv] that(1)] that(2)]] e
    by simp
  then show ?thesis
    unfolding busy_scan_all_records [OF inv] ts_clash_def ts_invD(1) [OF inv, symmetric] by auto
qed

lemma partition_empty_iff: "A \<union> B = N \<Longrightarrow> A \<inter> B = {} \<Longrightarrow> A = {} \<longleftrightarrow> N \<subseteq> B"
  by blast

lemma free_empty_full:
  assumes inv: "ts_inv ts"
  shows "ts_free ts = [] \<longleftrightarrow> ts_full ts"
proof -
  have "set (ts_free ts) \<union> set (ts_live ts) = {..<length (ts_records ts)}"
    "set (ts_free ts) \<inter> set (ts_live ts) = {}"
    using ts_invD(1,2) [OF inv] by (simp_all add: live_ok_def)
  then have "set (ts_free ts) = {} \<longleftrightarrow> {..<length (ts_records ts)} \<subseteq> set (ts_live ts)"
    by (rule partition_empty_iff)
  then have "set (ts_free ts) = {} \<longleftrightarrow> (\<forall>i < length (ts_records ts). i \<in> set (ts_live ts))"
    by (simp only: subset_eq Ball_def lessThan_iff)
  moreover have "(\<forall>i < length (ts_records ts). i \<in> set (ts_live ts)) \<longleftrightarrow> ts_full ts"
    unfolding ts_full_def by (intro all_cong1 imp_cong refl ts_inv_live_record [OF inv])
  ultimately show ?thesis
    by (simp only: set_empty)
qed

text \<open>
  C18: \<open>submit\<close> decides exactly as its contract says, checks in order, with all arithmetic over the
  mathematical integers: empty range, source or destination out of range, a reserved byte in the
  requested destination range (held or in flight), no free record, a refusing backend; otherwise a
  claim on exactly the requested destination. Every failure leaves the set unchanged.
\<close>

theorem ts_submit_decides:
  assumes "ts_inv ts"
  shows "ts_submit submit self source off ts b =
    (let r = ts_request ts self (last (ts_free ts)) source off in
     if range_length source = 0 then (Inl Empty_Range, ts, b)
     else if \<not> ts_fits ts source off then (Inl Out_Of_Range, ts, b)
     else if ts_clash ts off (range_length source) then (Inl Busy, ts, b)
     else if ts_full ts then (Inl Ticket_Exhausted, ts, b)
     else if \<not> fst (submit r b) then (Inl Queue_Exhausted, ts, snd (submit r b))
     else (Inr \<lparr>claim_set = True, claim_record = token_index (req_token r),
                claim_generation = token_generation (req_token r),
                claim_bytes = subspan (tc_destination (ts_config ts)) off (range_length source)\<rparr>,
           ts_admit (token_index (req_token r)) source off ts, snd (submit r b)))"
proof -
  let ?i = "last (ts_free ts)"
  have v: "validate_range source (tc_source_bytes (ts_config ts)) = Ok \<longleftrightarrow> range_length source \<noteq> 0 \<and>
      unat (range_offset source) + unat (range_length source) \<le> unat (tc_source_bytes (ts_config ts))"
    by (simp add: validate_range_Ok_unat unat_gt_0)
  consider (empty) "range_length source = 0"
    | (unfit) "range_length source \<noteq> 0" "\<not> ts_fits ts source off"
    | (fit) "range_length source \<noteq> 0" "ts_fits ts source off"
    by blast
  then show ?thesis
  proof cases
    case empty
    then show ?thesis
      by (simp add: ts_submit_def validate_range_def Let_def)
  next
    case unfit
    show ?thesis
    proof (cases "validate_range source (tc_source_bytes (ts_config ts)) = Ok")
      case False
      with unfit(1) have "validate_range source (tc_source_bytes (ts_config ts)) = Out_Of_Range"
        by (simp add: validate_range_unat unat_eq_zero split: if_splits)
      with unfit show ?thesis
        by (simp add: ts_submit_def)
    next
      case True
      with unfit v have out: "\<not> unat off + unat (range_length source) \<le> unat (ts_size ts)"
        by (simp add: ts_fits_def)
      show ?thesis
      proof (cases "checked_end off (range_length source)")
        case None
        with True unfit show ?thesis by (simp add: ts_submit_def)
      next
        case (Some e)
        with out have "span_size (tc_destination (ts_config ts)) < e"
          by (simp add: checked_end_Some_iff word_less_nat_alt ts_size_def)
        with True Some unfit show ?thesis by (simp add: ts_submit_def)
      qed
    qed
  next
    case fit
    then have "unat off + unat (range_length source) < 18446744073709551616"
      using unat_lt_64 [of "ts_size ts"] by (simp add: ts_fits_def)
    then obtain e where e: "checked_end off (range_length source) = Some e"
      using checked_end_None_iff [of off "range_length source"]
      by (cases "checked_end off (range_length source)") auto
    then have e': "unat e = unat off + unat (range_length source)"
      by (simp add: checked_end_Some_iff)
    with fit have "\<not> span_size (tc_destination (ts_config ts)) < e"
      by (simp add: ts_fits_def word_less_nat_alt ts_size_def)
    with fit v e show ?thesis
      using busy_scan_clash [OF assms e'] free_empty_full [OF assms]
      by (simp add: ts_submit_def ts_fits_def ts_request_def Let_def split_beta)
  qed
qed

theorem ts_submit_decides_witness:
  "ts_clash (sys_set demo_state) 10 2 \<and>
   fst (ts_submit fake_submit 7 \<lparr>range_offset = 0, range_length = 2\<rparr> 10 (sys_set demo_state)
          (sys_backend demo_state)) = Inl Busy"
proof -
  have inv: "ts_inv (sys_set demo_state)"
    using fake.reachable_inv [OF demo_state_reachable] by (rule sys_invD)
  have "busy_scan (ts_records (sys_set demo_state)) 10 12 (ts_live (sys_set demo_state))"
    by code_simp
  then have clash: "ts_clash (sys_set demo_state) 10 2"
    using busy_scan_clash [OF inv, of 12 10 2] by simp
  have "tc_source_bytes (ts_config (sys_set demo_state)) = 1000 \<and> ts_size (sys_set demo_state) = 64"
    by code_simp
  then have "ts_fits (sys_set demo_state) \<lparr>range_offset = 0, range_length = 2\<rparr> 10"
    by (simp add: ts_fits_def)
  with clash show ?thesis
    using ts_submit_decides [OF inv, of fake_submit 7 "\<lparr>range_offset = 0, range_length = 2\<rparr>" 10
        "sys_backend demo_state"]
    by (simp add: Let_def)
qed

section \<open>Safety of claims\<close>

text \<open>
  C2: byte exactness. Whatever the interleaving of submissions, partial writes, completions in any
  order, failures, duplicate deliveries and drops, a held claim whose status is ok holds exactly the
  source bytes of the range it was submitted for.
\<close>

theorem claim_bytes_exact:
  assumes "completing_backend submit outstanding valid completes content"
    and "ts_reachable submit outstanding valid completes self s"
    and "c \<in> set (sys_claims s)" and "claim_status c (sys_set s) = Some Ok"
    and "k < unat (span_size (claim_bytes c))"
  shows "sys_memory s (span_data (claim_bytes c) + of_nat k)
    = content (tc_source (ts_config (sys_set s))) (sys_offsets s (claim_record c) + of_nat k)"
  using completing_backend.claim_content [OF assms(1) _ assms(3-5)]
    completing_backend.reachable_inv [OF assms(1,2)] by blast

theorem claim_bytes_exact_witness:
  "sys_memory demo_state (4104 + of_nat 2) = fake_content 3 (200 + of_nat 2)"
proof -
  let ?c = "sys_claims demo_state ! 0"
  have facts: "?c \<in> set (sys_claims demo_state)" "claim_status ?c (sys_set demo_state) = Some Ok"
    "2 < unat (span_size (claim_bytes ?c))" "span_data (claim_bytes ?c) = 4104"
    "claim_record ?c = 1" "sys_offsets demo_state 1 = 200" "tc_source (ts_config (sys_set demo_state)) = 3"
    by code_simp+
  show ?thesis
    using claim_bytes_exact [OF fake.completing_backend_axioms demo_state_reachable facts(1-3)] facts(4-7)
    by simp
qed

text \<open>
  C5: no reuse under a writer. The destination of a request the backend still owns never meets the
  bytes of a claim other than the pending claim it was submitted for; dropping a claim early does
  not free its range.
\<close>

theorem outstanding_writer_exclusive:
  assumes "completing_backend submit outstanding valid completes content"
    and "ts_reachable submit outstanding valid completes self s"
    and "c \<in> set (sys_claims s)" and "r \<in># outstanding (sys_backend s)"
    and "token_index (req_token r) \<noteq> claim_record c \<or> claim_status c (sys_set s) \<noteq> Some Pending"
  shows "span_addrs (req_destination r) \<inter> span_addrs (claim_bytes c) = {}"
  using completing_backend.writer_exclusive [OF assms(1) _ assms(3-5)]
    completing_backend.reachable_inv [OF assms(1,2)] by blast

theorem outstanding_writer_exclusive_witness:
  "span_addrs (req_destination (fb_pending (sys_backend demo_state) ! 0))
     \<inter> span_addrs (claim_bytes (sys_claims demo_state ! 0)) = {}"
proof (rule outstanding_writer_exclusive [OF fake.completing_backend_axioms demo_state_reachable])
  show "sys_claims demo_state ! 0 \<in> set (sys_claims demo_state)"
    by code_simp
  have "fb_pending (sys_backend demo_state) ! 0 \<in> set (fb_pending (sys_backend demo_state))"
    by code_simp
  then show "fb_pending (sys_backend demo_state) ! 0 \<in># fake_outstanding (sys_backend demo_state)"
    by (simp add: fake_outstanding_def)
  have "claim_status (sys_claims demo_state ! 0) (sys_set demo_state) \<noteq> Some Pending"
    by code_simp
  then show "token_index (req_token (fb_pending (sys_backend demo_state) ! 0))
        \<noteq> claim_record (sys_claims demo_state ! 0)
      \<or> claim_status (sys_claims demo_state ! 0) (sys_set demo_state) \<noteq> Some Pending" ..
qed

text \<open>
  C25: dropping a held claim never reaches \<open>std::terminate\<close>, and destroying the set terminates exactly
  when a transfer is in flight or a claim is held.
\<close>

theorem drop_and_destroy_safe:
  assumes "completing_backend submit outstanding valid completes content"
    and "ts_reachable submit outstanding valid completes self s"
  shows "(\<forall>c \<in> set (sys_claims s). claim_reset c (sys_set s) \<noteq> None) \<and>
    (ts_destroy (sys_set s) = Some () \<longleftrightarrow> outstanding (sys_backend s) = {#} \<and> sys_claims s = [])"
  using completing_backend.drop_never_terminates [OF assms(1)] completing_backend.destroy_iff [OF assms(1)]
    completing_backend.reachable_inv [OF assms] by blast

theorem drop_and_destroy_safe_witness:
  "ts_destroy (sys_set demo_state) = None \<and> length (sys_claims demo_state) = 2 \<and>
   claim_reset (sys_claims demo_state ! 1) (sys_set demo_state) \<noteq> None"
proof -
  have "length (sys_claims demo_state) = 2" and mem: "sys_claims demo_state ! 1 \<in> set (sys_claims demo_state)"
    by code_simp+
  with drop_and_destroy_safe [OF fake.completing_backend_axioms demo_state_reachable] show ?thesis
    by (cases "ts_destroy (sys_set demo_state)") auto
qed

section \<open>Bookkeeping\<close>

text \<open>
  The overlap scan visits only the records in use, and answers as the scan over every record
  would: the list, the position table and the free stack stay consistent with the record states.
\<close>

theorem live_scan_equivalent:
  assumes "completing_backend submit outstanding valid completes content"
    and "ts_reachable submit outstanding valid completes self s"
  shows "busy_scan (ts_records (sys_set s)) off e (ts_live (sys_set s)) \<longleftrightarrow>
    (\<exists>i < tc_max_claims (ts_config (sys_set s)).
       rec_state (ts_records (sys_set s) ! i) \<noteq> Rec_Free \<and> overlaps off e (ts_records (sys_set s) ! i))"
  using busy_scan_all_records [OF sys_invD(1) [OF completing_backend.reachable_inv [OF assms]]] .

theorem live_scan_equivalent_witness:
  "\<exists>i < 3. rec_state (ts_records (sys_set demo_state) ! i) \<noteq> Rec_Free \<and>
     overlaps 10 12 (ts_records (sys_set demo_state) ! i)"
proof -
  have "busy_scan (ts_records (sys_set demo_state)) 10 12 (ts_live (sys_set demo_state))"
    and "tc_max_claims (ts_config (sys_set demo_state)) = 3"
    by code_simp+
  then show ?thesis
    using live_scan_equivalent [OF fake.completing_backend_axioms demo_state_reachable, of 10 12] by simp
qed

text \<open>
  The statistics are what they say: transfers in flight are the requests outstanding at the
  backend, records in use and held claims are counted, neither exceeds the registered bound, and
  every submission is completed, failed or in flight.
\<close>

theorem transfer_counters_exact:
  assumes "completing_backend submit outstanding valid completes content"
    and "ts_reachable submit outstanding valid completes self s"
  shows "tst_in_flight (ts_stats (sys_set s)) = size (outstanding (sys_backend s)) \<and>
    ts_held (sys_set s) = length (sys_claims s) \<and>
    tst_records_in_use (ts_stats (sys_set s))
      = card {i. i < length (ts_records (sys_set s)) \<and> rec_state (ts_records (sys_set s) ! i) \<noteq> Rec_Free} \<and>
    tst_records_in_use (ts_stats (sys_set s)) \<le> tc_max_claims (ts_config (sys_set s)) \<and>
    tst_submitted (ts_stats (sys_set s)) = tst_completed (ts_stats (sys_set s))
      + tst_failed (ts_stats (sys_set s)) + tst_in_flight (ts_stats (sys_set s))"
proof -
  let ?ts = "sys_set s"
  note inv = completing_backend.reachable_inv [OF assms]
  note I = sys_invD [OF inv] and cnt = ts_invD(4) [OF sys_invD(1) [OF inv]]
  have count: "count_where P (ts_records ?ts) = card {i. i < length (ts_records ?ts) \<and> P (ts_records ?ts ! i)}" for P
    by (simp add: count_where_def length_filter_conv_card)
  have "tst_in_flight (ts_counters ?ts) = size (outstanding (sys_backend s))"
    using cnt I(3) by (simp add: counters_ok_def count ts_requests_ok_def submitted_set_def rec_submitted_def)
  moreover have "ts_held ?ts = length (sys_claims s)"
    using cnt I(4) distinct_card [of "map claim_record (sys_claims s)"]
    by (simp add: counters_ok_def count claims_ok_def)
  moreover have live: "set (ts_live ?ts) = {i. i < length (ts_records ?ts) \<and> rec_state (ts_records ?ts ! i) \<noteq> Rec_Free}"
    using ts_invD(1) [OF I(1)] live_ok_bound [OF ts_invD(2) [OF I(1)]] ts_inv_live_record [OF I(1)] by auto
  moreover have "distinct (ts_live ?ts)"
    using ts_invD(2) [OF I(1)] by (simp add: live_ok_def)
  moreover have "card (set (ts_live ?ts)) \<le> card {..<tc_max_claims (ts_config ?ts)}"
    using live_ok_bound [OF ts_invD(2) [OF I(1)]] by (intro card_mono) auto
  ultimately show ?thesis
    using cnt by (simp add: counters_ok_def ts_stats_def distinct_card [symmetric])
qed

theorem transfer_counters_exact_witness:
  "tst_in_flight (ts_stats (sys_set demo_state)) = 1 \<and>
   size (fake_outstanding (sys_backend demo_state)) = 1"
proof -
  have "tst_in_flight (ts_stats (sys_set demo_state)) = 1"
    by code_simp
  with transfer_counters_exact [OF fake.completing_backend_axioms demo_state_reachable] show ?thesis
    by simp
qed

text \<open>
  A second delivery of a token changes nothing but the count of stale completions, whatever the
  two results are.
\<close>

theorem duplicate_delivery_ignored:
  "ts_on_complete token res2 (ts_on_complete token res1 ts) =
     (let ts1 = ts_on_complete token res1 ts
      in ts1\<lparr>ts_counters := (ts_counters ts1)
              \<lparr>tst_stale_completions := tst_stale_completions (ts_counters ts1) + 1\<rparr>\<rparr>)"
proof -
  have "ts_stale (ts_on_complete token res1 ts) token"
  proof (cases "ts_stale ts token")
    case True
    then show ?thesis
      by (simp add: ts_on_complete_stale ts_stale_def)
  next
    case False
    then have "token_index token < length (ts_records ts)"
      by (simp add: ts_stale_def)
    with False show ?thesis
      by (simp add: ts_stale_def [of "ts_on_complete token res1 ts"] ts_on_complete_records settle_def Let_def)
  qed
  then show ?thesis
    by (simp add: ts_on_complete_stale Let_def)
qed

text \<open>
  A record that is reused has a new generation, so a late delivery for its previous transfer is
  stale.
\<close>

theorem reuse_rejects_old_token:
  assumes "ts_inv ts" and "ts_submit submit self source off ts b = (Inr c, ts', b')"
  shows "ts_stale ts' \<lparr>token_index = claim_record c,
    token_generation = rec_generation (ts_records ts ! claim_record c)\<rparr>"
  using assms by (auto elim!: ts_submit_InrE simp: ts_stale_def)

theorem reuse_rejects_old_token_witness:
  "ts_stale (fst (snd (ts_submit fake_submit 7 \<lparr>range_offset = 0, range_length = 2\<rparr> 20 (sys_set demo_state)
       (sys_backend demo_state)))) \<lparr>token_index = 2, token_generation = 0\<rparr>"
proof -
  let ?x = "ts_submit fake_submit 7 \<lparr>range_offset = 0, range_length = 2\<rparr> 20 (sys_set demo_state)
       (sys_backend demo_state)"
  have inv: "ts_inv (sys_set demo_state)"
    using fake.reachable_inv [OF demo_state_reachable] by (rule sys_invD)
  have "case fst ?x of Inl e \<Rightarrow> False | Inr c \<Rightarrow> claim_record c = 2"
    and gen: "rec_generation (ts_records (sys_set demo_state) ! 2) = 0"
    by code_simp+
  then obtain c where c: "fst ?x = Inr c" "claim_record c = 2"
    by (auto split: sum.splits)
  then have "?x = (Inr c, fst (snd ?x), snd (snd ?x))"
    by (metis prod.collapse)
  from reuse_rejects_old_token [OF inv this] show ?thesis
    by (simp only: c(2) gen)
qed

section \<open>Draining\<close>

lemma fake_complete_all_reachable:
  assumes "fake_complete_all ts_on_complete b m ts = (b', m', ts')"
    and "fake_ts_reachable self (s\<lparr>sys_set := ts, sys_backend := b, sys_memory := m\<rparr>)"
  shows "fake_ts_reachable self (s\<lparr>sys_set := ts', sys_backend := b', sys_memory := m'\<rparr>)"
  using assms
proof (induction "ts_on_complete" b m ts rule: fake_complete_all.induct)
  case (1 b m ts)
  show ?case
  proof (cases "fake_complete_newest Full b m")
    case None
    with "1.prems" show ?thesis
      by (simp add: fake_complete_all.simps [of ts_on_complete b])
  next
    case (Some x)
    obtain r res b2 m2 where x: "x = (r, res, b2, m2)"
      by (cases x)
    let ?t = "s\<lparr>sys_set := ts_on_complete (req_token r) res ts, sys_backend := b2, sys_memory := m2\<rparr>"
    have all: "fake_complete_all ts_on_complete b2 m2 (ts_on_complete (req_token r) res ts) = (b', m', ts')"
      using "1.prems"(1) Some x by (simp add: fake_complete_all.simps [of ts_on_complete b])
    have "fake_completes b r res m b2 m2"
      using Some x by (auto simp: fake_completes_def fake_complete_newest_def Let_def split: if_splits)
    then have "fake_ts_step self (s\<lparr>sys_set := ts, sys_backend := b, sys_memory := m\<rparr>) ?t"
      using ts_step.delivered [of fake_completes "s\<lparr>sys_set := ts, sys_backend := b, sys_memory := m\<rparr>"]
      by simp
    with "1.prems"(2) have "fake_ts_reachable self ?t"
      by (rule ts_reachable.step)
    with "1.hyps" Some x all show ?thesis
      by blast
  qed
qed

text \<open>
  Once the backend has delivered what it owns, no call waits any longer: \<open>drain\<close> returns ok, and
  every held claim has a final status that is not pending.
\<close>

theorem drained_set_never_blocks:
  assumes "fake_ts_reachable self s"
    and "fake_complete_all ts_on_complete (sys_backend s) (sys_memory s) (sys_set s) = (b', m', ts')"
  shows "ts_drain expired ts' = Some Ok \<and>
    (\<forall>c \<in> set (sys_claims s). \<exists>st. claim_wait c expired ts' = Some st \<and> claim_status c ts' = Some st)"
proof -
  let ?t = "s\<lparr>sys_set := ts', sys_backend := b', sys_memory := m'\<rparr>"
  have "s\<lparr>sys_set := sys_set s, sys_backend := sys_backend s, sys_memory := sys_memory s\<rparr> = s"
    by (cases s) simp
  with assms(1) have "fake_ts_reachable self ?t"
    by (intro fake_complete_all_reachable [OF assms(2)]) (simp only:)
  note inv = fake.reachable_inv [OF this]
  have "submitted_set ts' = {}"
    using sys_invD(3) [OF inv] fake_complete_all_drains [OF assms(2)]
    by (simp add: ts_requests_ok_def fake_outstanding_def mset_set_empty_iff)
  then have idle: "rec_state (ts_records ts' ! i) \<noteq> Rec_Submitted" if "i < length (ts_records ts')" for i
    using that by (auto simp: submitted_set_def)
  have "tst_in_flight (ts_counters ts') = 0"
    using ts_invD(4) [OF sys_invD(1) [OF inv]] idle
    by (simp add: counters_ok_def count_where_0_iff all_set_conv_all_nth rec_submitted_def)
  moreover have "\<exists>st. claim_wait c expired ts' = Some st \<and> claim_status c ts' = Some st"
    if "c \<in> set (sys_claims s)" for c
  proof -
    have "c \<in> set (sys_claims ?t)"
      using that by simp
    note C = claims_okD [OF sys_invD(4) [OF inv] this]
    then show ?thesis
      using idle [of "claim_record c"]
      by (simp add: claim_wait_def claim_status_def ts_claim_status_def Let_def)
  qed
  ultimately show ?thesis
    by (simp add: ts_drain_def)
qed

theorem drained_set_never_blocks_witness:
  "ts_drain False (snd (snd (fake_complete_all ts_on_complete (sys_backend demo_state)
      (sys_memory demo_state) (sys_set demo_state)))) = Some Ok \<and> ts_drain False (sys_set demo_state) = None"
proof -
  have "ts_drain False (sys_set demo_state) = None"
    by code_simp
  moreover obtain b' m' ts' where all: "fake_complete_all ts_on_complete (sys_backend demo_state)
      (sys_memory demo_state) (sys_set demo_state) = (b', m', ts')"
    by (cases "fake_complete_all ts_on_complete (sys_backend demo_state)
      (sys_memory demo_state) (sys_set demo_state)")
  ultimately show ?thesis
    using drained_set_never_blocks [OF demo_state_reachable all, of False] by (simp only: all snd_conv)
qed

end
