(* ===== verification/Chunk_Index.thy ===== *)
theory Chunk_Index
  imports Mem_Prelude
begin

text \<open>
  The chunk index of the slot pool (\<open>include/sub0mempage/slot_pool.hpp\<close>, \<open>index_find\<close>,
  \<open>index_insert\<close>, \<open>index_erase\<close>, \<open>index_home\<close>): an open-addressed table of slot numbers with linear
  probing, a multiplicative hash, and deletion by backward shift. The table holds slot numbers only;
  the key of an entry is the \<open>chunk\<close> field of its slot, here the function \<open>key\<close>.

  The loops of the code have no bound of their own. Each is given as many rounds as the table has
  cells, and returns \<open>None\<close> when they are used up; the theorems show that a table with an empty cell
  never uses them up. Positions are \<open>size_t\<close>, so their subtraction wraps as in the code.
\<close>

section \<open>Definitions\<close>

definition NONE :: nat where
  "NONE = UINT32_MAX"

text \<open>\<open>std::bit_ceil\<close> and \<open>std::countr_zero\<close>.\<close>

function bit_ceil_from :: "nat \<Rightarrow> nat \<Rightarrow> nat" where
  "bit_ceil_from p n = (if n \<le> p \<or> p = 0 then p else bit_ceil_from (2 * p) n)"
  by pat_completeness auto
termination
  by (relation "measure (\<lambda>(p, n). n - p)") auto

definition bit_ceil :: "nat \<Rightarrow> nat" where
  "bit_ceil n = bit_ceil_from 1 n"

fun countr_zero :: "nat \<Rightarrow> nat" where
  "countr_zero n = (if n = 0 then 64 else if odd n then 0 else Suc (countr_zero (n div 2)))"

declare bit_ceil_from.simps [simp del] countr_zero.simps [simp del]

definition index_home :: "nat \<Rightarrow> u64 \<Rightarrow> u64" where
  "index_home shift chunk = drop_bit shift (chunk * 0x9E3779B97F4A7C15)"

definition index_mask :: "nat list \<Rightarrow> u64" where
  "index_mask ix = of_nat (length ix - 1)"

fun find_loop :: "nat \<Rightarrow> nat list \<Rightarrow> (nat \<Rightarrow> u64) \<Rightarrow> u64 \<Rightarrow> u64 \<Rightarrow> nat option" where
  "find_loop 0 ix key chunk pos = None"
| "find_loop (Suc fuel) ix key chunk pos =
     (let slot = ix ! unat pos in
      if slot = NONE \<or> key slot = chunk then Some slot
      else find_loop fuel ix key chunk ((pos + 1) AND index_mask ix))"

definition index_find :: "nat list \<Rightarrow> (nat \<Rightarrow> u64) \<Rightarrow> nat \<Rightarrow> u64 \<Rightarrow> nat option" where
  "index_find ix key shift chunk = find_loop (length ix) ix key chunk (index_home shift chunk)"

fun insert_loop :: "nat \<Rightarrow> nat list \<Rightarrow> u64 \<Rightarrow> u64 option" where
  "insert_loop 0 ix pos = None"
| "insert_loop (Suc fuel) ix pos =
     (if ix ! unat pos \<noteq> NONE then insert_loop fuel ix ((pos + 1) AND index_mask ix) else Some pos)"

definition index_insert :: "nat list \<Rightarrow> nat \<Rightarrow> u64 \<Rightarrow> nat \<Rightarrow> nat list option" where
  "index_insert ix shift chunk slot =
     map_option (\<lambda>pos. ix[unat pos := slot]) (insert_loop (length ix) ix (index_home shift chunk))"

fun hole_loop :: "nat \<Rightarrow> nat list \<Rightarrow> (nat \<Rightarrow> u64) \<Rightarrow> u64 \<Rightarrow> u64 \<Rightarrow> u64 option" where
  "hole_loop 0 ix key chunk hole = None"
| "hole_loop (Suc fuel) ix key chunk hole =
     (if key (ix ! unat hole) \<noteq> chunk then hole_loop fuel ix key chunk ((hole + 1) AND index_mask ix)
      else Some hole)"

fun shift_loop ::
    "nat \<Rightarrow> nat list \<Rightarrow> (nat \<Rightarrow> u64) \<Rightarrow> nat \<Rightarrow> u64 \<Rightarrow> u64 \<Rightarrow> nat list option" where
  "shift_loop 0 ix key shift hole pos = None"
| "shift_loop (Suc fuel) ix key shift hole pos =
     (if ix ! unat pos = NONE then Some (ix[unat hole := NONE])
      else let home = index_home shift (key (ix ! unat pos)) in
           if ((pos - home) AND index_mask ix) \<ge> ((pos - hole) AND index_mask ix)
           then shift_loop fuel (ix[unat hole := ix ! unat pos]) key shift pos
                  ((pos + 1) AND index_mask ix)
           else shift_loop fuel ix key shift hole ((pos + 1) AND index_mask ix))"

definition index_erase :: "nat list \<Rightarrow> (nat \<Rightarrow> u64) \<Rightarrow> nat \<Rightarrow> u64 \<Rightarrow> nat list option" where
  "index_erase ix key shift chunk =
     Option.bind (hole_loop (length ix) ix key chunk (index_home shift chunk))
       (\<lambda>hole. shift_loop (length ix) ix key shift hole ((hole + 1) AND index_mask ix))"

section \<open>Cyclic positions\<close>

text \<open>
  Positions of a table of \<open>n\<close> cells: \<open>cwrap\<close> is the position after at most one turn, \<open>cdist a p\<close>
  the number of steps from \<open>a\<close> forward to \<open>p\<close>.
\<close>

definition cwrap :: "nat \<Rightarrow> nat \<Rightarrow> nat" where
  "cwrap n x = (if x < n then x else x - n)"

definition cdist :: "nat \<Rightarrow> nat \<Rightarrow> nat \<Rightarrow> nat" where
  "cdist n a p = (if a \<le> p then p - a else p + n - a)"

lemma cwrap_less: "x < 2 * n \<Longrightarrow> cwrap n x < n"
  by (auto simp: cwrap_def)

lemma cdist_less: "p < n \<Longrightarrow> a < n \<Longrightarrow> cdist n a p < n"
  by (auto simp: cdist_def)

lemma cdist_cwrap: "a < n \<Longrightarrow> j < n \<Longrightarrow> cdist n a (cwrap n (a + j)) = j"
  by (auto simp: cdist_def cwrap_def)

lemma cwrap_cdist: "a < n \<Longrightarrow> p < n \<Longrightarrow> cwrap n (a + cdist n a p) = p"
  by (auto simp: cdist_def cwrap_def)

lemma cdist_self [simp]: "cdist n a a = 0"
  by (simp add: cdist_def)

lemma cdist_0_iff: "a < n \<Longrightarrow> p < n \<Longrightarrow> cdist n a p = 0 \<longleftrightarrow> a = p"
  by (auto simp: cdist_def)

lemma cdist_inj: "a < n \<Longrightarrow> p < n \<Longrightarrow> q < n \<Longrightarrow> cdist n a p = cdist n a q \<longleftrightarrow> p = q"
  by (auto simp: cdist_def)

text \<open>Going on from a position on the way, and the way back to an earlier start.\<close>

lemma cdist_step:
  "a < n \<Longrightarrow> p < n \<Longrightarrow> j \<le> cdist n a p \<Longrightarrow> cdist n (cwrap n (a + j)) p = cdist n a p - j"
  by (auto simp: cdist_def cwrap_def split: if_splits)

lemma cdist_between:
  "a < n \<Longrightarrow> b < n \<Longrightarrow> p < n \<Longrightarrow> cdist n b p \<le> cdist n a p \<Longrightarrow>
     cdist n a b = cdist n a p - cdist n b p"
  by (auto simp: cdist_def split: if_splits)

lemma cwrap_cwrap:
  "a < n \<Longrightarrow> i + j < n \<Longrightarrow> cwrap n (cwrap n (a + i) + j) = cwrap n (a + (i + j))"
  by (auto simp: cwrap_def)

lemma cdist_next: "a < n \<Longrightarrow> p < n \<Longrightarrow> Suc (cdist n a p) < n \<Longrightarrow>
    cdist n a (cwrap n (p + 1)) = Suc (cdist n a p)"
  by (auto simp: cdist_def cwrap_def split: if_splits)

lemma cdist_1: "1 < n \<Longrightarrow> p < n \<Longrightarrow> cdist n p (cwrap n (p + 1)) = 1"
  by (auto simp: cdist_def cwrap_def)

subsection \<open>The masked word arithmetic\<close>

text \<open>The size of the table is a power of two and the hash keeps its logarithm of high bits.\<close>

definition table_ok :: "nat list \<Rightarrow> nat \<Rightarrow> bool" where
  "table_ok ix shift \<longleftrightarrow> (\<exists>k. 0 < k \<and> k < 64 \<and> length ix = 2 ^ k \<and> shift = 64 - k)"

lemma unat_and_mask: "unat (x AND mask k :: u64) = unat x mod 2 ^ k"
proof -
  have "unat (x AND mask k :: u64) = take_bit k (unat x)"
    by (simp only: take_bit_eq_mask [symmetric] unsigned_take_bit_eq)
  then show ?thesis
    by (simp only: take_bit_eq_mod)
qed

lemma index_mask_eq: "length ix = 2 ^ k \<Longrightarrow> index_mask ix = mask k"
  by (simp add: index_mask_def mask_eq_exp_minus_1 of_nat_diff)

lemma unat_drop_bit: "unat (drop_bit k (x :: u64)) = unat x div 2 ^ k"
proof -
  have "unat (drop_bit k x) = drop_bit k (take_bit LENGTH(64) (unat x))"
    by (simp only: unsigned_drop_bit_eq)
  also have "take_bit LENGTH(64) (unat x) = unat x"
    using unat_lt_pow_64 by (rule take_bit_nat_eq_self)
  finally show ?thesis
    by (simp only: drop_bit_eq_div)
qed

lemma pow_lt_64: "k < 64 \<Longrightarrow> 2 * 2 ^ k \<le> (18446744073709551616 :: nat)"
proof -
  assume "k < 64"
  then have "(2 :: nat) ^ Suc k \<le> 2 ^ 64"
    by (intro power_increasing) auto
  then show ?thesis by simp
qed

lemma unat_plus_mod:
  assumes "k < 64" "unat (n :: u64) = 2 ^ k"
  shows "unat (x + n) mod 2 ^ k = unat x mod 2 ^ k"
proof -
  have "(2 :: nat) ^ k dvd 2 ^ 64"
    using assms(1) by (intro le_imp_power_dvd) simp
  then have d: "(2 :: nat) ^ k dvd 18446744073709551616"
    by simp
  have "unat (x + n) = (unat x + 2 ^ k) mod 18446744073709551616"
    using assms(2) by (simp add: unat_word_ariths)
  then show ?thesis
    using d by (simp only: mod_mod_cancel mod_add_self2)
qed

lemma next_pos:
  assumes ok: "table_ok ix shift" and p: "unat pos < length ix"
  shows "unat ((pos + 1) AND index_mask ix) = cwrap (length ix) (unat pos + 1)"
proof -
  obtain k where k: "0 < k" "k < 64" "length ix = 2 ^ k"
    using ok by (auto simp: table_ok_def)
  have "unat (pos + 1) = unat pos + 1"
    using p k pow_lt_64 [OF k(2)] by (subst unat_plus_64) auto
  then have "unat ((pos + 1) AND index_mask ix) = (unat pos + 1) mod length ix"
    unfolding index_mask_eq [OF k(3)] unat_and_mask by (simp add: k(3))
  also have "\<dots> = cwrap (length ix) (unat pos + 1)"
    using p by (auto simp: cwrap_def mod_if)
  finally show ?thesis .
qed

lemma mod_cdist:
  assumes "a < n" "b < n"
  shows "(a + n - b) mod n = cdist n b a"
proof (cases "b \<le> a")
  case True
  then have eq: "a + n - b = (a - b) + n"
    by simp
  show ?thesis
    unfolding eq mod_add_self2 using True assms by (simp add: cdist_def)
next
  case False
  then show ?thesis
    using assms by (simp add: cdist_def)
qed

lemma masked_distance:
  assumes ok: "table_ok ix shift" and ab: "unat a < length ix" "unat b < length ix"
  shows "unat ((a - b) AND index_mask ix) = cdist (length ix) (unat b) (unat a)"
proof -
  obtain k where k: "0 < k" "k < 64" "length ix = 2 ^ k"
    using ok by (auto simp: table_ok_def)
  let ?n = "of_nat (length ix) :: u64"
  have n: "unat ?n = length ix"
    using pow_lt_64 [OF k(2)] k(3) by (intro unat_of_nat_64) simp
  have plus: "unat (a + ?n) = unat a + length ix"
    using ab k pow_lt_64 [OF k(2)] n by (subst unat_plus_64) auto
  have swap: "a - b + ?n = a + ?n - b"
    by (rule diff_add_eq)
  have sum: "unat (a - b + ?n) = unat a + length ix - unat b"
    unfolding swap plus [symmetric]
    by (rule unat_minus_64) (use ab plus in \<open>simp add: word_le_nat_alt\<close>)
  have m: "unat (a - b + ?n) mod length ix = unat (a - b) mod length ix"
    unfolding k(3) by (rule unat_plus_mod) (use k(2) n k(3) in simp_all)
  have "unat ((a - b) AND index_mask ix) = unat (a - b) mod length ix"
    unfolding index_mask_eq [OF k(3)] unat_and_mask by (simp add: k(3))
  also have "\<dots> = (unat a + length ix - unat b) mod length ix"
    by (simp only: m [symmetric] sum)
  also have "\<dots> = cdist (length ix) (unat b) (unat a)"
    using ab by (rule mod_cdist)
  finally show ?thesis .
qed

lemma home_less:
  assumes "table_ok ix shift"
  shows "unat (index_home shift c) < length ix"
proof -
  obtain k where k: "0 < k" "k < 64" "length ix = 2 ^ k" "shift = 64 - k"
    using assms by (auto simp: table_ok_def)
  let ?x = "unat (c * 0x9E3779B97F4A7C15 :: u64)"
  have "unat (index_home shift c) = ?x div 2 ^ (64 - k)"
    by (simp only: index_home_def k(4) unat_drop_bit)
  moreover have "?x < 2 ^ k * 2 ^ (64 - k)"
    using unat_lt_64 [of "c * 0x9E3779B97F4A7C15"] k(2)
    by (simp add: power_add [symmetric])
  ultimately show ?thesis
    using k by (simp add: less_mult_imp_div_less)
qed

end
