(* ===== verification/Chunk_Index_Inv.thy ===== *)
theory Chunk_Index_Inv
  imports Chunk_Index
begin

text \<open>
  Correctness of the chunk index of \<open>Chunk_Index\<close>: the probing invariant \<open>index_ok\<close>, its preservation
  by insertion and by backward-shift deletion, the termination of every probing loop, and the
  interface \<open>chunk_map\<close> through which the slot pool uses the table.
\<close>

section \<open>The invariant of the table\<close>

definition entries :: "nat list \<Rightarrow> nat set" where
  "entries ix = set ix - {NONE}"

definition home_of :: "(nat \<Rightarrow> u64) \<Rightarrow> nat \<Rightarrow> nat \<Rightarrow> nat" where
  "home_of key shift slot = unat (index_home shift (key slot))"

definition keys_inj :: "nat list \<Rightarrow> (nat \<Rightarrow> u64) \<Rightarrow> bool" where
  "keys_inj ix key \<longleftrightarrow>
     (\<forall>p < length ix. \<forall>q < length ix.
        ix ! p \<noteq> NONE \<longrightarrow> ix ! q \<noteq> NONE \<longrightarrow> key (ix ! p) = key (ix ! q) \<longrightarrow> p = q)"

text \<open>
  No entry is hidden behind an empty cell: every cell from the home of an entry up to the entry
  itself is occupied. \<open>probe_upto\<close> is the weaker form that holds inside the deletion loop: the cell
  \<open>hole\<close> may be empty on the way to an entry that lies at least \<open>d\<close> cells behind it.
\<close>

definition probe_upto ::
    "nat \<Rightarrow> nat \<Rightarrow> nat list \<Rightarrow> (nat \<Rightarrow> u64) \<Rightarrow> nat \<Rightarrow> bool" where
  "probe_upto hole d ix key shift \<longleftrightarrow>
     (\<forall>p < length ix. ix ! p \<noteq> NONE \<longrightarrow>
        (\<forall>j < cdist (length ix) (home_of key shift (ix ! p)) p.
           ix ! cwrap (length ix) (home_of key shift (ix ! p) + j) \<noteq> NONE \<or>
           cwrap (length ix) (home_of key shift (ix ! p) + j) = hole \<and> d \<le> cdist (length ix) hole p))"

definition probe_ok :: "nat list \<Rightarrow> (nat \<Rightarrow> u64) \<Rightarrow> nat \<Rightarrow> bool" where
  "probe_ok ix key shift \<longleftrightarrow>
     (\<forall>p < length ix. ix ! p \<noteq> NONE \<longrightarrow>
        (\<forall>j < cdist (length ix) (home_of key shift (ix ! p)) p.
           ix ! cwrap (length ix) (home_of key shift (ix ! p) + j) \<noteq> NONE))"

definition index_ok :: "nat list \<Rightarrow> (nat \<Rightarrow> u64) \<Rightarrow> nat \<Rightarrow> bool" where
  "index_ok ix key shift \<longleftrightarrow>
     table_ok ix shift \<and> keys_inj ix key \<and> probe_ok ix key shift \<and> NONE \<in> set ix"

lemma keys_injD:
  "keys_inj ix key \<Longrightarrow> p < length ix \<Longrightarrow> q < length ix \<Longrightarrow> ix ! p \<noteq> NONE \<Longrightarrow> ix ! q \<noteq> NONE \<Longrightarrow>
     key (ix ! p) = key (ix ! q) \<Longrightarrow> p = q"
  by (auto simp: keys_inj_def)

lemma probe_okD:
  "probe_ok ix key shift \<Longrightarrow> p < length ix \<Longrightarrow> ix ! p \<noteq> NONE \<Longrightarrow>
     j < cdist (length ix) (home_of key shift (ix ! p)) p \<Longrightarrow>
     ix ! cwrap (length ix) (home_of key shift (ix ! p) + j) \<noteq> NONE"
  by (auto simp: probe_ok_def)

lemma home_of_less: "table_ok ix shift \<Longrightarrow> home_of key shift s < length ix"
  by (simp add: home_of_def home_less)

lemma table_ok_update [simp]: "table_ok (ix[p := s]) shift = table_ok ix shift"
  by (simp add: table_ok_def)

lemma table_ok_bound:
  assumes "table_ok ix shift"
  shows "1 < length ix" "2 * length ix \<le> 18446744073709551616"
proof -
  obtain k where k: "0 < k" "k < 64" "length ix = 2 ^ k"
    using assms by (auto simp: table_ok_def)
  show "2 * length ix \<le> 18446744073709551616"
    using pow_lt_64 [OF k(2)] k(3) by simp
  show "1 < length ix"
    unfolding k(3) using k(1) by (intro one_less_power) simp_all
qed

lemma entries_nth: "s \<in> entries ix \<longleftrightarrow> s \<noteq> NONE \<and> (\<exists>p < length ix. ix ! p = s)"
  by (auto simp: entries_def in_set_conv_nth)

lemma index_ok_cong:
  assumes "\<And>s. s \<in> entries ix \<Longrightarrow> key s = key' s"
  shows "index_ok ix key shift = index_ok ix key' shift"
proof -
  have eq: "key (ix ! p) = key' (ix ! p)" if "p < length ix" "ix ! p \<noteq> NONE" for p
    using assms that by (auto simp: entries_nth)
  then show ?thesis
    unfolding index_ok_def keys_inj_def probe_ok_def home_of_def by (auto simp: eq)
qed

section \<open>The probing loops as one scan\<close>

text \<open>The cell at which a loop stops that goes on while \<open>stop\<close> does not hold.\<close>

fun scan :: "nat \<Rightarrow> nat list \<Rightarrow> (nat \<Rightarrow> bool) \<Rightarrow> u64 \<Rightarrow> u64 option" where
  "scan 0 ix stop pos = None"
| "scan (Suc fuel) ix stop pos =
     (if stop (ix ! unat pos) then Some pos else scan fuel ix stop ((pos + 1) AND index_mask ix))"

lemma find_loop_scan:
  "find_loop fuel ix key c pos =
     map_option (\<lambda>p. ix ! unat p) (scan fuel ix (\<lambda>s. s = NONE \<or> key s = c) pos)"
  by (induction fuel arbitrary: pos) (simp_all add: Let_def)

lemma insert_loop_scan: "insert_loop fuel ix pos = scan fuel ix (\<lambda>s. s = NONE) pos"
  by (induction fuel arbitrary: pos) simp_all

lemma hole_loop_scan: "hole_loop fuel ix key c pos = scan fuel ix (\<lambda>s. key s = c) pos"
  by (induction fuel arbitrary: pos) simp_all

lemma scan_steps:
  assumes ok: "table_ok ix shift"
  shows "unat pos < length ix \<Longrightarrow> D < length ix \<Longrightarrow> D < fuel \<Longrightarrow>
    stop (ix ! cwrap (length ix) (unat pos + D)) \<Longrightarrow>
    (\<And>i. i < D \<Longrightarrow> \<not> stop (ix ! cwrap (length ix) (unat pos + i))) \<Longrightarrow>
    scan fuel ix stop pos = Some (of_nat (cwrap (length ix) (unat pos + D)))"
proof (induction D arbitrary: pos fuel)
  case 0
  then show ?case
    by (cases fuel) (auto simp: cwrap_def)
next
  case (Suc D)
  let ?n = "length ix" and ?pos = "(pos + 1) AND index_mask ix"
  obtain f where fuel: "fuel = Suc f" "D < f"
    using Suc.prems(3) by (cases fuel) auto
  have next_eq: "unat ?pos = cwrap ?n (unat pos + 1)"
    using ok Suc.prems(1) by (rule next_pos)
  have shift: "cwrap ?n (unat ?pos + i) = cwrap ?n (unat pos + Suc i)" if "i \<le> D" for i
    unfolding next_eq using cwrap_cwrap [of "unat pos" ?n 1 i] Suc.prems(1,2) that by simp
  have lt: "unat ?pos < ?n"
    unfolding next_eq using Suc.prems(1) by (intro cwrap_less) simp
  have nostop: "\<not> stop (ix ! unat pos)"
    using Suc.prems(5) [of 0] Suc.prems(1) by (simp add: cwrap_def)
  have "scan f ix stop ?pos = Some (of_nat (cwrap ?n (unat ?pos + D)))"
  proof (rule Suc.IH)
    show "\<not> stop (ix ! cwrap ?n (unat ?pos + i))" if "i < D" for i
      using Suc.prems(5) [of "Suc i"] shift [of i] that by simp
  qed (use Suc.prems lt fuel shift [of D] in simp_all)
  then show ?case
    using nostop fuel shift [of D] by simp
qed

lemma scan_finds:
  assumes ok: "table_ok ix shift" and "a < length ix" "q < length ix" "unat pos = a"
    and "stop (ix ! q)"
    and "\<And>i. i < cdist (length ix) a q \<Longrightarrow> \<not> stop (ix ! cwrap (length ix) (a + i))"
  shows "scan (length ix) ix stop pos = Some (of_nat q)"
  using scan_steps [OF ok, of pos "cdist (length ix) a q" "length ix" stop] assms
  by (simp add: cdist_less cwrap_cdist)

lemma scan_least:
  assumes ok: "table_ok ix shift" and lt: "unat pos < length ix"
    and ex: "q < length ix" "stop (ix ! q)"
  obtains r where "r < length ix" "stop (ix ! r)"
    "\<And>i. i < cdist (length ix) (unat pos) r \<Longrightarrow> \<not> stop (ix ! cwrap (length ix) (unat pos + i))"
    "scan (length ix) ix stop pos = Some (of_nat r)"
proof -
  let ?n = "length ix"
  let ?P = "\<lambda>i. i < ?n \<and> stop (ix ! cwrap ?n (unat pos + i))"
  let ?D = "LEAST i. ?P i"
  have "?P (cdist ?n (unat pos) q)"
    using lt ex by (simp add: cdist_less cwrap_cdist)
  then have D: "?P ?D"
    by (rule LeastI)
  have before: "\<not> stop (ix ! cwrap ?n (unat pos + i))" if "i < ?D" for i
    using not_less_Least [OF that] that D by auto
  have dist: "cdist ?n (unat pos) (cwrap ?n (unat pos + ?D)) = ?D"
    using D lt by (simp add: cdist_cwrap)
  show thesis
  proof (rule that [of "cwrap ?n (unat pos + ?D)"])
    show "cwrap ?n (unat pos + ?D) < ?n"
      using D lt by (intro cwrap_less) simp
    show "scan ?n ix stop pos = Some (of_nat (cwrap ?n (unat pos + ?D)))"
      using D before by (intro scan_steps [OF ok lt]) auto
  qed (use D before dist in auto)
qed

lemma of_nat_pos:
  "table_ok ix shift \<Longrightarrow> q < length ix \<Longrightarrow> unat (of_nat q :: u64) = q"
  using table_ok_bound(2) [of ix shift] by (intro unat_of_nat_64) simp

text \<open>On the way from the home of an entry to the entry there is neither an empty cell nor its key.\<close>

lemma path_to_entry:
  assumes ok: "index_ok ix key shift" and p: "p < length ix" "ix ! p \<noteq> NONE"
    and i: "i < cdist (length ix) (home_of key shift (ix ! p)) p"
  shows "ix ! cwrap (length ix) (home_of key shift (ix ! p) + i) \<noteq> NONE \<and>
         key (ix ! cwrap (length ix) (home_of key shift (ix ! p) + i)) \<noteq> key (ix ! p)"
proof -
  let ?n = "length ix" and ?h = "home_of key shift (ix ! p)"
  let ?q = "cwrap ?n (?h + i)"
  have t: "table_ok ix shift" and inj: "keys_inj ix key" and pr: "probe_ok ix key shift"
    using ok by (simp_all add: index_ok_def)
  have h: "?h < ?n"
    using t by (rule home_of_less)
  have i_n: "i < ?n"
    using i cdist_less [OF p(1) h] by simp
  have q: "?q < ?n" "cdist ?n ?h ?q = i"
    using h i_n by (simp_all add: cwrap_less cdist_cwrap)
  have occ: "ix ! ?q \<noteq> NONE"
    using pr p i by (rule probe_okD)
  moreover have "key (ix ! ?q) \<noteq> key (ix ! p)"
    using keys_injD [OF inj q(1) p(1) occ p(2)] q(2) i by auto
  ultimately show ?thesis by simp
qed

section \<open>Lookup\<close>

lemma index_find_entry:
  assumes ok: "index_ok ix key shift" and s: "s \<in> entries ix" "key s = c"
  shows "index_find ix key shift c = Some s"
proof -
  obtain p where p: "p < length ix" "ix ! p = s" "s \<noteq> NONE"
    using s(1) by (auto simp: entries_nth)
  have t: "table_ok ix shift"
    using ok by (simp add: index_ok_def)
  have "scan (length ix) ix (\<lambda>s. s = NONE \<or> key s = c) (index_home shift c) = Some (of_nat p)"
  proof (rule scan_finds [OF t])
    show "unat (index_home shift c) = home_of key shift (ix ! p)"
      using p s by (simp add: home_of_def)
    show "home_of key shift (ix ! p) < length ix"
      using t by (rule home_of_less)
  qed (use p s path_to_entry [OF ok p(1)] in auto)
  then show ?thesis
    using p of_nat_pos [OF t p(1)] by (simp add: index_find_def find_loop_scan)
qed

lemma index_find_none:
  assumes ok: "index_ok ix key shift" and s: "\<And>s. s \<in> entries ix \<Longrightarrow> key s \<noteq> c"
  shows "index_find ix key shift c = Some NONE"
proof -
  have t: "table_ok ix shift"
    using ok by (simp add: index_ok_def)
  obtain z where z: "z < length ix" "ix ! z = NONE"
    using ok by (auto simp: index_ok_def in_set_conv_nth)
  obtain r where r: "r < length ix" "ix ! r = NONE \<or> key (ix ! r) = c"
    "scan (length ix) ix (\<lambda>s. s = NONE \<or> key s = c) (index_home shift c) = Some (of_nat r)"
    by (rule scan_least [OF t home_less [OF t] z(1), of "\<lambda>s. s = NONE \<or> key s = c"]) (use z in auto)
  have "ix ! r = NONE"
    using r(1,2) s by (auto simp: entries_nth)
  then show ?thesis
    using r of_nat_pos [OF t r(1)] by (simp add: index_find_def find_loop_scan)
qed

section \<open>Insertion\<close>

lemma entries_update:
  assumes "p < length ix" "ix ! p = NONE" "s \<noteq> NONE"
  shows "entries (ix[p := s]) = insert s (entries ix)"
proof -
  have "t \<in> entries (ix[p := s]) \<longleftrightarrow> t = s \<or> t \<in> entries ix" for t
    using assms by (auto simp: entries_nth nth_list_update split: if_splits)
  then show ?thesis by auto
qed

lemma keys_inj_inj_on: "keys_inj ix key \<Longrightarrow> inj_on (\<lambda>p. ix ! p) {p. p < length ix \<and> ix ! p \<noteq> NONE}"
  by (auto simp: inj_on_def keys_inj_def)

lemma NONE_in_table:
  assumes "keys_inj ix key" "card (entries ix) < length ix"
  shows "NONE \<in> set ix"
proof (rule ccontr)
  assume no: "NONE \<notin> set ix"
  then have all: "{p. p < length ix \<and> ix ! p \<noteq> NONE} = {..<length ix}"
    by (auto simp: in_set_conv_nth)
  have "inj_on (\<lambda>p. ix ! p) {..<length ix}"
    using keys_inj_inj_on [OF assms(1)] by (simp only: all)
  moreover have "(\<lambda>p. ix ! p) ` {..<length ix} = entries ix"
    using no by (auto simp: entries_def in_set_conv_nth)
  ultimately have "card (entries ix) = length ix"
    using card_image by fastforce
  then show False
    using assms(2) by simp
qed

lemma finite_entries [simp]: "finite (entries ix)"
  by (simp add: entries_def)

lemma index_insert_entry:
  assumes ok: "index_ok ix key shift" and fresh: "\<And>t. t \<in> entries ix \<Longrightarrow> key t \<noteq> key s"
    and s: "s \<noteq> NONE" and room: "card (entries ix) + 1 < length ix"
  obtains ix' where "index_insert ix shift (key s) s = Some ix'" "index_ok ix' key shift"
    "entries ix' = insert s (entries ix)" "length ix' = length ix"
proof -
  let ?n = "length ix" and ?h = "home_of key shift s"
  have t: "table_ok ix shift" and inj: "keys_inj ix key" and pr: "probe_ok ix key shift"
    and hole: "NONE \<in> set ix"
    using ok by (simp_all add: index_ok_def)
  obtain z where z: "z < ?n" "ix ! z = NONE"
    using hole by (auto simp: in_set_conv_nth)
  obtain q where q: "q < ?n" "ix ! q = NONE"
    and before: "\<And>i. i < cdist ?n ?h q \<Longrightarrow> ix ! cwrap ?n (?h + i) \<noteq> NONE"
    and scan: "insert_loop ?n ix (index_home shift (key s)) = Some (of_nat q)"
    by (rule scan_least [OF t home_less [OF t] z(1), of "\<lambda>s. s = NONE" "key s"])
       (use z in \<open>auto simp: insert_loop_scan home_of_def\<close>)
  let ?ix = "ix[q := s]"
  have es: "entries ?ix = insert s (entries ix)"
    using q s by (rule entries_update)
  have occ: "?ix ! p \<noteq> NONE" if "p < ?n" "ix ! p \<noteq> NONE" for p
    using that s by (cases "p = q") auto
  have inj': "keys_inj ?ix key"
    unfolding keys_inj_def
  proof (intro allI impI)
    fix a b
    assume ab: "a < length ?ix" "b < length ?ix" "?ix ! a \<noteq> NONE" "?ix ! b \<noteq> NONE"
      "key (?ix ! a) = key (?ix ! b)"
    have other: "key (?ix ! c) \<noteq> key s" if "c < ?n" "c \<noteq> q" "?ix ! c \<noteq> NONE" for c
      using fresh [of "ix ! c"] that by (auto simp: entries_nth)
    show "a = b"
    proof (cases "a = q \<or> b = q")
      case True
      have "key (?ix ! q) = key s"
        using q(1) by simp
      then have "key (?ix ! a) = key s" "key (?ix ! b) = key s"
        using True ab(5) by auto
      then show ?thesis
        using other [of a] other [of b] ab by (metis length_list_update)
    next
      case False
      then have "?ix ! a = ix ! a" "?ix ! b = ix ! b"
        by auto
      then show ?thesis
        using ab by (intro keys_injD [OF inj]) simp_all
    qed
  qed
  have pr': "probe_ok ?ix key shift"
    unfolding probe_ok_def length_list_update
  proof (intro allI impI)
    fix p j
    assume p: "p < ?n" "?ix ! p \<noteq> NONE"
      and j: "j < cdist ?n (home_of key shift (?ix ! p)) p"
    have hp: "home_of key shift (?ix ! p) < ?n"
      using t by (rule home_of_less)
    have lt: "cwrap ?n (home_of key shift (?ix ! p) + j) < ?n"
      using cdist_less [OF p(1) hp] hp j by (intro cwrap_less) simp
    show "?ix ! cwrap ?n (home_of key shift (?ix ! p) + j) \<noteq> NONE"
    proof (cases "p = q")
      case True
      then show ?thesis
        using occ [OF lt] before [of j] j q(1) by simp
    next
      case False
      then show ?thesis
        using occ [OF lt] probe_okD [OF pr p(1), of j] p j by simp
    qed
  qed
  have "card (entries ?ix) < ?n"
    unfolding es using room by (simp add: card_insert_if)
  then have "NONE \<in> set ?ix"
    using NONE_in_table [OF inj'] by simp
  then have "index_ok ?ix key shift"
    using inj' pr' t by (simp add: index_ok_def)
  moreover have "index_insert ix shift (key s) s = Some ?ix"
    using scan of_nat_pos [OF t q(1)] by (simp add: index_insert_def)
  ultimately show thesis
    using that es by simp
qed

section \<open>Backward-shift deletion\<close>

text \<open>
  The loop works on the table in which the hole is empty: at a step it looks at the cell \<open>q\<close> that lies
  \<open>d\<close> cells behind the hole \<open>hl\<close>. Reaching an empty cell closes the gap, an entry whose home lies
  behind the hole stays, any other entry moves into the hole.
\<close>

lemma probe_uptoD:
  "probe_upto hl d T key shift \<Longrightarrow> p < length T \<Longrightarrow> T ! p \<noteq> NONE \<Longrightarrow>
     j < cdist (length T) (home_of key shift (T ! p)) p \<Longrightarrow>
     T ! cwrap (length T) (home_of key shift (T ! p) + j) \<noteq> NONE \<or>
     cwrap (length T) (home_of key shift (T ! p) + j) = hl \<and> d \<le> cdist (length T) hl p"
  by (auto simp: probe_upto_def)

lemma probe_upto_done:
  assumes t: "table_ok T shift" and up: "probe_upto hl d T key shift"
    and lt: "hl < length T" "q < length T" and d: "d = cdist (length T) hl q" "1 \<le> d"
    and q: "T ! q = NONE"
  shows "probe_ok T key shift"
  unfolding probe_ok_def
proof (intro allI impI)
  fix p j
  let ?n = "length T" and ?h = "home_of key shift (T ! p)"
  assume p: "p < ?n" "T ! p \<noteq> NONE" and j: "j < cdist ?n ?h p"
  have h: "?h < ?n"
    using t by (rule home_of_less)
  show "T ! cwrap ?n (?h + j) \<noteq> NONE"
  proof (rule ccontr)
    assume "\<not> ?thesis"
    then have r: "cwrap ?n (?h + j) = hl" "d \<le> cdist ?n hl p"
      using probe_uptoD [OF up p j] by auto
    have "cdist ?n hl p = cdist ?n ?h p - j"
      unfolding r(1) [symmetric] using h p(1) j by (intro cdist_step) simp_all
    moreover have "d \<noteq> cdist ?n hl p"
      using d(1) cdist_inj [OF lt(1) lt(2) p(1)] q p(2) by auto
    ultimately have i: "j + d < cdist ?n ?h p"
      using r(2) j by simp
    have "cwrap ?n (?h + (j + d)) = cwrap ?n (hl + d)"
      unfolding r(1) [symmetric]
      using cdist_less [OF p(1) h] i h by (intro cwrap_cwrap [symmetric]) simp_all
    also have "\<dots> = q"
      unfolding d(1) using lt by (intro cwrap_cdist)
    finally have eq: "cwrap ?n (?h + (j + d)) = q" .
    have "q = hl"
      using probe_uptoD [OF up p i] q unfolding eq by simp
    then show False
      using d by simp
  qed
qed

lemma probe_upto_keep:
  assumes t: "table_ok T shift" and up: "probe_upto hl d T key shift"
    and lt: "hl < length T" "q < length T" and d: "d = cdist (length T) hl q"
    and q: "cdist (length T) (home_of key shift (T ! q)) q < cdist (length T) hl q"
  shows "probe_upto hl (Suc d) T key shift"
  unfolding probe_upto_def
proof (intro allI impI)
  fix p j
  let ?n = "length T" and ?h = "home_of key shift (T ! p)"
  assume p: "p < ?n" "T ! p \<noteq> NONE" and j: "j < cdist ?n ?h p"
  have h: "?h < ?n"
    using t by (rule home_of_less)
  have "d \<noteq> cdist ?n hl p" if r: "cwrap ?n (?h + j) = hl"
  proof
    assume "d = cdist ?n hl p"
    then have pq: "p = q"
      using d cdist_inj [OF lt(1) lt(2) p(1)] by simp
    have "cdist ?n hl p = cdist ?n ?h p - j"
      unfolding r [symmetric] using h p(1) j by (intro cdist_step) simp_all
    then show False
      using q unfolding pq by simp
  qed
  then show "T ! cwrap ?n (?h + j) \<noteq> NONE \<or> cwrap ?n (?h + j) = hl \<and> Suc d \<le> cdist ?n hl p"
    using probe_uptoD [OF up p j] by auto
qed

lemma probe_upto_move:
  assumes t: "table_ok T shift" and up: "probe_upto hl d T key shift"
    and lt: "hl < length T" "q < length T" "hl \<noteq> q" and occ: "T ! q \<noteq> NONE"
    and q: "cdist (length T) hl q \<le> cdist (length T) (home_of key shift (T ! q)) q"
  shows "probe_upto q 1 (T[hl := T ! q, q := NONE]) key shift"
  unfolding probe_upto_def length_list_update
proof (intro allI impI)
  fix p j
  let ?n = "length T" and ?T = "T[hl := T ! q, q := NONE]"
  let ?h = "home_of key shift (?T ! p)"
  let ?r = "cwrap ?n (?h + j)"
  assume p: "p < ?n" "?T ! p \<noteq> NONE" and j: "j < cdist ?n ?h p"
  have pq: "p \<noteq> q"
    using p lt by auto
  have h: "?h < ?n"
    using t by (rule home_of_less)
  have occ_T: "?T ! x \<noteq> NONE" if "T ! x \<noteq> NONE" "x \<noteq> q" for x
    using that lt occ by (cases "x = hl") auto
  show "?T ! ?r \<noteq> NONE \<or> ?r = q \<and> 1 \<le> cdist ?n q p"
  proof (cases "p = hl")
    case True
    have hq: "?T ! p = T ! q"
      using True lt by simp
    have between: "cdist ?n ?h hl = cdist ?n ?h q - cdist ?n hl q"
      using q h lt unfolding hq by (intro cdist_between)
    have j_n: "j < ?n"
      using j cdist_less [OF p(1) h] by simp
    have dr: "cdist ?n ?h ?r = j"
      using h j_n by (rule cdist_cwrap)
    have jq: "j < cdist ?n ?h hl"
      using j True by simp
    then have "T ! ?r \<noteq> NONE \<or> ?r = hl"
      using probe_uptoD [OF up lt(2) occ, of j] between unfolding hq by auto
    moreover have "?r \<noteq> hl" "?r \<noteq> q"
      using dr jq between by auto
    ultimately show ?thesis
      using occ_T by simp
  next
    case False
    have eq: "?T ! p = T ! p"
      using False pq by simp
    have "T ! ?r \<noteq> NONE \<or> ?r = hl"
      using probe_uptoD [OF up p(1)] p(2) j unfolding eq by auto
    moreover have "?T ! hl \<noteq> NONE"
      using lt occ by simp
    moreover have "1 \<le> cdist ?n q p"
      using pq cdist_0_iff [OF lt(2) p(1)] by (cases "cdist ?n q p") auto
    ultimately show ?thesis
      using occ_T [of ?r] by (cases "?r = q") auto
  qed
qed

lemma move_nth:
  assumes "hl < length T" "q < length T" "hl \<noteq> q" "T ! hl = NONE" "x < length T"
    "T[hl := T ! q, q := NONE] ! x \<noteq> NONE"
  shows "(if x = hl then q else x) < length T"
    "T ! (if x = hl then q else x) = T[hl := T ! q, q := NONE] ! x"
  using assms by (auto simp: nth_list_update split: if_splits)

lemma keys_inj_move:
  assumes inj: "keys_inj T key" and lt: "hl < length T" "q < length T" "hl \<noteq> q" "T ! hl = NONE"
  shows "keys_inj (T[hl := T ! q, q := NONE]) key"
  unfolding keys_inj_def length_list_update
proof (intro allI impI)
  fix a b
  let ?T = "T[hl := T ! q, q := NONE]"
  let ?m = "\<lambda>x. if x = hl then q else x"
  assume ab: "a < length T" "b < length T" "?T ! a \<noteq> NONE" "?T ! b \<noteq> NONE" "key (?T ! a) = key (?T ! b)"
  have "?m a = ?m b"
  proof (rule keys_injD [OF inj])
    show "?m a < length T" "?m b < length T"
      by (rule move_nth [OF lt ab(1,3)], rule move_nth [OF lt ab(2,4)])
    show "T ! ?m a \<noteq> NONE" "T ! ?m b \<noteq> NONE" "key (T ! ?m a) = key (T ! ?m b)"
      unfolding move_nth(2) [OF lt ab(1,3)] move_nth(2) [OF lt ab(2,4)] by (rule ab)+
  qed
  moreover have "a \<noteq> q" "b \<noteq> q"
    using ab(3,4) lt by auto
  ultimately show "a = b"
    by (metis (full_types))
qed

lemma entries_move:
  assumes lt: "hl < length T" "q < length T" "hl \<noteq> q" "T ! hl = NONE"
  shows "entries (T[hl := T ! q, q := NONE]) = entries T"
proof (intro equalityI subsetI)
  fix s
  assume "s \<in> entries (T[hl := T ! q, q := NONE])"
  then obtain x where "x < length T" "T[hl := T ! q, q := NONE] ! x = s" "s \<noteq> NONE"
    by (auto simp: entries_nth)
  then show "s \<in> entries T"
    using move_nth [OF lt, of x] unfolding entries_nth by metis
next
  fix s
  assume "s \<in> entries T"
  then obtain x where x: "x < length T" "T ! x = s" "s \<noteq> NONE"
    by (auto simp: entries_nth)
  then have "x \<noteq> hl"
    using lt by auto
  then have "T[hl := T ! q, q := NONE] ! (if x = q then hl else x) = s"
    using x lt by auto
  then show "s \<in> entries (T[hl := T ! q, q := NONE])"
    using x lt unfolding entries_nth by (metis length_list_update)
qed

lemma shift_loop_correct:
  assumes "table_ok ix shift"
    and "hl < length ix" "q < length ix" "z < length ix"
    and "keys_inj (ix[hl := NONE]) key" "probe_upto hl d (ix[hl := NONE]) key shift"
    and "d = cdist (length ix) hl q" "1 \<le> d" "ix[hl := NONE] ! z = NONE"
    and "d \<le> cdist (length ix) hl z" "cdist (length ix) hl z - d < fuel"
    and "unat hole = hl" "unat pos = q"
  shows "\<exists>ix'. shift_loop fuel ix key shift hole pos = Some ix' \<and> index_ok ix' key shift \<and>
           entries ix' = entries (ix[hl := NONE]) \<and> length ix' = length ix"
  using assms
proof (induction fuel arbitrary: ix hole pos hl q d)
  case 0
  then show ?case by simp
next
  case (Suc f)
  let ?n = "length ix" and ?T = "ix[hl := NONE]" and ?pos = "(pos + 1) AND index_mask ix"
  note t = Suc.prems(1) and lt = Suc.prems(2-4) and d = Suc.prems(7,8) and words = Suc.prems(12,13)
  have hq: "hl \<noteq> q"
    using d by auto
  have Tq: "?T ! q = ix ! q"
    using hq by simp
  have T_ok: "table_ok ?T shift"
    using t by simp
  show ?case
  proof (cases "ix ! q = NONE")
    case True
    have "probe_ok ?T key shift"
      using probe_upto_done [OF T_ok Suc.prems(6)] lt d True Tq by simp
    moreover have "NONE \<in> set ?T"
      using lt by (metis nth_list_update_eq nth_mem length_list_update)
    ultimately show ?thesis
      using True words Suc.prems(5) T_ok by (simp add: index_ok_def)
  next
    case False
    have next_q: "unat ?pos = cwrap ?n (q + 1)" "cwrap ?n (q + 1) < ?n"
      using next_pos [OF t, of pos] words lt by (auto intro: cwrap_less)
    have zq: "z \<noteq> q"
      using Suc.prems(9) False Tq by auto
    then have dz: "Suc d \<le> cdist ?n hl z"
      using Suc.prems(10) d(1) cdist_inj [OF lt(1) lt(2) lt(3)] by auto
    have hz: "cdist ?n hl z < ?n"
      using lt by (intro cdist_less)
    let ?home = "home_of key shift (ix ! q)"
    have home: "unat (index_home shift (key (ix ! q))) = ?home" "?home < ?n"
      using t by (simp_all add: home_of_def home_less)
    have cond: "(((pos - index_home shift (key (ix ! q))) AND index_mask ix) \<ge> ((pos - hole) AND index_mask ix))
        = (cdist ?n hl q \<le> cdist ?n ?home q)"
      using masked_distance [OF t, of pos] home words lt by (simp add: word_le_nat_alt)
    show ?thesis
    proof (cases "cdist ?n hl q \<le> cdist ?n ?home q")
      case stay: False
      have step: "shift_loop (Suc f) ix key shift hole pos = shift_loop f ix key shift hole ?pos"
        using False stay cond words by (simp add: Let_def)
      have dist: "cdist ?n hl (cwrap ?n (q + 1)) = Suc d"
        unfolding d(1) using dz d(1) hz lt by (intro cdist_next) simp_all
      have keep: "probe_upto hl (Suc d) ?T key shift"
        using probe_upto_keep [OF T_ok Suc.prems(6)] lt d stay Tq by simp
      show ?thesis
        unfolding step
        by (rule Suc.IH [OF t lt(1) next_q(2) lt(3) Suc.prems(5) keep])
           (use dist dz Suc.prems(9,11) words next_q in simp_all)
    next
      case move: True
      let ?ix = "ix[hl := ix ! q]"
      have step: "shift_loop (Suc f) ix key shift hole pos = shift_loop f ?ix key shift pos ?pos"
        using False move cond words by (simp add: Let_def)
      have T': "?ix[q := NONE] = ?T[hl := ?T ! q, q := NONE]"
        using Tq by simp
      have moved: "keys_inj (?ix[q := NONE]) key" "probe_upto q 1 (?ix[q := NONE]) key shift"
          "entries (?ix[q := NONE]) = entries ?T"
        unfolding T'
        using keys_inj_move [OF Suc.prems(5), of hl q] probe_upto_move [OF T_ok Suc.prems(6)]
          entries_move [of hl ?T q] lt hq move False Tq by simp_all
      have one: "1 < ?n"
        using t by (rule table_ok_bound)
      have dist: "cdist ?n q (cwrap ?n (q + 1)) = 1"
        using one lt by (intro cdist_1)
      have cw: "cwrap ?n (hl + d) = q"
        unfolding d(1) using lt by (intro cwrap_cdist)
      have zd: "cdist ?n q z = cdist ?n hl z - d"
        using cdist_step [OF lt(1) lt(3), of d] dz unfolding cw by simp
      have z: "?ix[q := NONE] ! z = NONE"
        using Suc.prems(9) zq lt by (cases "z = hl") (use dz in auto)
      have mask: "index_mask ?ix = index_mask ix"
        by (simp add: index_mask_def)
      have "\<exists>ix'. shift_loop f ?ix key shift pos ?pos = Some ix' \<and> index_ok ix' key shift \<and>
           entries ix' = entries (?ix[q := NONE]) \<and> length ix' = length ?ix"
        by (rule Suc.IH [of ?ix q "cwrap ?n (q + 1)" 1])
           (use t lt next_q moved dist zd dz z words Suc.prems(11) d in simp_all)
      then show ?thesis
        unfolding step moved(3) by simp
    qed
  qed
qed

lemma entries_remove:
  assumes inj: "keys_inj ix key" and p: "p < length ix" "ix ! p = s" "s \<noteq> NONE"
  shows "entries (ix[p := NONE]) = entries ix - {s}"
proof -
  have only: "x = p" if "x < length ix" "ix ! x = s" for x
    using keys_injD [OF inj that(1) p(1)] that p by simp
  have "t \<in> entries (ix[p := NONE]) \<longleftrightarrow> t \<in> entries ix \<and> t \<noteq> s" for t
  proof
    assume "t \<in> entries (ix[p := NONE])"
    then obtain x where x: "x < length ix" "ix[p := NONE] ! x = t" "t \<noteq> NONE"
      by (auto simp: entries_nth)
    then have "x \<noteq> p"
      using p(1) by auto
    then show "t \<in> entries ix \<and> t \<noteq> s"
      using x only [of x] by (auto simp: entries_nth)
  next
    assume t: "t \<in> entries ix \<and> t \<noteq> s"
    then obtain x where x: "x < length ix" "ix ! x = t" "t \<noteq> NONE"
      by (auto simp: entries_nth)
    then have "ix[p := NONE] ! x = t"
      using t p(2) by (cases "x = p") auto
    then show "t \<in> entries (ix[p := NONE])"
      using x by (auto simp: entries_nth)
  qed
  then show ?thesis by blast
qed

lemma removed_nth: "ix[p := NONE] ! x \<noteq> NONE \<Longrightarrow> x < length ix \<Longrightarrow> x \<noteq> p \<and> ix[p := NONE] ! x = ix ! x"
  by (cases "x = p") auto

lemma keys_inj_remove: "keys_inj ix key \<Longrightarrow> keys_inj (ix[p := NONE]) key"
  unfolding keys_inj_def length_list_update by (metis removed_nth)

lemma probe_upto_remove:
  assumes t: "table_ok ix shift" and pr: "probe_ok ix key shift" and hl: "hl < length ix"
  shows "probe_upto hl 1 (ix[hl := NONE]) key shift"
  unfolding probe_upto_def length_list_update
proof (intro allI impI)
  fix p j
  let ?n = "length ix" and ?T = "ix[hl := NONE]"
  assume p: "p < ?n" "?T ! p \<noteq> NONE" and j: "j < cdist ?n (home_of key shift (?T ! p)) p"
  note old = removed_nth [OF p(2,1)]
  let ?r = "cwrap ?n (home_of key shift (?T ! p) + j)"
  have "ix ! ?r \<noteq> NONE"
    using probe_okD [OF pr p(1), of j] old p j by simp
  moreover have "1 \<le> cdist ?n hl p"
    using old cdist_0_iff [OF hl p(1)] by (cases "cdist ?n hl p") auto
  ultimately show "?T ! ?r \<noteq> NONE \<or> ?r = hl \<and> 1 \<le> cdist ?n hl p"
    by (cases "?r = hl") auto
qed

lemma index_erase_entry:
  assumes ok: "index_ok ix key shift" and s: "s \<in> entries ix"
  obtains ix' where "index_erase ix key shift (key s) = Some ix'" "index_ok ix' key shift"
    "entries ix' = entries ix - {s}" "length ix' = length ix"
proof -
  let ?n = "length ix"
  have t: "table_ok ix shift" and inj: "keys_inj ix key" and pr: "probe_ok ix key shift"
    and none: "NONE \<in> set ix"
    using ok by (simp_all add: index_ok_def)
  obtain p where p: "p < ?n" "ix ! p = s" "s \<noteq> NONE"
    using s by (auto simp: entries_nth)
  obtain z where z: "z < ?n" "ix ! z = NONE"
    using none by (auto simp: in_set_conv_nth)
  have hole: "hole_loop ?n ix key (key s) (index_home shift (key s)) = Some (of_nat p)"
    unfolding hole_loop_scan
  proof (rule scan_finds [OF t])
    show "unat (index_home shift (key s)) = home_of key shift (ix ! p)"
      using p by (simp add: home_of_def)
    show "home_of key shift (ix ! p) < ?n"
      using t by (rule home_of_less)
  qed (use p path_to_entry [OF ok p(1)] in auto)
  let ?hole = "of_nat p :: u64" and ?pos = "(of_nat p + 1) AND index_mask ix"
  have uh: "unat ?hole = p"
    using t p(1) by (rule of_nat_pos)
  have next_p: "unat ?pos = cwrap ?n (p + 1)" "cwrap ?n (p + 1) < ?n"
    using next_pos [OF t, of ?hole] p uh by (auto intro: cwrap_less)
  have one: "cdist ?n p (cwrap ?n (p + 1)) = 1"
    using table_ok_bound(1) [OF t] p(1) by (intro cdist_1)
  have dz: "1 \<le> cdist ?n p z" "cdist ?n p z < ?n"
    using z p cdist_0_iff [OF p(1) z(1)] by (auto simp: cdist_less Suc_le_eq)
  have z_empty: "ix[p := NONE] ! z = NONE"
    using z by (cases "z = p") auto
  have "\<exists>ix'. shift_loop ?n ix key shift ?hole ?pos = Some ix' \<and> index_ok ix' key shift \<and>
           entries ix' = entries (ix[p := NONE]) \<and> length ix' = ?n"
    by (rule shift_loop_correct [OF t p(1) next_p(2) z(1) keys_inj_remove [OF inj]
          probe_upto_remove [OF t pr p(1)]])
       (use one dz uh next_p z_empty in simp_all)
  then show thesis
    using that hole entries_remove [OF inj p] by (auto simp: index_erase_def)
qed

section \<open>The empty table\<close>

lemma bit_ceil_from_pow:
  "\<exists>k. bit_ceil_from (2 ^ i) n = 2 ^ k \<and> n \<le> 2 ^ k \<and> i \<le> k \<and> (k = i \<or> 2 ^ (k - 1) < n)"
proof (induction "2 ^ i :: nat" n arbitrary: i rule: bit_ceil_from.induct)
  case (1 n)
  show ?case
  proof (cases "n \<le> 2 ^ i")
    case True
    then show ?thesis
      by (subst bit_ceil_from.simps) auto
  next
    case False
    then obtain k where k: "bit_ceil_from (2 ^ Suc i) n = 2 ^ k" "n \<le> 2 ^ k" "Suc i \<le> k"
      "k = Suc i \<or> 2 ^ (k - 1) < n"
      using 1 [of "Suc i"] by auto
    have "bit_ceil_from (2 ^ i) n = 2 ^ k"
      using False k(1) by (subst bit_ceil_from.simps) simp
    moreover have "2 ^ (k - 1) < n"
      using k(4) False by auto
    ultimately show ?thesis
      using k by (intro exI [of _ k]) simp
  qed
qed

lemma bit_ceil_pow:
  assumes "1 < n" "n < 2 ^ 33"
  obtains k where "bit_ceil n = 2 ^ k" "n \<le> 2 ^ k" "0 < k" "k < 64"
proof -
  obtain k where k: "bit_ceil_from (2 ^ 0) n = 2 ^ k" "n \<le> 2 ^ k" "k = 0 \<or> 2 ^ (k - 1) < n"
    using bit_ceil_from_pow [of 0 n] by auto
  have pos: "0 < k"
    using k(2) assms(1) by (cases k) auto
  have "(2 :: nat) ^ (k - 1) < 2 ^ 33"
    using k(3) pos assms(2) by linarith
  then have "k - 1 < 33"
    by (rule power_less_imp_less_exp [rotated]) simp
  then show thesis
    using that k pos by (simp add: bit_ceil_def)
qed

lemma countr_zero_pow: "countr_zero (2 ^ k) = k"
proof (induction k)
  case 0
  then show ?case by (simp add: countr_zero.simps)
next
  case (Suc k)
  then show ?case by (subst countr_zero.simps) simp
qed

definition empty_index :: "nat \<Rightarrow> nat list" where
  "empty_index num_slots = replicate (bit_ceil (2 * num_slots)) NONE"

lemma empty_index_ok:
  assumes "0 < num_slots" "num_slots < 4294967296"
  shows "index_ok (empty_index num_slots) key (64 - countr_zero (length (empty_index num_slots)))"
    and "entries (empty_index num_slots) = {}" and "2 * num_slots \<le> length (empty_index num_slots)"
proof -
  obtain k where k: "bit_ceil (2 * num_slots) = 2 ^ k" "2 * num_slots \<le> 2 ^ k" "0 < k" "k < 64"
    using assms bit_ceil_pow [of "2 * num_slots"] by auto
  show "2 * num_slots \<le> length (empty_index num_slots)" "entries (empty_index num_slots) = {}"
    using k by (auto simp: empty_index_def entries_def)
  have "NONE \<in> set (empty_index num_slots)"
    by (simp add: empty_index_def k(1))
  moreover have "ix ! p = NONE" if "ix = empty_index num_slots" "p < length ix" for ix p
    using that by (simp add: empty_index_def)
  moreover have "table_ok (empty_index num_slots) (64 - countr_zero (length (empty_index num_slots)))"
    using k by (auto simp: table_ok_def empty_index_def countr_zero_pow)
  ultimately show "index_ok (empty_index num_slots) key
      (64 - countr_zero (length (empty_index num_slots)))"
    by (auto simp: index_ok_def keys_inj_def probe_ok_def)
qed

section \<open>The interface of the slot pool\<close>

text \<open>
  What the slot pool relies on: a bounded collection of slots, in which a slot is looked up by its key.
  The keys belong to the client (they are the \<open>chunk\<close> fields of the slots), so every operation takes
  them as an argument, and the contract says that only the keys of members matter.
\<close>

locale chunk_map =
  fixes ok :: "'i \<Rightarrow> (nat \<Rightarrow> u64) \<Rightarrow> bool"
    and members :: "'i \<Rightarrow> nat set"
    and capacity :: "'i \<Rightarrow> nat"
    and find :: "'i \<Rightarrow> (nat \<Rightarrow> u64) \<Rightarrow> u64 \<Rightarrow> nat option"
    and ins :: "'i \<Rightarrow> u64 \<Rightarrow> nat \<Rightarrow> 'i option"
    and del :: "'i \<Rightarrow> (nat \<Rightarrow> u64) \<Rightarrow> u64 \<Rightarrow> 'i option"
    and none :: nat
  assumes ok_cong: "(\<And>s. s \<in> members m \<Longrightarrow> key s = key' s) \<Longrightarrow> ok m key \<Longrightarrow> ok m key'"
    and find_member: "ok m key \<Longrightarrow> s \<in> members m \<Longrightarrow> find m key (key s) = Some s"
    and find_absent: "ok m key \<Longrightarrow> (\<And>s. s \<in> members m \<Longrightarrow> key s \<noteq> c) \<Longrightarrow> find m key c = Some none"
    and ins_member: "ok m key \<Longrightarrow> (\<And>t. t \<in> members m \<Longrightarrow> key t \<noteq> key s) \<Longrightarrow> s \<noteq> none \<Longrightarrow>
      card (members m) + 1 < capacity m \<Longrightarrow>
      \<exists>m'. ins m (key s) s = Some m' \<and> ok m' key \<and> members m' = insert s (members m) \<and>
        capacity m' = capacity m"
    and del_member: "ok m key \<Longrightarrow> s \<in> members m \<Longrightarrow>
      \<exists>m'. del m key (key s) = Some m' \<and> ok m' key \<and> members m' = members m - {s} \<and>
        capacity m' = capacity m"
    and none_member: "none \<notin> members m"
begin

text \<open>The map from keys to slots that the table stands for.\<close>

definition lookup :: "'i \<Rightarrow> (nat \<Rightarrow> u64) \<Rightarrow> u64 \<Rightarrow> nat option" where
  "lookup m key c = (case find m key c of None \<Rightarrow> None | Some s \<Rightarrow> if s = none then None else Some s)"

lemma keys_distinct:
  "ok m key \<Longrightarrow> s \<in> members m \<Longrightarrow> t \<in> members m \<Longrightarrow> key s = key t \<Longrightarrow> s = t"
  using find_member by (metis option.inject)

lemma find_total: "ok m key \<Longrightarrow> \<exists>s. find m key c = Some s"
  using find_member find_absent by metis

lemma find_cases:
  assumes "ok m key"
  obtains "find m key c = Some none" "\<And>s. s \<in> members m \<Longrightarrow> key s \<noteq> c"
  | s where "find m key c = Some s" "s \<in> members m" "key s = c" "s \<noteq> none"
  using assms find_member find_absent none_member by metis

lemma lookup_iff:
  assumes ok: "ok m key"
  shows "lookup m key c = Some s \<longleftrightarrow> s \<in> members m \<and> key s = c"
  using ok
proof (rule find_cases [of m key c])
  assume "find m key c = Some none" "\<And>s. s \<in> members m \<Longrightarrow> key s \<noteq> c"
  then show ?thesis
    by (auto simp: lookup_def)
next
  fix t
  assume t: "find m key c = Some t" "t \<in> members m" "key t = c" "t \<noteq> none"
  have "lookup m key c = Some t"
    using t(1,4) by (simp add: lookup_def)
  moreover have "t = s" if "s \<in> members m" "key s = c"
    using that t(3) by (intro keys_distinct [OF ok t(2)]) simp_all
  ultimately show ?thesis
    using t(2,3) by auto
qed

lemma lookup_none_iff: "ok m key \<Longrightarrow> lookup m key c = None \<longleftrightarrow> (\<forall>s \<in> members m. key s \<noteq> c)"
  using lookup_iff [of m key c] by (metis not_Some_eq)

text \<open>Insertion and deletion are the update and the restriction of that map.\<close>

lemma ins_refines:
  assumes ok: "ok m key" and fresh: "\<And>t. t \<in> members m \<Longrightarrow> key t \<noteq> key s"
    and s: "s \<noteq> none" "card (members m) + 1 < capacity m"
  shows "\<exists>m'. ins m (key s) s = Some m' \<and> ok m' key \<and> lookup m' key = (lookup m key)(key s \<mapsto> s)"
proof -
  obtain m' where m': "ins m (key s) s = Some m'" "ok m' key" "members m' = insert s (members m)"
    using ins_member [OF ok fresh s] by auto
  have "lookup m' key c = ((lookup m key)(key s \<mapsto> s)) c" for c
  proof (cases "c = key s")
    case True
    then show ?thesis
      using lookup_iff [OF m'(2)] m'(3) by auto
  next
    case False
    then have "lookup m' key c = Some t \<longleftrightarrow> lookup m key c = Some t" for t
      using lookup_iff [OF m'(2)] lookup_iff [OF ok] m'(3) by auto
    then have "lookup m' key c = lookup m key c"
      by (cases "lookup m key c"; cases "lookup m' key c") auto
    then show ?thesis
      using False by simp
  qed
  then show ?thesis
    using m' by auto
qed

lemma del_refines:
  assumes ok: "ok m key" and s: "s \<in> members m"
  shows "\<exists>m'. del m key (key s) = Some m' \<and> ok m' key \<and> lookup m' key = (lookup m key)(key s := None)"
proof -
  obtain m' where m': "del m key (key s) = Some m'" "ok m' key" "members m' = members m - {s}"
    using del_member [OF ok s] by auto
  have "lookup m' key c = ((lookup m key)(key s := None)) c" for c
  proof (cases "c = key s")
    case True
    have "lookup m' key c = None"
      unfolding lookup_none_iff [OF m'(2)] m'(3) using keys_distinct [OF ok _ s] True by auto
    then show ?thesis
      using True by simp
  next
    case False
    then have "lookup m' key c = Some t \<longleftrightarrow> lookup m key c = Some t" for t
      using lookup_iff [OF m'(2)] lookup_iff [OF ok] m'(3) by auto
    then have "lookup m' key c = lookup m key c"
      by (cases "lookup m key c"; cases "lookup m' key c") auto
    then show ?thesis
      using False by simp
  qed
  then show ?thesis
    using m' by auto
qed

end

interpretation ci: chunk_map
  "\<lambda>ix key. index_ok ix key shift" entries length
  "\<lambda>ix key. index_find ix key shift" "\<lambda>ix. index_insert ix shift"
  "\<lambda>ix key. index_erase ix key shift" NONE
  for shift
proof (unfold_locales, goal_cases)
  case (1 m key key')
  then show ?case
    using index_ok_cong by blast
next
  case (2 m key s)
  then show ?case
    by (intro index_find_entry) simp_all
next
  case (3 m key c)
  then show ?case
    by (intro index_find_none)
next
  case (4 m key s)
  then show ?case
    using index_insert_entry by metis
next
  case (5 m key s)
  then show ?case
    using index_erase_entry by metis
next
  case (6 m)
  then show ?case
    by (simp add: entries_def)
qed

end
