(* ===== verification/Chunk_Index_Props.thy ===== *)
theory Chunk_Index_Props
  imports Chunk_Index_Inv
begin

text \<open>
  What the open-addressed index promises as a map from chunks to slots: lookups after an insertion and
  after a deletion, on every table that satisfies its invariant.
\<close>

section \<open>A table on which entries collide\<close>

text \<open>
  Three slots whose keys hash to the same cell of a table for three slots: the entries probe past each
  other, and erasing the first one moves the others back.
\<close>

definition demo_key :: "nat \<Rightarrow> u64" where
  "demo_key s = (if s = 0 then 0 else if s = 1 then 13 else 34)"

definition demo_table :: "nat list" where
  "demo_table = [0, 1, NONE, NONE, NONE, NONE, NONE, NONE]"

lemma demo_replicate: "replicate 8 NONE = [NONE, NONE, NONE, NONE, NONE, NONE, NONE, NONE]"
  by (simp add: numeral_eq_Suc)

lemma demo_empty: "index_ok [NONE, NONE, NONE, NONE, NONE, NONE, NONE, NONE] demo_key 61"
  using empty_index_ok(1) [of 3 demo_key]
  by (simp add: empty_index_def bit_ceil_def bit_ceil_from.simps countr_zero.simps demo_replicate)

lemma demo_steps:
  "index_insert [NONE, NONE, NONE, NONE, NONE, NONE, NONE, NONE] 61 (demo_key 0) 0
     = Some [0, NONE, NONE, NONE, NONE, NONE, NONE, NONE]"
  "index_insert [0, NONE, NONE, NONE, NONE, NONE, NONE, NONE] 61 (demo_key 1) 1 = Some demo_table"
  by (simp_all add: index_insert_def index_home_def index_mask_def demo_key_def demo_table_def NONE_def
      UINT32_MAX_def)

lemma demo_table_ok: "index_ok demo_table demo_key 61" "entries demo_table = {0, 1}"
proof -
  show e: "entries demo_table = {0, 1}"
    by (auto simp: entries_def demo_table_def NONE_def UINT32_MAX_def)
  have e0: "entries [NONE, NONE, NONE, NONE, NONE, NONE, NONE, NONE] = {}"
    by (auto simp: entries_def)
  have e1: "entries [0, NONE, NONE, NONE, NONE, NONE, NONE, NONE] = {0}"
    by (auto simp: entries_def NONE_def UINT32_MAX_def)
  have ok1: "index_ok [0, NONE, NONE, NONE, NONE, NONE, NONE, NONE] demo_key 61"
    using index_insert_entry [OF demo_empty, of 0] demo_steps(1) e0 by (auto simp: NONE_def UINT32_MAX_def)
  show "index_ok demo_table demo_key 61"
    using index_insert_entry [OF ok1, of 1] demo_steps(2) e1
    by (auto simp: NONE_def UINT32_MAX_def demo_key_def)
qed

section \<open>Insertion and deletion seen by lookups\<close>

text \<open>
  C13: insertion is map update. Into a table with room, inserting a slot with a new key ends, keeps the
  invariant, and afterwards every key is looked up as before, except that the new one finds the slot.
\<close>

theorem index_insert_lookup:
  assumes "index_ok ix key shift" and "\<forall>t \<in> entries ix. key t \<noteq> key s" and "s \<noteq> NONE"
    and "card (entries ix) + 1 < length ix"
  shows "\<exists>ix'. index_insert ix shift (key s) s = Some ix' \<and> index_ok ix' key shift \<and>
    (\<forall>c. index_find ix' key shift c = (if c = key s then Some s else index_find ix key shift c))"
proof -
  obtain ix' where ix': "index_insert ix shift (key s) s = Some ix'" "index_ok ix' key shift"
    "entries ix' = insert s (entries ix)"
    using index_insert_entry [OF assms(1) _ assms(3,4)] assms(2) by metis
  have "index_find ix' key shift c = (if c = key s then Some s else index_find ix key shift c)" for c
  proof (cases "c = key s")
    case True
    then show ?thesis
      using index_find_entry [OF ix'(2), of s] ix'(3) by simp
  next
    case False
    show ?thesis
    proof (cases "\<exists>t \<in> entries ix. key t = c")
      case True
      then show ?thesis
        using index_find_entry [OF ix'(2)] index_find_entry [OF assms(1)] ix'(3) False by auto
    next
      case none: False
      then have "index_find ix' key shift c = Some NONE"
        using ix'(3) False by (intro index_find_none [OF ix'(2)]) auto
      moreover have "index_find ix key shift c = Some NONE"
        using none by (intro index_find_none [OF assms(1)]) auto
      ultimately show ?thesis
        using False by simp
    qed
  qed
  then show ?thesis
    using ix' by blast
qed

theorem index_insert_lookup_witness:
  "\<exists>ix'. index_insert demo_table 61 34 2 = Some ix' \<and> index_find ix' demo_key 61 34 = Some 2 \<and>
     index_find ix' demo_key 61 13 = index_find demo_table demo_key 61 13"
proof -
  have "demo_key 2 = 34"
    by (simp add: demo_key_def)
  moreover have "\<forall>t \<in> entries demo_table. demo_key t \<noteq> demo_key 2" "card (entries demo_table) + 1 < length demo_table"
    by (simp add: demo_table_ok(2) demo_key_def) (simp add: demo_table_ok(2), simp add: demo_table_def)
  ultimately show ?thesis
    using index_insert_lookup [OF demo_table_ok(1), of 2] by (auto simp: NONE_def UINT32_MAX_def)
qed

text \<open>
  C12: deletion by backward shift is map restriction. Erasing the key of an entry ends, keeps the
  invariant, and afterwards every key is looked up as before, except that the erased one is absent: no
  other entry becomes unreachable by the move of its neighbours.
\<close>

theorem index_erase_lookup:
  assumes "index_ok ix key shift" and "s \<in> entries ix"
  shows "\<exists>ix'. index_erase ix key shift (key s) = Some ix' \<and> index_ok ix' key shift \<and>
    (\<forall>c. index_find ix' key shift c = (if c = key s then Some NONE else index_find ix key shift c))"
proof -
  obtain ix' where ix': "index_erase ix key shift (key s) = Some ix'" "index_ok ix' key shift"
    "entries ix' = entries ix - {s}"
    using index_erase_entry [OF assms] by metis
  have "index_find ix' key shift c = (if c = key s then Some NONE else index_find ix key shift c)" for c
  proof (cases "\<exists>t \<in> entries ix. key t = c")
    case True
    then obtain t where t: "t \<in> entries ix" "key t = c"
      by blast
    show ?thesis
    proof (cases "c = key s")
      case eq: True
      have "index_find ix' key shift c = Some NONE"
        using ix'(3) ci.keys_distinct [OF assms(1) _ assms(2)] eq by (intro index_find_none [OF ix'(2)]) auto
      then show ?thesis
        using eq by simp
    next
      case False
      then have "t \<in> entries ix'"
        using t ix'(3) by auto
      then show ?thesis
        using index_find_entry [OF ix'(2) _ t(2)] index_find_entry [OF assms(1) t] False by simp
    qed
  next
    case False
    then have "index_find ix' key shift c = Some NONE" "index_find ix key shift c = Some NONE"
      using ix'(3) by (auto intro!: index_find_none [OF ix'(2)] index_find_none [OF assms(1)])
    then show ?thesis
      by simp
  qed
  then show ?thesis
    using ix' by blast
qed

theorem index_erase_lookup_witness:
  "\<exists>ix'. index_erase demo_table demo_key 61 0 = Some ix' \<and> index_find ix' demo_key 61 0 = Some NONE \<and>
     index_find ix' demo_key 61 13 = index_find demo_table demo_key 61 13"
proof -
  have "demo_key 0 = 0" "0 \<in> entries demo_table"
    by (simp_all add: demo_key_def demo_table_ok(2))
  then show ?thesis
    using index_erase_lookup [OF demo_table_ok(1), of 0] by auto
qed

end
