(* ===== verification/Slot_Pool.thy ===== *)
theory Slot_Pool
  imports Transfer_Core Chunk_Index
begin

text \<open>
  The cached-slot mode, \<open>include/sub0mempage/slot_pool.hpp\<close>: a fixed set of caller-owned slots caches
  slot-sized chunks of one source; prefetch and resolve start fills, leases pin slots, and a CLOCK
  sweep finds the slot to reuse. Every operation is one critical section of the code, except that
  \<open>resolve\<close> is two (it waits in between) after the leases it overwrites have been released.

  \<^item> A call that the code ends with \<open>std::terminate\<close> is \<open>None\<close>.
  \<^item> A call that waits on the condition variable is a function of the state it wakes up in, with
    \<open>None\<close> for "still waiting"; \<open>expired\<close> says whether a deadline was given and has passed.
  \<^item> Leases and tickets name their pool by its identity as a completion sink, \<open>self\<close>; an empty handle
    has \<open>None\<close>. All handles given to an operation are empty or of this pool.
  \<^item> \<open>uint32_t\<close> and \<open>size_t\<close> numbers that count or index slots, tickets, entries and pins are \<open>nat\<close>;
    offsets, lengths, addresses and chunk numbers are 64-bit words, generations 32-bit words.
  \<^item> The index loops return \<open>None\<close> when the table is exhausted; \<open>Slot_Pool_Inv\<close> shows that this never
    happens in a pool, so the value chosen for it here (no slot found, table unchanged) is never used.
\<close>

section \<open>State\<close>

datatype slot_state = Slot_Free | Slot_Filling | Slot_Ready | Slot_Failed

record slot =
  slot_chunk :: u64
  slot_generation :: gen
  slot_pins :: nat
  slot_waiter_head :: nat
  slot_state :: slot_state
  slot_failure :: status
  slot_referenced :: bool
  slot_hint_unconsumed :: bool

record ticket_record =
  tick_generation :: gen
  tick_chunks :: nat
  tick_pending :: nat
  tick_held :: bool
  tick_in_use :: bool

record waiter_entry =
  wait_next :: nat
  wait_outcome :: status

record slot_pool_config =
  sc_source :: source_id
  sc_source_bytes :: u64
  sc_slot_bytes :: u64
  sc_num_slots :: nat
  sc_slot_storage :: span
  sc_max_tickets :: nat
  sc_max_batch_chunks :: nat

record slot_pool_stats =
  sps_slots_total :: nat
  sps_slots_pinned :: nat
  sps_slots_ready :: nat
  sps_slots_filling :: nat
  sps_high_water_slots :: nat
  sps_hint_issued :: nat
  sps_hint_admitted :: nat
  sps_hint_resident :: nat
  sps_hint_declined :: nat
  sps_hint_unconsumed :: nat
  sps_admission_failures :: nat
  sps_resolve_hits :: nat
  sps_resolve_misses :: nat
  sps_coalesced :: nat
  sps_evictions :: nat
  sps_fills_failed :: nat
  sps_stale_completions :: nat
  sps_bytes_read :: nat

record slot_pool =
  sp_config :: slot_pool_config
  sp_slots :: "slot list"
  sp_index :: "nat list"
  sp_tickets :: "ticket_record list"
  sp_waiters :: "waiter_entry list"
  sp_clock_hand :: nat
  sp_in_flight :: nat
  sp_pins_total :: nat
  sp_tickets_held :: nat
  sp_non_free :: nat
  sp_index_shift :: nat
  sp_counters :: slot_pool_stats

record lease =
  lease_pool :: "sink option"
  lease_slot :: nat
  lease_generation :: gen
  lease_bytes :: span
  lease_source_offset :: u64

record ticket =
  ticket_pool :: "sink option"
  ticket_record :: nat
  ticket_generation :: gen

record wait_outcome =
  wo_status :: status
  wo_filled :: nat
  wo_failed :: nat
  wo_declined :: nat
  wo_pending :: nat

definition default_slot :: slot where
  "default_slot =
     \<lparr>slot_chunk = 0, slot_generation = 0, slot_pins = 0, slot_waiter_head = NONE,
      slot_state = Slot_Free, slot_failure = Ok, slot_referenced = False, slot_hint_unconsumed = False\<rparr>"

definition default_ticket_record :: ticket_record where
  "default_ticket_record =
     \<lparr>tick_generation = 0, tick_chunks = 0, tick_pending = 0, tick_held = False, tick_in_use = False\<rparr>"

definition default_waiter :: waiter_entry where
  "default_waiter = \<lparr>wait_next = NONE, wait_outcome = Pending\<rparr>"

definition default_pool_stats :: slot_pool_stats where
  "default_pool_stats =
     \<lparr>sps_slots_total = 0, sps_slots_pinned = 0, sps_slots_ready = 0, sps_slots_filling = 0,
      sps_high_water_slots = 0, sps_hint_issued = 0, sps_hint_admitted = 0, sps_hint_resident = 0,
      sps_hint_declined = 0, sps_hint_unconsumed = 0, sps_admission_failures = 0,
      sps_resolve_hits = 0, sps_resolve_misses = 0, sps_coalesced = 0, sps_evictions = 0,
      sps_fills_failed = 0, sps_stale_completions = 0, sps_bytes_read = 0\<rparr>"

definition default_lease :: lease where
  "default_lease =
     \<lparr>lease_pool = None, lease_slot = 0, lease_generation = 0, lease_bytes = empty_span,
      lease_source_offset = 0\<rparr>"

definition default_ticket :: ticket where
  "default_ticket = \<lparr>ticket_pool = None, ticket_record = 0, ticket_generation = 0\<rparr>"

definition default_outcome :: wait_outcome where
  "default_outcome = \<lparr>wo_status = Ok, wo_filled = 0, wo_failed = 0, wo_declined = 0, wo_pending = 0\<rparr>"

text \<open>Assignments to one element of a vector, and to the counters.\<close>

definition upd_slot :: "nat \<Rightarrow> (slot \<Rightarrow> slot) \<Rightarrow> slot_pool \<Rightarrow> slot_pool" where
  "upd_slot i f sp = sp\<lparr>sp_slots := (sp_slots sp)[i := f (sp_slots sp ! i)]\<rparr>"

definition upd_ticket :: "nat \<Rightarrow> (ticket_record \<Rightarrow> ticket_record) \<Rightarrow> slot_pool \<Rightarrow> slot_pool" where
  "upd_ticket i f sp = sp\<lparr>sp_tickets := (sp_tickets sp)[i := f (sp_tickets sp ! i)]\<rparr>"

definition upd_waiter :: "nat \<Rightarrow> (waiter_entry \<Rightarrow> waiter_entry) \<Rightarrow> slot_pool \<Rightarrow> slot_pool" where
  "upd_waiter i f sp = sp\<lparr>sp_waiters := (sp_waiters sp)[i := f (sp_waiters sp ! i)]\<rparr>"

definition upd_counters :: "(slot_pool_stats \<Rightarrow> slot_pool_stats) \<Rightarrow> slot_pool \<Rightarrow> slot_pool" where
  "upd_counters f sp = sp\<lparr>sp_counters := f (sp_counters sp)\<rparr>"

section \<open>Construction and destruction\<close>

definition sp_construct :: "slot_pool_config \<Rightarrow> slot_pool" where
  "sp_construct config =
     (let index = replicate (bit_ceil (sc_num_slots config * 2)) NONE in
      \<lparr>sp_config = config,
       sp_slots = replicate (sc_num_slots config) default_slot,
       sp_index = index,
       sp_tickets = replicate (sc_max_tickets config) default_ticket_record,
       sp_waiters = replicate (sc_max_tickets config * sc_max_batch_chunks config) default_waiter,
       sp_clock_hand = 0, sp_in_flight = 0, sp_pins_total = 0, sp_tickets_held = 0, sp_non_free = 0,
       sp_index_shift = 64 - countr_zero (length index),
       sp_counters = default_pool_stats\<lparr>sps_slots_total := sc_num_slots config\<rparr>\<rparr>)"

definition sp_create :: "slot_pool_config \<Rightarrow> status + slot_pool" where
  "sp_create config =
     (if sc_slot_bytes config = 0 \<or> sc_num_slots config = 0 \<or> sc_num_slots config \<ge> NONE
         \<or> sc_source_bytes config = 0 \<or> sc_max_tickets config = 0 \<or> sc_max_batch_chunks config = 0
         \<or> sc_max_tickets config \<ge> NONE
      then Inl Invalid_Argument
      else if sc_slot_bytes config > UINT64_MAX div of_nat (sc_num_slots config)
         \<or> span_size (sc_slot_storage config) \<noteq> sc_slot_bytes config * of_nat (sc_num_slots config)
      then Inl Invalid_Argument
      else if sc_max_batch_chunks config > unat UINT64_MAX div sc_max_tickets config
         \<or> sc_max_batch_chunks config * sc_max_tickets config \<ge> NONE
      then Inl Invalid_Argument
      else Inr (sp_construct config))"

definition sp_destroy :: "slot_pool \<Rightarrow> unit option" where
  "sp_destroy sp =
     (if sp_in_flight sp \<noteq> 0 \<or> sp_pins_total sp \<noteq> 0 \<or> sp_tickets_held sp \<noteq> 0 then None else Some ())"

section \<open>Request normalisation\<close>

text \<open>
  \<open>for_each_chunk\<close> as the list of its calls. The loop \<open>chunk <= last\<close> over \<open>uint64_t\<close> makes
  \<open>last - first + 1\<close> rounds; \<open>last\<close> is never \<open>UINT64_MAX\<close>, since every range has passed
  \<open>validate_range\<close>.
\<close>

fun chunk_steps :: "nat \<Rightarrow> u64 \<Rightarrow> u64 list" where
  "chunk_steps 0 chunk = []"
| "chunk_steps (Suc rounds) chunk = chunk # chunk_steps rounds (chunk + 1)"

definition range_chunks :: "slot_pool_config \<Rightarrow> byte_range \<Rightarrow> u64 list" where
  "range_chunks config rng =
     (let first = range_offset rng div sc_slot_bytes config;
          last = (range_offset rng + range_length rng - 1) div sc_slot_bytes config
      in chunk_steps (if first \<le> last then unat (last - first) + 1 else 0) first)"

fun for_each_chunk :: "slot_pool_config \<Rightarrow> byte_range list \<Rightarrow> (u64 \<times> byte_range) list" where
  "for_each_chunk config [] = []"
| "for_each_chunk config (rng # ranges) =
     map (\<lambda>chunk. (chunk, rng)) (range_chunks config rng) @ for_each_chunk config ranges"

definition span_chunks :: "slot_pool_config \<Rightarrow> byte_range \<Rightarrow> u64" where
  "span_chunks config rng =
     (range_offset rng + range_length rng - 1) div sc_slot_bytes config
       - range_offset rng div sc_slot_bytes config + 1"

fun validate_loop :: "slot_pool_config \<Rightarrow> byte_range list \<Rightarrow> u64 \<Rightarrow> status \<times> u64" where
  "validate_loop config [] chunks = (if chunks = 0 then Empty_Range else Ok, chunks)"
| "validate_loop config (rng # ranges) chunks =
     (let status = validate_range rng (sc_source_bytes config) in
      if status \<noteq> Ok then (status, chunks)
      else if span_chunks config rng > of_nat (sc_max_batch_chunks config) - chunks
      then (Batch_Too_Large, chunks)
      else validate_loop config ranges (chunks + span_chunks config rng))"

definition validate_batch :: "slot_pool_config \<Rightarrow> byte_range list \<Rightarrow> status \<times> nat" where
  "validate_batch config ranges =
     (let (status, chunks) = validate_loop config ranges 0 in (status, unat chunks))"

definition chunk_length :: "slot_pool_config \<Rightarrow> u64 \<Rightarrow> u64" where
  "chunk_length config chunk =
     (let start = chunk * sc_slot_bytes config
      in min (sc_slot_bytes config) (sc_source_bytes config - start))"

definition slot_data :: "slot_pool_config \<Rightarrow> nat \<Rightarrow> u64" where
  "slot_data config i = span_data (sc_slot_storage config) + of_nat i * sc_slot_bytes config"

section \<open>The chunk index of the pool\<close>

definition slot_key :: "slot_pool \<Rightarrow> nat \<Rightarrow> u64" where
  "slot_key sp i = slot_chunk (sp_slots sp ! i)"

definition sp_find :: "u64 \<Rightarrow> slot_pool \<Rightarrow> nat" where
  "sp_find chunk sp =
     (case index_find (sp_index sp) (slot_key sp) (sp_index_shift sp) chunk of
        Some i \<Rightarrow> i | None \<Rightarrow> NONE)"

definition sp_index_insert :: "u64 \<Rightarrow> nat \<Rightarrow> slot_pool \<Rightarrow> slot_pool" where
  "sp_index_insert chunk i sp =
     (case index_insert (sp_index sp) (sp_index_shift sp) chunk i of
        Some ix \<Rightarrow> sp\<lparr>sp_index := ix\<rparr> | None \<Rightarrow> sp)"

definition sp_index_erase :: "u64 \<Rightarrow> slot_pool \<Rightarrow> slot_pool" where
  "sp_index_erase chunk sp =
     (case index_erase (sp_index sp) (slot_key sp) (sp_index_shift sp) chunk of
        Some ix \<Rightarrow> sp\<lparr>sp_index := ix\<rparr> | None \<Rightarrow> sp)"

section \<open>Slot lifecycle\<close>

definition make_free :: "nat \<Rightarrow> slot_pool \<Rightarrow> slot_pool" where
  "make_free i sp =
     (let s = sp_slots sp ! i;
          sp1 = (if slot_state s = Slot_Filling \<or> slot_state s = Slot_Ready
                 then sp_index_erase (slot_chunk s) sp else sp);
          sp2 = (if slot_state s \<noteq> Slot_Free then sp1\<lparr>sp_non_free := sp_non_free sp1 - 1\<rparr> else sp1)
      in upd_slot i (\<lambda>s. s\<lparr>slot_state := Slot_Free, slot_referenced := False,
                          slot_hint_unconsumed := False\<rparr>) sp2)"

text \<open>The sweep: \<open>steps\<close> rounds of the clock hand; the product \<open>2 * n\<close> is computed in \<open>uint32_t\<close>.\<close>

fun victim_loop :: "nat \<Rightarrow> admission_class \<Rightarrow> slot_pool \<Rightarrow> nat \<times> slot_pool" where
  "victim_loop 0 admission sp = (NONE, sp)"
| "victim_loop (Suc steps) admission sp =
     (let i = sp_clock_hand sp;
          sp = sp\<lparr>sp_clock_hand := (if sp_clock_hand sp + 1 = sc_num_slots (sp_config sp) then 0
                                    else sp_clock_hand sp + 1)\<rparr>;
          candidate = sp_slots sp ! i
      in if slot_pins candidate \<noteq> 0 then victim_loop steps admission sp
         else if slot_state candidate = Slot_Free then (i, sp)
         else if slot_state candidate \<noteq> Slot_Ready then victim_loop steps admission sp
         else if slot_referenced candidate
         then victim_loop steps admission
                (if admission = Declared then upd_slot i (\<lambda>s. s\<lparr>slot_referenced := False\<rparr>) sp else sp)
         else let sp = upd_counters (\<lambda>c. c\<lparr>sps_evictions := sps_evictions c + 1\<rparr>) sp;
                  sp = (if slot_hint_unconsumed candidate
                        then upd_counters (\<lambda>c. c\<lparr>sps_hint_unconsumed := sps_hint_unconsumed c + 1\<rparr>) sp
                        else sp)
              in (i, make_free i sp))"

definition claim_victim :: "admission_class \<Rightarrow> slot_pool \<Rightarrow> nat \<times> slot_pool" where
  "claim_victim admission sp =
     (let n = sc_num_slots (sp_config sp);
          steps = (if admission = Declared then u32 (2 * n) else n)
      in victim_loop steps admission sp)"

definition sp_request :: "slot_pool \<Rightarrow> sink \<Rightarrow> nat \<Rightarrow> u64 \<Rightarrow> fill_request" where
  "sp_request sp self i chunk =
     \<lparr>req_source = sc_source (sp_config sp),
      req_source_offset = chunk * sc_slot_bytes (sp_config sp),
      req_destination = \<lparr>span_data = slot_data (sp_config sp) i,
                         span_size = chunk_length (sp_config sp) chunk\<rparr>,
      req_token = \<lparr>token_index = i, token_generation = slot_generation (sp_slots sp ! i)\<rparr>,
      req_sink = self\<rparr>"

text \<open>The part of \<open>start_fill\<close> before the request is submitted.\<close>

definition begin_fill :: "nat \<Rightarrow> u64 \<Rightarrow> slot_pool \<Rightarrow> slot_pool" where
  "begin_fill i chunk sp =
     (let sp = upd_slot i (\<lambda>s. s\<lparr>slot_chunk := chunk, slot_generation := slot_generation s + 1,
                               slot_state := Slot_Filling, slot_waiter_head := NONE,
                               slot_failure := Ok\<rparr>) sp;
          sp = sp_index_insert chunk i sp;
          sp = sp\<lparr>sp_non_free := sp_non_free sp + 1\<rparr>
      in upd_counters (\<lambda>c. c\<lparr>sps_high_water_slots := max (sps_high_water_slots c) (sp_non_free sp)\<rparr>) sp)"

definition start_fill ::
    "'b submit_fn \<Rightarrow> sink \<Rightarrow> nat \<Rightarrow> u64 \<Rightarrow> slot_pool \<Rightarrow> 'b \<Rightarrow> status \<times> slot_pool \<times> 'b" where
  "start_fill submit self i chunk sp b =
     (let sp = begin_fill i chunk sp;
          (accepted, b) = submit (sp_request sp self i chunk) b
      in if \<not> accepted then (Queue_Exhausted, make_free i sp, b)
         else (Ok, sp\<lparr>sp_in_flight := sp_in_flight sp + 1\<rparr>, b))"

text \<open>
  The walk along the waiters of a slot. Each round takes an entry out of the list, so the number of
  linked entries falls and the walk ends on every list, even on a cyclic one.
\<close>

definition settle_waiter :: "nat \<Rightarrow> status \<Rightarrow> slot_pool \<Rightarrow> slot_pool" where
  "settle_waiter entry status sp =
     (let sp = upd_waiter entry (\<lambda>w. w\<lparr>wait_outcome := status\<rparr>) sp;
          sp = upd_ticket (entry div sc_max_batch_chunks (sp_config sp))
                 (\<lambda>r. let r = r\<lparr>tick_pending := tick_pending r - 1\<rparr>
                      in if tick_pending r = 0 \<and> \<not> tick_held r then r\<lparr>tick_in_use := False\<rparr> else r) sp
      in upd_waiter entry (\<lambda>w. w\<lparr>wait_next := NONE\<rparr>) sp)"

lemma sp_waiters_settle:
  "sp_waiters (settle_waiter entry status sp) =
     (sp_waiters sp)[entry := (sp_waiters sp ! entry)\<lparr>wait_outcome := status, wait_next := NONE\<rparr>]"
  by (cases "entry < length (sp_waiters sp)")
    (simp_all add: settle_waiter_def upd_waiter_def upd_ticket_def Let_def list_update_beyond)

function drain_waiters :: "nat \<Rightarrow> status \<Rightarrow> slot_pool \<Rightarrow> slot_pool" where
  "drain_waiters entry status sp =
     (if entry \<noteq> NONE \<and> entry < length (sp_waiters sp)
      then drain_waiters (wait_next (sp_waiters sp ! entry)) status (settle_waiter entry status sp)
      else sp)"
  by pat_completeness auto
termination
proof (relation "measure (\<lambda>(entry, status, sp).
    count_where (\<lambda>w. wait_next w \<noteq> NONE) (sp_waiters sp) + (if entry = NONE then 0 else 1))",
    goal_cases)
  case 1
  then show ?case by simp
next
  case (2 entry status sp)
  then have "entry < length (sp_waiters sp)" "entry \<noteq> NONE"
    by simp_all
  then show ?case
    using count_where_update [of entry "sp_waiters sp" "\<lambda>w. wait_next w \<noteq> NONE"
        "(sp_waiters sp ! entry)\<lparr>wait_outcome := status, wait_next := NONE\<rparr>"]
    by (auto simp: sp_waiters_settle split: if_splits)
qed

declare drain_waiters.simps [simp del]

definition sp_is_stale :: "transfer_token \<Rightarrow> slot_pool \<Rightarrow> bool" where
  "sp_is_stale token sp \<longleftrightarrow>
     token_index token \<ge> length (sp_slots sp)
     \<or> slot_generation (sp_slots sp ! token_index token) \<noteq> token_generation token
     \<or> slot_state (sp_slots sp ! token_index token) \<noteq> Slot_Filling"

text \<open>The branches of a terminal delivery.\<close>

definition complete_ok :: "nat \<Rightarrow> fill_result \<Rightarrow> slot_pool \<Rightarrow> slot_pool" where
  "complete_ok i result sp =
     upd_counters (\<lambda>c. c\<lparr>sps_bytes_read := sps_bytes_read c + unat (result_bytes result)\<rparr>)
       (upd_slot i (\<lambda>s. s\<lparr>slot_state := Slot_Ready\<rparr>) sp)"

definition complete_failed :: "nat \<Rightarrow> status \<Rightarrow> slot_pool \<Rightarrow> slot_pool" where
  "complete_failed i status sp =
     (let s = sp_slots sp ! i;
          sp = upd_counters (\<lambda>c. c\<lparr>sps_fills_failed := sps_fills_failed c + 1\<rparr>) sp;
          sp = (if slot_hint_unconsumed s
                then upd_counters (\<lambda>c. c\<lparr>sps_hint_unconsumed := sps_hint_unconsumed c + 1\<rparr>) sp else sp);
          sp = sp_index_erase (slot_chunk s) sp;
          sp = upd_slot i (\<lambda>s. s\<lparr>slot_state := Slot_Failed, slot_failure := status,
                               slot_hint_unconsumed := False\<rparr>) sp
      in if slot_pins s = 0 then make_free i sp else sp)"

definition sp_on_complete :: "transfer_token \<Rightarrow> fill_result \<Rightarrow> slot_pool \<Rightarrow> slot_pool" where
  "sp_on_complete token result sp =
     (if sp_is_stale token sp
      then upd_counters (\<lambda>c. c\<lparr>sps_stale_completions := sps_stale_completions c + 1\<rparr>) sp
      else let i = token_index token;
               status = classify_fill result (chunk_length (sp_config sp) (slot_chunk (sp_slots sp ! i)));
               sp = sp\<lparr>sp_in_flight := sp_in_flight sp - 1\<rparr>;
               sp = (if status = Ok then complete_ok i result sp else complete_failed i status sp);
               entry = slot_waiter_head (sp_slots sp ! i);
               sp = upd_slot i (\<lambda>s. s\<lparr>slot_waiter_head := NONE\<rparr>) sp
           in drain_waiters entry status sp)"

definition unpin_locked :: "nat \<Rightarrow> slot_pool \<Rightarrow> slot_pool" where
  "unpin_locked i sp =
     (let sp = sp\<lparr>sp_pins_total := sp_pins_total sp - 1\<rparr>;
          sp = upd_slot i (\<lambda>s. s\<lparr>slot_pins := slot_pins s - 1\<rparr>) sp
      in if slot_pins (sp_slots sp ! i) = 0 \<and> slot_state (sp_slots sp ! i) = Slot_Failed
         then make_free i sp else sp)"

definition release_lease :: "nat \<Rightarrow> gen \<Rightarrow> slot_pool \<Rightarrow> slot_pool option" where
  "release_lease i generation sp =
     (if slot_generation (sp_slots sp ! i) \<noteq> generation \<or> slot_pins (sp_slots sp ! i) = 0
      then None else Some (unpin_locked i sp))"

definition make_lease :: "sink \<Rightarrow> nat \<Rightarrow> u64 \<Rightarrow> byte_range \<Rightarrow> slot_pool \<Rightarrow> lease \<times> slot_pool" where
  "make_lease self i chunk rng sp =
     (let sp = upd_slot i (\<lambda>s. s\<lparr>slot_pins := slot_pins s + 1\<rparr>) sp;
          sp = sp\<lparr>sp_pins_total := sp_pins_total sp + 1\<rparr>;
          chunk_start = chunk * sc_slot_bytes (sp_config sp);
          first = max (range_offset rng) chunk_start;
          last = min (range_offset rng + range_length rng)
                     (chunk_start + chunk_length (sp_config sp) chunk)
      in (\<lparr>lease_pool = Some self,
           lease_slot = i,
           lease_generation = slot_generation (sp_slots sp ! i),
           lease_bytes = \<lparr>span_data = slot_data (sp_config sp) i + (first - chunk_start),
                          span_size = last - first\<rparr>,
           lease_source_offset = first\<rparr>, sp))"

fun distinct_loop :: "nat list \<Rightarrow> lease list \<Rightarrow> nat" where
  "distinct_loop earlier [] = 0"
| "distinct_loop earlier (l # leases) =
     (if lease_slot l \<in> set earlier then 0 else 1) + distinct_loop (earlier @ [lease_slot l]) leases"

definition distinct_slots :: "lease list \<Rightarrow> nat" where
  "distinct_slots leases = distinct_loop [] leases"

section \<open>Handles\<close>

definition lease_is_held :: "lease \<Rightarrow> bool" where
  "lease_is_held l = (lease_pool l \<noteq> None)"

definition lease_reset :: "lease \<Rightarrow> slot_pool \<Rightarrow> (lease \<times> slot_pool) option" where
  "lease_reset l sp =
     (if lease_pool l = None then Some (l, sp)
      else map_option (\<lambda>sp. (l\<lparr>lease_pool := None, lease_bytes := empty_span\<rparr>, sp))
             (release_lease (lease_slot l) (lease_generation l) sp))"

text \<open>Move assignment of \<open>other\<close> to \<open>this\<close>, two distinct objects: the new values of both.\<close>

definition lease_move_assign ::
    "lease \<Rightarrow> lease \<Rightarrow> slot_pool \<Rightarrow> (lease \<times> lease \<times> slot_pool) option" where
  "lease_move_assign this other sp =
     map_option (\<lambda>(this, sp).
         (\<lparr>lease_pool = lease_pool other, lease_slot = lease_slot other,
           lease_generation = lease_generation other, lease_bytes = lease_bytes other,
           lease_source_offset = lease_source_offset other\<rparr>,
          other\<lparr>lease_pool := None\<rparr>, sp))
       (lease_reset this sp)"

fun release_all :: "lease list \<Rightarrow> slot_pool \<Rightarrow> (lease list \<times> slot_pool) option" where
  "release_all [] sp = Some ([], sp)"
| "release_all (l # leases) sp =
     (case lease_reset l sp of
        None \<Rightarrow> None
      | Some (l, sp) \<Rightarrow>
          (case release_all leases sp of None \<Rightarrow> None | Some (leases, sp) \<Rightarrow> Some (l # leases, sp)))"

definition discard_ticket :: "nat \<Rightarrow> gen \<Rightarrow> slot_pool \<Rightarrow> slot_pool option" where
  "discard_ticket i generation sp =
     (let r = sp_tickets sp ! i in
      if tick_generation r \<noteq> generation \<or> \<not> tick_held r then None
      else let sp = upd_ticket i (\<lambda>r. r\<lparr>tick_held := False\<rparr>) sp;
               sp = sp\<lparr>sp_tickets_held := sp_tickets_held sp - 1\<rparr>
           in Some (if tick_pending r = 0 then upd_ticket i (\<lambda>r. r\<lparr>tick_in_use := False\<rparr>) sp else sp))"

definition ticket_is_held :: "ticket \<Rightarrow> bool" where
  "ticket_is_held t = (ticket_pool t \<noteq> None)"

definition ticket_reset :: "ticket \<Rightarrow> slot_pool \<Rightarrow> (ticket \<times> slot_pool) option" where
  "ticket_reset t sp =
     (if ticket_pool t = None then Some (t, sp)
      else map_option (\<lambda>sp. (t\<lparr>ticket_pool := None\<rparr>, sp))
             (discard_ticket (ticket_record t) (ticket_generation t) sp))"

definition ticket_move_assign ::
    "ticket \<Rightarrow> ticket \<Rightarrow> slot_pool \<Rightarrow> (ticket \<times> ticket \<times> slot_pool) option" where
  "ticket_move_assign this other sp =
     map_option (\<lambda>(this, sp).
         (\<lparr>ticket_pool = ticket_pool other, ticket_record = ticket_record other,
           ticket_generation = ticket_generation other\<rparr>,
          other\<lparr>ticket_pool := None\<rparr>, sp))
       (ticket_reset this sp)"

section \<open>Public operations\<close>

subsection \<open>Prefetch and its tickets\<close>

fun find_free_record :: "ticket_record list \<Rightarrow> nat \<Rightarrow> nat option" where
  "find_free_record [] i = None"
| "find_free_record (r # records) i =
     (if \<not> tick_in_use r then Some i else find_free_record records (i + 1))"

definition count_hint_resident :: "slot_pool \<Rightarrow> slot_pool" where
  "count_hint_resident = upd_counters (\<lambda>c. c\<lparr>sps_hint_resident := sps_hint_resident c + 1\<rparr>)"

definition count_coalesced :: "slot_pool \<Rightarrow> slot_pool" where
  "count_coalesced = upd_counters (\<lambda>c. c\<lparr>sps_coalesced := sps_coalesced c + 1\<rparr>)"

definition count_admission_failure :: "slot_pool \<Rightarrow> slot_pool" where
  "count_admission_failure =
     upd_counters (\<lambda>c. c\<lparr>sps_admission_failures := sps_admission_failures c + 1\<rparr>)"

definition count_hint_declined :: "slot_pool \<Rightarrow> slot_pool" where
  "count_hint_declined = upd_counters (\<lambda>c. c\<lparr>sps_hint_declined := sps_hint_declined c + 1\<rparr>)"

definition set_outcome :: "nat \<Rightarrow> status \<Rightarrow> slot_pool \<Rightarrow> slot_pool" where
  "set_outcome entry status = upd_waiter entry (\<lambda>w. w\<lparr>wait_outcome := status\<rparr>)"

text \<open>The cases of the \<open>if\<close> chain of one chunk: the slot it ends with, or \<open>NONE\<close>.\<close>

definition prefetch_slot ::
    "'b submit_fn \<Rightarrow> sink \<Rightarrow> admission_class \<Rightarrow> nat \<Rightarrow> u64 \<Rightarrow> slot_pool \<Rightarrow> 'b
       \<Rightarrow> nat \<times> slot_pool \<times> 'b" where
  "prefetch_slot submit self admission entry chunk sp b =
     (let i = sp_find chunk sp in
      if i \<noteq> NONE \<and> slot_state (sp_slots sp ! i) = Slot_Ready
      then (i, set_outcome entry Ok (count_hint_resident sp), b)
      else if i \<noteq> NONE then (i, count_coalesced (count_hint_resident sp), b)
      else let (i, sp) = claim_victim admission sp in
           if i = NONE
           then (NONE,
                 set_outcome entry (if admission = Speculative then Declined else Pool_Exhausted)
                   (if admission = Speculative then count_hint_declined sp else count_admission_failure sp),
                 b)
           else let (submitted, sp, b) = start_fill submit self i chunk sp b in
                if submitted \<noteq> Ok
                then (NONE, set_outcome entry submitted (count_admission_failure sp), b)
                else (i, upd_slot i (\<lambda>s. s\<lparr>slot_hint_unconsumed := True\<rparr>)
                           (upd_counters (\<lambda>c. c\<lparr>sps_hint_admitted := sps_hint_admitted c + 1\<rparr>) sp), b))"

definition link_waiter :: "nat \<Rightarrow> nat \<Rightarrow> nat \<Rightarrow> slot_pool \<Rightarrow> slot_pool" where
  "link_waiter record_index entry i sp =
     (if i \<noteq> NONE \<and> slot_state (sp_slots sp ! i) = Slot_Filling
      then let head = slot_waiter_head (sp_slots sp ! i);
               sp = upd_waiter entry (\<lambda>w. w\<lparr>wait_outcome := Pending, wait_next := head\<rparr>) sp;
               sp = upd_slot i (\<lambda>s. s\<lparr>slot_waiter_head := entry\<rparr>) sp
           in upd_ticket record_index (\<lambda>r. r\<lparr>tick_pending := tick_pending r + 1\<rparr>) sp
      else sp)"

definition prefetch_chunk ::
    "'b submit_fn \<Rightarrow> sink \<Rightarrow> admission_class \<Rightarrow> nat \<Rightarrow> nat \<Rightarrow> u64 \<Rightarrow> slot_pool \<Rightarrow> 'b
       \<Rightarrow> slot_pool \<times> 'b" where
  "prefetch_chunk submit self admission record_index entry chunk sp b =
     (let sp = upd_waiter entry (\<lambda>w. w\<lparr>wait_next := NONE\<rparr>) sp;
          sp = upd_counters (\<lambda>c. c\<lparr>sps_hint_issued := sps_hint_issued c + 1\<rparr>) sp;
          (i, sp, b) = prefetch_slot submit self admission entry chunk sp b
      in (link_waiter record_index entry i sp, b))"

fun prefetch_loop ::
    "'b submit_fn \<Rightarrow> sink \<Rightarrow> admission_class \<Rightarrow> nat \<Rightarrow> nat \<Rightarrow> u64 list \<Rightarrow> slot_pool \<Rightarrow> 'b
       \<Rightarrow> slot_pool \<times> 'b" where
  "prefetch_loop submit self admission record_index entry [] sp b = (sp, b)"
| "prefetch_loop submit self admission record_index entry (chunk # chunks) sp b =
     (let (sp, b) = prefetch_chunk submit self admission record_index entry chunk sp b
      in prefetch_loop submit self admission record_index (entry + 1) chunks sp b)"

definition open_record :: "nat \<Rightarrow> nat \<Rightarrow> slot_pool \<Rightarrow> slot_pool" where
  "open_record record_index chunks sp =
     (let sp = upd_ticket record_index
          (\<lambda>r. \<lparr>tick_generation = tick_generation r + 1, tick_chunks = chunks, tick_pending = 0,
                tick_held = True, tick_in_use = True\<rparr>) sp
      in sp\<lparr>sp_tickets_held := sp_tickets_held sp + 1\<rparr>)"

definition sp_prefetch ::
    "'b submit_fn \<Rightarrow> sink \<Rightarrow> byte_range list \<Rightarrow> admission_class \<Rightarrow> slot_pool \<Rightarrow> 'b
       \<Rightarrow> (status + ticket) \<times> slot_pool \<times> 'b" where
  "sp_prefetch submit self ranges admission sp b =
     (let (status, chunks) = validate_batch (sp_config sp) ranges in
      if status \<noteq> Ok then (Inl status, sp, b)
      else case find_free_record (sp_tickets sp) 0 of
        None \<Rightarrow> (Inl Ticket_Exhausted, sp, b)
      | Some record_index \<Rightarrow>
          let sp = open_record record_index chunks sp;
              entry = record_index * sc_max_batch_chunks (sp_config sp);
              (sp, b) = prefetch_loop submit self admission record_index entry
                          (map fst (for_each_chunk (sp_config sp) ranges)) sp b
          in (Inr \<lparr>ticket_pool = Some self, ticket_record = record_index,
                   ticket_generation = tick_generation (sp_tickets sp ! record_index)\<rparr>, sp, b))"

definition tally :: "waiter_entry \<Rightarrow> wait_outcome \<Rightarrow> wait_outcome" where
  "tally w outcome =
     (let outcome =
        (case wait_outcome w of
           Ok \<Rightarrow> outcome\<lparr>wo_filled := wo_filled outcome + 1\<rparr>
         | Pending \<Rightarrow> outcome\<lparr>wo_pending := wo_pending outcome + 1\<rparr>
         | Declined \<Rightarrow> outcome\<lparr>wo_declined := wo_declined outcome + 1\<rparr>
         | Pool_Exhausted \<Rightarrow> outcome\<lparr>wo_declined := wo_declined outcome + 1\<rparr>
         | Queue_Exhausted \<Rightarrow> outcome\<lparr>wo_declined := wo_declined outcome + 1\<rparr>
         | _ \<Rightarrow> outcome\<lparr>wo_failed := wo_failed outcome + 1\<rparr>)
      in if wo_status outcome = Ok \<and> wait_outcome w \<noteq> Ok \<and> wait_outcome w \<noteq> Pending
         then outcome\<lparr>wo_status := wait_outcome w\<rparr> else outcome)"

definition ticket_entries :: "slot_pool \<Rightarrow> nat \<Rightarrow> waiter_entry list" where
  "ticket_entries sp i =
     take (tick_chunks (sp_tickets sp ! i)) (drop (i * sc_max_batch_chunks (sp_config sp)) (sp_waiters sp))"

definition sp_wait :: "sink \<Rightarrow> ticket \<Rightarrow> bool \<Rightarrow> slot_pool \<Rightarrow> wait_outcome option" where
  "sp_wait self t expired sp =
     (if ticket_pool t \<noteq> Some self then Some (default_outcome\<lparr>wo_status := Invalid_Argument\<rparr>)
      else if tick_pending (sp_tickets sp ! ticket_record t) \<noteq> 0 \<and> \<not> expired then None
      else let outcome = fold tally (ticket_entries sp (ticket_record t)) default_outcome
           in Some (if wo_pending outcome \<noteq> 0 then outcome\<lparr>wo_status := Timeout\<rparr> else outcome))"

subsection \<open>Resolve\<close>

text \<open>The local variables of \<open>resolve\<close> that its loop changes: \<open>failure\<close>, \<open>out\<close> and \<open>pinned\<close>.\<close>

record resolve_state =
  rs_failure :: status
  rs_out :: "lease list"
  rs_pinned :: nat

definition pin_chunk ::
    "sink \<Rightarrow> nat \<Rightarrow> u64 \<Rightarrow> byte_range \<Rightarrow> resolve_state \<Rightarrow> slot_pool \<Rightarrow> resolve_state \<times> slot_pool" where
  "pin_chunk self i chunk rng rs sp =
     (let sp = upd_slot i (\<lambda>s. s\<lparr>slot_referenced := True, slot_hint_unconsumed := False\<rparr>) sp;
          (l, sp) = make_lease self i chunk rng sp
      in (rs\<lparr>rs_out := (rs_out rs)[rs_pinned rs := l], rs_pinned := rs_pinned rs + 1\<rparr>, sp))"

definition resolve_chunk ::
    "'b submit_fn \<Rightarrow> sink \<Rightarrow> u64 \<times> byte_range \<Rightarrow> resolve_state \<Rightarrow> slot_pool \<Rightarrow> 'b
       \<Rightarrow> resolve_state \<times> slot_pool \<times> 'b" where
  "resolve_chunk submit self call rs sp b =
     (let (chunk, rng) = call in
      if rs_failure rs \<noteq> Ok then (rs, sp, b)
      else let i = sp_find chunk sp in
      if i \<noteq> NONE
      then let sp = (if slot_state (sp_slots sp ! i) = Slot_Ready
                     then upd_counters (\<lambda>c. c\<lparr>sps_resolve_hits := sps_resolve_hits c + 1\<rparr>) sp
                     else count_coalesced sp);
               (rs, sp) = pin_chunk self i chunk rng rs sp
           in (rs, sp, b)
      else let sp = upd_counters (\<lambda>c. c\<lparr>sps_resolve_misses := sps_resolve_misses c + 1\<rparr>) sp;
               (i, sp) = claim_victim Declared sp
           in if i = NONE
              then (rs\<lparr>rs_failure :=
                      (if distinct_slots (take (rs_pinned rs) (rs_out rs)) \<ge> sc_num_slots (sp_config sp)
                       then Batch_Too_Large else Pool_Exhausted)\<rparr>, sp, b)
              else let (failure, sp, b) = start_fill submit self i chunk sp b
                   in if failure \<noteq> Ok then (rs\<lparr>rs_failure := failure\<rparr>, sp, b)
                      else let (rs, sp) = pin_chunk self i chunk rng rs sp in (rs, sp, b))"

fun resolve_loop ::
    "'b submit_fn \<Rightarrow> sink \<Rightarrow> (u64 \<times> byte_range) list \<Rightarrow> resolve_state \<Rightarrow> slot_pool \<Rightarrow> 'b
       \<Rightarrow> resolve_state \<times> slot_pool \<times> 'b" where
  "resolve_loop submit self [] rs sp b = (rs, sp, b)"
| "resolve_loop submit self (call # calls) rs sp b =
     (let (rs, sp, b) = resolve_chunk submit self call rs sp b
      in resolve_loop submit self calls rs sp b)"

fun unwind :: "lease list \<Rightarrow> slot_pool \<Rightarrow> lease list \<times> slot_pool" where
  "unwind [] sp = ([], sp)"
| "unwind (l # leases) sp =
     (let sp = unpin_locked (lease_slot l) sp; (leases, sp) = unwind leases sp
      in (l\<lparr>lease_pool := None, lease_bytes := empty_span\<rparr> # leases, sp))"

text \<open>
  \<open>resolve\<close> up to its wait: an error, or the number of leases pinned so far; with it the output
  leases, the pool and the backend. \<open>None\<close> when releasing a lease of \<open>out\<close> terminates.
\<close>

definition sp_resolve_begin ::
    "'b submit_fn \<Rightarrow> sink \<Rightarrow> byte_range list \<Rightarrow> lease list \<Rightarrow> slot_pool \<Rightarrow> 'b
       \<Rightarrow> ((status + nat) \<times> lease list \<times> slot_pool \<times> 'b) option" where
  "sp_resolve_begin submit self ranges out sp b =
     (let (status, chunks) = validate_batch (sp_config sp) ranges in
      if status \<noteq> Ok then Some (Inl status, out, sp, b)
      else if length out < chunks then Some (Inl Batch_Too_Large, out, sp, b)
      else case release_all (take chunks out) sp of
        None \<Rightarrow> None
      | Some (released, sp) \<Rightarrow>
          let rs = \<lparr>rs_failure = Ok, rs_out = released @ drop chunks out, rs_pinned = 0\<rparr>;
              (rs, sp, b) = resolve_loop submit self (for_each_chunk (sp_config sp) ranges) rs sp b;
              pinned = rs_pinned rs
          in if rs_failure rs \<noteq> Ok
             then let (undone, sp) = unwind (take pinned (rs_out rs)) sp
                  in Some (Inl (rs_failure rs), undone @ drop pinned (rs_out rs), sp, b)
             else Some (Inr pinned, rs_out rs, sp, b))"

fun first_failure :: "slot_pool \<Rightarrow> lease list \<Rightarrow> status" where
  "first_failure sp [] = Ok"
| "first_failure sp (l # leases) =
     (if slot_state (sp_slots sp ! lease_slot l) = Slot_Failed then slot_failure (sp_slots sp ! lease_slot l)
      else first_failure sp leases)"

text \<open>\<open>resolve\<close> from its wait on: \<open>None\<close> while one of the pinned slots is still being filled.\<close>

definition sp_resolve_end ::
    "nat \<Rightarrow> lease list \<Rightarrow> slot_pool \<Rightarrow> ((status + nat) \<times> lease list \<times> slot_pool) option" where
  "sp_resolve_end pinned out sp =
     (if list_ex (\<lambda>l. slot_state (sp_slots sp ! lease_slot l) = Slot_Filling) (take pinned out) then None
      else let failure = first_failure sp (take pinned out) in
           if failure \<noteq> Ok
           then let (undone, sp) = unwind (take pinned out) sp
                in Some (Inl failure, undone @ drop pinned out, sp)
           else Some (Inr pinned, out, sp))"

fun all_ready :: "u64 list \<Rightarrow> slot_pool \<Rightarrow> bool" where
  "all_ready [] sp = True"
| "all_ready (chunk # chunks) sp =
     ((let i = sp_find chunk sp in i \<noteq> NONE \<and> slot_state (sp_slots sp ! i) = Slot_Ready)
      \<and> all_ready chunks sp)"

fun pin_loop ::
    "sink \<Rightarrow> (u64 \<times> byte_range) list \<Rightarrow> resolve_state \<Rightarrow> slot_pool \<Rightarrow> resolve_state \<times> slot_pool" where
  "pin_loop self [] rs sp = (rs, sp)"
| "pin_loop self ((chunk, rng) # calls) rs sp =
     (let i = sp_find chunk sp;
          sp = upd_counters (\<lambda>c. c\<lparr>sps_resolve_hits := sps_resolve_hits c + 1\<rparr>) sp;
          (rs, sp) = pin_chunk self i chunk rng rs sp
      in pin_loop self calls rs sp)"

definition sp_try_resolve ::
    "sink \<Rightarrow> byte_range list \<Rightarrow> lease list \<Rightarrow> slot_pool
       \<Rightarrow> ((status + nat) \<times> lease list \<times> slot_pool) option" where
  "sp_try_resolve self ranges out sp =
     (let (status, chunks) = validate_batch (sp_config sp) ranges in
      if status \<noteq> Ok then Some (Inl status, out, sp)
      else if length out < chunks then Some (Inl Batch_Too_Large, out, sp)
      else case release_all (take chunks out) sp of
        None \<Rightarrow> None
      | Some (released, sp) \<Rightarrow>
          let out = released @ drop chunks out;
              calls = for_each_chunk (sp_config sp) ranges
          in if \<not> all_ready (map fst calls) sp then Some (Inl Not_Resident, out, sp)
             else let (rs, sp) = pin_loop self calls \<lparr>rs_failure = Ok, rs_out = out, rs_pinned = 0\<rparr> sp
                  in Some (Inr (rs_pinned rs), rs_out rs, sp))"

subsection \<open>Demotion, drain and statistics\<close>

fun demote_chunks :: "u64 list \<Rightarrow> slot_pool \<Rightarrow> slot_pool" where
  "demote_chunks [] sp = sp"
| "demote_chunks (chunk # chunks) sp =
     (let i = sp_find chunk sp
      in demote_chunks chunks
           (if i \<noteq> NONE then upd_slot i (\<lambda>s. s\<lparr>slot_referenced := False\<rparr>) sp else sp))"

fun sp_wont_need :: "byte_range list \<Rightarrow> slot_pool \<Rightarrow> slot_pool" where
  "sp_wont_need [] sp = sp"
| "sp_wont_need (rng # ranges) sp =
     sp_wont_need ranges
       (if validate_range rng (sc_source_bytes (sp_config sp)) \<noteq> Ok then sp
        else demote_chunks (map fst (for_each_chunk (sp_config sp) [rng])) sp)"

definition sp_drain :: "bool \<Rightarrow> slot_pool \<Rightarrow> status option" where
  "sp_drain expired sp =
     (if sp_in_flight sp = 0 then Some Ok else if expired then Some Timeout else None)"

definition count_slot :: "slot \<Rightarrow> slot_pool_stats \<Rightarrow> slot_pool_stats" where
  "count_slot s c =
     c\<lparr>sps_slots_pinned := sps_slots_pinned c + (if slot_pins s \<noteq> 0 then 1 else 0),
       sps_slots_ready := sps_slots_ready c + (if slot_state s = Slot_Ready then 1 else 0),
       sps_slots_filling := sps_slots_filling c + (if slot_state s = Slot_Filling then 1 else 0)\<rparr>"

definition sp_stats :: "slot_pool \<Rightarrow> slot_pool_stats" where
  "sp_stats sp = fold count_slot (sp_slots sp) (sp_counters sp)"

end
