(* ===== verification/Slot_Pool_Inv.thy ===== *)
theory Slot_Pool_Inv
  imports Slot_Pool Chunk_Index_Inv
begin

text \<open>
  The invariant \<open>core_ok\<close> of the slots of a pool and of its chunk index, and its preservation by
  the slot operations of \<open>Slot_Pool\<close>: claiming a victim, starting a fill, completing it, pinning and
  unpinning. The index is used through the interface \<open>chunk_map\<close>.
\<close>

section \<open>Assignments\<close>

lemma upd_simps [simp]:
  "sp_slots (upd_slot i f sp) = (sp_slots sp)[i := f (sp_slots sp ! i)]"
  "sp_config (upd_slot i f sp) = sp_config sp"
  "sp_index (upd_slot i f sp) = sp_index sp"
  "sp_tickets (upd_slot i f sp) = sp_tickets sp"
  "sp_waiters (upd_slot i f sp) = sp_waiters sp"
  "sp_clock_hand (upd_slot i f sp) = sp_clock_hand sp"
  "sp_in_flight (upd_slot i f sp) = sp_in_flight sp"
  "sp_pins_total (upd_slot i f sp) = sp_pins_total sp"
  "sp_tickets_held (upd_slot i f sp) = sp_tickets_held sp"
  "sp_non_free (upd_slot i f sp) = sp_non_free sp"
  "sp_index_shift (upd_slot i f sp) = sp_index_shift sp"
  "sp_counters (upd_slot i f sp) = sp_counters sp"
  by (simp_all add: upd_slot_def)

lemma upd_ticket_simps [simp]:
  "sp_slots (upd_ticket i g sp) = sp_slots sp"
  "sp_config (upd_ticket i g sp) = sp_config sp"
  "sp_index (upd_ticket i g sp) = sp_index sp"
  "sp_tickets (upd_ticket i g sp) = (sp_tickets sp)[i := g (sp_tickets sp ! i)]"
  "sp_waiters (upd_ticket i g sp) = sp_waiters sp"
  "sp_clock_hand (upd_ticket i g sp) = sp_clock_hand sp"
  "sp_in_flight (upd_ticket i g sp) = sp_in_flight sp"
  "sp_pins_total (upd_ticket i g sp) = sp_pins_total sp"
  "sp_tickets_held (upd_ticket i g sp) = sp_tickets_held sp"
  "sp_non_free (upd_ticket i g sp) = sp_non_free sp"
  "sp_index_shift (upd_ticket i g sp) = sp_index_shift sp"
  "sp_counters (upd_ticket i g sp) = sp_counters sp"
  by (simp_all add: upd_ticket_def)

lemma upd_waiter_simps [simp]:
  "sp_slots (upd_waiter i h sp) = sp_slots sp"
  "sp_config (upd_waiter i h sp) = sp_config sp"
  "sp_index (upd_waiter i h sp) = sp_index sp"
  "sp_tickets (upd_waiter i h sp) = sp_tickets sp"
  "sp_waiters (upd_waiter i h sp) = (sp_waiters sp)[i := h (sp_waiters sp ! i)]"
  "sp_clock_hand (upd_waiter i h sp) = sp_clock_hand sp"
  "sp_in_flight (upd_waiter i h sp) = sp_in_flight sp"
  "sp_pins_total (upd_waiter i h sp) = sp_pins_total sp"
  "sp_tickets_held (upd_waiter i h sp) = sp_tickets_held sp"
  "sp_non_free (upd_waiter i h sp) = sp_non_free sp"
  "sp_index_shift (upd_waiter i h sp) = sp_index_shift sp"
  "sp_counters (upd_waiter i h sp) = sp_counters sp"
  by (simp_all add: upd_waiter_def)

lemma upd_counters_simps [simp]:
  "sp_slots (upd_counters k sp) = sp_slots sp"
  "sp_config (upd_counters k sp) = sp_config sp"
  "sp_index (upd_counters k sp) = sp_index sp"
  "sp_tickets (upd_counters k sp) = sp_tickets sp"
  "sp_waiters (upd_counters k sp) = sp_waiters sp"
  "sp_clock_hand (upd_counters k sp) = sp_clock_hand sp"
  "sp_in_flight (upd_counters k sp) = sp_in_flight sp"
  "sp_pins_total (upd_counters k sp) = sp_pins_total sp"
  "sp_tickets_held (upd_counters k sp) = sp_tickets_held sp"
  "sp_non_free (upd_counters k sp) = sp_non_free sp"
  "sp_index_shift (upd_counters k sp) = sp_index_shift sp"
  "sp_counters (upd_counters k sp) = k (sp_counters sp)"
  by (simp_all add: upd_counters_def)

lemma sp_index_op_simps [simp]:
  "sp_slots (sp_index_insert c i sp) = sp_slots sp" "sp_slots (sp_index_erase c sp) = sp_slots sp"
  "sp_config (sp_index_insert c i sp) = sp_config sp" "sp_config (sp_index_erase c sp) = sp_config sp"
  "sp_tickets (sp_index_insert c i sp) = sp_tickets sp" "sp_tickets (sp_index_erase c sp) = sp_tickets sp"
  "sp_waiters (sp_index_insert c i sp) = sp_waiters sp" "sp_waiters (sp_index_erase c sp) = sp_waiters sp"
  "sp_clock_hand (sp_index_insert c i sp) = sp_clock_hand sp"
  "sp_clock_hand (sp_index_erase c sp) = sp_clock_hand sp"
  "sp_in_flight (sp_index_insert c i sp) = sp_in_flight sp"
  "sp_in_flight (sp_index_erase c sp) = sp_in_flight sp"
  "sp_pins_total (sp_index_insert c i sp) = sp_pins_total sp"
  "sp_pins_total (sp_index_erase c sp) = sp_pins_total sp"
  "sp_tickets_held (sp_index_insert c i sp) = sp_tickets_held sp"
  "sp_tickets_held (sp_index_erase c sp) = sp_tickets_held sp"
  "sp_non_free (sp_index_insert c i sp) = sp_non_free sp"
  "sp_non_free (sp_index_erase c sp) = sp_non_free sp"
  "sp_index_shift (sp_index_insert c i sp) = sp_index_shift sp"
  "sp_index_shift (sp_index_erase c sp) = sp_index_shift sp"
  "sp_counters (sp_index_insert c i sp) = sp_counters sp"
  "sp_counters (sp_index_erase c sp) = sp_counters sp"
  by (simp_all add: sp_index_insert_def sp_index_erase_def split: option.splits)

section \<open>The effect of an operation on its slot\<close>

definition slot_live :: "slot \<Rightarrow> bool" where
  "slot_live s \<longleftrightarrow> slot_state s = Slot_Filling \<or> slot_state s = Slot_Ready"

definition freed :: "slot \<Rightarrow> slot" where
  "freed s = s\<lparr>slot_state := Slot_Free, slot_referenced := False, slot_hint_unconsumed := False\<rparr>"

definition filling :: "u64 \<Rightarrow> slot \<Rightarrow> slot" where
  "filling chunk s = s\<lparr>slot_chunk := chunk, slot_generation := slot_generation s + 1,
     slot_state := Slot_Filling, slot_waiter_head := NONE, slot_failure := Ok\<rparr>"

definition settled :: "status \<Rightarrow> slot \<Rightarrow> slot" where
  "settled status s =
     (if status = Ok then s\<lparr>slot_state := Slot_Ready\<rparr>
      else let s = s\<lparr>slot_state := Slot_Failed, slot_failure := status, slot_hint_unconsumed := False\<rparr>
           in if slot_pins s = 0 then freed s else s)"

definition unpinned :: "slot \<Rightarrow> slot" where
  "unpinned s =
     (let s = s\<lparr>slot_pins := slot_pins s - 1\<rparr>
      in if slot_pins s = 0 \<and> slot_state s = Slot_Failed then freed s else s)"

lemma freed_simps [simp]:
  "slot_chunk (freed s) = slot_chunk s" "slot_generation (freed s) = slot_generation s"
  "slot_pins (freed s) = slot_pins s" "slot_waiter_head (freed s) = slot_waiter_head s"
  "slot_state (freed s) = Slot_Free" "\<not> slot_referenced (freed s)"
  by (simp_all add: freed_def)

lemma filling_simps [simp]:
  "slot_chunk (filling c s) = c" "slot_generation (filling c s) = slot_generation s + 1"
  "slot_pins (filling c s) = slot_pins s" "slot_waiter_head (filling c s) = NONE"
  "slot_state (filling c s) = Slot_Filling"
  by (simp_all add: filling_def)

lemma settled_simps [simp]:
  "slot_chunk (settled st s) = slot_chunk s" "slot_generation (settled st s) = slot_generation s"
  "slot_pins (settled st s) = slot_pins s" "slot_waiter_head (settled st s) = slot_waiter_head s"
  "slot_state (settled st s) =
     (if st = Ok then Slot_Ready else if slot_pins s = 0 then Slot_Free else Slot_Failed)"
  by (simp_all add: settled_def Let_def)

lemma unpinned_simps [simp]:
  "slot_chunk (unpinned s) = slot_chunk s" "slot_generation (unpinned s) = slot_generation s"
  "slot_pins (unpinned s) = slot_pins s - 1" "slot_waiter_head (unpinned s) = slot_waiter_head s"
  "slot_failure (unpinned s) = slot_failure s"
  "slot_state (unpinned s) =
     (if slot_pins s - 1 = 0 \<and> slot_state s = Slot_Failed then Slot_Free else slot_state s)"
  by (simp_all add: unpinned_def Let_def freed_def)

section \<open>The invariant\<close>

definition config_ok :: "slot_pool_config \<Rightarrow> bool" where
  "config_ok config \<longleftrightarrow>
     0 < unat (sc_slot_bytes config) \<and> 0 < sc_num_slots config \<and> sc_num_slots config < NONE \<and>
     0 < unat (sc_source_bytes config) \<and> 0 < sc_max_tickets config \<and> sc_max_tickets config < NONE \<and>
     0 < sc_max_batch_chunks config \<and> sc_max_batch_chunks config * sc_max_tickets config < NONE \<and>
     sc_num_slots config * unat (sc_slot_bytes config) = unat (span_size (sc_slot_storage config))"

definition chunk_inside :: "slot_pool_config \<Rightarrow> u64 \<Rightarrow> bool" where
  "chunk_inside config chunk \<longleftrightarrow>
     unat chunk * unat (sc_slot_bytes config) < unat (sc_source_bytes config)"

definition slot_ok :: "slot_pool_config \<Rightarrow> slot \<Rightarrow> bool" where
  "slot_ok config s \<longleftrightarrow>
     (slot_state s = Slot_Free \<longrightarrow> slot_pins s = 0) \<and>
     (slot_state s = Slot_Failed \<longrightarrow> 0 < slot_pins s \<and> slot_failure s \<noteq> Ok) \<and>
     (slot_live s \<longrightarrow> chunk_inside config (slot_chunk s)) \<and>
     (slot_state s \<noteq> Slot_Filling \<longrightarrow> slot_waiter_head s = NONE)"

definition live_set :: "slot_pool \<Rightarrow> nat set" where
  "live_set sp = {i. i < length (sp_slots sp) \<and> slot_live (sp_slots sp ! i)}"

definition idx_ok :: "slot_pool \<Rightarrow> bool" where
  "idx_ok sp \<longleftrightarrow>
     index_ok (sp_index sp) (slot_key sp) (sp_index_shift sp) \<and>
     entries (sp_index sp) = live_set sp \<and>
     2 * length (sp_slots sp) \<le> length (sp_index sp) \<and> length (sp_slots sp) < NONE"

definition slot_sum :: "(slot \<Rightarrow> nat) \<Rightarrow> slot list \<Rightarrow> nat" where
  "slot_sum w ss = sum_list (map w ss)"

definition non_free_w :: "slot \<Rightarrow> nat" where
  "non_free_w s = (if slot_state s \<noteq> Slot_Free then 1 else 0)"

definition filling_w :: "slot \<Rightarrow> nat" where
  "filling_w s = (if slot_state s = Slot_Filling then 1 else 0)"

definition core_ok :: "slot_pool \<Rightarrow> bool" where
  "core_ok sp \<longleftrightarrow>
     config_ok (sp_config sp) \<and>
     length (sp_slots sp) = sc_num_slots (sp_config sp) \<and>
     sp_clock_hand sp < sc_num_slots (sp_config sp) \<and>
     (\<forall>s \<in> set (sp_slots sp). slot_ok (sp_config sp) s) \<and>
     idx_ok sp \<and>
     sp_non_free sp = slot_sum non_free_w (sp_slots sp) \<and>
     sp_in_flight sp = slot_sum filling_w (sp_slots sp) \<and>
     sp_pins_total sp = slot_sum slot_pins (sp_slots sp)"

lemma slot_sum_update:
  "i < length ss \<Longrightarrow> slot_sum w (ss[i := s]) + w (ss ! i) = slot_sum w ss + w s"
proof (induction ss arbitrary: i)
  case (Cons a ss)
  then show ?case
    by (cases i) (auto simp: slot_sum_def)
qed simp

lemma slot_sum_0_iff: "slot_sum w ss = 0 \<longleftrightarrow> (\<forall>s \<in> set ss. w s = 0)"
  by (simp add: slot_sum_def)

lemma slot_sum_replicate [simp]: "slot_sum w (replicate n s) = n * w s"
  by (simp add: slot_sum_def sum_list_replicate)

lemma core_okD:
  assumes "core_ok sp"
  shows "config_ok (sp_config sp)" "length (sp_slots sp) = sc_num_slots (sp_config sp)"
    "sp_clock_hand sp < sc_num_slots (sp_config sp)" "idx_ok sp"
    "sp_non_free sp = slot_sum non_free_w (sp_slots sp)"
    "sp_in_flight sp = slot_sum filling_w (sp_slots sp)"
    "sp_pins_total sp = slot_sum slot_pins (sp_slots sp)"
    "i < length (sp_slots sp) \<Longrightarrow> slot_ok (sp_config sp) (sp_slots sp ! i)"
  using assms by (auto simp: core_ok_def)

text \<open>An operation on one slot, with the counters moved along.\<close>

lemma core_step:
  assumes ok: "core_ok sp" and i: "i < length (sp_slots sp)"
    and slots: "sp_slots sp' = (sp_slots sp)[i := s]" and cfg: "sp_config sp' = sp_config sp"
    and hand: "sp_clock_hand sp' < sc_num_slots (sp_config sp)"
    and s: "slot_ok (sp_config sp) s" and idx: "idx_ok sp'"
    and nf: "sp_non_free sp' + non_free_w (sp_slots sp ! i) = sp_non_free sp + non_free_w s"
    and fl: "sp_in_flight sp' + filling_w (sp_slots sp ! i) = sp_in_flight sp + filling_w s"
    and pt: "sp_pins_total sp' + slot_pins (sp_slots sp ! i) = sp_pins_total sp + slot_pins s"
  shows "core_ok sp'"
proof -
  have "\<forall>x \<in> set (sp_slots sp'). slot_ok (sp_config sp) x"
    using ok s by (auto simp: slots core_ok_def dest: set_update_subset_insert [THEN subsetD])
  then show ?thesis
    using core_okD [OF ok] hand idx nf fl pt
      slot_sum_update [OF i, of non_free_w s] slot_sum_update [OF i, of filling_w s]
      slot_sum_update [OF i, of slot_pins s]
    unfolding core_ok_def cfg slots length_list_update by auto
qed

section \<open>The chunk index of the pool\<close>

lemma finite_live_set [simp]: "finite (live_set sp)"
  by (simp add: live_set_def)

lemma idx_ok_same:
  assumes ok: "idx_ok sp" and ix: "sp_index sp' = sp_index sp" "sp_index_shift sp' = sp_index_shift sp"
    and len: "length (sp_slots sp') = length (sp_slots sp)"
    and live: "\<And>i. i < length (sp_slots sp) \<Longrightarrow> slot_live (sp_slots sp' ! i) = slot_live (sp_slots sp ! i)"
    and chunk: "\<And>i. i < length (sp_slots sp) \<Longrightarrow> slot_live (sp_slots sp ! i) \<Longrightarrow>
      slot_chunk (sp_slots sp' ! i) = slot_chunk (sp_slots sp ! i)"
  shows "idx_ok sp'"
proof -
  have "live_set sp' = live_set sp"
    using live by (auto simp: live_set_def len)
  moreover have "index_ok (sp_index sp) (slot_key sp') (sp_index_shift sp)"
    using ok chunk by (intro ci.ok_cong [of "sp_index sp" "slot_key sp" "slot_key sp'"])
      (auto simp: idx_ok_def live_set_def slot_key_def)
  ultimately show ?thesis
    using ok by (simp add: idx_ok_def ix len)
qed

lemma idx_ok_upd:
  assumes ok: "idx_ok sp" and ix: "sp_index sp' = sp_index sp" "sp_index_shift sp' = sp_index_shift sp"
    and slots: "sp_slots sp' = (sp_slots sp)[i := s]"
    and s: "slot_live s = slot_live (sp_slots sp ! i)" "slot_chunk s = slot_chunk (sp_slots sp ! i)"
  shows "idx_ok sp'"
  using ok ix
proof (rule idx_ok_same)
  fix j
  assume "j < length (sp_slots sp)"
  then show "slot_live (sp_slots sp' ! j) = slot_live (sp_slots sp ! j)"
    "slot_chunk (sp_slots sp' ! j) = slot_chunk (sp_slots sp ! j)"
    using s by (auto simp: slots nth_upd)
qed (simp add: slots)

lemma idx_ok_erase:
  assumes ok: "idx_ok sp" and i: "i \<in> live_set sp"
    and ix: "sp_index sp' = sp_index (sp_index_erase (slot_chunk (sp_slots sp ! i)) sp)"
      "sp_index_shift sp' = sp_index_shift sp"
    and slots: "sp_slots sp' = (sp_slots sp)[i := s]" and s: "\<not> slot_live s"
  shows "idx_ok sp'"
proof -
  obtain ix' where ix': "index_erase (sp_index sp) (slot_key sp) (sp_index_shift sp) (slot_key sp i) = Some ix'"
    "index_ok ix' (slot_key sp) (sp_index_shift sp)" "entries ix' = entries (sp_index sp) - {i}"
    "length ix' = length (sp_index sp)"
    using ci.del_member [of "sp_index sp" "slot_key sp" "sp_index_shift sp" i] ok i
    by (auto simp: idx_ok_def)
  have eq: "sp_index sp' = ix'"
    using ix(1) ix'(1) by (simp add: sp_index_erase_def slot_key_def)
  have "live_set sp' = live_set sp - {i}"
    using s by (auto simp: live_set_def slots nth_upd split: if_splits)
  moreover have "index_ok ix' (slot_key sp') (sp_index_shift sp)"
    using ix'(2,3) by (intro ci.ok_cong [of ix' "slot_key sp" "slot_key sp'"]) (auto simp: slot_key_def slots)
  ultimately show ?thesis
    using ok ix' by (simp add: idx_ok_def eq ix(2) slots)
qed

lemma idx_ok_insert:
  assumes ok: "idx_ok sp" and i: "i < length (sp_slots sp)" "i \<notin> live_set sp"
    and fresh: "\<And>j. j \<in> live_set sp \<Longrightarrow> slot_chunk (sp_slots sp ! j) \<noteq> c"
    and ix: "sp_index sp' = sp_index (sp_index_insert c i sp)" "sp_index_shift sp' = sp_index_shift sp"
    and slots: "sp_slots sp' = (sp_slots sp)[i := s]" and s: "slot_live s" "slot_chunk s = c"
  shows "idx_ok sp'"
proof -
  have "live_set sp \<subset> {..<length (sp_slots sp)}"
    using i by (auto simp: live_set_def)
  then have "card (live_set sp) < length (sp_slots sp)"
    using psubset_card_mono [of "{..<length (sp_slots sp)}"] by simp
  then have room: "card (entries (sp_index sp)) + 1 < length (sp_index sp)"
    using ok by (simp add: idx_ok_def)
  have key: "slot_key sp' j = (if j = i then c else slot_key sp j)" for j
    using i s by (simp add: slot_key_def slots nth_upd)
  have ok': "index_ok (sp_index sp) (slot_key sp') (sp_index_shift sp)"
    using ok i by (intro ci.ok_cong [of "sp_index sp" "slot_key sp" "slot_key sp'"])
      (auto simp: key idx_ok_def)
  have fresh': "slot_key sp' t \<noteq> slot_key sp' i" if "t \<in> entries (sp_index sp)" for t
  proof -
    have t: "t \<in> live_set sp"
      using ok that by (simp add: idx_ok_def)
    then have "slot_key sp t \<noteq> c" "t \<noteq> i"
      using fresh [OF t] i(2) by (auto simp: slot_key_def)
    then show ?thesis
      by (simp add: key)
  qed
  have "i \<noteq> NONE"
    using ok i by (auto simp: idx_ok_def)
  then obtain ix' where ix': "index_insert (sp_index sp) (sp_index_shift sp) (slot_key sp' i) i = Some ix'"
    "index_ok ix' (slot_key sp') (sp_index_shift sp)" "entries ix' = insert i (entries (sp_index sp))"
    "length ix' = length (sp_index sp)"
    using ci.ins_member [OF ok' fresh' _ room] by auto
  have eq: "sp_index sp' = ix'"
    using ix(1) ix'(1) by (simp add: sp_index_insert_def key)
  have "live_set sp' = insert i (live_set sp)"
    using i s by (auto simp: live_set_def slots nth_upd)
  then show ?thesis
    using ok ix' by (simp add: idx_ok_def eq ix(2) slots)
qed

lemma sp_find_live:
  assumes "idx_ok sp" "sp_find c sp \<noteq> NONE"
  shows "sp_find c sp < length (sp_slots sp)" "slot_live (sp_slots sp ! sp_find c sp)"
    "slot_chunk (sp_slots sp ! sp_find c sp) = c"
proof -
  have ok: "index_ok (sp_index sp) (slot_key sp) (sp_index_shift sp)"
    using assms(1) by (simp add: idx_ok_def)
  have "sp_find c sp \<in> live_set sp \<and> slot_key sp (sp_find c sp) = c"
    using ok
  proof (rule ci.find_cases [of "sp_index sp" "slot_key sp" "sp_index_shift sp" c])
  qed (use assms in \<open>auto simp: sp_find_def idx_ok_def\<close>)
  then show "sp_find c sp < length (sp_slots sp)" "slot_live (sp_slots sp ! sp_find c sp)"
    "slot_chunk (sp_slots sp ! sp_find c sp) = c"
    by (auto simp: live_set_def slot_key_def)
qed

lemma sp_find_iff:
  assumes "idx_ok sp"
  shows "sp_find c sp = NONE \<longleftrightarrow> (\<forall>i \<in> live_set sp. slot_chunk (sp_slots sp ! i) \<noteq> c)"
proof -
  have ok: "index_ok (sp_index sp) (slot_key sp) (sp_index_shift sp)"
    and e: "entries (sp_index sp) = live_set sp"
    using assms by (simp_all add: idx_ok_def)
  show ?thesis
    using ok
  proof (rule ci.find_cases [of "sp_index sp" "slot_key sp" "sp_index_shift sp" c])
  qed (auto simp: sp_find_def e slot_key_def)
qed

lemma sp_find_unique:
  assumes "idx_ok sp" "i \<in> live_set sp"
  shows "sp_find (slot_chunk (sp_slots sp ! i)) sp = i"
  using ci.find_member [of "sp_index sp" "slot_key sp" "sp_index_shift sp" i] assms
  by (simp add: sp_find_def idx_ok_def slot_key_def)

lemma live_chunks_distinct:
  "idx_ok sp \<Longrightarrow> i \<in> live_set sp \<Longrightarrow> j \<in> live_set sp \<Longrightarrow>
     slot_chunk (sp_slots sp ! i) = slot_chunk (sp_slots sp ! j) \<Longrightarrow> i = j"
  using sp_find_unique by metis

section \<open>Claiming a victim\<close>

lemma make_free_simps [simp]:
  "sp_slots (make_free i sp) = (sp_slots sp)[i := freed (sp_slots sp ! i)]"
  "sp_config (make_free i sp) = sp_config sp"
  "sp_tickets (make_free i sp) = sp_tickets sp"
  "sp_waiters (make_free i sp) = sp_waiters sp"
  "sp_clock_hand (make_free i sp) = sp_clock_hand sp"
  "sp_in_flight (make_free i sp) = sp_in_flight sp"
  "sp_pins_total (make_free i sp) = sp_pins_total sp"
  "sp_tickets_held (make_free i sp) = sp_tickets_held sp"
  "sp_index_shift (make_free i sp) = sp_index_shift sp"
  "sp_counters (make_free i sp) = sp_counters sp"
  "sp_non_free (make_free i sp) =
     (if slot_state (sp_slots sp ! i) \<noteq> Slot_Free then sp_non_free sp - 1 else sp_non_free sp)"
  "sp_index (make_free i sp) =
     (if slot_live (sp_slots sp ! i) then sp_index (sp_index_erase (slot_chunk (sp_slots sp ! i)) sp)
      else sp_index sp)"
  by (simp_all add: make_free_def Let_def freed_def slot_live_def)

lemma slot_sum_ge: "i < length ss \<Longrightarrow> w (ss ! i) \<le> slot_sum w ss"
  by (simp add: slot_sum_def member_le_sum_list)

lemma slot_sum_pos: "i < length ss \<Longrightarrow> 0 < w (ss ! i) \<Longrightarrow> 0 < slot_sum w ss"
  using slot_sum_ge [of i ss w] by simp

lemma slot_ok_nth: "core_ok sp \<Longrightarrow> i < length (sp_slots sp) \<Longrightarrow> slot_ok (sp_config sp) (sp_slots sp ! i)"
  by (auto simp: core_ok_def)

text \<open>Freeing a ready slot without pins.\<close>

lemma make_free_core:
  assumes ok: "core_ok sp" and i: "i < length (sp_slots sp)"
    and s: "slot_state (sp_slots sp ! i) = Slot_Ready" "slot_pins (sp_slots sp ! i) = 0"
  shows "core_ok (make_free i sp)"
proof (rule core_step [OF ok i])
  have live: "i \<in> live_set sp"
    using i s by (simp add: live_set_def slot_live_def)
  show "idx_ok (make_free i sp)"
    by (rule idx_ok_erase [OF core_okD(4) [OF ok] live])
      (use live in \<open>auto simp: live_set_def slot_live_def\<close>)
  show "sp_non_free (make_free i sp) + non_free_w (sp_slots sp ! i) = sp_non_free sp + non_free_w (freed (sp_slots sp ! i))"
    using slot_sum_pos [OF i, of non_free_w] core_okD(5) [OF ok] s by (simp add: non_free_w_def)
qed (use slot_ok_nth [OF ok i] s core_okD [OF ok] in \<open>simp_all add: slot_ok_def slot_live_def filling_w_def\<close>)

text \<open>
  What a sweep may change: it clears reference bits and frees ready slots without pins; it touches
  neither pins nor generations nor chunks, nor a slot that is being filled or has failed.
\<close>

definition sweep_frame :: "slot_pool \<Rightarrow> slot_pool \<Rightarrow> bool" where
  "sweep_frame sp sp' \<longleftrightarrow>
     sp_config sp' = sp_config sp \<and> sp_tickets sp' = sp_tickets sp \<and> sp_waiters sp' = sp_waiters sp \<and>
     sp_in_flight sp' = sp_in_flight sp \<and> sp_pins_total sp' = sp_pins_total sp \<and>
     sp_tickets_held sp' = sp_tickets_held sp \<and>
     length (sp_slots sp') = length (sp_slots sp) \<and>
     (\<forall>j < length (sp_slots sp).
        slot_pins (sp_slots sp' ! j) = slot_pins (sp_slots sp ! j) \<and>
        slot_generation (sp_slots sp' ! j) = slot_generation (sp_slots sp ! j) \<and>
        slot_chunk (sp_slots sp' ! j) = slot_chunk (sp_slots sp ! j) \<and>
        slot_waiter_head (sp_slots sp' ! j) = slot_waiter_head (sp_slots sp ! j) \<and>
        (slot_state (sp_slots sp' ! j) = slot_state (sp_slots sp ! j) \<or>
         slot_state (sp_slots sp ! j) = Slot_Ready \<and> slot_pins (sp_slots sp ! j) = 0 \<and>
         slot_state (sp_slots sp' ! j) = Slot_Free))"

lemma sweep_frame_refl [simp]: "sweep_frame sp sp"
  by (simp add: sweep_frame_def)

lemma sweep_frame_trans: "sweep_frame a b \<Longrightarrow> sweep_frame b c \<Longrightarrow> sweep_frame a c"
  unfolding sweep_frame_def by (metis slot_state.distinct)

definition unreferenced :: "slot \<Rightarrow> slot" where
  "unreferenced s = s\<lparr>slot_referenced := False\<rparr>"

lemma unreferenced_simps [simp]:
  "slot_chunk (unreferenced s) = slot_chunk s" "slot_generation (unreferenced s) = slot_generation s"
  "slot_pins (unreferenced s) = slot_pins s" "slot_waiter_head (unreferenced s) = slot_waiter_head s"
  "slot_state (unreferenced s) = slot_state s" "slot_failure (unreferenced s) = slot_failure s"
  "slot_live (unreferenced s) = slot_live s" "slot_ok config (unreferenced s) = slot_ok config s"
  "non_free_w (unreferenced s) = non_free_w s" "filling_w (unreferenced s) = filling_w s"
  by (simp_all add: unreferenced_def slot_live_def slot_ok_def non_free_w_def filling_w_def)

text \<open>Operations that change no slot, or only a reference bit.\<close>

lemma core_ok_slots_same:
  assumes "core_ok sp" "sp_slots sp' = sp_slots sp" "sp_config sp' = sp_config sp"
    "sp_clock_hand sp' < sc_num_slots (sp_config sp)" "sp_index sp' = sp_index sp"
    "sp_index_shift sp' = sp_index_shift sp" "sp_non_free sp' = sp_non_free sp"
    "sp_in_flight sp' = sp_in_flight sp" "sp_pins_total sp' = sp_pins_total sp"
  shows "core_ok sp'"
  using assms idx_ok_same [of sp sp'] by (auto simp: core_ok_def)

lemma core_ok_same_slot:
  assumes ok: "core_ok sp" and i: "i < length (sp_slots sp)"
    and slots: "sp_slots sp' = (sp_slots sp)[i := s]" "sp_config sp' = sp_config sp"
      "sp_clock_hand sp' = sp_clock_hand sp" "sp_index sp' = sp_index sp"
      "sp_index_shift sp' = sp_index_shift sp" "sp_non_free sp' = sp_non_free sp"
      "sp_in_flight sp' = sp_in_flight sp" "sp_pins_total sp' = sp_pins_total sp"
    and s: "slot_state s = slot_state (sp_slots sp ! i)" "slot_chunk s = slot_chunk (sp_slots sp ! i)"
      "slot_pins s = slot_pins (sp_slots sp ! i)" "slot_failure s = slot_failure (sp_slots sp ! i)"
      "slot_state s \<noteq> Slot_Filling \<longrightarrow> slot_waiter_head s = NONE"
  shows "core_ok sp'"
proof (rule core_step [OF ok i slots(1,2)])
  show "idx_ok sp'"
    by (rule idx_ok_upd [OF core_okD(4) [OF ok] slots(4,5,1)]) (simp_all add: s slot_live_def)
qed (use slots s core_okD(3) [OF ok] slot_ok_nth [OF ok i] in
      \<open>simp_all add: slot_ok_def slot_live_def non_free_w_def filling_w_def\<close>)

lemma victim_loop_core:
  assumes "core_ok sp"
  shows "victim_loop steps admission sp = (i, sp') \<Longrightarrow>
     core_ok sp' \<and> sweep_frame sp sp' \<and>
     (i = NONE \<or> i < length (sp_slots sp) \<and> slot_state (sp_slots sp' ! i) = Slot_Free)"
  using assms
proof (induction steps arbitrary: sp)
  case 0
  then show ?case by simp
next
  case (Suc steps)
  let ?h = "sp_clock_hand sp" and ?n = "sc_num_slots (sp_config sp)"
  let ?sp = "sp\<lparr>sp_clock_hand := if ?h + 1 = ?n then 0 else ?h + 1\<rparr>"
  let ?s = "sp_slots sp ! ?h"
  note ok = Suc.prems(2)
  have h: "?h < length (sp_slots sp)"
    using core_okD(2,3) [OF ok] by simp
  have ok1: "core_ok ?sp"
    using ok by (rule core_ok_slots_same) (use core_okD(3) [OF ok] in auto)
  have frame1: "sweep_frame sp ?sp"
    by (simp add: sweep_frame_def)
  have goon: ?case if step: "victim_loop steps admission sp1 = (i, sp')" and ok1: "core_ok sp1"
    and fr: "sweep_frame sp sp1" for sp1
  proof -
    have "length (sp_slots sp1) = length (sp_slots sp)"
      using fr by (simp add: sweep_frame_def)
    then show ?thesis
      using Suc.IH [OF step ok1] sweep_frame_trans [OF fr] by auto
  qed
  consider "slot_pins ?s \<noteq> 0" | "slot_pins ?s = 0" "slot_state ?s = Slot_Free"
    | "slot_pins ?s = 0" "slot_state ?s \<noteq> Slot_Free" "slot_state ?s \<noteq> Slot_Ready"
    | "slot_pins ?s = 0" "slot_state ?s = Slot_Ready" "slot_referenced ?s"
    | "slot_pins ?s = 0" "slot_state ?s = Slot_Ready" "\<not> slot_referenced ?s"
    by blast
  then show ?case
  proof cases
    case 1
    then show ?thesis
      using Suc.prems(1) by (intro goon [OF _ ok1 frame1]) (simp add: Let_def)
  next
    case 2
    then have "i = ?h" "sp' = ?sp"
      using Suc.prems(1) by (auto simp: Let_def)
    then show ?thesis
      using ok1 frame1 h 2 by simp
  next
    case 3
    then show ?thesis
      using Suc.prems(1) by (intro goon [OF _ ok1 frame1]) (simp add: Let_def)
  next
    case 4
    let ?sp1 = "if admission = Declared then upd_slot ?h (\<lambda>s. s\<lparr>slot_referenced := False\<rparr>) ?sp else ?sp"
    have "victim_loop steps admission ?sp1 = (i, sp')"
      using Suc.prems(1) 4 by (auto simp: Let_def split: if_splits)
    moreover have "core_ok ?sp1"
    proof (cases "admission = Declared")
      case True
      have "core_ok (upd_slot ?h (\<lambda>s. s\<lparr>slot_referenced := False\<rparr>) ?sp)"
        using slot_ok_nth [OF ok h] h
        by (intro core_ok_same_slot [OF ok1, where i = ?h and s = "unreferenced ?s"])
          (simp_all add: slot_ok_def, simp_all add: unreferenced_def)
      with True show ?thesis by simp
    qed (use ok1 in simp)
    moreover have "sweep_frame sp ?sp1"
      by (auto simp: sweep_frame_def nth_upd)
    ultimately show ?thesis
      by (rule goon)
  next
    case 5
    let ?c1 = "upd_counters (\<lambda>c. c\<lparr>sps_evictions := sps_evictions c + 1\<rparr>) ?sp"
    let ?c2 = "if slot_hint_unconsumed ?s
      then upd_counters (\<lambda>c. c\<lparr>sps_hint_unconsumed := sps_hint_unconsumed c + 1\<rparr>) ?c1 else ?c1"
    have eq: "i = ?h" "sp' = make_free ?h ?c2"
      using Suc.prems(1) 5 by (auto simp: Let_def split: if_splits)
    have same: "sp_slots ?c2 = sp_slots sp" "sp_config ?c2 = sp_config sp"
      by simp_all
    have "core_ok ?c2"
      using ok by (rule core_ok_slots_same) (use core_okD(3) [OF ok] in auto)
    then have "core_ok (make_free ?h ?c2)"
      using h 5 by (intro make_free_core) (simp_all add: same)
    moreover have "sweep_frame sp (make_free ?h ?c2)"
      using 5 h by (auto simp: sweep_frame_def nth_upd)
    ultimately show ?thesis
      using h unfolding eq by (simp add: same)
  qed
qed

lemma claim_victim_core:
  assumes "core_ok sp" "claim_victim admission sp = (i, sp')"
  shows "core_ok sp'" "sweep_frame sp sp'"
    "i \<noteq> NONE \<Longrightarrow> i < length (sp_slots sp) \<and> slot_state (sp_slots sp' ! i) = Slot_Free"
  using victim_loop_core [OF assms(1), of _ admission i sp'] assms(2)
  by (auto simp: claim_victim_def Let_def)

lemma sweep_live: "sweep_frame sp sp' \<Longrightarrow> live_set sp' \<subseteq> live_set sp"
  unfolding sweep_frame_def live_set_def slot_live_def by fastforce

lemma sweep_absent:
  assumes "core_ok sp" "core_ok sp'" "sweep_frame sp sp'" "sp_find c sp = NONE"
  shows "sp_find c sp' = NONE"
proof -
  have "slot_chunk (sp_slots sp' ! i) \<noteq> c" if "i \<in> live_set sp'" for i
  proof -
    have i: "i \<in> live_set sp"
      using that sweep_live [OF assms(3)] by auto
    then have "slot_chunk (sp_slots sp ! i) \<noteq> c"
      using assms(4) sp_find_iff [OF core_okD(4) [OF assms(1)]] by auto
    then show ?thesis
      using i assms(3) by (simp add: sweep_frame_def live_set_def)
  qed
  then show ?thesis
    using sp_find_iff [OF core_okD(4) [OF assms(2)]] by simp
qed

section \<open>Starting a fill\<close>

lemma begin_fill_simps [simp]:
  "sp_slots (begin_fill i c sp) = (sp_slots sp)[i := filling c (sp_slots sp ! i)]"
  "sp_config (begin_fill i c sp) = sp_config sp"
  "sp_index (begin_fill i c sp) = sp_index (sp_index_insert c i sp)"
  "sp_tickets (begin_fill i c sp) = sp_tickets sp"
  "sp_waiters (begin_fill i c sp) = sp_waiters sp"
  "sp_clock_hand (begin_fill i c sp) = sp_clock_hand sp"
  "sp_in_flight (begin_fill i c sp) = sp_in_flight sp"
  "sp_pins_total (begin_fill i c sp) = sp_pins_total sp"
  "sp_tickets_held (begin_fill i c sp) = sp_tickets_held sp"
  "sp_non_free (begin_fill i c sp) = sp_non_free sp + 1"
  "sp_index_shift (begin_fill i c sp) = sp_index_shift sp"
  by (simp_all add: begin_fill_def Let_def filling_def sp_index_insert_def split: option.splits)

definition fill_effect :: "bool \<Rightarrow> u64 \<Rightarrow> slot \<Rightarrow> slot" where
  "fill_effect accepted c s = (if accepted then filling c s else freed (filling c s))"

text \<open>What an operation on the slots leaves alone: the tickets and the lists of waiters.\<close>

definition heads :: "slot_pool \<Rightarrow> nat list" where
  "heads sp = map slot_waiter_head (sp_slots sp)"

definition rest_same :: "slot_pool \<Rightarrow> slot_pool \<Rightarrow> bool" where
  "rest_same sp sp' \<longleftrightarrow>
     sp_config sp' = sp_config sp \<and> sp_tickets sp' = sp_tickets sp \<and> sp_waiters sp' = sp_waiters sp \<and>
     sp_tickets_held sp' = sp_tickets_held sp \<and> heads sp' = heads sp"

lemma heads_update:
  assumes "sp_slots sp' = (sp_slots sp)[i := s]" "slot_waiter_head s = slot_waiter_head (sp_slots sp ! i)"
  shows "heads sp' = heads sp"
  using assms by (cases "i < length (sp_slots sp)") (simp_all add: heads_def map_update list_update_same_conv list_update_beyond)

lemma heads_same: "sp_slots sp' = sp_slots sp \<Longrightarrow> heads sp' = heads sp"
  by (simp add: heads_def)

lemma heads_frame:
  assumes "length (sp_slots sp') = length (sp_slots sp)"
    "\<And>j. j < length (sp_slots sp) \<Longrightarrow> slot_waiter_head (sp_slots sp' ! j) = slot_waiter_head (sp_slots sp ! j)"
  shows "heads sp' = heads sp"
  using assms by (simp add: heads_def list_eq_iff_nth_eq)

lemma idx_ok_begin:
  assumes ok: "idx_ok sp" and i: "i < length (sp_slots sp)" "\<not> slot_live (sp_slots sp ! i)"
    and absent: "sp_find c sp = NONE"
  shows "idx_ok (begin_fill i c sp)"
proof (rule idx_ok_insert [OF ok i(1), where s = "filling c (sp_slots sp ! i)"])
  show "i \<notin> live_set sp"
    using i by (simp add: live_set_def)
  show "slot_chunk (sp_slots sp ! j) \<noteq> c" if "j \<in> live_set sp" for j
    using sp_find_iff [OF ok] absent that by auto
qed (simp_all add: slot_live_def)

lemma start_fill_core:
  assumes ok: "core_ok sp" and i: "i < length (sp_slots sp)" "slot_state (sp_slots sp ! i) = Slot_Free"
    and c: "sp_find c sp = NONE" "chunk_inside (sp_config sp) c"
    and run: "start_fill submit self i c sp b = (st, sp', b')"
  obtains accepted where
    "submit (sp_request (begin_fill i c sp) self i c) b = (accepted, b')"
    "st = (if accepted then Ok else Queue_Exhausted)"
    "sp_slots sp' = (sp_slots sp)[i := fill_effect accepted c (sp_slots sp ! i)]"
    "core_ok sp'" "rest_same sp sp'"
proof -
  let ?sp = "begin_fill i c sp"
  obtain accepted b1 where sub: "submit (sp_request ?sp self i c) b = (accepted, b1)"
    by (cases "submit (sp_request ?sp self i c) b")
  have idx: "idx_ok ?sp"
    using core_okD(4) [OF ok] i c(1) by (intro idx_ok_begin) (simp_all add: slot_live_def)
  have pins: "slot_pins (sp_slots sp ! i) = 0" and head: "slot_waiter_head (sp_slots sp ! i) = NONE"
    using slot_ok_nth [OF ok i(1)] i(2) by (simp_all add: slot_ok_def)
  show thesis
  proof (cases accepted)
    case True
    let ?sp' = "?sp\<lparr>sp_in_flight := sp_in_flight ?sp + 1\<rparr>"
    have sp': "sp' = ?sp'" "b' = b1" "st = Ok"
      using run sub True by (simp_all add: start_fill_def Let_def)
    have "core_ok ?sp'"
    proof (rule core_step [OF ok i(1), of _ "filling c (sp_slots sp ! i)"])
      show "idx_ok ?sp'"
        using idx by (rule idx_ok_same) simp_all
    qed (use core_okD [OF ok] c(2) i(2) pins in
          \<open>simp_all add: slot_ok_def slot_live_def non_free_w_def filling_w_def\<close>)
    then show thesis
      using True sub heads_update [of ?sp' sp i "filling c (sp_slots sp ! i)"] head
      by (intro that [of True]) (simp_all add: sp' fill_effect_def rest_same_def)
  next
    case False
    let ?sp' = "make_free i ?sp"
    have sp': "sp' = ?sp'" "b' = b1" "st = Queue_Exhausted"
      using run sub False by (simp_all add: start_fill_def Let_def)
    have "core_ok ?sp'"
    proof (rule core_step [OF ok i(1), of _ "freed (filling c (sp_slots sp ! i))"])
      show "idx_ok ?sp'"
        using idx i(1) by (intro idx_ok_erase [of ?sp i ?sp' "freed (filling c (sp_slots sp ! i))"])
          (simp_all add: live_set_def slot_live_def)
    qed (use core_okD [OF ok] c(2) i pins in
          \<open>simp_all add: slot_ok_def slot_live_def non_free_w_def filling_w_def\<close>)
    then show thesis
      using False sub i(1) heads_update [of ?sp' sp i "freed (filling c (sp_slots sp ! i))"] head
      by (intro that [of False]) (simp_all add: sp' fill_effect_def rest_same_def)
  qed
qed

section \<open>Completing a fill\<close>

lemma settle_waiter_simps [simp]:
  "sp_slots (settle_waiter e st sp) = sp_slots sp"
  "sp_config (settle_waiter e st sp) = sp_config sp"
  "sp_index (settle_waiter e st sp) = sp_index sp"
  "sp_clock_hand (settle_waiter e st sp) = sp_clock_hand sp"
  "sp_in_flight (settle_waiter e st sp) = sp_in_flight sp"
  "sp_pins_total (settle_waiter e st sp) = sp_pins_total sp"
  "sp_tickets_held (settle_waiter e st sp) = sp_tickets_held sp"
  "sp_non_free (settle_waiter e st sp) = sp_non_free sp"
  "sp_index_shift (settle_waiter e st sp) = sp_index_shift sp"
  "sp_counters (settle_waiter e st sp) = sp_counters sp"
  by (simp_all add: settle_waiter_def Let_def)

lemma drain_waiters_simps [simp]:
  "sp_slots (drain_waiters e st sp) = sp_slots sp"
  "sp_config (drain_waiters e st sp) = sp_config sp"
  "sp_index (drain_waiters e st sp) = sp_index sp"
  "sp_clock_hand (drain_waiters e st sp) = sp_clock_hand sp"
  "sp_in_flight (drain_waiters e st sp) = sp_in_flight sp"
  "sp_pins_total (drain_waiters e st sp) = sp_pins_total sp"
  "sp_tickets_held (drain_waiters e st sp) = sp_tickets_held sp"
  "sp_non_free (drain_waiters e st sp) = sp_non_free sp"
  "sp_index_shift (drain_waiters e st sp) = sp_index_shift sp"
  "sp_counters (drain_waiters e st sp) = sp_counters sp"
  by (induction e st sp rule: drain_waiters.induct; subst drain_waiters.simps; simp)+

text \<open>The slots, index and counts after a delivery, before the waiters are settled.\<close>

definition complete_slot :: "nat \<Rightarrow> status \<Rightarrow> fill_result \<Rightarrow> slot_pool \<Rightarrow> slot_pool" where
  "complete_slot i status result sp =
     (let sp = sp\<lparr>sp_in_flight := sp_in_flight sp - 1\<rparr>
      in if status = Ok then complete_ok i result sp else complete_failed i status sp)"

lemma complete_slot_simps [simp]:
  "sp_config (complete_slot i st result sp) = sp_config sp"
  "sp_tickets (complete_slot i st result sp) = sp_tickets sp"
  "sp_waiters (complete_slot i st result sp) = sp_waiters sp"
  "sp_clock_hand (complete_slot i st result sp) = sp_clock_hand sp"
  "sp_in_flight (complete_slot i st result sp) = sp_in_flight sp - 1"
  "sp_pins_total (complete_slot i st result sp) = sp_pins_total sp"
  "sp_tickets_held (complete_slot i st result sp) = sp_tickets_held sp"
  "sp_index_shift (complete_slot i st result sp) = sp_index_shift sp"
  by (simp_all add: complete_slot_def complete_ok_def complete_failed_def Let_def)

lemma complete_slot_slots:
  "i < length (sp_slots sp) \<Longrightarrow>
     sp_slots (complete_slot i st result sp) = (sp_slots sp)[i := settled st (sp_slots sp ! i)]"
  by (simp add: complete_slot_def complete_ok_def complete_failed_def settled_def freed_def Let_def)

lemma slot_key_other: "sp_slots a = sp_slots b \<Longrightarrow> slot_key a = slot_key b"
  by (rule ext) (simp add: slot_key_def)

lemma sp_index_erase_other:
  "sp_index (sp_index_erase c (upd_counters f sp)) = sp_index (sp_index_erase c sp)"
  "sp_index (sp_index_erase c (sp\<lparr>sp_in_flight := n\<rparr>)) = sp_index (sp_index_erase c sp)"
  using slot_key_other [of "upd_counters f sp" sp] slot_key_other [of "sp\<lparr>sp_in_flight := n\<rparr>" sp]
  by (simp_all add: sp_index_erase_def split: option.splits)

lemma complete_slot_index:
  "slot_state (sp_slots sp ! i) = Slot_Filling \<Longrightarrow> i < length (sp_slots sp) \<Longrightarrow>
   sp_index (complete_slot i st result sp) =
     (if st = Ok then sp_index sp else sp_index (sp_index_erase (slot_chunk (sp_slots sp ! i)) sp))"
  by (simp add: complete_slot_def complete_ok_def complete_failed_def sp_index_erase_other
      slot_live_def Let_def)

lemma complete_slot_non_free:
  "i < length (sp_slots sp) \<Longrightarrow>
   sp_non_free (complete_slot i st result sp) =
     (if st \<noteq> Ok \<and> slot_pins (sp_slots sp ! i) = 0 then sp_non_free sp - 1 else sp_non_free sp)"
  by (simp add: complete_slot_def complete_ok_def complete_failed_def Let_def)

lemma sp_on_complete_live:
  assumes "\<not> sp_is_stale token sp"
  shows "sp_on_complete token result sp =
    (let i = token_index token;
         status = classify_fill result (chunk_length (sp_config sp) (slot_chunk (sp_slots sp ! i)));
         sp = complete_slot i status result sp
     in drain_waiters (slot_waiter_head (sp_slots sp ! i)) status
          (upd_slot i (\<lambda>s. s\<lparr>slot_waiter_head := NONE\<rparr>) sp))"
  using assms by (simp add: sp_on_complete_def complete_slot_def Let_def)

definition delivered_slot :: "status \<Rightarrow> slot \<Rightarrow> slot" where
  "delivered_slot status s = (settled status s)\<lparr>slot_waiter_head := NONE\<rparr>"

lemma delivered_slot_simps [simp]:
  "slot_chunk (delivered_slot st s) = slot_chunk s"
  "slot_generation (delivered_slot st s) = slot_generation s"
  "slot_pins (delivered_slot st s) = slot_pins s"
  "slot_waiter_head (delivered_slot st s) = NONE"
  "slot_state (delivered_slot st s) =
     (if st = Ok then Slot_Ready else if slot_pins s = 0 then Slot_Free else Slot_Failed)"
  by (simp_all add: delivered_slot_def)

lemma delivered_slot_failure:
  "st \<noteq> Ok \<Longrightarrow> slot_failure (delivered_slot st s) = st"
  by (simp add: delivered_slot_def settled_def freed_def Let_def)

lemma sp_on_complete_slots:
  assumes "\<not> sp_is_stale token sp"
  shows "sp_slots (sp_on_complete token result sp) = (sp_slots sp)[token_index token :=
    delivered_slot (classify_fill result (chunk_length (sp_config sp)
        (slot_chunk (sp_slots sp ! token_index token)))) (sp_slots sp ! token_index token)]"
  using assms by (simp add: sp_on_complete_live Let_def complete_slot_slots delivered_slot_def
      sp_is_stale_def)

lemma sp_on_complete_core:
  assumes ok: "core_ok sp"
  shows "core_ok (sp_on_complete token result sp)"
proof (cases "sp_is_stale token sp")
  case True
  then show ?thesis
    using ok core_okD(3) [OF ok] by (intro core_ok_slots_same [OF ok]) (simp_all add: sp_on_complete_def)
next
  case False
  let ?i = "token_index token" and ?s = "sp_slots sp ! token_index token"
  let ?st = "classify_fill result (chunk_length (sp_config sp) (slot_chunk ?s))"
  let ?sp' = "sp_on_complete token result sp"
  have i: "?i < length (sp_slots sp)" "slot_state ?s = Slot_Filling"
    using False by (auto simp: sp_is_stale_def)
  have idx': "sp_index ?sp' = sp_index (complete_slot ?i ?st result sp)"
    "sp_index_shift ?sp' = sp_index_shift sp"
    using False by (simp_all add: sp_on_complete_live Let_def)
  show ?thesis
  proof (rule core_step [OF ok i(1) sp_on_complete_slots [OF False]])
    show "idx_ok ?sp'"
    proof (cases "?st = Ok")
      case True
      show ?thesis
        by (rule idx_ok_upd [OF core_okD(4) [OF ok] _ _ sp_on_complete_slots [OF False]])
          (use True i in \<open>simp_all add: idx' complete_slot_index slot_live_def\<close>)
    next
      case fail: False
      show ?thesis
        by (rule idx_ok_erase [OF core_okD(4) [OF ok] _ _ _ sp_on_complete_slots [OF False]])
          (use fail i in \<open>simp_all add: idx' complete_slot_index slot_live_def live_set_def\<close>)
    qed
    show "slot_ok (sp_config sp) (delivered_slot ?st ?s)"
      using slot_ok_nth [OF ok i(1)] i(2) delivered_slot_failure [of ?st ?s]
      by (auto simp: slot_ok_def slot_live_def)
    show "sp_non_free ?sp' + non_free_w ?s = sp_non_free sp + non_free_w (delivered_slot ?st ?s)"
      using False i slot_sum_pos [OF i(1), of non_free_w] core_okD(5) [OF ok]
      by (simp add: sp_on_complete_live Let_def complete_slot_non_free non_free_w_def)
    show "sp_in_flight ?sp' + filling_w ?s = sp_in_flight sp + filling_w (delivered_slot ?st ?s)"
      using False i slot_sum_pos [OF i(1), of filling_w] core_okD(6) [OF ok]
      by (simp add: sp_on_complete_live Let_def filling_w_def)
  qed (use False core_okD(3) [OF ok] in \<open>simp_all add: sp_on_complete_live Let_def\<close>)
qed

section \<open>Pins\<close>

lemma unpin_simps [simp]:
  "sp_config (unpin_locked i sp) = sp_config sp"
  "sp_tickets (unpin_locked i sp) = sp_tickets sp"
  "sp_waiters (unpin_locked i sp) = sp_waiters sp"
  "sp_clock_hand (unpin_locked i sp) = sp_clock_hand sp"
  "sp_in_flight (unpin_locked i sp) = sp_in_flight sp"
  "sp_pins_total (unpin_locked i sp) = sp_pins_total sp - 1"
  "sp_tickets_held (unpin_locked i sp) = sp_tickets_held sp"
  "sp_index_shift (unpin_locked i sp) = sp_index_shift sp"
  "sp_counters (unpin_locked i sp) = sp_counters sp"
  by (simp_all add: unpin_locked_def Let_def)

lemma unpin_slots:
  "i < length (sp_slots sp) \<Longrightarrow>
     sp_slots (unpin_locked i sp) = (sp_slots sp)[i := unpinned (sp_slots sp ! i)]"
  by (simp add: unpin_locked_def unpinned_def freed_def Let_def)

lemma unpin_index: "i < length (sp_slots sp) \<Longrightarrow> sp_index (unpin_locked i sp) = sp_index sp"
  by (simp add: unpin_locked_def slot_live_def Let_def)

lemma unpin_core:
  assumes ok: "core_ok sp" and i: "i < length (sp_slots sp)" "0 < slot_pins (sp_slots sp ! i)"
  shows "core_ok (unpin_locked i sp)"
proof (rule core_step [OF ok i(1) unpin_slots [OF i(1)]])
  let ?s = "sp_slots sp ! i"
  have nonfree: "slot_state ?s \<noteq> Slot_Free"
    using slot_ok_nth [OF ok i(1)] i(2) by (auto simp: slot_ok_def)
  show "idx_ok (unpin_locked i sp)"
    by (rule idx_ok_upd [OF core_okD(4) [OF ok] _ _ unpin_slots [OF i(1)]])
      (use i in \<open>simp_all add: unpin_index slot_live_def\<close>)
  show "slot_ok (sp_config sp) (unpinned ?s)"
    using slot_ok_nth [OF ok i(1)] nonfree by (auto simp: slot_ok_def slot_live_def)
  show "sp_non_free (unpin_locked i sp) + non_free_w ?s = sp_non_free sp + non_free_w (unpinned ?s)"
    using nonfree i slot_sum_pos [OF i(1), of non_free_w] core_okD(5) [OF ok]
    by (auto simp: unpin_locked_def non_free_w_def Let_def)
  show "sp_pins_total (unpin_locked i sp) + slot_pins ?s = sp_pins_total sp + slot_pins (unpinned ?s)"
    using i slot_sum_ge [OF i(1), of slot_pins] core_okD(7) [OF ok] by simp
qed (use core_okD(3) [OF ok] in \<open>simp_all add: filling_w_def\<close>)

definition pin_slot :: "slot \<Rightarrow> slot" where
  "pin_slot s = s\<lparr>slot_referenced := True, slot_hint_unconsumed := False, slot_pins := slot_pins s + 1\<rparr>"

lemma pin_slot_simps [simp]:
  "slot_chunk (pin_slot s) = slot_chunk s" "slot_generation (pin_slot s) = slot_generation s"
  "slot_pins (pin_slot s) = slot_pins s + 1" "slot_waiter_head (pin_slot s) = slot_waiter_head s"
  "slot_state (pin_slot s) = slot_state s" "slot_failure (pin_slot s) = slot_failure s"
  by (simp_all add: pin_slot_def)

text \<open>The lease of a slot that holds \<open>chunk\<close>, for the part of \<open>rng\<close> that lies in the chunk.\<close>

definition chunk_lease :: "sink \<Rightarrow> slot_pool_config \<Rightarrow> nat \<Rightarrow> gen \<Rightarrow> u64 \<Rightarrow> byte_range \<Rightarrow> lease" where
  "chunk_lease self config i g chunk rng =
     (let chunk_start = chunk * sc_slot_bytes config;
          first = max (range_offset rng) chunk_start;
          last = min (range_offset rng + range_length rng) (chunk_start + chunk_length config chunk)
      in \<lparr>lease_pool = Some self, lease_slot = i, lease_generation = g,
          lease_bytes = \<lparr>span_data = slot_data config i + (first - chunk_start), span_size = last - first\<rparr>,
          lease_source_offset = first\<rparr>)"

lemma pin_chunk_eq:
  assumes "i < length (sp_slots sp)" "pin_chunk self i chunk rng rs sp = (rs', sp')"
  shows "rs' = rs\<lparr>rs_out := (rs_out rs)[rs_pinned rs :=
      chunk_lease self (sp_config sp) i (slot_generation (sp_slots sp ! i)) chunk rng],
      rs_pinned := rs_pinned rs + 1\<rparr>"
    and "sp_slots sp' = (sp_slots sp)[i := pin_slot (sp_slots sp ! i)]"
    and "rest_same sp sp'" and "sp_pins_total sp' = sp_pins_total sp + 1"
    and "sp_clock_hand sp' = sp_clock_hand sp" and "sp_index sp' = sp_index sp"
    and "sp_index_shift sp' = sp_index_shift sp" and "sp_non_free sp' = sp_non_free sp"
    and "sp_in_flight sp' = sp_in_flight sp" and "sp_counters sp' = sp_counters sp"
proof -
  have sp': "sp' = (upd_slot i (\<lambda>s. s\<lparr>slot_pins := slot_pins s + 1\<rparr>)
      (upd_slot i (\<lambda>s. s\<lparr>slot_referenced := True, slot_hint_unconsumed := False\<rparr>) sp))
        \<lparr>sp_pins_total := sp_pins_total sp + 1\<rparr>"
    using assms by (auto simp: pin_chunk_def make_lease_def Let_def)
  show slots: "sp_slots sp' = (sp_slots sp)[i := pin_slot (sp_slots sp ! i)]"
    using assms(1) by (simp add: sp' pin_slot_def)
  show "rest_same sp sp'"
    using heads_update [OF slots] by (simp add: rest_same_def) (simp add: sp')
  show "rs' = rs\<lparr>rs_out := (rs_out rs)[rs_pinned rs :=
      chunk_lease self (sp_config sp) i (slot_generation (sp_slots sp ! i)) chunk rng],
      rs_pinned := rs_pinned rs + 1\<rparr>"
    using assms by (auto simp: pin_chunk_def make_lease_def chunk_lease_def Let_def)
qed (use assms in \<open>auto simp: pin_chunk_def make_lease_def Let_def\<close>)

lemma pin_chunk_core:
  assumes ok: "core_ok sp" and i: "i < length (sp_slots sp)" "slot_live (sp_slots sp ! i)"
    and run: "pin_chunk self i chunk rng rs sp = (rs', sp')"
  shows "core_ok sp'"
proof (rule core_step [OF ok i(1) pin_chunk_eq(2) [OF i(1) run]])
  show "idx_ok sp'"
    by (rule idx_ok_upd [OF core_okD(4) [OF ok] _ _ pin_chunk_eq(2) [OF i(1) run]])
      (simp_all add: pin_chunk_eq [OF i(1) run] slot_live_def)
qed (use pin_chunk_eq(3) [OF i(1) run] core_okD(3) [OF ok] slot_ok_nth [OF ok i(1)] i(2) in
      \<open>auto simp: pin_chunk_eq(4-) [OF i(1) run] rest_same_def slot_ok_def slot_live_def
         non_free_w_def filling_w_def\<close>)

lemma unpin_heads [simp]: "heads (unpin_locked i sp) = heads sp"
proof (cases "i < length (sp_slots sp)")
  case True
  show ?thesis
    by (rule heads_update [OF unpin_slots [OF True]]) simp
next
  case False
  then have "sp_slots (unpin_locked i sp) = sp_slots sp"
    by (simp add: unpin_locked_def Let_def list_update_beyond)
  then show ?thesis
    by (rule heads_same)
qed

lemma heads_sweep: "sweep_frame sp sp' \<Longrightarrow> heads sp' = heads sp"
  by (rule heads_frame) (simp_all add: sweep_frame_def)

lemma heads_upd [simp]:
  "heads (upd_counters f sp) = heads sp"
  "heads (upd_waiter e g sp) = heads sp"
  "heads (upd_ticket r h sp) = heads sp"
  by (simp_all add: heads_def)

end
