(* ===== verification/Slot_Pool_Chunks.thy ===== *)
theory Slot_Pool_Chunks
  imports Slot_Pool_Inv
begin

text \<open>
  Request normalisation of \<open>Slot_Pool\<close> read as arithmetic on natural numbers: the chunks of a valid
  range, what \<open>validate_batch\<close> accepts, and the segments that the leases of a range cut out of it. No
  64-bit computation wraps here for a range inside the source.
\<close>

section \<open>The chunks of a range\<close>

lemma length_chunk_steps [simp]: "length (chunk_steps k c) = k"
  by (induction k arbitrary: c) simp_all

lemma chunk_steps_nth: "i < k \<Longrightarrow> chunk_steps k c ! i = c + of_nat i"
proof (induction k arbitrary: c i)
  case (Suc k)
  then show ?case
    by (cases i) simp_all
qed simp

definition first_chunk :: "slot_pool_config \<Rightarrow> byte_range \<Rightarrow> nat" where
  "first_chunk config rng = unat (range_offset rng) div unat (sc_slot_bytes config)"

definition last_chunk :: "slot_pool_config \<Rightarrow> byte_range \<Rightarrow> nat" where
  "last_chunk config rng =
     (unat (range_offset rng) + unat (range_length rng) - 1) div unat (sc_slot_bytes config)"

definition range_ok :: "slot_pool_config \<Rightarrow> byte_range \<Rightarrow> bool" where
  "range_ok config rng \<longleftrightarrow>
     0 < unat (range_length rng) \<and>
     unat (range_offset rng) + unat (range_length rng) \<le> unat (sc_source_bytes config)"

lemma validate_range_ok: "validate_range rng (sc_source_bytes config) = Ok \<longleftrightarrow> range_ok config rng"
  by (simp add: validate_range_Ok_unat range_ok_def)

lemma range_words:
  assumes "range_ok config rng"
  shows "unat (range_offset rng div sc_slot_bytes config) = first_chunk config rng"
    "unat ((range_offset rng + range_length rng - 1) div sc_slot_bytes config) = last_chunk config rng"
    "unat (range_offset rng + range_length rng) = unat (range_offset rng) + unat (range_length rng)"
proof -
  show plus: "unat (range_offset rng + range_length rng) = unat (range_offset rng) + unat (range_length rng)"
    using assms unat_lt_64 [of "sc_source_bytes config"]
    by (intro unat_plus_64) (simp add: range_ok_def)
  have "1 \<le> range_offset rng + range_length rng"
    using assms plus by (simp add: word_le_nat_alt range_ok_def)
  then have "unat (range_offset rng + range_length rng - 1)
      = unat (range_offset rng) + unat (range_length rng) - 1"
    using plus by (simp only: unat_minus_64 unat_1)
  then show "unat ((range_offset rng + range_length rng - 1) div sc_slot_bytes config) = last_chunk config rng"
    by (simp only: unat_div_64 last_chunk_def)
  show "unat (range_offset rng div sc_slot_bytes config) = first_chunk config rng"
    by (simp only: unat_div_64 first_chunk_def)
qed

lemma first_le_last: "range_ok config rng \<Longrightarrow> first_chunk config rng \<le> last_chunk config rng"
  unfolding first_chunk_def last_chunk_def range_ok_def by (intro div_le_mono) linarith

lemma last_chunk_bound:
  assumes "range_ok config rng" "0 < unat (sc_slot_bytes config)"
  shows "last_chunk config rng * unat (sc_slot_bytes config) < unat (sc_source_bytes config)"
    "last_chunk config rng < 18446744073709551615"
proof -
  have *: "last_chunk config rng * unat (sc_slot_bytes config)
      \<le> unat (range_offset rng) + unat (range_length rng) - 1"
    by (simp add: last_chunk_def)
  then show "last_chunk config rng * unat (sc_slot_bytes config) < unat (sc_source_bytes config)"
    using assms(1) unfolding range_ok_def by linarith
  have "last_chunk config rng * 1 \<le> last_chunk config rng * unat (sc_slot_bytes config)"
    using assms(2) by (intro mult_le_mono2) simp
  then show "last_chunk config rng < 18446744073709551615"
    using * assms(1) unat_lt_64 [of "sc_source_bytes config"] unfolding range_ok_def by linarith
qed

lemma range_chunks_eq:
  assumes ok: "range_ok config rng"
  shows "range_chunks config rng =
    chunk_steps (Suc (last_chunk config rng - first_chunk config rng))
      (range_offset rng div sc_slot_bytes config)"
proof -
  let ?f = "range_offset rng div sc_slot_bytes config"
  let ?l = "(range_offset rng + range_length rng - 1) div sc_slot_bytes config"
  have le: "?f \<le> ?l"
    using range_words [OF ok] first_le_last [OF ok] by (simp only: word_le_nat_alt)
  then have "unat (?l - ?f) = last_chunk config rng - first_chunk config rng"
    using range_words [OF ok] by (simp only: unat_minus_64)
  then show ?thesis
    using le by (simp add: range_chunks_def Let_def)
qed

lemma range_chunks_nth:
  assumes ok: "range_ok config rng" "0 < unat (sc_slot_bytes config)"
    and i: "i < length (range_chunks config rng)"
  shows "unat (range_chunks config rng ! i) = first_chunk config rng + i"
    "first_chunk config rng + i \<le> last_chunk config rng"
proof -
  have i': "i < Suc (last_chunk config rng - first_chunk config rng)"
    using i by (simp add: range_chunks_eq [OF ok(1)])
  then show le: "first_chunk config rng + i \<le> last_chunk config rng"
    using first_le_last [OF ok(1)] by simp
  have b: "first_chunk config rng + i < 18446744073709551616"
    using le last_chunk_bound(2) [OF ok] by simp
  have "unat (range_offset rng div sc_slot_bytes config + of_nat i)
      = first_chunk config rng + i"
    using b range_words(1) [OF ok(1)] by (subst unat_plus_64) simp_all
  then show "unat (range_chunks config rng ! i) = first_chunk config rng + i"
    using chunk_steps_nth [OF i'] by (simp only: range_chunks_eq [OF ok(1)])
qed

lemma length_range_chunks:
  assumes ok: "range_ok config rng" "0 < unat (sc_slot_bytes config)"
  shows "length (range_chunks config rng) = unat (span_chunks config rng)"
    and "0 < length (range_chunks config rng)"
proof -
  let ?f = "range_offset rng div sc_slot_bytes config"
  let ?l = "(range_offset rng + range_length rng - 1) div sc_slot_bytes config"
  have "?f \<le> ?l"
    using range_words [OF ok(1)] first_le_last [OF ok(1)] by (simp only: word_le_nat_alt)
  then have d: "unat (?l - ?f) = last_chunk config rng - first_chunk config rng"
    using range_words [OF ok(1)] by (simp only: unat_minus_64)
  then have "unat (?l - ?f + 1) = Suc (last_chunk config rng - first_chunk config rng)"
    using last_chunk_bound(2) [OF ok] by (subst unat_plus_64) simp_all
  then show "length (range_chunks config rng) = unat (span_chunks config rng)"
    by (simp add: range_chunks_eq [OF ok(1)] span_chunks_def)
  show "0 < length (range_chunks config rng)"
    by (simp add: range_chunks_eq [OF ok(1)])
qed

lemma range_chunks_inside:
  assumes ok: "range_ok config rng" "0 < unat (sc_slot_bytes config)"
    and c: "c \<in> set (range_chunks config rng)"
  shows "chunk_inside config c" "first_chunk config rng \<le> unat c" "unat c \<le> last_chunk config rng"
proof -
  obtain i where i: "i < length (range_chunks config rng)" "range_chunks config rng ! i = c"
    using c by (auto simp: in_set_conv_nth)
  show fc: "first_chunk config rng \<le> unat c" and lc: "unat c \<le> last_chunk config rng"
    using range_chunks_nth [OF ok i(1)] i(2) by simp_all
  have "unat c * unat (sc_slot_bytes config) \<le> last_chunk config rng * unat (sc_slot_bytes config)"
    using lc by (rule mult_le_mono1)
  then show "chunk_inside config c"
    unfolding chunk_inside_def using last_chunk_bound(1) [OF ok] by (rule order.strict_trans1)
qed

section \<open>Batches\<close>

definition batch_ok :: "slot_pool_config \<Rightarrow> byte_range list \<Rightarrow> bool" where
  "batch_ok config ranges \<longleftrightarrow> (\<forall>rng \<in> set ranges. range_ok config rng)"

lemma validate_loop_Ok:
  assumes "0 < unat (sc_slot_bytes config)" "sc_max_batch_chunks config < 18446744073709551616"
  shows "validate_loop config ranges chunks = (Ok, chunks') \<Longrightarrow>
     unat chunks \<le> sc_max_batch_chunks config \<Longrightarrow>
     batch_ok config ranges \<and> unat chunks' = unat chunks + length (for_each_chunk config ranges) \<and>
     unat chunks' \<le> sc_max_batch_chunks config \<and> chunks' \<noteq> 0"
proof (induction ranges arbitrary: chunks)
  case Nil
  then show ?case
    by (simp add: batch_ok_def split: if_splits)
next
  case (Cons rng ranges)
  let ?m = "of_nat (sc_max_batch_chunks config) :: u64"
  have ok: "range_ok config rng"
    and run: "validate_loop config ranges (chunks + span_chunks config rng) = (Ok, chunks')"
    and fits: "\<not> span_chunks config rng > ?m - chunks"
    using Cons.prems(1) by (auto simp: validate_range_ok Let_def split: if_splits)
  have m: "unat ?m = sc_max_batch_chunks config"
    using assms(2) by (rule unat_of_nat_64)
  have "chunks \<le> ?m"
    using Cons.prems(2) m by (simp only: word_le_nat_alt)
  then have "unat (?m - chunks) = sc_max_batch_chunks config - unat chunks"
    using m by (simp only: unat_minus_64)
  then have le: "unat (span_chunks config rng) + unat chunks \<le> sc_max_batch_chunks config"
    using fits Cons.prems(2) unfolding word_less_nat_alt by linarith
  have sum: "unat (chunks + span_chunks config rng) = unat chunks + unat (span_chunks config rng)"
    using le assms(2) by (intro unat_plus_64) simp
  show ?case
    using Cons.IH [OF run] le ok length_range_chunks(1) [OF ok assms(1)]
    by (simp add: sum batch_ok_def)
qed

lemma validate_loop_cases:
  "fst (validate_loop config ranges chunks) \<in> {Ok, Empty_Range, Out_Of_Range, Batch_Too_Large}"
proof (induction ranges arbitrary: chunks)
  case (Cons rng ranges)
  then show ?case
    using validate_range_cases [of rng "sc_source_bytes config"] by (auto simp: Let_def)
qed simp

lemma config_ok_bounds:
  assumes "config_ok config"
  shows "0 < unat (sc_slot_bytes config)" "sc_max_batch_chunks config < 18446744073709551616"
    "sc_num_slots config < 4294967295" "0 < sc_num_slots config"
    "sc_num_slots config * unat (sc_slot_bytes config) < 18446744073709551616"
proof -
  have "sc_max_batch_chunks config \<le> sc_max_batch_chunks config * sc_max_tickets config"
    using assms by (simp add: config_ok_def)
  then show "sc_max_batch_chunks config < 18446744073709551616"
    using assms unfolding config_ok_def NONE_def UINT32_MAX_def by linarith
  show "sc_num_slots config * unat (sc_slot_bytes config) < 18446744073709551616"
    using assms unat_lt_64 [of "span_size (sc_slot_storage config)"] by (simp add: config_ok_def)
qed (use assms in \<open>simp_all add: config_ok_def NONE_def UINT32_MAX_def\<close>)

lemma validate_batch_Ok:
  assumes "config_ok config" "validate_batch config ranges = (Ok, chunks)"
  shows "batch_ok config ranges" "chunks = length (for_each_chunk config ranges)"
    "chunks \<le> sc_max_batch_chunks config" "0 < chunks"
proof -
  obtain chunks' where run: "validate_loop config ranges 0 = (Ok, chunks')" "chunks = unat chunks'"
    using assms(2) by (auto simp: validate_batch_def split: prod.splits)
  have *: "batch_ok config ranges \<and> unat chunks' = length (for_each_chunk config ranges) \<and>
     unat chunks' \<le> sc_max_batch_chunks config \<and> chunks' \<noteq> 0"
    using validate_loop_Ok [OF config_ok_bounds(1,2) [OF assms(1)] run(1)] by simp
  then show "batch_ok config ranges" "chunks = length (for_each_chunk config ranges)"
    "chunks \<le> sc_max_batch_chunks config" "0 < chunks"
    using run(2) unat_gt_0 [of chunks'] by (auto simp del: unat_gt_0)
qed

lemma for_each_chunk_in:
  assumes "batch_ok config ranges" "(c, rng) \<in> set (for_each_chunk config ranges)"
  shows "range_ok config rng" "c \<in> set (range_chunks config rng)" "rng \<in> set ranges"
  using assms by (induction ranges) (auto simp: batch_ok_def)

section \<open>Slots, chunks and leases in bytes\<close>

lemma chunk_start_unat:
  assumes "chunk_inside config c"
  shows "unat (c * sc_slot_bytes config) = unat c * unat (sc_slot_bytes config)"
  using assms unat_lt_64 [of "sc_source_bytes config"]
  unfolding chunk_inside_def by (intro unat_times_64) linarith

lemma chunk_length_unat:
  assumes "chunk_inside config c"
  shows "unat (chunk_length config c) =
    min (unat (sc_slot_bytes config)) (unat (sc_source_bytes config) - unat c * unat (sc_slot_bytes config))"
proof -
  have "c * sc_slot_bytes config \<le> sc_source_bytes config"
    using assms chunk_start_unat [OF assms] unfolding chunk_inside_def word_le_nat_alt by linarith
  then show ?thesis
    by (simp only: chunk_length_def Let_def unat_min_64 unat_minus_64 chunk_start_unat [OF assms])
qed

lemma chunk_length_le: "chunk_inside config c \<Longrightarrow> unat (chunk_length config c) \<le> unat (sc_slot_bytes config)"
  by (simp add: chunk_length_unat)

lemma chunk_length_pos:
  "chunk_inside config c \<Longrightarrow> 0 < unat (sc_slot_bytes config) \<Longrightarrow> 0 < unat (chunk_length config c)"
  by (simp add: chunk_length_unat chunk_inside_def)

text \<open>The bytes of a slot, and of a part of it.\<close>

definition slot_span :: "slot_pool_config \<Rightarrow> nat \<Rightarrow> u64 \<Rightarrow> u64 \<Rightarrow> span" where
  "slot_span config i off len = \<lparr>span_data = slot_data config i + off, span_size = len\<rparr>"

lemma slot_span_simps [simp]:
  "span_data (slot_span config i off len) = slot_data config i + off"
  "span_size (slot_span config i off len) = len"
  by (simp_all add: slot_span_def)

lemma slot_span_subspan:
  "slot_span config i off len
     = subspan (sc_slot_storage config) (of_nat i * sc_slot_bytes config + off) len"
  by (simp add: slot_span_def subspan_def slot_data_def add.assoc)

lemma slot_offset_unat:
  assumes "config_ok config" "i < sc_num_slots config" "unat off + m \<le> unat (sc_slot_bytes config)"
  shows "unat (of_nat i * sc_slot_bytes config + off) = i * unat (sc_slot_bytes config) + unat off"
    and "i * unat (sc_slot_bytes config) + unat off + m \<le> sc_num_slots config * unat (sc_slot_bytes config)"
proof -
  note b = config_ok_bounds [OF assms(1)]
  have ui: "unat (of_nat i :: u64) = i"
    using assms(2) b(3) by (intro unat_of_nat_64) simp
  have "Suc i * unat (sc_slot_bytes config) \<le> sc_num_slots config * unat (sc_slot_bytes config)"
    using assms(2) by (intro mult_le_mono1) simp
  then show le: "i * unat (sc_slot_bytes config) + unat off + m
      \<le> sc_num_slots config * unat (sc_slot_bytes config)"
    using assms(3) by simp
  have "unat (of_nat i * sc_slot_bytes config) = i * unat (sc_slot_bytes config)"
    using le b(5) ui by (subst unat_times_64) simp_all
  then show "unat (of_nat i * sc_slot_bytes config + off) = i * unat (sc_slot_bytes config) + unat off"
    using le b(5) by (subst unat_plus_64) simp_all
qed

lemma slot_spans_disjoint:
  assumes cfg: "config_ok config" and ij: "i < sc_num_slots config" "j < sc_num_slots config" "i \<noteq> j"
    and fit: "unat off + unat len \<le> unat (sc_slot_bytes config)"
      "unat off' + unat len' \<le> unat (sc_slot_bytes config)"
  shows "span_addrs (slot_span config i off len) \<inter> span_addrs (slot_span config j off' len') = {}"
proof -
  note i = slot_offset_unat [OF cfg ij(1) fit(1)] and j = slot_offset_unat [OF cfg ij(2) fit(2)]
  have order: "a * s + x \<le> b * s + y" if "a < b" "x \<le> s" for a b s x y :: nat
    using mult_le_mono1 [of "Suc a" b s] that by simp
  show ?thesis
    unfolding slot_span_subspan
  proof (rule subspan_disjoint)
    show "unat (of_nat i * sc_slot_bytes config + off) + unat len < 18446744073709551616"
      "unat (of_nat j * sc_slot_bytes config + off') + unat len' < 18446744073709551616"
      using i j config_ok_bounds(5) [OF cfg] by simp_all
    show "unat (of_nat i * sc_slot_bytes config + off) + unat len \<le> unat (of_nat j * sc_slot_bytes config + off')
        \<or> unat (of_nat j * sc_slot_bytes config + off') + unat len' \<le> unat (of_nat i * sc_slot_bytes config + off)"
    proof (cases "i < j")
      case True
      then show ?thesis
        using order [OF True fit(1), of "unat off'"] unfolding i(1) j(1) by (simp add: add.assoc)
    next
      case False
      then have "j < i"
        using ij(3) by simp
      then show ?thesis
        using order [OF _ fit(2), of j i "unat off"] unfolding i(1) j(1) by (simp add: add.assoc)
    qed
  qed
qed

lemma chunk_lease_unat:
  fixes config rng c
  defines "sb \<equiv> unat (sc_slot_bytes config)" and "o' \<equiv> unat (range_offset rng)"
    and "l' \<equiv> unat (range_length rng)"
  assumes ok: "range_ok config rng" "0 < unat (sc_slot_bytes config)"
    and c: "c \<in> set (range_chunks config rng)"
  shows "unat (lease_source_offset (chunk_lease self config i g c rng)) = max o' (unat c * sb)"
    "unat (span_size (lease_bytes (chunk_lease self config i g c rng)))
       = min (o' + l') (unat c * sb + sb) - max o' (unat c * sb)"
    "max o' (unat c * sb) < min (o' + l') (unat c * sb + sb)"
    "lease_bytes (chunk_lease self config i g c rng) =
       slot_span config i (lease_source_offset (chunk_lease self config i g c rng) - c * sc_slot_bytes config)
         (span_size (lease_bytes (chunk_lease self config i g c rng)))"
    "unat c * sb + unat (chunk_length config c) = min (unat c * sb + sb) (unat (sc_source_bytes config))"
    "min (o' + l') (unat c * sb + sb) \<le> unat c * sb + unat (chunk_length config c)"
proof -
  note inside = range_chunks_inside [OF ok c]
  have S: "0 < l'" "o' + l' \<le> unat (sc_source_bytes config)"
    using ok(1) by (simp_all add: range_ok_def o'_def l'_def)
  have cs: "unat c * sb < unat (sc_source_bytes config)"
    using inside(1) by (simp add: chunk_inside_def sb_def)
  show len: "unat c * sb + unat (chunk_length config c) = min (unat c * sb + sb) (unat (sc_source_bytes config))"
    using cs unfolding chunk_length_unat [OF inside(1)] sb_def [symmetric] min_def by auto
  then show "min (o' + l') (unat c * sb + sb) \<le> unat c * sb + unat (chunk_length config c)"
    using S by simp
  have start: "unat (c * sc_slot_bytes config) = unat c * sb"
    using chunk_start_unat [OF inside(1)] by (simp add: sb_def)
  have end_chunk: "unat (c * sc_slot_bytes config + chunk_length config c)
      = min (unat c * sb + sb) (unat (sc_source_bytes config))"
    using len start unat_lt_64 [of "sc_source_bytes config"] by (subst unat_plus_64) simp_all
  let ?first = "max (range_offset rng) (c * sc_slot_bytes config)"
  let ?last = "min (range_offset rng + range_length rng) (c * sc_slot_bytes config + chunk_length config c)"
  have uf: "unat ?first = max o' (unat c * sb)"
    by (simp only: unat_max_64 start o'_def)
  have "unat ?last = min (o' + l') (min (unat c * sb + sb) (unat (sc_source_bytes config)))"
    by (simp only: unat_min_64 end_chunk range_words(3) [OF ok(1)] o'_def l'_def)
  then have ul: "unat ?last = min (o' + l') (unat c * sb + sb)"
    using S(2) by simp
  have "o' div sb \<le> unat c" "unat c \<le> (o' + l' - 1) div sb"
    using inside(2,3) by (simp_all add: first_chunk_def last_chunk_def o'_def l'_def sb_def)
  moreover have "0 < sb"
    using ok(2) by (simp add: sb_def)
  ultimately have "o' < unat c * sb + sb" "unat c * sb < o' + l'"
    using S(1) less_eq_div_iff_mult_less_eq [of sb "unat c" "o' + l' - 1"]
      div_less_iff_less_mult [of sb o' "Suc (unat c)"] by (auto simp: algebra_simps)
  then show lt: "max o' (unat c * sb) < min (o' + l') (unat c * sb + sb)"
    using S(1) \<open>0 < sb\<close> by simp
  have le: "?first \<le> ?last"
    using lt unfolding word_le_nat_alt uf ul by simp
  show "unat (lease_source_offset (chunk_lease self config i g c rng)) = max o' (unat c * sb)"
    using uf by (simp add: chunk_lease_def Let_def)
  have "unat (?last - ?first) = min (o' + l') (unat c * sb + sb) - max o' (unat c * sb)"
    by (simp only: unat_minus_64 [OF le] uf ul)
  then show "unat (span_size (lease_bytes (chunk_lease self config i g c rng)))
      = min (o' + l') (unat c * sb + sb) - max o' (unat c * sb)"
    by (simp add: chunk_lease_def Let_def)
  show "lease_bytes (chunk_lease self config i g c rng) =
       slot_span config i (lease_source_offset (chunk_lease self config i g c rng) - c * sc_slot_bytes config)
         (span_size (lease_bytes (chunk_lease self config i g c rng)))"
    by (simp add: chunk_lease_def slot_span_def Let_def)
qed

section \<open>The segments of a range\<close>

text \<open>Leases that lie one behind the other in the source, from byte \<open>from\<close> on, \<open>len\<close> bytes in all.\<close>

definition lease_size :: "lease \<Rightarrow> nat" where
  "lease_size l = unat (span_size (lease_bytes l))"

fun tiles :: "nat \<Rightarrow> nat \<Rightarrow> lease list \<Rightarrow> bool" where
  "tiles from len [] \<longleftrightarrow> len = 0"
| "tiles from len (l # leases) \<longleftrightarrow>
     unat (lease_source_offset l) = from \<and> 0 < lease_size l \<and> lease_size l \<le> len \<and>
     tiles (from + lease_size l) (len - lease_size l) leases"

definition lease_for :: "sink \<Rightarrow> slot_pool_config \<Rightarrow> u64 \<times> byte_range \<Rightarrow> lease \<Rightarrow> bool" where
  "lease_for self config call l \<longleftrightarrow>
     (\<exists>i g. l = chunk_lease self config i g (fst call) (snd call))"

lemma lease_for_tiles_from:
  assumes ok: "range_ok config rng" "0 < unat (sc_slot_bytes config)"
  defines "sb \<equiv> unat (sc_slot_bytes config)" and "o' \<equiv> unat (range_offset rng)"
    and "e \<equiv> unat (range_offset rng) + unat (range_length rng)" and "F \<equiv> first_chunk config rng"
  shows "list_all2 (\<lambda>c l. lease_for self config (c, rng) l) (drop j (range_chunks config rng)) leases \<Longrightarrow>
    j < length (range_chunks config rng) \<Longrightarrow>
    tiles (max o' ((F + j) * sb)) (e - max o' ((F + j) * sb)) leases"
proof (induction leases arbitrary: j)
  case Nil
  then show ?case by simp
next
  case (Cons l leases)
  let ?cs = "range_chunks config rng"
  have drop: "drop j ?cs = ?cs ! j # drop (Suc j) ?cs"
    using Cons.prems(2) by (simp add: Cons_nth_drop_Suc)
  obtain i g where l: "l = chunk_lease self config i g (?cs ! j) rng"
    and rest: "list_all2 (\<lambda>c l. lease_for self config (c, rng) l) (drop (Suc j) ?cs) leases"
    using Cons.prems(1) unfolding drop by (auto simp: lease_for_def)
  have c: "?cs ! j \<in> set ?cs"
    using Cons.prems(2) by simp
  have uc: "unat (?cs ! j) = F + j" "F + j \<le> last_chunk config rng"
    using range_chunks_nth [OF ok Cons.prems(2)] by (simp_all add: F_def)
  have seg: "unat (lease_source_offset l) = max o' ((F + j) * sb)"
    "unat (span_size (lease_bytes l)) = min e ((F + j) * sb + sb) - max o' ((F + j) * sb)"
    "max o' ((F + j) * sb) < min e ((F + j) * sb + sb)"
    using chunk_lease_unat(1-3) [OF ok c] unfolding l uc(1) sb_def o'_def e_def by simp_all
  have size: "lease_size l = min e ((F + j) * sb + sb) - max o' ((F + j) * sb)"
    using seg(2) by (simp add: lease_size_def)
  have sb: "0 < sb"
    using ok(2) by (simp add: sb_def)
  have tail: "tiles (max o' ((F + j) * sb) + lease_size l)
      (e - max o' ((F + j) * sb) - lease_size l) leases"
  proof (cases "Suc j < length ?cs")
    case True
    have "F + Suc j \<le> last_chunk config rng"
      using range_chunks_nth(2) [OF ok True] by (simp add: F_def)
    then have "(F + Suc j) * sb \<le> last_chunk config rng * sb"
      by (rule mult_le_mono1)
    also have "\<dots> \<le> e - 1"
      unfolding last_chunk_def e_def sb_def by (rule div_times_less_eq_dividend)
    finally have up: "(F + j) * sb + sb \<le> e"
      by (simp add: algebra_simps)
    have "o' < F * sb + sb"
      unfolding F_def first_chunk_def o'_def sb_def
      using ok(2) dividend_less_div_times [of "unat (sc_slot_bytes config)" "unat (range_offset rng)"]
      by (simp add: add.commute)
    moreover have "F * sb \<le> (F + j) * sb"
      by simp
    ultimately have "max o' ((F + Suc j) * sb) = (F + j) * sb + sb"
      by (simp add: algebra_simps)
    then have "max o' ((F + Suc j) * sb) = max o' ((F + j) * sb) + lease_size l"
      using up seg(3) unfolding size by simp
    then show ?thesis
      using Cons.IH [OF rest True] by simp
  next
    case False
    then have "leases = []" and last: "F + j = last_chunk config rng"
      using rest Cons.prems(2) uc(2) range_chunks_eq [OF ok(1)] by (simp_all add: F_def)
    have "e - 1 < last_chunk config rng * sb + sb"
      unfolding last_chunk_def e_def sb_def
      using ok(2) dividend_less_div_times [of "unat (sc_slot_bytes config)"
          "unat (range_offset rng) + unat (range_length rng) - 1"] by (simp add: add.commute)
    then have "lease_size l = e - max o' ((F + j) * sb)"
      unfolding size last [symmetric] by simp
    then show ?thesis
      using \<open>leases = []\<close> by simp
  qed
  then show ?case
    using seg(1,3) size by simp
qed

lemma lease_for_tiles:
  assumes ok: "range_ok config rng" "0 < unat (sc_slot_bytes config)"
    and all: "list_all2 (\<lambda>c l. lease_for self config (c, rng) l) (range_chunks config rng) leases"
  shows "tiles (unat (range_offset rng)) (unat (range_length rng)) leases"
proof -
  let ?o = "unat (range_offset rng)" and ?sb = "unat (sc_slot_bytes config)"
  have "max ?o (first_chunk config rng * ?sb) = ?o"
    using div_times_less_eq_dividend [of ?o ?sb] by (simp add: first_chunk_def)
  then show ?thesis
    using lease_for_tiles_from [OF ok, of self 0 leases] all length_range_chunks(2) [OF ok] by simp
qed

text \<open>The leases of a whole batch: those of its ranges, one range after the other.\<close>

fun batch_tiles :: "byte_range list \<Rightarrow> lease list \<Rightarrow> bool" where
  "batch_tiles [] leases \<longleftrightarrow> leases = []"
| "batch_tiles (rng # ranges) leases \<longleftrightarrow>
     (\<exists>k. tiles (unat (range_offset rng)) (unat (range_length rng)) (take k leases) \<and>
          batch_tiles ranges (drop k leases))"

lemma batch_tiles_leases:
  assumes "config_ok config"
  shows "batch_ok config ranges \<Longrightarrow>
     list_all2 (lease_for self config) (for_each_chunk config ranges) leases \<Longrightarrow>
     batch_tiles ranges leases"
proof (induction ranges arbitrary: leases)
  case Nil
  then show ?case by simp
next
  case (Cons rng ranges)
  let ?k = "length (range_chunks config rng)"
  have ok: "range_ok config rng" "batch_ok config ranges"
    using Cons.prems(1) by (simp_all add: batch_ok_def)
  let ?calls = "map (\<lambda>chunk. (chunk, rng)) (range_chunks config rng)"
  have parts: "list_all2 (lease_for self config) ?calls (take ?k leases)"
      "list_all2 (lease_for self config) (for_each_chunk config ranges) (drop ?k leases)"
    using list_all2_takeI [OF Cons.prems(2), of ?k] list_all2_dropI [OF Cons.prems(2), of ?k] by simp_all
  have "tiles (unat (range_offset rng)) (unat (range_length rng)) (take ?k leases)"
    using lease_for_tiles [OF ok(1) config_ok_bounds(1) [OF assms], of self "take ?k leases"] parts(1)
    by (simp add: list_all2_map1)
  then show ?case
    using Cons.IH [OF ok(2) parts(2)] by auto
qed

end
