(* ===== verification/Slot_Pool_System.thy ===== *)
theory Slot_Pool_System
  imports Slot_Pool_Chunks
begin

text \<open>
  A slot pool with its backend, the memory and the leases on it: the invariant \<open>pool_inv\<close> ties the
  pins to the leases, the slots being filled to the requests outstanding at the backend, and the
  ready slots to the bytes of the source. Every operation of the pool keeps it, whatever the backend
  does within its contract; the steps of the whole system and its reachable states are at the end.
\<close>

section \<open>The invariant\<close>

definition lease_ok :: "sink \<Rightarrow> slot_pool \<Rightarrow> lease \<Rightarrow> bool" where
  "lease_ok self sp l \<longleftrightarrow>
     lease_pool l = Some self \<and> lease_slot l < length (sp_slots sp) \<and>
     lease_generation l = slot_generation (sp_slots sp ! lease_slot l) \<and>
     (let s = sp_slots sp ! lease_slot l; start = slot_chunk s * sc_slot_bytes (sp_config sp) in
        chunk_inside (sp_config sp) (slot_chunk s) \<and>
        unat start \<le> unat (lease_source_offset l) \<and>
        unat (lease_source_offset l) + unat (span_size (lease_bytes l))
          \<le> unat start + unat (chunk_length (sp_config sp) (slot_chunk s)) \<and>
        lease_bytes l = slot_span (sp_config sp) (lease_slot l) (lease_source_offset l - start)
                          (span_size (lease_bytes l)))"

text \<open>\<open>L\<close> are all leases, \<open>R\<close> those of them that \<open>resolve\<close> or \<open>try_resolve\<close> has returned.\<close>

definition leases_ok :: "lease list \<Rightarrow> sink \<Rightarrow> lease list \<Rightarrow> slot_pool \<Rightarrow> bool" where
  "leases_ok R self L sp \<longleftrightarrow>
     set R \<subseteq> set L \<and> (\<forall>l \<in> set R. slot_state (sp_slots sp ! lease_slot l) = Slot_Ready) \<and>
     (\<forall>l \<in> set L. lease_ok self sp l) \<and>
     (\<forall>i < length (sp_slots sp). slot_pins (sp_slots sp ! i) = count_where (\<lambda>l. lease_slot l = i) L)"

definition filling_set :: "slot_pool \<Rightarrow> nat set" where
  "filling_set sp = {i. i < length (sp_slots sp) \<and> slot_state (sp_slots sp ! i) = Slot_Filling}"

definition slot_request :: "sink \<Rightarrow> slot_pool \<Rightarrow> nat \<Rightarrow> fill_request" where
  "slot_request self sp i = sp_request sp self i (slot_chunk (sp_slots sp ! i))"

definition requests_ok :: "('b \<Rightarrow> fill_request multiset) \<Rightarrow> sink \<Rightarrow> slot_pool \<Rightarrow> 'b \<Rightarrow> bool" where
  "requests_ok outstanding self sp b \<longleftrightarrow>
     outstanding b = image_mset (slot_request self sp) (mset_set (filling_set sp))"

definition content_ok :: "(source_id \<Rightarrow> u64 \<Rightarrow> byte) \<Rightarrow> slot_pool \<Rightarrow> memory \<Rightarrow> bool" where
  "content_ok content sp m \<longleftrightarrow>
     (\<forall>i < length (sp_slots sp). slot_state (sp_slots sp ! i) = Slot_Ready \<longrightarrow>
        (\<forall>k < unat (chunk_length (sp_config sp) (slot_chunk (sp_slots sp ! i))).
           m (slot_data (sp_config sp) i + of_nat k)
             = content (sc_source (sp_config sp))
                 (slot_chunk (sp_slots sp ! i) * sc_slot_bytes (sp_config sp) + of_nat k)))"

definition pool_inv ::
    "('b \<Rightarrow> fill_request multiset) \<Rightarrow> ('b \<Rightarrow> bool) \<Rightarrow> (source_id \<Rightarrow> u64 \<Rightarrow> byte) \<Rightarrow> lease list
       \<Rightarrow> sink \<Rightarrow> lease list \<Rightarrow> slot_pool \<Rightarrow> 'b \<Rightarrow> memory \<Rightarrow> bool" where
  "pool_inv outstanding valid content R self L sp b m \<longleftrightarrow>
     core_ok sp \<and> leases_ok R self L sp \<and> requests_ok outstanding self sp b \<and> content_ok content sp m \<and> valid b"

lemma pool_invD:
  assumes "pool_inv outstanding valid content R self L sp b m"
  shows "core_ok sp" "leases_ok R self L sp" "requests_ok outstanding self sp b" "content_ok content sp m"
    "valid b"
  using assms by (simp_all add: pool_inv_def)

lemma filling_set_simps [simp]: "finite (filling_set sp)"
  by (simp add: filling_set_def)

lemma leases_pins:
  "leases_ok R self L sp \<Longrightarrow> i < length (sp_slots sp) \<Longrightarrow>
     slot_pins (sp_slots sp ! i) = count_where (\<lambda>l. lease_slot l = i) L"
  by (simp add: leases_ok_def)

lemma count_where_0: "count_where P xs = 0 \<longleftrightarrow> (\<forall>x \<in> set xs. \<not> P x)"
  by (rule count_where_0_iff)

lemma lease_pinned:
  assumes "leases_ok R self L sp" "l \<in> set L"
  shows "lease_ok self sp l" "lease_slot l < length (sp_slots sp)"
    "0 < slot_pins (sp_slots sp ! lease_slot l)"
proof -
  show ok: "lease_ok self sp l"
    using assms by (simp add: leases_ok_def)
  show lt: "lease_slot l < length (sp_slots sp)"
    using ok by (simp add: lease_ok_def)
  have "count_where (\<lambda>x. lease_slot x = lease_slot l) L \<noteq> 0"
    using assms(2) unfolding count_where_0 by blast
  then show "0 < slot_pins (sp_slots sp ! lease_slot l)"
    using leases_pins [OF assms(1) lt] by simp
qed

section \<open>What an operation must leave alone\<close>

lemma lease_ok_cong:
  assumes "lease_ok self sp l" "sp_config sp' = sp_config sp" "length (sp_slots sp') = length (sp_slots sp)"
    and "slot_generation (sp_slots sp' ! lease_slot l) = slot_generation (sp_slots sp ! lease_slot l)"
    and "slot_chunk (sp_slots sp' ! lease_slot l) = slot_chunk (sp_slots sp ! lease_slot l)"
  shows "lease_ok self sp' l"
  using assms by (simp add: lease_ok_def Let_def)

definition leases_frame :: "slot_pool \<Rightarrow> slot_pool \<Rightarrow> bool" where
  "leases_frame sp sp' \<longleftrightarrow>
     sp_config sp' = sp_config sp \<and> length (sp_slots sp') = length (sp_slots sp) \<and>
     (\<forall>j < length (sp_slots sp).
        slot_pins (sp_slots sp' ! j) = slot_pins (sp_slots sp ! j) \<and>
        (0 < slot_pins (sp_slots sp ! j) \<longrightarrow>
           slot_generation (sp_slots sp' ! j) = slot_generation (sp_slots sp ! j) \<and>
           slot_chunk (sp_slots sp' ! j) = slot_chunk (sp_slots sp ! j) \<and>
           (slot_state (sp_slots sp ! j) = Slot_Ready \<longrightarrow> slot_state (sp_slots sp' ! j) = Slot_Ready)))"

lemma leases_ok_frame:
  assumes ok: "leases_ok R self L sp" and fr: "leases_frame sp sp'"
  shows "leases_ok R self L sp'"
proof -
  have "lease_ok self sp' l" if l: "l \<in> set L" for l
    using lease_pinned [OF ok l] fr by (intro lease_ok_cong [of self sp l sp']) (auto simp: leases_frame_def)
  moreover have "slot_state (sp_slots sp' ! lease_slot l) = Slot_Ready" if l: "l \<in> set R" for l
  proof -
    have "l \<in> set L" "slot_state (sp_slots sp ! lease_slot l) = Slot_Ready"
      using ok l by (auto simp: leases_ok_def)
    then show ?thesis
      using lease_pinned [OF ok, of l] fr by (simp add: leases_frame_def)
  qed
  ultimately show ?thesis
    using ok fr by (simp add: leases_ok_def leases_frame_def)
qed

definition requests_frame :: "slot_pool \<Rightarrow> slot_pool \<Rightarrow> bool" where
  "requests_frame sp sp' \<longleftrightarrow>
     sp_config sp' = sp_config sp \<and> length (sp_slots sp') = length (sp_slots sp) \<and>
     (\<forall>j < length (sp_slots sp).
        (slot_state (sp_slots sp' ! j) = Slot_Filling) = (slot_state (sp_slots sp ! j) = Slot_Filling) \<and>
        (slot_state (sp_slots sp ! j) = Slot_Filling \<longrightarrow>
           slot_generation (sp_slots sp' ! j) = slot_generation (sp_slots sp ! j) \<and>
           slot_chunk (sp_slots sp' ! j) = slot_chunk (sp_slots sp ! j)))"

lemma slot_request_cong:
  assumes "sp_config sp' = sp_config sp"
    and "slot_generation (sp_slots sp' ! i) = slot_generation (sp_slots sp ! i)"
    and "slot_chunk (sp_slots sp' ! i) = slot_chunk (sp_slots sp ! i)"
  shows "slot_request self sp' i = slot_request self sp i"
  using assms by (simp add: slot_request_def sp_request_def)

lemma requests_ok_frame:
  assumes ok: "requests_ok outstanding self sp b" and fr: "requests_frame sp sp'"
    and b: "outstanding b' = outstanding b"
  shows "requests_ok outstanding self sp' b'"
proof -
  have set: "filling_set sp' = filling_set sp"
    using fr by (auto simp: filling_set_def requests_frame_def)
  have "image_mset (slot_request self sp') (mset_set (filling_set sp))
      = image_mset (slot_request self sp) (mset_set (filling_set sp))"
    using fr by (intro image_mset_cong slot_request_cong) (auto simp: filling_set_def requests_frame_def)
  then show ?thesis
    using ok b by (simp add: requests_ok_def set)
qed

definition content_frame :: "slot_pool \<Rightarrow> slot_pool \<Rightarrow> bool" where
  "content_frame sp sp' \<longleftrightarrow>
     sp_config sp' = sp_config sp \<and> length (sp_slots sp') = length (sp_slots sp) \<and>
     (\<forall>j < length (sp_slots sp). slot_state (sp_slots sp' ! j) = Slot_Ready \<longrightarrow>
        slot_state (sp_slots sp ! j) = Slot_Ready \<and>
        slot_chunk (sp_slots sp' ! j) = slot_chunk (sp_slots sp ! j))"

lemma content_ok_frame: "content_ok content sp m \<Longrightarrow> content_frame sp sp' \<Longrightarrow> content_ok content sp' m"
  by (simp add: content_ok_def content_frame_def)

lemma sweep_frames:
  assumes "sweep_frame sp sp'"
  shows "leases_frame sp sp'" "requests_frame sp sp'" "content_frame sp sp'"
proof -
  have st: "slot_state (sp_slots sp' ! j) = slot_state (sp_slots sp ! j) \<or>
      slot_state (sp_slots sp ! j) = Slot_Ready \<and> slot_pins (sp_slots sp ! j) = 0 \<and>
      slot_state (sp_slots sp' ! j) = Slot_Free"
    if "j < length (sp_slots sp)" for j
    using assms that by (auto simp: sweep_frame_def)
  have "(slot_state (sp_slots sp' ! j) = Slot_Filling) = (slot_state (sp_slots sp ! j) = Slot_Filling)"
    "slot_state (sp_slots sp' ! j) = Slot_Ready \<longrightarrow> slot_state (sp_slots sp ! j) = Slot_Ready"
    "0 < slot_pins (sp_slots sp ! j) \<longrightarrow> slot_state (sp_slots sp' ! j) = slot_state (sp_slots sp ! j)"
    if "j < length (sp_slots sp)" for j
    using st [OF that] by auto
  then show "leases_frame sp sp'" "requests_frame sp sp'" "content_frame sp sp'"
    using assms by (simp_all add: sweep_frame_def leases_frame_def requests_frame_def content_frame_def)
qed

text \<open>Operations on tickets, waiters, counters and flags.\<close>

definition slot_view :: "slot \<Rightarrow> u64 \<times> gen \<times> nat \<times> slot_state" where
  "slot_view s = (slot_chunk s, slot_generation s, slot_pins s, slot_state s)"

lemma same_view_frames:
  assumes cfg: "sp_config sp' = sp_config sp" and len: "length (sp_slots sp') = length (sp_slots sp)"
    and view: "\<And>j. j < length (sp_slots sp) \<Longrightarrow> slot_view (sp_slots sp' ! j) = slot_view (sp_slots sp ! j)"
  shows "leases_frame sp sp'" "requests_frame sp sp'" "content_frame sp sp'"
  using assms unfolding leases_frame_def requests_frame_def content_frame_def slot_view_def by auto

lemma pool_inv_view:
  assumes inv: "pool_inv outstanding valid content R self L sp b m" and core: "core_ok sp'"
    and "sp_config sp' = sp_config sp" "length (sp_slots sp') = length (sp_slots sp)"
    and "\<And>j. j < length (sp_slots sp) \<Longrightarrow> slot_view (sp_slots sp' ! j) = slot_view (sp_slots sp ! j)"
  shows "pool_inv outstanding valid content R self L sp' b m"
  using pool_invD [OF inv] core same_view_frames [OF assms(3-5)]
  by (auto simp: pool_inv_def intro: leases_ok_frame requests_ok_frame content_ok_frame)

lemma pool_inv_slots_same:
  assumes inv: "pool_inv outstanding valid content R self L sp b m"
    and "sp_slots sp' = sp_slots sp" "sp_config sp' = sp_config sp"
      "sp_clock_hand sp' = sp_clock_hand sp" "sp_index sp' = sp_index sp"
      "sp_index_shift sp' = sp_index_shift sp" "sp_non_free sp' = sp_non_free sp"
      "sp_in_flight sp' = sp_in_flight sp" "sp_pins_total sp' = sp_pins_total sp"
  shows "pool_inv outstanding valid content R self L sp' b m"
  using assms core_okD(3) [OF pool_invD(1) [OF inv]]
  by (intro pool_inv_view [OF inv] core_ok_slots_same [OF pool_invD(1) [OF inv]]) simp_all

lemma pool_inv_claim:
  assumes inv: "pool_inv outstanding valid content R self L sp b m"
    and run: "claim_victim admission sp = (i, sp')"
  shows "pool_inv outstanding valid content R self L sp' b m"
proof -
  note core = claim_victim_core [OF pool_invD(1) [OF inv] run]
  show ?thesis
    using pool_invD [OF inv] core(1) sweep_frames [OF core(2)]
    by (auto simp: pool_inv_def intro: leases_ok_frame requests_ok_frame content_ok_frame)
qed

section \<open>Pinning and unpinning\<close>

lemma leases_ok_pin:
  assumes ok: "leases_ok R self L sp" and i: "i < length (sp_slots sp)" "lease_slot l = i"
    and cfg: "sp_config sp' = sp_config sp" and slots: "sp_slots sp' = (sp_slots sp)[i := s]"
    and s: "slot_pins s = slot_pins (sp_slots sp ! i) + 1"
      "slot_generation s = slot_generation (sp_slots sp ! i)" "slot_chunk s = slot_chunk (sp_slots sp ! i)"
      "slot_state s = slot_state (sp_slots sp ! i)"
    and l: "lease_ok self sp l"
  shows "leases_ok R self (L @ [l]) sp'"
proof -
  have "lease_ok self sp' x" if "x \<in> set (L @ [l])" for x
  proof (rule lease_ok_cong [of self sp])
    show "lease_ok self sp x"
      using ok l that by (auto simp: leases_ok_def)
    then have "lease_slot x < length (sp_slots sp)"
      by (simp add: lease_ok_def)
    then show "slot_generation (sp_slots sp' ! lease_slot x) = slot_generation (sp_slots sp ! lease_slot x)"
      "slot_chunk (sp_slots sp' ! lease_slot x) = slot_chunk (sp_slots sp ! lease_slot x)"
      using s by (auto simp: slots nth_upd)
  qed (simp_all add: cfg slots)
  moreover have "slot_pins (sp_slots sp' ! j) = count_where (\<lambda>x. lease_slot x = j) (L @ [l])"
    if "j < length (sp_slots sp)" for j
    using leases_pins [OF ok that] s(1) i that by (auto simp: slots nth_upd)
  moreover have "slot_state (sp_slots sp' ! lease_slot x) = Slot_Ready" if x: "x \<in> set R" for x
  proof -
    have "x \<in> set L" "slot_state (sp_slots sp ! lease_slot x) = Slot_Ready"
      using ok x by (auto simp: leases_ok_def)
    then show ?thesis
      using lease_pinned(2) [OF ok, of x] s(4) by (simp add: slots nth_upd)
  qed
  moreover have "set R \<subseteq> set (L @ [l])"
    using ok by (auto simp: leases_ok_def)
  ultimately show ?thesis
    by (simp add: leases_ok_def slots)
qed

lemma leases_ok_mset:
  assumes "leases_ok R self L sp" "mset L' = mset L"
  shows "leases_ok R self L' sp"
proof -
  have "set L' = set L"
    using assms(2) by (rule mset_eq_setD)
  moreover have "count_where P L' = count_where P L" for P
    using assms(2) unfolding count_where_def by (metis mset_filter size_mset)
  ultimately show ?thesis
    using assms(1) by (simp add: leases_ok_def)
qed

lemma leases_ok_unpin:
  assumes ok: "leases_ok R self (l # L) sp" and sub: "set R \<subseteq> set L"
    and slots: "sp_slots sp' = (sp_slots sp)[lease_slot l := unpinned (sp_slots sp ! lease_slot l)]"
    and cfg: "sp_config sp' = sp_config sp"
  shows "leases_ok R self L sp'"
proof -
  have l: "lease_slot l < length (sp_slots sp)"
    using lease_pinned(2) [OF ok] by simp
  have "lease_ok self sp' x" if "x \<in> set L" for x
  proof (rule lease_ok_cong [of self sp])
    show "lease_ok self sp x"
      using ok that by (auto simp: leases_ok_def)
    then have "lease_slot x < length (sp_slots sp)"
      by (simp add: lease_ok_def)
    then show "slot_generation (sp_slots sp' ! lease_slot x) = slot_generation (sp_slots sp ! lease_slot x)"
      "slot_chunk (sp_slots sp' ! lease_slot x) = slot_chunk (sp_slots sp ! lease_slot x)"
      by (auto simp: slots nth_upd)
  qed (simp_all add: cfg slots)
  moreover have "slot_pins (sp_slots sp' ! j) = count_where (\<lambda>x. lease_slot x = j) L"
    if "j < length (sp_slots sp)" for j
    using leases_pins [OF ok that] l that by (auto simp: slots nth_upd)
  moreover have "slot_state (sp_slots sp' ! lease_slot x) = Slot_Ready" if x: "x \<in> set R" for x
  proof -
    have "x \<in> set (l # L)" "slot_state (sp_slots sp ! lease_slot x) = Slot_Ready"
      using ok x by (auto simp: leases_ok_def)
    then show ?thesis
      using lease_pinned(2) [OF ok, of x] by (auto simp: slots nth_upd)
  qed
  ultimately show ?thesis
    using sub by (simp add: leases_ok_def slots)
qed

lemma pool_inv_unpin:
  assumes inv: "pool_inv outstanding valid content R self (l # L) sp b m" and sub: "set R \<subseteq> set L"
  shows "pool_inv outstanding valid content R self L (unpin_locked (lease_slot l) sp) b m"
proof -
  note D = pool_invD [OF inv]
  have l: "lease_slot l < length (sp_slots sp)" "0 < slot_pins (sp_slots sp ! lease_slot l)"
    using lease_pinned(2,3) [OF D(2), of l] by simp_all
  have nonfree: "slot_state (sp_slots sp ! lease_slot l) \<noteq> Slot_Free"
    using slot_ok_nth [OF D(1) l(1)] l(2) by (auto simp: slot_ok_def)
  let ?sp = "unpin_locked (lease_slot l) sp"
  note slots = unpin_slots [OF l(1)]
  have "core_ok ?sp"
    using D(1) l by (rule unpin_core)
  moreover have "leases_ok R self L ?sp"
    using D(2) sub slots by (rule leases_ok_unpin) simp
  moreover have "requests_frame sp ?sp" "content_frame sp ?sp"
    using l(1) nonfree by (auto simp: requests_frame_def content_frame_def slots nth_upd)
  ultimately show ?thesis
    using D by (auto simp: pool_inv_def intro: requests_ok_frame content_ok_frame)
qed

text \<open>A held lease is never refused: releasing it does not terminate.\<close>

lemma release_lease_held:
  assumes inv: "pool_inv outstanding valid content R self L sp b m" and l: "l \<in> set L"
  shows "lease_reset l sp =
    Some (l\<lparr>lease_pool := None, lease_bytes := empty_span\<rparr>, unpin_locked (lease_slot l) sp)"
proof -
  note D = pool_invD [OF inv]
  have "lease_ok self sp l" "0 < slot_pins (sp_slots sp ! lease_slot l)"
    using lease_pinned [OF D(2) l] by simp_all
  then show ?thesis
    by (simp add: lease_reset_def release_lease_def lease_ok_def)
qed

lemma pool_inv_remove:
  assumes inv: "pool_inv outstanding valid content R self L sp b m" and l: "l \<in> set L"
    and sub: "set R \<subseteq> set (remove1 l L)"
  shows "pool_inv outstanding valid content R self (remove1 l L) (unpin_locked (lease_slot l) sp) b m"
proof -
  have "pool_inv outstanding valid content R self (l # remove1 l L) sp b m"
    using inv leases_ok_mset [of R self L sp "l # remove1 l L"] l by (auto simp: pool_inv_def)
  then show ?thesis
    using sub by (rule pool_inv_unpin)
qed

lemma pool_inv_unwind:
  "pool_inv outstanding valid content R self (P @ L) sp b m \<Longrightarrow> set R \<subseteq> set L \<Longrightarrow> unwind P sp = (P', sp') \<Longrightarrow>
     pool_inv outstanding valid content R self L sp' b m \<and> length P' = length P \<and>
     (\<forall>l \<in> set P'. lease_pool l = None) \<and> rest_same sp sp'"
proof (induction P arbitrary: sp P' sp')
  case Nil
  then show ?case by (simp add: rest_same_def)
next
  case (Cons l P)
  obtain Q where Q: "unwind P (unpin_locked (lease_slot l) sp) = (Q, sp')"
      "P' = l\<lparr>lease_pool := None, lease_bytes := empty_span\<rparr> # Q"
    using Cons.prems(3) by (auto split: prod.splits)
  have "pool_inv outstanding valid content R self (P @ L) (unpin_locked (lease_slot l) sp) b m"
    using Cons.prems(1,2) by (intro pool_inv_unpin) auto
  then show ?case
    using Cons.IH [OF _ Cons.prems(2) Q(1)] Q(2) by (simp add: rest_same_def)
qed

section \<open>Fills and deliveries\<close>

lemma filling_set_update:
  assumes "i < length (sp_slots sp)" "sp_slots sp' = (sp_slots sp)[i := s]"
  shows "filling_set sp' = (if slot_state s = Slot_Filling then insert i (filling_set sp)
                            else filling_set sp - {i})"
  using assms by (auto simp: filling_set_def nth_upd split: if_splits)

lemma slot_request_other:
  assumes "sp_config sp' = sp_config sp" "sp_slots sp' = (sp_slots sp)[i := s]" "j \<noteq> i"
  shows "slot_request self sp' j = slot_request self sp j"
  using assms by (intro slot_request_cong) simp_all

lemma requests_ok_add:
  assumes ok: "requests_ok outstanding self sp b" and i: "i < length (sp_slots sp)" "i \<notin> filling_set sp"
    and sp': "sp_config sp' = sp_config sp" "sp_slots sp' = (sp_slots sp)[i := s]"
    and s: "slot_state s = Slot_Filling"
    and out: "outstanding b' = add_mset (slot_request self sp' i) (outstanding b)"
  shows "requests_ok outstanding self sp' b'"
proof -
  have "image_mset (slot_request self sp') (mset_set (filling_set sp))
      = image_mset (slot_request self sp) (mset_set (filling_set sp))"
    using i(2) by (intro image_mset_cong slot_request_other [OF sp']) auto
  then show ?thesis
    using ok i(2) out s by (simp add: requests_ok_def filling_set_update [OF i(1) sp'(2)])
qed

lemma requests_ok_remove:
  assumes ok: "requests_ok outstanding self sp b" and i: "i \<in> filling_set sp"
    and sp': "sp_config sp' = sp_config sp" "sp_slots sp' = (sp_slots sp)[i := s]"
    and s: "slot_state s \<noteq> Slot_Filling"
    and out: "outstanding b' = outstanding b - {# slot_request self sp i #}"
  shows "requests_ok outstanding self sp' b'"
proof -
  have lt: "i < length (sp_slots sp)"
    using i by (simp add: filling_set_def)
  have set: "filling_set sp' = filling_set sp - {i}"
    using filling_set_update [OF lt sp'(2)] s by simp
  have "image_mset (slot_request self sp') (mset_set (filling_set sp - {i}))
      = image_mset (slot_request self sp) (mset_set (filling_set sp - {i}))"
    by (intro image_mset_cong slot_request_other [OF sp']) auto
  moreover have "mset_set (filling_set sp) = add_mset i (mset_set (filling_set sp - {i}))"
    using i by (simp add: mset_set.remove)
  ultimately show ?thesis
    using ok out by (simp add: requests_ok_def set)
qed

lemma slot_request_destination:
  "req_destination (slot_request self sp i)
     = slot_span (sp_config sp) i 0 (chunk_length (sp_config sp) (slot_chunk (sp_slots sp ! i)))"
  by (simp add: slot_request_def sp_request_def slot_span_def)

lemma live_chunk_inside:
  assumes "core_ok sp" "i < length (sp_slots sp)" "slot_live (sp_slots sp ! i)"
  shows "chunk_inside (sp_config sp) (slot_chunk (sp_slots sp ! i))"
  using slot_ok_nth [OF assms(1,2)] assms(3) by (simp add: slot_ok_def)

lemma content_ok_write:
  assumes ok: "content_ok content sp m" and core: "core_ok sp" and i: "i \<in> filling_set sp"
    and frame: "\<And>a. a \<notin> span_addrs (req_destination (slot_request self sp i)) \<Longrightarrow> m' a = m a"
  shows "content_ok content sp m'"
  unfolding content_ok_def
proof (intro allI impI)
  fix j k
  let ?c = "sp_config sp" and ?s = "sp_slots sp ! j"
  assume j: "j < length (sp_slots sp)" "slot_state ?s = Slot_Ready"
    and k: "k < unat (chunk_length ?c (slot_chunk ?s))"
  have i': "i < length (sp_slots sp)" "slot_state (sp_slots sp ! i) = Slot_Filling"
    using i by (simp_all add: filling_set_def)
  have inside: "chunk_inside ?c (slot_chunk ?s)" "chunk_inside ?c (slot_chunk (sp_slots sp ! i))"
    using live_chunk_inside [OF core] i' j by (simp_all add: slot_live_def)
  have "span_addrs (slot_span ?c j 0 (chunk_length ?c (slot_chunk ?s)))
      \<inter> span_addrs (slot_span ?c i 0 (chunk_length ?c (slot_chunk (sp_slots sp ! i)))) = {}"
    using core_okD(1,2) [OF core] i' j chunk_length_le [OF inside(1)] chunk_length_le [OF inside(2)]
    by (intro slot_spans_disjoint) auto
  moreover have "slot_data ?c j + of_nat k \<in> span_addrs (slot_span ?c j 0 (chunk_length ?c (slot_chunk ?s)))"
    using k by (auto simp: span_addrs_iff)
  ultimately have "slot_data ?c j + of_nat k \<notin> span_addrs (req_destination (slot_request self sp i))"
    unfolding slot_request_destination by blast
  then have "m' (slot_data ?c j + of_nat k) = m (slot_data ?c j + of_nat k)"
    by (rule frame)
  then show "m' (slot_data ?c j + of_nat k)
      = content (sc_source ?c) (slot_chunk ?s * sc_slot_bytes ?c + of_nat k)"
    using ok j k by (simp add: content_ok_def)
qed

context completing_backend
begin

abbreviation pinv :: "lease list \<Rightarrow> sink \<Rightarrow> lease list \<Rightarrow> slot_pool \<Rightarrow> 'b \<Rightarrow> memory \<Rightarrow> bool" where
  "pinv \<equiv> pool_inv outstanding valid content"

lemma pool_inv_start_fill:
  assumes inv: "pinv R self L sp b m"
    and i: "i < length (sp_slots sp)" "slot_state (sp_slots sp ! i) = Slot_Free"
    and c: "sp_find c sp = NONE" "chunk_inside (sp_config sp) c"
    and run: "start_fill submit self i c sp b = (st, sp', b')"
  shows "pinv R self L sp' b' m" "rest_same sp sp'" "st = Ok \<or> st = Queue_Exhausted"
    "st = Ok \<Longrightarrow> sp_slots sp' = (sp_slots sp)[i := filling c (sp_slots sp ! i)]"
    "st \<noteq> Ok \<Longrightarrow> sp_slots sp' = (sp_slots sp)[i := freed (filling c (sp_slots sp ! i))]"
proof -
  note D = pool_invD [OF inv]
  obtain accepted where sub: "submit (sp_request (begin_fill i c sp) self i c) b = (accepted, b')"
    and st: "st = (if accepted then Ok else Queue_Exhausted)"
    and slots: "sp_slots sp' = (sp_slots sp)[i := fill_effect accepted c (sp_slots sp ! i)]"
    and core: "core_ok sp'" and rest: "rest_same sp sp'"
    using start_fill_core [OF D(1) i c run] by blast
  have cfg: "sp_config sp' = sp_config sp"
    using rest by (simp add: rest_same_def)
  have pins: "slot_pins (sp_slots sp ! i) = 0"
    using slot_ok_nth [OF D(1) i(1)] i(2) by (simp add: slot_ok_def)
  have notin: "i \<notin> filling_set sp"
    using i(2) by (simp add: filling_set_def)
  have valid': "valid b'"
    using D(5) sub by (rule submit_valid)
  have "leases_frame sp sp'"
    using pins by (auto simp: leases_frame_def cfg slots nth_upd fill_effect_def)
  moreover have "content_frame sp sp'"
    by (auto simp: content_frame_def cfg slots nth_upd fill_effect_def)
  moreover have "requests_ok outstanding self sp' b'"
  proof (cases accepted)
    case True
    have "slot_request self sp' i = sp_request (begin_fill i c sp) self i c"
      using i(1) True by (simp add: slot_request_def sp_request_def cfg slots fill_effect_def)
    then have "outstanding b' = add_mset (slot_request self sp' i) (outstanding b)"
      using submit_accepted [OF D(5)] sub True by simp
    then show ?thesis
      using True by (intro requests_ok_add [OF D(3) i(1) notin cfg slots]) (simp_all add: fill_effect_def)
  next
    case False
    have "requests_frame sp sp'"
      using i False by (auto simp: requests_frame_def cfg slots nth_upd fill_effect_def)
    then show ?thesis
      using submit_refused [OF D(5)] sub False by (intro requests_ok_frame [OF D(3)]) simp_all
  qed
  ultimately show "pinv R self L sp' b' m"
    using D core valid' by (auto simp: pool_inv_def intro: leases_ok_frame content_ok_frame)
  show "rest_same sp sp'" "st = Ok \<or> st = Queue_Exhausted"
    using rest st by simp_all
  show "sp_slots sp' = (sp_slots sp)[i := filling c (sp_slots sp ! i)]" if "st = Ok"
    using that st slots by (simp add: fill_effect_def split: if_splits)
  show "sp_slots sp' = (sp_slots sp)[i := freed (filling c (sp_slots sp ! i))]" if "st \<noteq> Ok"
    using that st slots by (simp add: fill_effect_def split: if_splits)
qed

lemma pool_inv_writing:
  assumes inv: "pinv R self L sp b m" and r: "r \<in># outstanding b"
    and frame: "\<And>a. a \<notin> span_addrs (req_destination r) \<Longrightarrow> m' a = m a"
  shows "pinv R self L sp b m'"
proof -
  note D = pool_invD [OF inv]
  obtain i where "i \<in> filling_set sp" "r = slot_request self sp i"
    using r D(3) by (auto simp: requests_ok_def)
  then have "content_ok content sp m'"
    using content_ok_write [OF D(4,1)] frame by blast
  then show ?thesis
    using D by (simp add: pool_inv_def)
qed

lemma delivered_request:
  assumes inv: "pinv R self L sp b m" and r: "completes b r res m b' m'"
  obtains i where "i \<in> filling_set sp" "r = slot_request self sp i" "\<not> sp_is_stale (req_token r) sp"
    "token_index (req_token r) = i"
proof -
  note D = pool_invD [OF inv]
  have "r \<in># outstanding b"
    using D(5) r by (rule completes_outstanding)
  then obtain i where "i \<in> filling_set sp" "r = slot_request self sp i"
    using D(3) by (auto simp: requests_ok_def)
  then show thesis
    using that by (simp add: sp_is_stale_def slot_request_def sp_request_def filling_set_def)
qed

lemma pool_inv_deliver:
  assumes inv: "pinv R self L sp b m" and r: "completes b r res m b' m'"
  shows "pinv R self L (sp_on_complete (req_token r) res sp) b' m'"
proof -
  note D = pool_invD [OF inv]
  obtain i where i: "i \<in> filling_set sp" "r = slot_request self sp i"
      "\<not> sp_is_stale (req_token r) sp" "token_index (req_token r) = i"
    using delivered_request [OF inv r] .
  let ?s = "sp_slots sp ! i" and ?sp' = "sp_on_complete (req_token r) res sp" and ?c = "sp_config sp"
  let ?st = "classify_fill res (chunk_length ?c (slot_chunk ?s))"
  have i': "i < length (sp_slots sp)" "slot_state ?s = Slot_Filling"
    using i(1) by (simp_all add: filling_set_def)
  have slots: "sp_slots ?sp' = (sp_slots sp)[i := delivered_slot ?st ?s]"
    using sp_on_complete_slots [OF i(3)] i(4) by simp
  have cfg: "sp_config ?sp' = ?c"
    using i(3) by (simp add: sp_on_complete_live Let_def)
  have core: "core_ok ?sp'"
    using D(1) by (rule sp_on_complete_core)
  have frame: "m' a = m a" if "a \<notin> span_addrs (req_destination (slot_request self sp i))" for a
    using completes_frame [OF D(5) r] that i(2) by simp
  have old: "content_ok content sp m'"
    using content_ok_write [OF D(4,1) i(1)] frame by blast
  have "content_ok content ?sp' m'"
    unfolding content_ok_def
  proof (intro allI impI)
    fix j k
    assume j: "j < length (sp_slots ?sp')" "slot_state (sp_slots ?sp' ! j) = Slot_Ready"
      and k: "k < unat (chunk_length (sp_config ?sp') (slot_chunk (sp_slots ?sp' ! j)))"
    show "m' (slot_data (sp_config ?sp') j + of_nat k) = content (sc_source (sp_config ?sp'))
        (slot_chunk (sp_slots ?sp' ! j) * sc_slot_bytes (sp_config ?sp') + of_nat k)"
    proof (cases "j = i")
      case False
      then show ?thesis
        using old j k by (auto simp: content_ok_def slots cfg)
    next
      case True
      have ok: "?st = Ok"
        using j(2) i'(1) True by (simp add: slots split: if_splits)
      have size: "span_size (req_destination r) = chunk_length ?c (slot_chunk ?s)"
        "span_data (req_destination r) = slot_data ?c i"
        "req_source r = sc_source ?c" "req_source_offset r = slot_chunk ?s * sc_slot_bytes ?c"
        unfolding i(2) by (simp_all add: slot_request_destination) (simp_all add: slot_request_def sp_request_def)
      have "m' (span_data (req_destination r) + of_nat k)
          = content (req_source r) (req_source_offset r + of_nat k)"
        using k True i'(1) ok by (intro completes_content [OF D(5) r]) (simp_all add: size slots cfg)
      then show ?thesis
        using True i'(1) by (simp add: slots cfg size)
    qed
  qed
  moreover have "leases_frame sp ?sp'"
    using i'(2) by (auto simp: leases_frame_def cfg slots nth_upd)
  moreover have "requests_ok outstanding self ?sp' b'"
    using completes_once [OF D(5) r] i(2)
    by (intro requests_ok_remove [OF D(3) i(1) cfg slots]) simp_all
  ultimately show ?thesis
    using D core completes_valid [OF D(5) r] by (auto simp: pool_inv_def intro: leases_ok_frame)
qed

end

section \<open>Resolve\<close>

lemma chunk_lease_fields [simp]:
  "lease_pool (chunk_lease self config i g c rng) = Some self"
  "lease_slot (chunk_lease self config i g c rng) = i"
  "lease_generation (chunk_lease self config i g c rng) = g"
  by (simp_all add: chunk_lease_def Let_def)

lemma chunk_lease_ok:
  assumes core: "core_ok sp" and i: "i < length (sp_slots sp)" "slot_chunk (sp_slots sp ! i) = c"
    and rng: "range_ok (sp_config sp) rng" "c \<in> set (range_chunks (sp_config sp) rng)"
    and g: "g = slot_generation (sp_slots sp ! i)"
  shows "lease_ok self sp (chunk_lease self (sp_config sp) i g c rng)"
proof -
  have sb: "0 < unat (sc_slot_bytes (sp_config sp))"
    using core_okD(1) [OF core] by (simp add: config_ok_def)
  note inside = range_chunks_inside(1) [OF rng(1) sb rng(2)]
  note u = chunk_lease_unat [OF rng(1) sb rng(2)]
  show ?thesis
    unfolding lease_ok_def Let_def chunk_lease_fields i(2) chunk_start_unat [OF inside] u(1,2)
    using i(1) g inside u(3,6) u(4) [symmetric] by simp
qed

lemma sp_find_slot:
  assumes "core_ok sp" "sp_find c sp \<noteq> NONE"
  shows "sp_find c sp < length (sp_slots sp)" "slot_live (sp_slots sp ! sp_find c sp)"
    "slot_chunk (sp_slots sp ! sp_find c sp) = c"
  using sp_find_live [OF core_okD(4) [OF assms(1)] assms(2)] by simp_all

context completing_backend
begin

lemma pool_inv_pin:
  assumes inv: "pinv R self L sp b m" and i: "i < length (sp_slots sp)" "slot_live (sp_slots sp ! i)"
      "slot_chunk (sp_slots sp ! i) = c"
    and rng: "range_ok (sp_config sp) rng" "c \<in> set (range_chunks (sp_config sp) rng)"
    and run: "pin_chunk self i c rng rs sp = (rs', sp')"
  obtains l where "pinv R self (L @ [l]) sp' b m" "lease_for self (sp_config sp) (c, rng) l" "rest_same sp sp'"
    "rs' = rs\<lparr>rs_out := (rs_out rs)[rs_pinned rs := l], rs_pinned := rs_pinned rs + 1\<rparr>"
proof -
  note D = pool_invD [OF inv] and E = pin_chunk_eq [OF i(1) run]
  let ?l = "chunk_lease self (sp_config sp) i (slot_generation (sp_slots sp ! i)) c rng"
  have cfg: "sp_config sp' = sp_config sp"
    using E(3) by (simp add: rest_same_def)
  have "core_ok sp'"
    using D(1) i(1,2) run by (rule pin_chunk_core)
  moreover have "leases_ok R self (L @ [?l]) sp'"
    using chunk_lease_ok [OF D(1) i(1,3) rng]
    by (intro leases_ok_pin [OF D(2) i(1) _ cfg E(2)]) simp_all
  moreover have "requests_frame sp sp'" "content_frame sp sp'"
    by (auto simp: requests_frame_def content_frame_def cfg E(2) nth_upd)
  ultimately have "pinv R self (L @ [?l]) sp' b m"
    using D by (auto simp: pool_inv_def intro: requests_ok_frame content_ok_frame)
  then show thesis
    using that [of ?l] E(1,3) by (auto simp: lease_for_def)
qed

text \<open>One call of the loop body, when nothing has failed so far.\<close>

lemma pool_inv_resolve_chunk:
  assumes inv: "pinv R self (L @ take (rs_pinned rs) (rs_out rs)) sp b m"
    and room: "rs_pinned rs < length (rs_out rs)" and ok: "rs_failure rs = Ok"
    and rng: "range_ok (sp_config sp) rng" "c \<in> set (range_chunks (sp_config sp) rng)"
    and run: "resolve_chunk submit self (c, rng) rs sp b = (rs', sp', b')"
  shows "pinv R self (L @ take (rs_pinned rs') (rs_out rs')) sp' b' m \<and> rest_same sp sp' \<and>
    (rs_failure rs' = Ok \<longrightarrow>
       (\<exists>l. rs' = rs\<lparr>rs_out := (rs_out rs)[rs_pinned rs := l], rs_pinned := rs_pinned rs + 1\<rparr> \<and>
            lease_for self (sp_config sp) (c, rng) l)) \<and>
    (rs_failure rs' \<noteq> Ok \<longrightarrow> rs_out rs' = rs_out rs \<and> rs_pinned rs' = rs_pinned rs \<and>
       rs_failure rs' \<in> {Batch_Too_Large, Pool_Exhausted, Queue_Exhausted})"
proof -
  let ?L = "L @ take (rs_pinned rs) (rs_out rs)"
  have pinned: ?thesis
    if inv1: "pinv R self ?L sp1 b1 m" and rest: "rest_same sp sp1"
      and i: "i < length (sp_slots sp1)" "slot_live (sp_slots sp1 ! i)" "slot_chunk (sp_slots sp1 ! i) = c"
      and run1: "pin_chunk self i c rng rs sp1 = (rs', sp')" "b' = b1" for sp1 b1 i
  proof -
    have cfg: "sp_config sp1 = sp_config sp"
      using rest by (simp add: rest_same_def)
    obtain l where l: "pinv R self (?L @ [l]) sp' b1 m" "lease_for self (sp_config sp) (c, rng) l"
        "rest_same sp1 sp'"
        "rs' = rs\<lparr>rs_out := (rs_out rs)[rs_pinned rs := l], rs_pinned := rs_pinned rs + 1\<rparr>"
      using pool_inv_pin [OF inv1 i _ _ run1(1)] rng unfolding cfg by metis
    have "take (rs_pinned rs') (rs_out rs') = take (rs_pinned rs) (rs_out rs) @ [l]"
      using room by (simp add: l(4) take_Suc_conv_app_nth)
    then show ?thesis
      using l rest ok run1(2) by (auto simp: rest_same_def)
  qed
  show ?thesis
  proof (cases "sp_find c sp = NONE")
    case False
    let ?sp1 = "if slot_state (sp_slots sp ! sp_find c sp) = Slot_Ready
        then upd_counters (\<lambda>c. c\<lparr>sps_resolve_hits := sps_resolve_hits c + 1\<rparr>) sp else count_coalesced sp"
    have same: "sp_slots ?sp1 = sp_slots sp" "rest_same sp ?sp1"
      by (simp_all add: count_coalesced_def rest_same_def)
    have "pinv R self ?L ?sp1 b m"
      using inv by (rule pool_inv_slots_same) (simp_all add: count_coalesced_def)
    moreover have "pin_chunk self (sp_find c sp) c rng rs ?sp1 = (rs', sp')" "b' = b"
      using run False ok by (auto simp: resolve_chunk_def Let_def split: prod.splits if_splits)
    ultimately show ?thesis
      using sp_find_slot [OF pool_invD(1) [OF inv] False] same by (intro pinned) simp_all
  next
    case True
    let ?sp1 = "upd_counters (\<lambda>c. c\<lparr>sps_resolve_misses := sps_resolve_misses c + 1\<rparr>) sp"
    have inv1: "pinv R self ?L ?sp1 b m"
      using inv by (rule pool_inv_slots_same) simp_all
    have absent1: "sp_find c ?sp1 = NONE"
      using True slot_key_other [of ?sp1 sp] by (simp add: sp_find_def)
    obtain i sp2 where claim: "claim_victim Declared ?sp1 = (i, sp2)"
      by (cases "claim_victim Declared ?sp1")
    note core2 = claim_victim_core [OF pool_invD(1) [OF inv1] claim]
    have inv2: "pinv R self ?L sp2 b m"
      using inv1 claim by (rule pool_inv_claim)
    have rest2: "rest_same sp sp2" and len2: "length (sp_slots sp2) = length (sp_slots sp)"
      using core2(2) heads_sweep [OF core2(2)] by (simp_all add: rest_same_def sweep_frame_def)
    show ?thesis
    proof (cases "i = NONE")
      case none: True
      then show ?thesis
        using run True ok inv2 rest2 claim by (auto simp: resolve_chunk_def Let_def split: if_splits)
    next
      case some: False
      have i: "i < length (sp_slots sp2)" "slot_state (sp_slots sp2 ! i) = Slot_Free"
        using core2(3) [OF some] len2 by simp_all
      have cfg2: "sp_config sp2 = sp_config sp"
        using rest2 by (simp add: rest_same_def)
      have c2: "sp_find c sp2 = NONE" "chunk_inside (sp_config sp2) c"
        using sweep_absent [OF pool_invD(1) [OF inv1] core2(1,2) absent1]
          range_chunks_inside(1) [OF rng(1) _ rng(2)] config_ok_bounds(1) [OF core_okD(1) [OF pool_invD(1) [OF inv]]]
        by (simp_all add: cfg2)
      obtain st sp3 b3 where fill: "start_fill submit self i c sp2 b = (st, sp3, b3)"
        by (cases "start_fill submit self i c sp2 b") auto
      note F = pool_inv_start_fill [OF inv2 i c2 fill]
      have rest3: "rest_same sp sp3"
        using rest2 F(2) by (simp add: rest_same_def)
      show ?thesis
      proof (cases "st = Ok")
        case False
        then show ?thesis
          using run True ok some claim fill F(1,3) rest3 by (auto simp: resolve_chunk_def Let_def)
      next
        case filled: True
        have "pin_chunk self i c rng rs sp3 = (rs', sp')" "b' = b3"
          using run True ok some claim fill filled
          by (auto simp: resolve_chunk_def Let_def split: prod.splits)
        then show ?thesis
          using i F(1) F(4) [OF filled] rest3 by (intro pinned [of sp3 b3 i]) (simp_all add: slot_live_def)
      qed
    qed
  qed
qed

lemma resolve_loop_failed:
  "rs_failure rs \<noteq> Ok \<Longrightarrow> resolve_loop submit self calls rs sp b = (rs, sp, b)"
  by (induction calls) (auto simp: resolve_chunk_def split: prod.splits)

lemma pool_inv_resolve_loop:
  assumes "\<And>c rng. (c, rng) \<in> set calls \<Longrightarrow> range_ok (sp_config sp) rng \<and> c \<in> set (range_chunks (sp_config sp) rng)"
    and "pinv R self (L @ take (rs_pinned rs) (rs_out rs)) sp b m"
    and "rs_pinned rs + length calls \<le> length (rs_out rs)" "rs_failure rs = Ok"
    and "resolve_loop submit self calls rs sp b = (rs', sp', b')"
  shows "pinv R self (L @ take (rs_pinned rs') (rs_out rs')) sp' b' m \<and> rest_same sp sp' \<and>
    length (rs_out rs') = length (rs_out rs) \<and> rs_pinned rs' \<le> rs_pinned rs + length calls \<and>
    (rs_failure rs' = Ok \<longrightarrow> rs_pinned rs' = rs_pinned rs + length calls \<and>
       (\<exists>ls. take (rs_pinned rs') (rs_out rs') = take (rs_pinned rs) (rs_out rs) @ ls \<and>
             list_all2 (lease_for self (sp_config sp)) calls ls)) \<and>
    rs_failure rs' \<in> {Ok, Batch_Too_Large, Pool_Exhausted, Queue_Exhausted} \<and>
    drop (rs_pinned rs + length calls) (rs_out rs') = drop (rs_pinned rs + length calls) (rs_out rs)"
  using assms
proof (induction calls arbitrary: rs sp b)
  case Nil
  then show ?case by (simp add: rest_same_def)
next
  case (Cons call calls)
  obtain c rng where call: "call = (c, rng)"
    by (cases call)
  obtain rs1 sp1 b1 where one: "resolve_chunk submit self (c, rng) rs sp b = (rs1, sp1, b1)"
    by (cases "resolve_chunk submit self (c, rng) rs sp b") auto
  have loop: "resolve_loop submit self calls rs1 sp1 b1 = (rs', sp', b')"
    using Cons.prems(5) one by (simp add: call)
  have room: "rs_pinned rs < length (rs_out rs)"
    using Cons.prems(3) by simp
  have rng: "range_ok (sp_config sp) rng" "c \<in> set (range_chunks (sp_config sp) rng)"
    using Cons.prems(1) [of c rng] by (simp_all add: call)
  note step = pool_inv_resolve_chunk [OF Cons.prems(2) room Cons.prems(4) rng one]
  have cfg: "sp_config sp1 = sp_config sp"
    using step by (simp add: rest_same_def)
  show ?case
  proof (cases "rs_failure rs1 = Ok")
    case False
    then show ?thesis
      using step loop resolve_loop_failed [OF False, of self calls sp1 b1] by auto
  next
    case True
    then obtain l where rs1: "rs1 = rs\<lparr>rs_out := (rs_out rs)[rs_pinned rs := l], rs_pinned := rs_pinned rs + 1\<rparr>"
      and l: "lease_for self (sp_config sp) (c, rng) l"
      using step by blast
    have IH: "pinv R self (L @ take (rs_pinned rs') (rs_out rs')) sp' b' m \<and> rest_same sp1 sp' \<and>
      length (rs_out rs') = length (rs_out rs1) \<and> rs_pinned rs' \<le> rs_pinned rs1 + length calls \<and>
      (rs_failure rs' = Ok \<longrightarrow> rs_pinned rs' = rs_pinned rs1 + length calls \<and>
         (\<exists>ls. take (rs_pinned rs') (rs_out rs') = take (rs_pinned rs1) (rs_out rs1) @ ls \<and>
               list_all2 (lease_for self (sp_config sp1)) calls ls)) \<and>
      rs_failure rs' \<in> {Ok, Batch_Too_Large, Pool_Exhausted, Queue_Exhausted} \<and>
      drop (rs_pinned rs1 + length calls) (rs_out rs') = drop (rs_pinned rs1 + length calls) (rs_out rs1)"
      using step Cons.prems(1,3) True
      by (intro Cons.IH [OF _ _ _ True loop]) (auto simp: cfg rs1)
    have tk: "take (rs_pinned rs1) (rs_out rs1) = take (rs_pinned rs) (rs_out rs) @ [l]"
      using room by (simp add: rs1 take_Suc_conv_app_nth)
    have dr: "drop (rs_pinned rs + length (call # calls)) (rs_out rs1)
        = drop (rs_pinned rs + length (call # calls)) (rs_out rs)"
      by (simp add: rs1)
    have "\<exists>ls. take (rs_pinned rs') (rs_out rs') = take (rs_pinned rs) (rs_out rs) @ ls \<and>
             list_all2 (lease_for self (sp_config sp)) (call # calls) ls" if ok: "rs_failure rs' = Ok"
    proof -
      obtain ls where "take (rs_pinned rs') (rs_out rs') = (take (rs_pinned rs) (rs_out rs) @ [l]) @ ls"
          "list_all2 (lease_for self (sp_config sp)) calls ls"
        using IH ok unfolding tk cfg by blast
      then show ?thesis
        using l by (intro exI [of _ "l # ls"]) (simp add: call)
    qed
    moreover have "rest_same sp sp'"
      using step IH by (simp add: rest_same_def)
    moreover have "rs_pinned rs1 + length calls = rs_pinned rs + length (call # calls)"
        "length (rs_out rs1) = length (rs_out rs)"
      by (simp_all add: rs1)
    ultimately show ?thesis
      using IH dr by simp
  qed
qed

text \<open>Leases that are already held when \<open>resolve\<close> overwrites them are released first.\<close>

lemma pool_inv_release_all:
  "pinv R self (filter lease_is_held ls @ L) sp b m \<Longrightarrow> set R \<subseteq> set L \<Longrightarrow>
     \<exists>ls' sp'. release_all ls sp = Some (ls', sp') \<and> pinv R self L sp' b m \<and> length ls' = length ls \<and>
       (\<forall>l \<in> set ls'. lease_pool l = None) \<and> rest_same sp sp'"
proof (induction ls arbitrary: sp)
  case Nil
  then show ?case by (simp add: rest_same_def)
next
  case (Cons l ls)
  show ?case
  proof (cases "lease_is_held l")
    case False
    then have "lease_reset l sp = Some (l, sp)" "lease_pool l = None"
      by (simp_all add: lease_is_held_def lease_reset_def)
    then show ?thesis
      using Cons.IH [of sp] Cons.prems False by fastforce
  next
    case True
    let ?sp = "unpin_locked (lease_slot l) sp"
    have "lease_reset l sp = Some (l\<lparr>lease_pool := None, lease_bytes := empty_span\<rparr>, ?sp)"
      using Cons.prems True by (intro release_lease_held [OF Cons.prems(1)]) simp
    moreover have "pinv R self (filter lease_is_held ls @ L) ?sp b m"
      using Cons.prems True by (intro pool_inv_unpin) auto
    ultimately show ?thesis
      using Cons.IH [of ?sp] Cons.prems(2) by (auto simp: rest_same_def)
  qed
qed

lemma pool_inv_mset: "pinv R self L sp b m \<Longrightarrow> mset L' = mset L \<Longrightarrow> pinv R self L' sp b m"
  using leases_ok_mset by (auto simp: pool_inv_def)

lemma pool_inv_resolve_begin:
  assumes inv: "pinv R self (filter lease_is_held (take chunks out) @ L) sp b m" and sub: "set R \<subseteq> set L"
    and batch: "validate_batch (sp_config sp) ranges = (Ok, chunks)" and room: "chunks \<le> length out"
  obtains res out' sp' b' where "sp_resolve_begin submit self ranges out sp b = Some (res, out', sp', b')"
    "length out' = length out" "rest_same sp sp'" "drop chunks out' = drop chunks out"
    "case res of
       Inl e \<Rightarrow> e \<in> {Batch_Too_Large, Pool_Exhausted, Queue_Exhausted} \<and> pinv R self L sp' b' m
     | Inr pinned \<Rightarrow> pinned = chunks \<and> pinv R self (take chunks out' @ L) sp' b' m \<and>
         list_all2 (lease_for self (sp_config sp)) (for_each_chunk (sp_config sp) ranges) (take chunks out')"
proof -
  let ?c = "sp_config sp"
  have cfg: "config_ok ?c"
    using core_okD(1) [OF pool_invD(1) [OF inv]] .
  note B = validate_batch_Ok [OF cfg batch]
  obtain released sp1 where rel: "release_all (take chunks out) sp = Some (released, sp1)"
    and inv1: "pinv R self L sp1 b m" and len1: "length released = chunks" and rest1: "rest_same sp sp1"
    using pool_inv_release_all [OF inv sub] room by auto
  let ?rs = "\<lparr>rs_failure = Ok, rs_out = released @ drop chunks out, rs_pinned = 0\<rparr>"
  obtain rs2 sp2 b2 where loop: "resolve_loop submit self (for_each_chunk ?c ranges) ?rs sp1 b = (rs2, sp2, b2)"
    by (cases "resolve_loop submit self (for_each_chunk ?c ranges) ?rs sp1 b") auto
  have c1: "sp_config sp1 = ?c"
    using rest1 by (simp add: rest_same_def)
  have L: "pinv R self (L @ take (rs_pinned rs2) (rs_out rs2)) sp2 b2 m \<and> rest_same sp1 sp2 \<and>
    length (rs_out rs2) = length (rs_out ?rs) \<and> rs_pinned rs2 \<le> rs_pinned ?rs + length (for_each_chunk ?c ranges) \<and>
    (rs_failure rs2 = Ok \<longrightarrow> rs_pinned rs2 = rs_pinned ?rs + length (for_each_chunk ?c ranges) \<and>
       (\<exists>ls. take (rs_pinned rs2) (rs_out rs2) = take (rs_pinned ?rs) (rs_out ?rs) @ ls \<and>
             list_all2 (lease_for self (sp_config sp1)) (for_each_chunk ?c ranges) ls)) \<and>
    rs_failure rs2 \<in> {Ok, Batch_Too_Large, Pool_Exhausted, Queue_Exhausted} \<and>
    drop (rs_pinned ?rs + length (for_each_chunk ?c ranges)) (rs_out rs2)
      = drop (rs_pinned ?rs + length (for_each_chunk ?c ranges)) (rs_out ?rs)"
    using inv1 len1 room B(2) for_each_chunk_in [OF B(1)]
    by (intro pool_inv_resolve_loop [OF _ _ _ _ loop]) (auto simp: c1)
  have len2: "length (rs_out rs2) = length out" "rs_pinned rs2 \<le> chunks"
      "drop chunks (rs_out rs2) = drop chunks out"
    using L len1 room B(2) by auto
  have begin_eq: "sp_resolve_begin submit self ranges out sp b =
    (if rs_failure rs2 \<noteq> Ok
     then let (undone, sp) = unwind (take (rs_pinned rs2) (rs_out rs2)) sp2
          in Some (Inl (rs_failure rs2), undone @ drop (rs_pinned rs2) (rs_out rs2), sp, b2)
     else Some (Inr (rs_pinned rs2), rs_out rs2, sp2, b2))"
    using batch room rel loop by (simp add: sp_resolve_begin_def Let_def c1)
  show thesis
  proof (cases "rs_failure rs2 = Ok")
    case True
    have pin: "rs_pinned rs2 = chunks"
      using L True unfolding B(2) by simp
    moreover have "pinv R self (take chunks (rs_out rs2) @ L) sp2 b2 m"
      using conjunct1 [OF L] unfolding pin by (rule pool_inv_mset) simp
    moreover have "list_all2 (lease_for self ?c) (for_each_chunk ?c ranges) (take chunks (rs_out rs2))"
      using L True unfolding pin c1 by auto
    moreover have "rest_same sp sp2"
      using rest1 L by (simp add: rest_same_def)
    ultimately show thesis
      using begin_eq True len2 by (intro that [of "Inr chunks" "rs_out rs2" sp2 b2]) simp_all
  next
    case False
    obtain undone sp3 where un: "unwind (take (rs_pinned rs2) (rs_out rs2)) sp2 = (undone, sp3)"
      by (cases "unwind (take (rs_pinned rs2) (rs_out rs2)) sp2")
    have "pinv R self (take (rs_pinned rs2) (rs_out rs2) @ L) sp2 b2 m"
      using conjunct1 [OF L] by (rule pool_inv_mset) simp
    note U = pool_inv_unwind [OF this sub un]
    have "length undone = rs_pinned rs2"
      using U len2 room by simp
    then have "drop chunks (undone @ drop (rs_pinned rs2) (rs_out rs2)) = drop chunks out"
        "length (undone @ drop (rs_pinned rs2) (rs_out rs2)) = length out"
      using len2 room by simp_all
    moreover have "rest_same sp sp3"
      using rest1 L U by (simp add: rest_same_def)
    ultimately show thesis
      using begin_eq False un U L
      by (intro that [of "Inl (rs_failure rs2)" "undone @ drop (rs_pinned rs2) (rs_out rs2)" sp3 b2]) simp_all
  qed
qed

text \<open>
  After the wait: either all slots are ready, and nothing has changed, or one has failed and all
  leases of the call are gone.
\<close>

lemma first_failure_Ok:
  "first_failure sp ls = Ok \<Longrightarrow>
     (\<And>l. l \<in> set ls \<Longrightarrow> slot_ok (sp_config sp) (sp_slots sp ! lease_slot l)) \<Longrightarrow> l \<in> set ls \<Longrightarrow>
     slot_state (sp_slots sp ! lease_slot l) \<noteq> Slot_Failed"
  by (induction ls) (auto simp: slot_ok_def split: if_splits)

lemma pool_inv_resolve_end:
  assumes inv: "pinv R self (take pinned out @ L) sp b m" and sub: "set R \<subseteq> set L" and len: "pinned \<le> length out"
    and run: "sp_resolve_end pinned out sp = Some (res, out', sp')"
  shows "length out' = length out" "drop pinned out' = drop pinned out" "rest_same sp sp'"
    "case res of
       Inl e \<Rightarrow> e \<noteq> Ok \<and> pinv R self L sp' b m \<and> (\<forall>l \<in> set (take pinned out'). lease_pool l = None)
     | Inr n \<Rightarrow> n = pinned \<and> out' = out \<and> sp' = sp \<and>
         (\<forall>l \<in> set (take pinned out). slot_state (sp_slots sp ! lease_slot l) = Slot_Ready)"
proof -
  have awake: "\<not> list_ex (\<lambda>l. slot_state (sp_slots sp ! lease_slot l) = Slot_Filling) (take pinned out)"
    using run by (auto simp: sp_resolve_end_def split: if_splits)
  have all: "length out' = length out \<and> drop pinned out' = drop pinned out \<and> rest_same sp sp' \<and>
    (case res of
       Inl e \<Rightarrow> e \<noteq> Ok \<and> pinv R self L sp' b m \<and> (\<forall>l \<in> set (take pinned out'). lease_pool l = None)
     | Inr n \<Rightarrow> n = pinned \<and> out' = out \<and> sp' = sp \<and>
         (\<forall>l \<in> set (take pinned out). slot_state (sp_slots sp ! lease_slot l) = Slot_Ready))"
  proof (cases "first_failure sp (take pinned out) = Ok")
    case False
    obtain undone sp1 where un: "unwind (take pinned out) sp = (undone, sp1)"
      by (cases "unwind (take pinned out) sp")
    note U = pool_inv_unwind [OF inv sub un]
    have "res = Inl (first_failure sp (take pinned out))" "out' = undone @ drop pinned out" "sp' = sp1"
      using run awake False un by (auto simp: sp_resolve_end_def Let_def)
    then show ?thesis
      using U len False by simp
  next
    case True
    have eq: "res = Inr pinned" "out' = out" "sp' = sp"
      using run awake True by (auto simp: sp_resolve_end_def Let_def split: if_splits)
    note D = pool_invD [OF inv]
    have "slot_state (sp_slots sp ! lease_slot l) = Slot_Ready" if l: "l \<in> set (take pinned out)" for l
    proof -
      have "l \<in> set (take pinned out @ L)"
        using l by simp
      note p = lease_pinned [OF D(2) this]
      have ok: "slot_ok (sp_config sp) (sp_slots sp ! lease_slot l)"
        using slot_ok_nth [OF D(1) p(2)] .
      have "slot_state (sp_slots sp ! lease_slot l) \<noteq> Slot_Failed"
        using first_failure_Ok [OF True _ l] lease_pinned(2) [OF D(2)] slot_ok_nth [OF D(1)] by simp
      moreover have "slot_state (sp_slots sp ! lease_slot l) \<noteq> Slot_Filling"
        using awake l by (auto simp: list_ex_iff)
      moreover have "slot_state (sp_slots sp ! lease_slot l) \<noteq> Slot_Free"
        using ok p(3) by (auto simp: slot_ok_def)
      ultimately show ?thesis
        by (cases "slot_state (sp_slots sp ! lease_slot l)") auto
    qed
    then show ?thesis
      using eq by (simp add: rest_same_def)
  qed
  then show "length out' = length out" "drop pinned out' = drop pinned out" "rest_same sp sp'"
    "case res of
       Inl e \<Rightarrow> e \<noteq> Ok \<and> pinv R self L sp' b m \<and> (\<forall>l \<in> set (take pinned out'). lease_pool l = None)
     | Inr n \<Rightarrow> n = pinned \<and> out' = out \<and> sp' = sp \<and>
         (\<forall>l \<in> set (take pinned out). slot_state (sp_slots sp ! lease_slot l) = Slot_Ready)"
    by simp_all
qed

end

section \<open>Try-resolve, prefetch and the remaining operations\<close>

lemma sp_find_same:
  assumes "sp_index sp' = sp_index sp" "sp_index_shift sp' = sp_index_shift sp" "slot_key sp' = slot_key sp"
  shows "sp_find c sp' = sp_find c sp"
  using assms by (simp add: sp_find_def)

lemma pool_inv_slot_flags:
  assumes inv: "pool_inv outstanding valid content R self L sp b m" and i: "i < length (sp_slots sp)"
    and slots: "sp_slots sp' = (sp_slots sp)[i := s]" "sp_config sp' = sp_config sp"
      "sp_clock_hand sp' = sp_clock_hand sp" "sp_index sp' = sp_index sp"
      "sp_index_shift sp' = sp_index_shift sp" "sp_non_free sp' = sp_non_free sp"
      "sp_in_flight sp' = sp_in_flight sp" "sp_pins_total sp' = sp_pins_total sp"
    and s: "slot_view s = slot_view (sp_slots sp ! i)" "slot_failure s = slot_failure (sp_slots sp ! i)"
      "slot_state s \<noteq> Slot_Filling \<longrightarrow> slot_waiter_head s = NONE"
  shows "pool_inv outstanding valid content R self L sp' b m"
proof (rule pool_inv_view [OF inv])
  show "core_ok sp'"
    using s by (intro core_ok_same_slot [OF pool_invD(1) [OF inv] i slots]) (simp_all add: slot_view_def)
qed (use s slots in \<open>auto simp: nth_upd\<close>)

context completing_backend
begin

lemma pin_loop_inv:
  assumes "\<And>c rng. (c, rng) \<in> set calls \<Longrightarrow> range_ok (sp_config sp) rng \<and> c \<in> set (range_chunks (sp_config sp) rng)"
    and "all_ready (map fst calls) sp"
    and "pinv R self (L @ take (rs_pinned rs) (rs_out rs)) sp b m"
    and "rs_pinned rs + length calls \<le> length (rs_out rs)"
    and "pin_loop self calls rs sp = (rs', sp')"
  shows "pinv R self (L @ take (rs_pinned rs') (rs_out rs')) sp' b m \<and> rest_same sp sp' \<and>
    length (rs_out rs') = length (rs_out rs) \<and> rs_pinned rs' = rs_pinned rs + length calls \<and>
    (\<exists>ls. take (rs_pinned rs') (rs_out rs') = take (rs_pinned rs) (rs_out rs) @ ls \<and>
          list_all2 (lease_for self (sp_config sp)) calls ls \<and>
          (\<forall>l \<in> set ls. slot_state (sp_slots sp ! lease_slot l) = Slot_Ready)) \<and>
    (\<forall>j < length (sp_slots sp). slot_state (sp_slots sp' ! j) = slot_state (sp_slots sp ! j)) \<and>
    drop (rs_pinned rs + length calls) (rs_out rs') = drop (rs_pinned rs + length calls) (rs_out rs)"
  using assms
proof (induction calls arbitrary: rs sp)
  case Nil
  then show ?case by (simp add: rest_same_def)
next
  case (Cons call calls)
  obtain c rng where call: "call = (c, rng)"
    by (cases call)
  let ?i = "sp_find c sp"
  let ?sp = "upd_counters (\<lambda>c. c\<lparr>sps_resolve_hits := sps_resolve_hits c + 1\<rparr>) sp"
  obtain rs1 sp1 where one: "pin_chunk self ?i c rng rs ?sp = (rs1, sp1)"
    by (cases "pin_chunk self ?i c rng rs ?sp")
  have loop: "pin_loop self calls rs1 sp1 = (rs', sp')"
    using Cons.prems(5) one by (simp add: call Let_def)
  have found: "?i \<noteq> NONE" "slot_state (sp_slots sp ! ?i) = Slot_Ready" "all_ready (map fst calls) sp"
    using Cons.prems(2) by (auto simp: call Let_def)
  note core0 = pool_invD(1) [OF Cons.prems(3)]
  note F = sp_find_slot [OF core0 found(1)]
  have inv': "pinv R self (L @ take (rs_pinned rs) (rs_out rs)) ?sp b m"
    using Cons.prems(3) by (rule pool_inv_slots_same) simp_all
  have rng: "range_ok (sp_config sp) rng" "c \<in> set (range_chunks (sp_config sp) rng)"
    using Cons.prems(1) [of c rng] by (simp_all add: call)
  obtain l where l: "pinv R self ((L @ take (rs_pinned rs) (rs_out rs)) @ [l]) sp1 b m"
    "lease_for self (sp_config sp) (c, rng) l" "rest_same sp sp1"
    "rs1 = rs\<lparr>rs_out := (rs_out rs)[rs_pinned rs := l], rs_pinned := rs_pinned rs + 1\<rparr>"
    "lease_slot l = ?i"
  proof -
    obtain l where "pinv R self ((L @ take (rs_pinned rs) (rs_out rs)) @ [l]) sp1 b m"
      "lease_for self (sp_config ?sp) (c, rng) l" "rest_same ?sp sp1"
      "rs1 = rs\<lparr>rs_out := (rs_out rs)[rs_pinned rs := l], rs_pinned := rs_pinned rs + 1\<rparr>"
      using pool_inv_pin [OF inv' _ _ _ _ _ one] F rng by auto
    moreover have "(rs_out rs1) ! rs_pinned rs = chunk_lease self (sp_config ?sp) ?i
        (slot_generation (sp_slots ?sp ! ?i)) c rng"
      using pin_chunk_eq(1) [OF _ one] F(1) Cons.prems(4) by simp
    ultimately show thesis
      using that Cons.prems(4) by (auto simp: rest_same_def)
  qed
  have E: "sp_slots sp1 = (sp_slots sp)[?i := pin_slot (sp_slots sp ! ?i)]"
    "sp_index sp1 = sp_index sp" "sp_index_shift sp1 = sp_index_shift sp"
    using pin_chunk_eq(2,6,7) [OF _ one] F(1) by simp_all
  have find_same: "sp_find x sp1 = sp_find x sp" for x
    using E F(1) by (intro sp_find_same ext) (auto simp: slot_key_def nth_list_update)
  have st_same: "slot_state (sp_slots sp1 ! j) = slot_state (sp_slots sp ! j)" if "j < length (sp_slots sp)" for j
    using that by (simp add: E(1) nth_upd)
  have ready1: "all_ready cs sp1" if "all_ready cs sp" for cs
    using that
  proof (induction cs)
    case (Cons x cs)
    then show ?case
      using sp_find_slot(1) [OF core0, of x] by (auto simp: Let_def find_same st_same)
  qed simp
  have cfg: "sp_config sp1 = sp_config sp"
    using l(3) by (simp add: rest_same_def)
  have tk: "take (rs_pinned rs1) (rs_out rs1) = take (rs_pinned rs) (rs_out rs) @ [l]"
    using Cons.prems(4) by (simp add: l(4) take_Suc_conv_app_nth)
  have IH: "pinv R self (L @ take (rs_pinned rs') (rs_out rs')) sp' b m \<and> rest_same sp1 sp' \<and>
    length (rs_out rs') = length (rs_out rs1) \<and> rs_pinned rs' = rs_pinned rs1 + length calls \<and>
    (\<exists>ls. take (rs_pinned rs') (rs_out rs') = take (rs_pinned rs1) (rs_out rs1) @ ls \<and>
          list_all2 (lease_for self (sp_config sp1)) calls ls \<and>
          (\<forall>l \<in> set ls. slot_state (sp_slots sp1 ! lease_slot l) = Slot_Ready)) \<and>
    (\<forall>j < length (sp_slots sp1). slot_state (sp_slots sp' ! j) = slot_state (sp_slots sp1 ! j)) \<and>
    drop (rs_pinned rs1 + length calls) (rs_out rs') = drop (rs_pinned rs1 + length calls) (rs_out rs1)"
  proof (rule Cons.IH [OF _ ready1 [OF found(3)] _ _ loop])
    show "pinv R self (L @ take (rs_pinned rs1) (rs_out rs1)) sp1 b m"
      using l(1) by (simp add: tk)
    show "range_ok (sp_config sp1) rng' \<and> c' \<in> set (range_chunks (sp_config sp1) rng')"
      if "(c', rng') \<in> set calls" for c' rng'
      using Cons.prems(1) [of c' rng'] that by (simp add: cfg)
    show "rs_pinned rs1 + length calls \<le> length (rs_out rs1)"
      using Cons.prems(4) by (simp add: l(4))
  qed
  obtain ls where ls: "take (rs_pinned rs') (rs_out rs') = take (rs_pinned rs1) (rs_out rs1) @ ls"
    "list_all2 (lease_for self (sp_config sp1)) calls ls"
    "\<forall>l \<in> set ls. slot_state (sp_slots sp1 ! lease_slot l) = Slot_Ready"
    using IH by blast
  have slots_ls: "lease_slot x < length (sp_slots sp)" if "x \<in> set ls" for x
  proof -
    have "x \<in> set (L @ take (rs_pinned rs') (rs_out rs'))"
      using that ls(1) by simp
    moreover have "leases_ok R self (L @ take (rs_pinned rs') (rs_out rs')) sp'"
      using conjunct1 [OF IH] by (rule pool_invD)
    ultimately have "lease_slot x < length (sp_slots sp')"
      by (intro lease_pinned(2))
    moreover have "length (sp_slots sp') = length (sp_slots sp)"
      using core_okD(2) [OF pool_invD(1) [OF conjunct1 [OF IH]]] core_okD(2) [OF pool_invD(1) [OF inv']] IH l(3)
      by (simp add: rest_same_def)
    ultimately show ?thesis by simp
  qed
  have "\<exists>ls. take (rs_pinned rs') (rs_out rs') = take (rs_pinned rs) (rs_out rs) @ ls \<and>
          list_all2 (lease_for self (sp_config sp)) (call # calls) ls \<and>
          (\<forall>l \<in> set ls. slot_state (sp_slots sp ! lease_slot l) = Slot_Ready)"
    using ls l(2,5) found(2) slots_ls st_same by (intro exI [of _ "l # ls"]) (auto simp: tk cfg call)
  moreover have "rest_same sp sp'"
    using l(3) IH by (simp add: rest_same_def)
  moreover have "rs_pinned rs1 + length calls = rs_pinned rs + length (call # calls)"
      "length (rs_out rs1) = length (rs_out rs)"
      "drop (rs_pinned rs + length (call # calls)) (rs_out rs1) = drop (rs_pinned rs + length (call # calls)) (rs_out rs)"
    by (simp_all add: l(4))
  moreover have "length (sp_slots sp1) = length (sp_slots sp)"
    by (simp add: E(1))
  ultimately show ?case
    using conjunct2 [OF IH] conjunct1 [OF IH] st_same by simp
qed

end

end
