(* ===== verification/Slot_Pool_Steps.thy ===== *)
theory Slot_Pool_Steps
  imports Slot_Pool_System
begin

text \<open>
  The invariant of \<open>Slot_Pool_System\<close> under the remaining operations of the pool, and the pool at
  work: the steps of the system (critical sections of its clients, writes and deliveries of the
  backend, in any order), its reachable states, and the invariant of all of them.
\<close>

section \<open>Try-resolve\<close>

context completing_backend
begin

lemma pool_inv_try_resolve:
  assumes inv: "pinv R self (filter lease_is_held (take chunks out) @ L) sp b m" and sub: "set R \<subseteq> set L"
    and batch: "validate_batch (sp_config sp) ranges = (Ok, chunks)" and room: "chunks \<le> length out"
  obtains res out' sp' where "sp_try_resolve self ranges out sp = Some (res, out', sp')"
    "length out' = length out" "rest_same sp sp'" "drop chunks out' = drop chunks out"
    "case res of
       Inl e \<Rightarrow> e = Not_Resident \<and> pinv R self L sp' b m
     | Inr pinned \<Rightarrow> pinned = chunks \<and> pinv R self (take chunks out' @ L) sp' b m \<and>
         list_all2 (lease_for self (sp_config sp)) (for_each_chunk (sp_config sp) ranges) (take chunks out') \<and>
         (\<forall>l \<in> set (take chunks out'). slot_state (sp_slots sp' ! lease_slot l) = Slot_Ready)"
proof -
  let ?c = "sp_config sp"
  have cfg: "config_ok ?c"
    using core_okD(1) [OF pool_invD(1) [OF inv]] .
  note B = validate_batch_Ok [OF cfg batch]
  obtain released sp1 where rel: "release_all (take chunks out) sp = Some (released, sp1)"
    and inv1: "pinv R self L sp1 b m" and len1: "length released = chunks" and rest1: "rest_same sp sp1"
    using pool_inv_release_all [OF inv sub] room by auto
  have c1: "sp_config sp1 = ?c"
    using rest1 by (simp add: rest_same_def)
  let ?out = "released @ drop chunks out" and ?calls = "for_each_chunk ?c ranges"
  show thesis
  proof (cases "all_ready (map fst ?calls) sp1")
    case False
    then have "sp_try_resolve self ranges out sp = Some (Inl Not_Resident, ?out, sp1)"
      using batch room rel by (simp add: sp_try_resolve_def Let_def c1)
    then show thesis
      using inv1 rest1 len1 room by (intro that [of "Inl Not_Resident" ?out sp1]) simp_all
  next
    case True
    let ?rs = "\<lparr>rs_failure = Ok, rs_out = ?out, rs_pinned = 0\<rparr>"
    obtain rs2 sp2 where loop: "pin_loop self ?calls ?rs sp1 = (rs2, sp2)"
      by (cases "pin_loop self ?calls ?rs sp1")
    have P: "pinv R self (L @ take (rs_pinned rs2) (rs_out rs2)) sp2 b m \<and> rest_same sp1 sp2 \<and>
      length (rs_out rs2) = length (rs_out ?rs) \<and> rs_pinned rs2 = rs_pinned ?rs + length ?calls \<and>
      (\<exists>ls. take (rs_pinned rs2) (rs_out rs2) = take (rs_pinned ?rs) (rs_out ?rs) @ ls \<and>
            list_all2 (lease_for self (sp_config sp1)) ?calls ls \<and>
            (\<forall>l \<in> set ls. slot_state (sp_slots sp1 ! lease_slot l) = Slot_Ready)) \<and>
      (\<forall>j < length (sp_slots sp1). slot_state (sp_slots sp2 ! j) = slot_state (sp_slots sp1 ! j)) \<and>
      drop (rs_pinned ?rs + length ?calls) (rs_out rs2) = drop (rs_pinned ?rs + length ?calls) (rs_out ?rs)"
      using inv1 len1 room B(2) for_each_chunk_in [OF B(1)] True
      by (intro pin_loop_inv [OF _ _ _ _ loop]) (auto simp: c1)
    have pin: "rs_pinned rs2 = chunks"
      using P unfolding B(2) by simp
    have inv2: "pinv R self (take chunks (rs_out rs2) @ L) sp2 b m"
      using conjunct1 [OF P] unfolding pin by (rule pool_inv_mset) simp
    have ls: "list_all2 (lease_for self ?c) ?calls (take chunks (rs_out rs2))"
      "\<forall>l \<in> set (take chunks (rs_out rs2)). slot_state (sp_slots sp1 ! lease_slot l) = Slot_Ready"
      using P unfolding pin c1 by auto
    have len_s: "length (sp_slots sp1) = length (sp_slots sp2)"
      using core_okD(2) [OF pool_invD(1) [OF inv1]] core_okD(2) [OF pool_invD(1) [OF inv2]] P
      by (simp add: rest_same_def)
    have "slot_state (sp_slots sp2 ! lease_slot l) = Slot_Ready" if l: "l \<in> set (take chunks (rs_out rs2))" for l
    proof -
      have "lease_slot l < length (sp_slots sp2)"
        using lease_pinned(2) [OF pool_invD(2) [OF inv2], of l] l by simp
      then show ?thesis
        using P ls(2) l by (simp add: len_s)
    qed
    moreover have "sp_try_resolve self ranges out sp = Some (Inr chunks, rs_out rs2, sp2)"
      using batch room rel True loop pin by (simp add: sp_try_resolve_def Let_def c1)
    moreover have "rest_same sp sp2"
      using rest1 P by (simp add: rest_same_def)
    moreover have "length (rs_out rs2) = length out" "drop chunks (rs_out rs2) = drop chunks out"
      using P len1 room unfolding B(2) by auto
    ultimately show thesis
      using inv2 ls(1) by (intro that [of "Inr chunks" "rs_out rs2" sp2]) simp_all
  qed
qed

section \<open>Prefetch\<close>

lemma pool_inv_prefetch_slot:
  assumes inv: "pinv R self L sp b m" and c: "chunk_inside (sp_config sp) c"
    and run: "prefetch_slot submit self admission entry c sp b = (i, sp', b')"
  shows "pinv R self L sp' b' m \<and> sp_config sp' = sp_config sp \<and>
    (i \<noteq> NONE \<longrightarrow> i < length (sp_slots sp') \<and> slot_live (sp_slots sp' ! i))"
proof (cases "sp_find c sp = NONE")
  case False
  note F = sp_find_slot [OF pool_invD(1) [OF inv] False]
  show ?thesis
  proof (cases "slot_state (sp_slots sp ! sp_find c sp) = Slot_Ready")
    case True
    let ?sp = "set_outcome entry Ok (count_hint_resident sp)"
    have "pinv R self L ?sp b m"
      using inv by (rule pool_inv_slots_same) (simp_all add: set_outcome_def count_hint_resident_def)
    moreover have "i = sp_find c sp" "sp' = ?sp" "b' = b"
      using run True False by (simp_all add: prefetch_slot_def Let_def)
    ultimately show ?thesis
      using F by (simp add: set_outcome_def count_hint_resident_def)
  next
    case no: False
    let ?sp = "count_coalesced (count_hint_resident sp)"
    have "pinv R self L ?sp b m"
      using inv by (rule pool_inv_slots_same) (simp_all add: count_coalesced_def count_hint_resident_def)
    moreover have "i = sp_find c sp" "sp' = ?sp" "b' = b"
      using run no False by (simp_all add: prefetch_slot_def Let_def)
    ultimately show ?thesis
      using F by (simp add: count_coalesced_def count_hint_resident_def)
  qed
next
  case True
  obtain v sp1 where claim: "claim_victim admission sp = (v, sp1)"
    by (cases "claim_victim admission sp")
  note C = claim_victim_core [OF pool_invD(1) [OF inv] claim]
  have inv1: "pinv R self L sp1 b m"
    using inv claim by (rule pool_inv_claim)
  have c1: "sp_config sp1 = sp_config sp" and len1: "length (sp_slots sp1) = length (sp_slots sp)"
    using C(2) by (simp_all add: sweep_frame_def)
  show ?thesis
  proof (cases "v = NONE")
    case none: True
    let ?sp = "set_outcome entry (if admission = Speculative then Declined else Pool_Exhausted)
      (if admission = Speculative then count_hint_declined sp1 else count_admission_failure sp1)"
    have "pinv R self L ?sp b m"
      using inv1 by (rule pool_inv_slots_same)
        (simp_all add: set_outcome_def count_hint_declined_def count_admission_failure_def)
    moreover have "i = NONE" "sp' = ?sp" "b' = b"
      using run True none claim by (auto simp: prefetch_slot_def Let_def)
    ultimately show ?thesis
      by (simp add: set_outcome_def count_hint_declined_def count_admission_failure_def c1)
  next
    case some: False
    have v: "v < length (sp_slots sp1)" "slot_state (sp_slots sp1 ! v) = Slot_Free"
      using C(3) [OF some] len1 by simp_all
    have absent: "sp_find c sp1 = NONE"
      using sweep_absent [OF pool_invD(1) [OF inv] C(1,2) True] .
    obtain st sp2 b2 where fill: "start_fill submit self v c sp1 b = (st, sp2, b2)"
      by (cases "start_fill submit self v c sp1 b") auto
    note F = pool_inv_start_fill [OF inv1 v absent _ fill, unfolded c1, OF c]
    have c2: "sp_config sp2 = sp_config sp"
      using F(2) c1 by (simp add: rest_same_def)
    show ?thesis
    proof (cases "st = Ok")
      case False
      let ?sp = "set_outcome entry st (count_admission_failure sp2)"
      have "pinv R self L ?sp b2 m"
        using F(1) by (rule pool_inv_slots_same) (simp_all add: set_outcome_def count_admission_failure_def)
      moreover have "i = NONE" "sp' = ?sp" "b' = b2"
        using run True some claim fill False by (auto simp: prefetch_slot_def Let_def)
      ultimately show ?thesis
        by (simp add: set_outcome_def count_admission_failure_def c2)
    next
      case ok: True
      let ?c2 = "upd_counters (\<lambda>c. c\<lparr>sps_hint_admitted := sps_hint_admitted c + 1\<rparr>) sp2"
      let ?sp = "upd_slot v (\<lambda>s. s\<lparr>slot_hint_unconsumed := True\<rparr>) ?c2"
      have eq: "i = v" "sp' = ?sp" "b' = b2"
        using run True some claim fill ok by (auto simp: prefetch_slot_def Let_def)
      have v2: "v < length (sp_slots sp2)" "slot_state (sp_slots sp2 ! v) = Slot_Filling"
        using v(1) F(4) [OF ok] by simp_all
      have "pinv R self L ?sp b2 m"
        by (rule pool_inv_slot_flags [OF F(1) v2(1),
              where s = "(sp_slots sp2 ! v)\<lparr>slot_hint_unconsumed := True\<rparr>"])
          (simp_all add: slot_view_def v2(2))
      then show ?thesis
        using v2 c2 by (simp add: eq slot_live_def)
    qed
  qed
qed

lemma pool_inv_link:
  assumes inv: "pinv R self L sp b m" and i: "i \<noteq> NONE \<Longrightarrow> i < length (sp_slots sp)"
  shows "pinv R self L (link_waiter record_index entry i sp) b m"
    "sp_config (link_waiter record_index entry i sp) = sp_config sp"
proof -
  show "sp_config (link_waiter record_index entry i sp) = sp_config sp"
    by (simp add: link_waiter_def Let_def)
  show "pinv R self L (link_waiter record_index entry i sp) b m"
  proof (cases "i \<noteq> NONE \<and> slot_state (sp_slots sp ! i) = Slot_Filling")
    case True
    show ?thesis
      by (rule pool_inv_slot_flags [OF inv i, where s = "(sp_slots sp ! i)\<lparr>slot_waiter_head := entry\<rparr>"])
        (use True in \<open>simp_all add: link_waiter_def slot_view_def Let_def\<close>)
  qed (use inv in \<open>auto simp: link_waiter_def\<close>)
qed

lemma pool_inv_prefetch_chunk:
  assumes inv: "pinv R self L sp b m" and c: "chunk_inside (sp_config sp) c"
    and run: "prefetch_chunk submit self admission record_index entry c sp b = (sp', b')"
  shows "pinv R self L sp' b' m" "sp_config sp' = sp_config sp"
proof -
  let ?sp = "upd_counters (\<lambda>c. c\<lparr>sps_hint_issued := sps_hint_issued c + 1\<rparr>)
     (upd_waiter entry (\<lambda>w. w\<lparr>wait_next := NONE\<rparr>) sp)"
  obtain i sp1 b1 where slot: "prefetch_slot submit self admission entry c ?sp b = (i, sp1, b1)"
    by (cases "prefetch_slot submit self admission entry c ?sp b") auto
  have inv1: "pinv R self L ?sp b m"
    using inv by (rule pool_inv_slots_same) simp_all
  have P: "pinv R self L sp1 b1 m \<and> sp_config sp1 = sp_config sp \<and>
    (i \<noteq> NONE \<longrightarrow> i < length (sp_slots sp1) \<and> slot_live (sp_slots sp1 ! i))"
    using pool_inv_prefetch_slot [OF inv1 _ slot] c by simp
  have "sp' = link_waiter record_index entry i sp1" "b' = b1"
    using run slot by (simp_all add: prefetch_chunk_def Let_def)
  then show "pinv R self L sp' b' m" "sp_config sp' = sp_config sp"
    using pool_inv_link [of R self L sp1 b1 m i record_index entry] P by auto
qed

lemma pool_inv_prefetch_loop:
  "pinv R self L sp b m \<Longrightarrow> (\<And>c. c \<in> set cs \<Longrightarrow> chunk_inside (sp_config sp) c) \<Longrightarrow>
     prefetch_loop submit self admission record_index entry cs sp b = (sp', b') \<Longrightarrow>
     pinv R self L sp' b' m \<and> sp_config sp' = sp_config sp"
proof (induction cs arbitrary: sp b entry)
  case (Cons c cs)
  obtain sp1 b1 where one: "prefetch_chunk submit self admission record_index entry c sp b = (sp1, b1)"
    by (cases "prefetch_chunk submit self admission record_index entry c sp b")
  have inv1: "pinv R self L sp1 b1 m" and c1: "sp_config sp1 = sp_config sp"
    using pool_inv_prefetch_chunk [OF Cons.prems(1) _ one] Cons.prems(2) by simp_all
  have loop: "prefetch_loop submit self admission record_index (entry + 1) cs sp1 b1 = (sp', b')"
    using Cons.prems(3) one by simp
  then show ?case
    using Cons.IH [OF inv1 _ loop] Cons.prems(2) c1 by simp
qed simp

lemma for_each_chunk_inside:
  assumes "config_ok config" "batch_ok config ranges" "c \<in> set (map fst (for_each_chunk config ranges))"
  shows "chunk_inside config c"
proof -
  obtain rng where "(c, rng) \<in> set (for_each_chunk config ranges)"
    using assms(3) by auto
  then show ?thesis
    using for_each_chunk_in [OF assms(2)] range_chunks_inside(1) config_ok_bounds(1) [OF assms(1)] by blast
qed

lemma pool_inv_prefetch:
  assumes inv: "pinv R self L sp b m" and run: "sp_prefetch submit self ranges admission sp b = (res, sp', b')"
  shows "pinv R self L sp' b' m"
proof -
  obtain st chunks where batch: "validate_batch (sp_config sp) ranges = (st, chunks)"
    by (cases "validate_batch (sp_config sp) ranges")
  consider "st \<noteq> Ok" | "st = Ok" "find_free_record (sp_tickets sp) 0 = None"
    | i where "st = Ok" "find_free_record (sp_tickets sp) 0 = Some i"
    by (cases "find_free_record (sp_tickets sp) 0") auto
  then show ?thesis
  proof cases
    case 3
    let ?sp = "open_record i chunks sp"
    have inv1: "pinv R self L ?sp b m"
      using inv by (rule pool_inv_slots_same) (simp_all add: open_record_def Let_def)
    have c1: "sp_config ?sp = sp_config sp"
      by (simp add: open_record_def Let_def)
    have cfg: "config_ok (sp_config sp)"
      using core_okD(1) [OF pool_invD(1) [OF inv]] .
    obtain sp2 b2 where loop: "prefetch_loop submit self admission i (i * sc_max_batch_chunks (sp_config sp))
        (map fst (for_each_chunk (sp_config sp) ranges)) ?sp b = (sp2, b2)"
      by (meson surj_pair)
    have "sp' = sp2" "b' = b2"
      using run batch 3 loop by (simp_all add: sp_prefetch_def Let_def c1)
    moreover have "pinv R self L sp2 b2 m"
      using pool_inv_prefetch_loop [OF inv1 _ loop]
        for_each_chunk_inside [OF cfg validate_batch_Ok(1) [OF cfg batch [unfolded 3(1)]]] c1 by simp
    ultimately show ?thesis by simp
  qed (use inv run batch in \<open>auto simp: sp_prefetch_def\<close>)
qed

end

section \<open>Tickets and demotion\<close>

lemma pool_inv_discard:
  assumes "pool_inv outstanding valid content R self L sp b m" "discard_ticket i g sp = Some sp'"
  shows "pool_inv outstanding valid content R self L sp' b m"
  using assms(1)
  by (rule pool_inv_slots_same) (use assms(2) in \<open>auto simp: discard_ticket_def Let_def split: if_splits\<close>)

lemma pool_inv_demote:
  "pool_inv outstanding valid content R self L sp b m \<Longrightarrow>
     pool_inv outstanding valid content R self L (demote_chunks cs sp) b m \<and>
     sp_config (demote_chunks cs sp) = sp_config sp"
proof (induction cs arbitrary: sp)
  case (Cons c cs)
  let ?i = "sp_find c sp"
  let ?sp = "if ?i \<noteq> NONE then upd_slot ?i (\<lambda>s. s\<lparr>slot_referenced := False\<rparr>) sp else sp"
  have "pool_inv outstanding valid content R self L ?sp b m"
  proof (cases "?i = NONE")
    case False
    note F = sp_find_slot [OF pool_invD(1) [OF Cons.prems] False]
    have "pool_inv outstanding valid content R self L (upd_slot ?i (\<lambda>s. s\<lparr>slot_referenced := False\<rparr>) sp) b m"
      using slot_ok_nth [OF pool_invD(1) [OF Cons.prems] F(1)]
      by (intro pool_inv_slot_flags [OF Cons.prems F(1),
            where s = "(sp_slots sp ! ?i)\<lparr>slot_referenced := False\<rparr>"]) (simp_all add: slot_view_def slot_ok_def)
    then show ?thesis
      using False by simp
  qed (use Cons.prems in simp)
  moreover have "sp_config ?sp = sp_config sp"
    by simp
  ultimately show ?case
    using Cons.IH [of ?sp] by (simp add: Let_def)
qed simp

lemma pool_inv_wont_need:
  "pool_inv outstanding valid content R self L sp b m \<Longrightarrow>
     pool_inv outstanding valid content R self L (sp_wont_need ranges sp) b m"
proof (induction ranges arbitrary: sp)
  case (Cons rng ranges)
  then show ?case
    using pool_inv_demote [OF Cons.prems] by simp
qed simp

section \<open>The pool at work\<close>

text \<open>
  \<open>ps_leases\<close> are the leases clients hold, \<open>ps_waiting\<close> the calls of \<open>resolve\<close> between their two
  critical sections (how many leases they have pinned, and their output), \<open>ps_tickets\<close> the tickets.
\<close>

record 'b pool_system =
  ps_pool :: slot_pool
  ps_backend :: 'b
  ps_memory :: memory
  ps_leases :: "lease list"
  ps_waiting :: "(nat \<times> lease list) list"
  ps_tickets :: "ticket list"

definition waiting_leases :: "(nat \<times> lease list) list \<Rightarrow> lease list" where
  "waiting_leases ws = concat (map (\<lambda>(pinned, out). take pinned out) ws)"

definition all_leases :: "'b pool_system \<Rightarrow> lease list" where
  "all_leases s = ps_leases s @ waiting_leases (ps_waiting s)"

type_synonym 'b completes_fn =
  "'b \<Rightarrow> fill_request \<Rightarrow> fill_result \<Rightarrow> memory \<Rightarrow> 'b \<Rightarrow> memory \<Rightarrow> bool"

definition ps_init :: "slot_pool \<Rightarrow> 'b \<Rightarrow> memory \<Rightarrow> 'b pool_system" where
  "ps_init sp b m =
     \<lparr>ps_pool = sp, ps_backend = b, ps_memory = m, ps_leases = [], ps_waiting = [], ps_tickets = []\<rparr>"

inductive ps_step ::
    "'b submit_fn \<Rightarrow> ('b \<Rightarrow> fill_request multiset) \<Rightarrow> 'b completes_fn \<Rightarrow> sink
       \<Rightarrow> 'b pool_system \<Rightarrow> 'b pool_system \<Rightarrow> bool"
  for submit outstanding completes self where
  prefetched:
    "sp_prefetch submit self ranges admission (ps_pool s) (ps_backend s) = (Inr t, sp', b') \<Longrightarrow>
     ps_step submit outstanding completes self s
       (s\<lparr>ps_pool := sp', ps_backend := b', ps_tickets := t # ps_tickets s\<rparr>)"
| prefetch_refused:
    "sp_prefetch submit self ranges admission (ps_pool s) (ps_backend s) = (Inl e, sp', b') \<Longrightarrow>
     ps_step submit outstanding completes self s (s\<lparr>ps_pool := sp', ps_backend := b'\<rparr>)"
| resolving:
    "\<forall>l \<in> set out. lease_pool l = None \<Longrightarrow>
     sp_resolve_begin submit self ranges out (ps_pool s) (ps_backend s) = Some (Inr pinned, out', sp', b') \<Longrightarrow>
     ps_step submit outstanding completes self s
       (s\<lparr>ps_pool := sp', ps_backend := b', ps_waiting := (pinned, out') # ps_waiting s\<rparr>)"
| resolve_refused:
    "\<forall>l \<in> set out. lease_pool l = None \<Longrightarrow>
     sp_resolve_begin submit self ranges out (ps_pool s) (ps_backend s) = Some (Inl e, out', sp', b') \<Longrightarrow>
     ps_step submit outstanding completes self s (s\<lparr>ps_pool := sp', ps_backend := b'\<rparr>)"
| resolved:
    "(pinned, out) \<in> set (ps_waiting s) \<Longrightarrow>
     sp_resolve_end pinned out (ps_pool s) = Some (Inr n, out', sp') \<Longrightarrow>
     ps_step submit outstanding completes self s
       (s\<lparr>ps_pool := sp', ps_waiting := remove1 (pinned, out) (ps_waiting s),
          ps_leases := ps_leases s @ take n out'\<rparr>)"
| resolve_failed:
    "(pinned, out) \<in> set (ps_waiting s) \<Longrightarrow>
     sp_resolve_end pinned out (ps_pool s) = Some (Inl e, out', sp') \<Longrightarrow>
     ps_step submit outstanding completes self s
       (s\<lparr>ps_pool := sp', ps_waiting := remove1 (pinned, out) (ps_waiting s)\<rparr>)"
| try_resolved:
    "\<forall>l \<in> set out. lease_pool l = None \<Longrightarrow>
     sp_try_resolve self ranges out (ps_pool s) = Some (Inr n, out', sp') \<Longrightarrow>
     ps_step submit outstanding completes self s
       (s\<lparr>ps_pool := sp', ps_leases := take n out' @ ps_leases s\<rparr>)"
| try_refused:
    "\<forall>l \<in> set out. lease_pool l = None \<Longrightarrow>
     sp_try_resolve self ranges out (ps_pool s) = Some (Inl e, out', sp') \<Longrightarrow>
     ps_step submit outstanding completes self s (s\<lparr>ps_pool := sp'\<rparr>)"
| released:
    "l \<in> set (ps_leases s) \<Longrightarrow> lease_reset l (ps_pool s) = Some (l', sp') \<Longrightarrow>
     ps_step submit outstanding completes self s
       (s\<lparr>ps_pool := sp', ps_leases := remove1 l (ps_leases s)\<rparr>)"
| discarded:
    "t \<in> set (ps_tickets s) \<Longrightarrow> ticket_reset t (ps_pool s) = Some (t', sp') \<Longrightarrow>
     ps_step submit outstanding completes self s
       (s\<lparr>ps_pool := sp', ps_tickets := remove1 t (ps_tickets s)\<rparr>)"
| demoted:
    "ps_step submit outstanding completes self s (s\<lparr>ps_pool := sp_wont_need ranges (ps_pool s)\<rparr>)"
| writing:
    "r \<in># outstanding (ps_backend s) \<Longrightarrow>
     (\<And>a. a \<notin> span_addrs (req_destination r) \<Longrightarrow> m' a = ps_memory s a) \<Longrightarrow>
     ps_step submit outstanding completes self s (s\<lparr>ps_memory := m'\<rparr>)"
| delivered:
    "completes (ps_backend s) r res (ps_memory s) b' m' \<Longrightarrow>
     ps_step submit outstanding completes self s
       (s\<lparr>ps_pool := sp_on_complete (req_token r) res (ps_pool s), ps_backend := b', ps_memory := m'\<rparr>)"
| duplicate:
    "sp_is_stale token (ps_pool s) \<Longrightarrow>
     ps_step submit outstanding completes self s (s\<lparr>ps_pool := sp_on_complete token res (ps_pool s)\<rparr>)"

inductive ps_reachable ::
    "'b submit_fn \<Rightarrow> ('b \<Rightarrow> fill_request multiset) \<Rightarrow> ('b \<Rightarrow> bool) \<Rightarrow> 'b completes_fn \<Rightarrow> sink
       \<Rightarrow> 'b pool_system \<Rightarrow> bool"
  for submit outstanding valid completes self where
  start: "sp_create config = Inr sp \<Longrightarrow> valid b \<Longrightarrow> outstanding b = {#} \<Longrightarrow>
     ps_reachable submit outstanding valid completes self (ps_init sp b m)"
| step: "ps_reachable submit outstanding valid completes self s \<Longrightarrow>
     ps_step submit outstanding completes self s t \<Longrightarrow>
     ps_reachable submit outstanding valid completes self t"


subsection \<open>The invariant of the system\<close>

definition ps_inv ::
    "('b \<Rightarrow> fill_request multiset) \<Rightarrow> ('b \<Rightarrow> bool) \<Rightarrow> (source_id \<Rightarrow> u64 \<Rightarrow> byte) \<Rightarrow> sink
       \<Rightarrow> 'b pool_system \<Rightarrow> bool" where
  "ps_inv outstanding valid content self s \<longleftrightarrow>
     pool_inv outstanding valid content (ps_leases s) self (all_leases s) (ps_pool s) (ps_backend s) (ps_memory s) \<and>
     (\<forall>(pinned, out) \<in> set (ps_waiting s). pinned \<le> length out)"

lemma sp_create_Inr:
  assumes "sp_create config = Inr sp"
  shows "config_ok config" "sp = sp_construct config"
proof -
  show "sp = sp_construct config"
    using assms by (simp add: sp_create_def split: if_splits)
  let ?n = "sc_num_slots config" and ?sb = "unat (sc_slot_bytes config)"
  have a: "sc_slot_bytes config \<noteq> 0" "0 < ?n" "?n < NONE" "sc_source_bytes config \<noteq> 0"
      "0 < sc_max_tickets config" "0 < sc_max_batch_chunks config" "sc_max_tickets config < NONE"
      "sc_slot_bytes config \<le> UINT64_MAX div of_nat ?n"
      "span_size (sc_slot_storage config) = sc_slot_bytes config * of_nat ?n"
      "sc_max_batch_chunks config * sc_max_tickets config < NONE"
    using assms by (auto simp: sp_create_def split: if_splits)
  have un: "unat (of_nat ?n :: u64) = ?n"
    using a(3) by (intro unat_of_nat_64) (simp add: NONE_def UINT32_MAX_def)
  have "?sb \<le> 18446744073709551615 div ?n"
    using a(8) unfolding word_le_nat_alt unat_div_64 un unat_UINT64_MAX .
  then have "?sb * ?n \<le> 18446744073709551615 div ?n * ?n"
    by (rule mult_le_mono1)
  also have "\<dots> \<le> 18446744073709551615"
    by (rule div_times_less_eq_dividend)
  finally have "unat (sc_slot_bytes config * of_nat ?n) = ?sb * ?n"
    using un by (subst unat_times_64) simp_all
  then show "config_ok config"
    using a unfolding config_ok_def by (auto simp: unat_gt_0 mult.commute)
qed

lemma core_ok_construct:
  assumes "config_ok config"
  shows "core_ok (sp_construct config)"
proof -
  let ?sp = "sp_construct config"
  have n: "0 < sc_num_slots config" "sc_num_slots config < 4294967296" "sc_num_slots config < NONE"
    using config_ok_bounds [OF assms] by (simp_all add: NONE_def UINT32_MAX_def)
  have ix: "sp_index ?sp = empty_index (sc_num_slots config)"
    "sp_index_shift ?sp = 64 - countr_zero (length (empty_index (sc_num_slots config)))"
    by (simp_all add: sp_construct_def empty_index_def Let_def mult.commute)
  have slots: "sp_slots ?sp = replicate (sc_num_slots config) default_slot"
    by (simp add: sp_construct_def Let_def)
  have "live_set ?sp = {}"
    by (auto simp: live_set_def slots default_slot_def slot_live_def)
  then have "idx_ok ?sp"
    using empty_index_ok [OF n(1,2)] n(3) by (simp add: idx_ok_def ix slots)
  moreover have "slot_ok config default_slot"
    by (simp add: slot_ok_def default_slot_def slot_live_def)
  ultimately show ?thesis
    using assms n(1) by (auto simp: core_ok_def sp_construct_def Let_def default_slot_def
        non_free_w_def filling_w_def)
qed

context completing_backend
begin

lemma pool_inv_start:
  assumes "sp_create config = Inr sp" "valid b" "outstanding b = {#}"
  shows "pinv [] self [] sp b m"
proof -
  note C = sp_create_Inr [OF assms(1)]
  have slots: "sp_slots sp = replicate (sc_num_slots config) default_slot"
    by (simp add: C(2) sp_construct_def Let_def)
  have "filling_set sp = {}"
    by (auto simp: filling_set_def slots default_slot_def)
  then show ?thesis
    using core_ok_construct [OF C(1)] assms(2,3)
    by (auto simp: pool_inv_def C(2) [symmetric] leases_ok_def requests_ok_def content_ok_def slots default_slot_def)
qed

lemma pool_inv_fewer:
  "pinv R self L sp b m \<Longrightarrow> set R' \<subseteq> set R \<Longrightarrow> pinv R' self L sp b m"
  by (auto simp: pool_inv_def leases_ok_def)

lemma pool_inv_more:
  "pinv R self L sp b m \<Longrightarrow> set P \<subseteq> set L \<Longrightarrow>
     (\<And>l. l \<in> set P \<Longrightarrow> slot_state (sp_slots sp ! lease_slot l) = Slot_Ready) \<Longrightarrow>
     pinv (R @ P) self L sp b m"
  by (auto simp: pool_inv_def leases_ok_def)

lemma resolve_begin_cases:
  assumes inv: "pinv R self L sp b m" and sub: "set R \<subseteq> set L"
    and free: "\<forall>l \<in> set out. lease_pool l = None"
    and run: "sp_resolve_begin submit self ranges out sp b = Some (res, out', sp', b')"
  shows "rest_same sp sp'" "case res of
       Inl e \<Rightarrow> pinv R self L sp' b' m
     | Inr pinned \<Rightarrow> pinned \<le> length out' \<and> pinv R self (take pinned out' @ L) sp' b' m \<and>
         batch_ok (sp_config sp) ranges \<and>
         list_all2 (lease_for self (sp_config sp)) (for_each_chunk (sp_config sp) ranges) (take pinned out')"
proof -
  obtain st chunks where batch: "validate_batch (sp_config sp) ranges = (st, chunks)"
    by (cases "validate_batch (sp_config sp) ranges")
  have "rest_same sp sp' \<and> (case res of
       Inl e \<Rightarrow> pinv R self L sp' b' m
     | Inr pinned \<Rightarrow> pinned \<le> length out' \<and> pinv R self (take pinned out' @ L) sp' b' m \<and>
         batch_ok (sp_config sp) ranges \<and>
         list_all2 (lease_for self (sp_config sp)) (for_each_chunk (sp_config sp) ranges) (take pinned out'))"
  proof (cases "st = Ok \<and> chunks \<le> length out")
    case False
    then have "res = Inl (if st = Ok then Batch_Too_Large else st)" "sp' = sp" "b' = b"
      using run batch by (auto simp: sp_resolve_begin_def split: if_splits)
    then show ?thesis
      using inv by (simp add: rest_same_def)
  next
    case True
    have none: "filter lease_is_held (take chunks out) = []"
      using free by (auto simp: filter_empty_conv lease_is_held_def dest: in_set_takeD)
    have inv1: "pinv R self (filter lease_is_held (take chunks out) @ L) sp b m"
      using inv by (simp add: none)
    have batch1: "validate_batch (sp_config sp) ranges = (Ok, chunks)" and room: "chunks \<le> length out"
      using batch True by simp_all
    obtain res2 out2 sp2 b2 where R2: "sp_resolve_begin submit self ranges out sp b = Some (res2, out2, sp2, b2)"
      "length out2 = length out" "rest_same sp sp2" "drop chunks out2 = drop chunks out"
      "case res2 of
         Inl e \<Rightarrow> e \<in> {Batch_Too_Large, Pool_Exhausted, Queue_Exhausted} \<and> pinv R self L sp2 b2 m
       | Inr pinned \<Rightarrow> pinned = chunks \<and> pinv R self (take chunks out2 @ L) sp2 b2 m \<and>
           list_all2 (lease_for self (sp_config sp)) (for_each_chunk (sp_config sp) ranges) (take chunks out2)"
      by (rule pool_inv_resolve_begin [OF inv1 sub batch1 room])
    have cfg: "config_ok (sp_config sp)"
      using core_okD(1) [OF pool_invD(1) [OF inv]] .
    have "res = res2" "out' = out2" "sp' = sp2" "b' = b2"
      using run R2(1) by simp_all
    then show ?thesis
      using R2(2,3,5) room validate_batch_Ok(1) [OF cfg batch1] by (cases res2) auto
  qed
  then show "rest_same sp sp'" "case res of
       Inl e \<Rightarrow> pinv R self L sp' b' m
     | Inr pinned \<Rightarrow> pinned \<le> length out' \<and> pinv R self (take pinned out' @ L) sp' b' m \<and>
         batch_ok (sp_config sp) ranges \<and>
         list_all2 (lease_for self (sp_config sp)) (for_each_chunk (sp_config sp) ranges) (take pinned out')"
    by simp_all
qed

lemma try_resolve_cases:
  assumes inv: "pinv R self L sp b m" and sub: "set R \<subseteq> set L"
    and free: "\<forall>l \<in> set out. lease_pool l = None"
    and run: "sp_try_resolve self ranges out sp = Some (res, out', sp')"
  shows "rest_same sp sp'" "case res of
       Inl e \<Rightarrow> pinv R self L sp' b m
     | Inr pinned \<Rightarrow> pinned \<le> length out' \<and> pinv (R @ take pinned out') self (take pinned out' @ L) sp' b m \<and>
         batch_ok (sp_config sp) ranges \<and>
         list_all2 (lease_for self (sp_config sp)) (for_each_chunk (sp_config sp) ranges) (take pinned out')"
proof -
  obtain st chunks where batch: "validate_batch (sp_config sp) ranges = (st, chunks)"
    by (cases "validate_batch (sp_config sp) ranges")
  have "rest_same sp sp' \<and> (case res of
       Inl e \<Rightarrow> pinv R self L sp' b m
     | Inr pinned \<Rightarrow> pinned \<le> length out' \<and> pinv (R @ take pinned out') self (take pinned out' @ L) sp' b m \<and>
         batch_ok (sp_config sp) ranges \<and>
         list_all2 (lease_for self (sp_config sp)) (for_each_chunk (sp_config sp) ranges) (take pinned out'))"
  proof (cases "st = Ok \<and> chunks \<le> length out")
    case False
    then have "res = Inl (if st = Ok then Batch_Too_Large else st)" "sp' = sp"
      using run batch by (auto simp: sp_try_resolve_def split: if_splits)
    then show ?thesis
      using inv by (simp add: rest_same_def)
  next
    case True
    have none: "filter lease_is_held (take chunks out) = []"
      using free by (auto simp: filter_empty_conv lease_is_held_def dest: in_set_takeD)
    have inv1: "pinv R self (filter lease_is_held (take chunks out) @ L) sp b m"
      using inv by (simp add: none)
    have batch1: "validate_batch (sp_config sp) ranges = (Ok, chunks)" and room: "chunks \<le> length out"
      using batch True by simp_all
    obtain res2 out2 sp2 where R2: "sp_try_resolve self ranges out sp = Some (res2, out2, sp2)"
      "length out2 = length out" "rest_same sp sp2" "drop chunks out2 = drop chunks out"
      "case res2 of
         Inl e \<Rightarrow> e = Not_Resident \<and> pinv R self L sp2 b m
       | Inr pinned \<Rightarrow> pinned = chunks \<and> pinv R self (take chunks out2 @ L) sp2 b m \<and>
           list_all2 (lease_for self (sp_config sp)) (for_each_chunk (sp_config sp) ranges) (take chunks out2) \<and>
           (\<forall>l \<in> set (take chunks out2). slot_state (sp_slots sp2 ! lease_slot l) = Slot_Ready)"
      by (rule pool_inv_try_resolve [OF inv1 sub batch1 room])
    have cfg: "config_ok (sp_config sp)"
      using core_okD(1) [OF pool_invD(1) [OF inv]] .
    have "res = res2" "out' = out2" "sp' = sp2"
      using run R2(1) by simp_all
    then show ?thesis
      using R2(2,3,5) room validate_batch_Ok(1) [OF cfg batch1]
      by (cases res2) (auto intro!: pool_inv_more)
  qed
  then show "rest_same sp sp'" "case res of
       Inl e \<Rightarrow> pinv R self L sp' b m
     | Inr pinned \<Rightarrow> pinned \<le> length out' \<and> pinv (R @ take pinned out') self (take pinned out' @ L) sp' b m \<and>
         batch_ok (sp_config sp) ranges \<and>
         list_all2 (lease_for self (sp_config sp)) (for_each_chunk (sp_config sp) ranges) (take pinned out')"
    by simp_all
qed

lemma waiting_leases_remove:
  "(pinned, out) \<in> set ws \<Longrightarrow>
     mset (waiting_leases ws) = mset (take pinned out @ waiting_leases (remove1 (pinned, out) ws))"
  by (induction ws) (auto simp: waiting_leases_def)

lemma ps_invD:
  assumes "ps_inv outstanding valid content self s"
  shows "pinv (ps_leases s) self (ps_leases s @ waiting_leases (ps_waiting s)) (ps_pool s) (ps_backend s)
      (ps_memory s)"
    "(pinned, out) \<in> set (ps_waiting s) \<Longrightarrow> pinned \<le> length out"
  using assms by (auto simp: ps_inv_def all_leases_def)

lemma ps_invI:
  assumes "pinv (ps_leases s) self L (ps_pool s) (ps_backend s) (ps_memory s)"
    "mset L = mset (ps_leases s @ waiting_leases (ps_waiting s))"
    "\<And>pinned out. (pinned, out) \<in> set (ps_waiting s) \<Longrightarrow> pinned \<le> length out"
  shows "ps_inv outstanding valid content self s"
  using pool_inv_mset [OF assms(1), of "ps_leases s @ waiting_leases (ps_waiting s)"] assms(2,3)
  by (auto simp: ps_inv_def all_leases_def)

lemma ps_inv_same_leases:
  assumes "ps_inv outstanding valid content self s"
    and "pinv (ps_leases s) self (ps_leases s @ waiting_leases (ps_waiting s)) (ps_pool t) (ps_backend t) (ps_memory t)"
    and "ps_leases t = ps_leases s" "ps_waiting t = ps_waiting s"
  shows "ps_inv outstanding valid content self t"
  using assms by (auto simp: ps_inv_def all_leases_def)

lemma ps_waiting_split:
  assumes inv: "ps_inv outstanding valid content self s" and w: "(pinned, out) \<in> set (ps_waiting s)"
  shows "pinv (ps_leases s) self
     (take pinned out @ ps_leases s @ waiting_leases (remove1 (pinned, out) (ps_waiting s)))
     (ps_pool s) (ps_backend s) (ps_memory s)"
  using ps_invD(1) [OF inv] by (rule pool_inv_mset) (simp add: waiting_leases_remove [OF w])

theorem ps_step_inv:
  assumes inv: "ps_inv outstanding valid content self s" and st: "ps_step submit outstanding completes self s t"
  shows "ps_inv outstanding valid content self t"
  using st
proof (cases rule: ps_step.cases)
  case (prefetched ranges admission tk sp' b')
  then show ?thesis
    using pool_inv_prefetch [OF ps_invD(1) [OF inv]] by (intro ps_inv_same_leases [OF inv]) auto
next
  case (prefetch_refused ranges admission e sp' b')
  then show ?thesis
    using pool_inv_prefetch [OF ps_invD(1) [OF inv]] by (intro ps_inv_same_leases [OF inv]) auto
next
  case (resolving out ranges pinned out' sp' b')
  note R = resolve_begin_cases(2) [OF ps_invD(1) [OF inv] _ resolving(2,3)]
  show ?thesis
    by (rule ps_invI [where L = "take pinned out' @ ps_leases s @ waiting_leases (ps_waiting s)"])
      (use R ps_invD(2) [OF inv] in \<open>auto simp: resolving(1) waiting_leases_def\<close>)
next
  case (resolve_refused out ranges e out' sp' b')
  note R = resolve_begin_cases(2) [OF ps_invD(1) [OF inv] _ resolve_refused(2,3)]
  show ?thesis
    using R by (intro ps_inv_same_leases [OF inv]) (simp_all add: resolve_refused(1))
next
  case (resolved pinned out n out' sp')
  let ?W = "waiting_leases (remove1 (pinned, out) (ps_waiting s))"
  note W = ps_waiting_split [OF inv resolved(2)]
  have E: "n = pinned" "out' = out" "sp' = ps_pool s"
    "\<forall>l \<in> set (take pinned out). slot_state (sp_slots (ps_pool s) ! lease_slot l) = Slot_Ready"
    using pool_inv_resolve_end(4) [OF W _ ps_invD(2) [OF inv resolved(2)] resolved(3)] by auto
  have "pinv (ps_leases s @ take pinned out) self (take pinned out @ ps_leases s @ ?W)
     (ps_pool s) (ps_backend s) (ps_memory s)"
    using W E(4) by (intro pool_inv_more) auto
  then show ?thesis
    using ps_invD(2) [OF inv]
    by (intro ps_invI [where L = "take pinned out @ ps_leases s @ ?W"])
      (auto simp: resolved(1) E dest: notin_set_remove1)
next
  case (resolve_failed pinned out e out' sp')
  let ?W = "waiting_leases (remove1 (pinned, out) (ps_waiting s))"
  note W = ps_waiting_split [OF inv resolve_failed(2)]
  have "pinv (ps_leases s) self (ps_leases s @ ?W) sp' (ps_backend s) (ps_memory s)"
    using pool_inv_resolve_end(4) [OF W _ ps_invD(2) [OF inv resolve_failed(2)] resolve_failed(3)] by simp
  then show ?thesis
    using ps_invD(2) [OF inv]
    by (intro ps_invI [where L = "ps_leases s @ ?W"])
      (auto simp: resolve_failed(1) dest: notin_set_remove1)
next
  case (try_resolved out ranges n out' sp')
  note R = try_resolve_cases(2) [OF ps_invD(1) [OF inv] _ try_resolved(2,3)]
  have "pinv (take n out' @ ps_leases s) self (take n out' @ ps_leases s @ waiting_leases (ps_waiting s)) sp'
      (ps_backend s) (ps_memory s)"
    using R by (auto intro: pool_inv_fewer)
  then show ?thesis
    using ps_invD(2) [OF inv]
    by (intro ps_invI [where L = "take n out' @ ps_leases s @ waiting_leases (ps_waiting s)"])
      (auto simp: try_resolved(1))
next
  case (try_refused out ranges e out' sp')
  note R = try_resolve_cases(2) [OF ps_invD(1) [OF inv] _ try_refused(2,3)]
  show ?thesis
    using R by (intro ps_inv_same_leases [OF inv]) (simp_all add: try_refused(1))
next
  case (released l l' sp')
  let ?L = "ps_leases s @ waiting_leases (ps_waiting s)"
  have rem: "remove1 l ?L = remove1 l (ps_leases s) @ waiting_leases (ps_waiting s)"
    using released(2) by (simp add: remove1_append)
  have "sp' = unpin_locked (lease_slot l) (ps_pool s)"
    using release_lease_held [OF ps_invD(1) [OF inv], of l] released(2,3) by simp
  moreover have "pinv (remove1 l (ps_leases s)) self (remove1 l ?L)
      (unpin_locked (lease_slot l) (ps_pool s)) (ps_backend s) (ps_memory s)"
  proof (rule pool_inv_remove)
    show "pinv (remove1 l (ps_leases s)) self ?L (ps_pool s) (ps_backend s) (ps_memory s)"
      using ps_invD(1) [OF inv] by (rule pool_inv_fewer) (rule set_remove1_subset)
    show "l \<in> set ?L" "set (remove1 l (ps_leases s)) \<subseteq> set (remove1 l ?L)"
      using released(2) by (auto simp: rem)
  qed
  ultimately show ?thesis
    using ps_invD(2) [OF inv]
    by (intro ps_invI [where L = "remove1 l ?L"]) (auto simp: released(1) rem)
next
  case (discarded tk t' sp')
  have "pinv (ps_leases s) self (ps_leases s @ waiting_leases (ps_waiting s)) sp' (ps_backend s) (ps_memory s)"
    using ps_invD(1) [OF inv] pool_inv_discard discarded(3)
    by (auto simp: ticket_reset_def split: if_splits)
  then show ?thesis
    by (intro ps_inv_same_leases [OF inv]) (simp_all add: discarded(1))
next
  case (demoted ranges)
  then show ?thesis
    using pool_inv_wont_need [OF ps_invD(1) [OF inv]] by (intro ps_inv_same_leases [OF inv]) auto
next
  case (writing r m')
  then show ?thesis
    using pool_inv_writing [OF ps_invD(1) [OF inv]] by (intro ps_inv_same_leases [OF inv]) auto
next
  case (delivered r res b' m')
  then show ?thesis
    using pool_inv_deliver [OF ps_invD(1) [OF inv]] by (intro ps_inv_same_leases [OF inv]) auto
next
  case (duplicate token res)
  have "pinv (ps_leases s) self (ps_leases s @ waiting_leases (ps_waiting s))
      (sp_on_complete token res (ps_pool s)) (ps_backend s) (ps_memory s)"
    using ps_invD(1) [OF inv] by (rule pool_inv_slots_same) (use duplicate(2) in \<open>simp_all add: sp_on_complete_def\<close>)
  then show ?thesis
    by (intro ps_inv_same_leases [OF inv]) (simp_all add: duplicate(1))
qed

theorem ps_reachable_inv:
  "ps_reachable submit outstanding valid completes self s \<Longrightarrow> ps_inv outstanding valid content self s"
proof (induction rule: ps_reachable.induct)
  case (start config sp b m)
  then show ?case
    using pool_inv_start [OF start, of self m]
    by (simp add: ps_inv_def ps_init_def all_leases_def waiting_leases_def)
next
  case (step s t)
  show ?case
    by (rule ps_step_inv [OF step.IH step.hyps(2)])
qed

end

end
