(* ===== verification/Slot_Pool_Waiters.thy ===== *)
theory Slot_Pool_Waiters
  imports Slot_Pool_Steps
begin

text \<open>
  The tickets of a pool and the intrusive lists of waiters that its slots carry: the invariant
  \<open>wait_inv\<close> says which entries each list holds, that the lists are disjoint, that a ticket's \<open>pending\<close>
  counts exactly its entries on some list, and that an entry of a ticket in use is on a list exactly
  when its outcome is pending. Prefetch, delivery and the drop of a ticket keep it.
\<close>

section \<open>Lists of waiters\<close>

text \<open>The list that starts at \<open>head\<close> and is linked by \<open>wait_next\<close>.\<close>

fun chain :: "waiter_entry list \<Rightarrow> nat \<Rightarrow> nat list \<Rightarrow> bool" where
  "chain ws head [] \<longleftrightarrow> head = NONE"
| "chain ws head (e # es) \<longleftrightarrow> head = e \<and> e \<noteq> NONE \<and> chain ws (wait_next (ws ! e)) es"

lemma chain_update: "e \<notin> set es \<Longrightarrow> chain (ws[e := w]) head es = chain ws head es"
  by (induction es arbitrary: head) auto

lemma chain_NONE: "chain ws NONE es \<Longrightarrow> es = []"
  by (cases es) auto

lemma chain_cong:
  "chain ws head es \<Longrightarrow> (\<And>e. e \<in> set es \<Longrightarrow> wait_next (ws' ! e) = wait_next (ws ! e)) \<Longrightarrow>
     chain ws' head es"
  by (induction es arbitrary: head) auto

section \<open>The invariant\<close>

definition waiting_set :: "(nat \<Rightarrow> nat list) \<Rightarrow> nat \<Rightarrow> nat set" where
  "waiting_set C n = (\<Union>i<n. set (C i))"

definition ticket_set :: "(nat \<Rightarrow> nat list) \<Rightarrow> nat \<Rightarrow> nat \<Rightarrow> nat \<Rightarrow> nat set" where
  "ticket_set C n mb r = {e \<in> waiting_set C n. e div mb = r}"

text \<open>
  \<open>C i\<close> is the list of slot \<open>i\<close>, which starts at \<open>H i\<close>; \<open>dn r\<close> says how many entries of ticket \<open>r\<close>
  have been written (all of them, except while prefetch works on the ticket).
\<close>

definition lists_ok :: "(nat \<Rightarrow> nat list) \<Rightarrow> (nat \<Rightarrow> nat) \<Rightarrow> nat \<Rightarrow> waiter_entry list \<Rightarrow> bool" where
  "lists_ok C H n ws \<longleftrightarrow>
     (\<forall>i<n. chain ws (H i) (C i) \<and> distinct (C i)) \<and>
     (\<forall>i<n. \<forall>j<n. i \<noteq> j \<longrightarrow> set (C i) \<inter> set (C j) = {})"

definition entry_ok :: "(nat \<Rightarrow> nat) \<Rightarrow> nat \<Rightarrow> ticket_record list \<Rightarrow> nat \<Rightarrow> bool" where
  "entry_ok dn mb ts e \<longleftrightarrow>
     e < length ts * mb \<and> e mod mb < dn (e div mb) \<and> tick_in_use (ts ! (e div mb))"

definition waiting_record_ok :: "nat set \<Rightarrow> nat set \<Rightarrow> nat \<Rightarrow> nat \<Rightarrow> waiter_entry list \<Rightarrow> nat \<Rightarrow> ticket_record \<Rightarrow> bool" where
  "waiting_record_ok P Pr d mb ws r t \<longleftrightarrow>
     tick_pending t = card Pr \<and> d \<le> mb \<and>
     (tick_in_use t \<longrightarrow> (\<forall>k<d. wait_outcome (ws ! (r * mb + k)) = Pending \<longleftrightarrow> r * mb + k \<in> P)) \<and>
     (tick_held t \<longrightarrow> tick_in_use t) \<and> (tick_in_use t \<longrightarrow> tick_held t \<or> 0 < tick_pending t)"

definition wait_inv ::
    "(nat \<Rightarrow> nat list) \<Rightarrow> (nat \<Rightarrow> nat) \<Rightarrow> (nat \<Rightarrow> nat) \<Rightarrow> slot_pool \<Rightarrow> bool" where
  "wait_inv C H dn sp \<longleftrightarrow>
     (let n = length (sp_slots sp); ws = sp_waiters sp; ts = sp_tickets sp;
          mb = sc_max_batch_chunks (sp_config sp) in
      0 < mb \<and> length ts * mb < NONE \<and> length ts = sc_max_tickets (sp_config sp) \<and>
      length ws = length ts * mb \<and> lists_ok C H n ws \<and>
      (\<forall>e \<in> waiting_set C n. entry_ok dn mb ts e) \<and>
      (\<forall>r < length ts. waiting_record_ok (waiting_set C n) (ticket_set C n mb r) (dn r) mb ws r (ts ! r)) \<and>
      sp_tickets_held sp = count_where tick_held ts)"

definition waiters_ok :: "slot_pool \<Rightarrow> bool" where
  "waiters_ok sp \<longleftrightarrow>
     (\<exists>C. wait_inv C (\<lambda>i. heads sp ! i) (\<lambda>r. tick_chunks (sp_tickets sp ! r)) sp)"

lemma wait_invD:
  assumes "wait_inv C H dn sp"
  shows "0 < sc_max_batch_chunks (sp_config sp)"
    "length (sp_tickets sp) * sc_max_batch_chunks (sp_config sp) < NONE"
    "length (sp_tickets sp) = sc_max_tickets (sp_config sp)"
    "length (sp_waiters sp) = length (sp_tickets sp) * sc_max_batch_chunks (sp_config sp)"
    "lists_ok C H (length (sp_slots sp)) (sp_waiters sp)"
    "e \<in> waiting_set C (length (sp_slots sp)) \<Longrightarrow>
       entry_ok dn (sc_max_batch_chunks (sp_config sp)) (sp_tickets sp) e"
    "r < length (sp_tickets sp) \<Longrightarrow>
       waiting_record_ok (waiting_set C (length (sp_slots sp)))
         (ticket_set C (length (sp_slots sp)) (sc_max_batch_chunks (sp_config sp)) r) (dn r)
         (sc_max_batch_chunks (sp_config sp)) (sp_waiters sp) r (sp_tickets sp ! r)"
    "sp_tickets_held sp = count_where tick_held (sp_tickets sp)"
  using assms by (auto simp: wait_inv_def Let_def)

lemma wait_inv_same:
  assumes "wait_inv C H dn sp" "sp_config sp' = sp_config sp" "sp_tickets sp' = sp_tickets sp"
    "sp_waiters sp' = sp_waiters sp" "sp_tickets_held sp' = sp_tickets_held sp"
    "length (sp_slots sp') = length (sp_slots sp)"
    "\<And>i. i < length (sp_slots sp) \<Longrightarrow> H' i = H i"
  shows "wait_inv C H' dn sp'"
proof -
  have eq: "lists_ok C H' (length (sp_slots sp)) (sp_waiters sp) = lists_ok C H (length (sp_slots sp)) (sp_waiters sp)"
    using assms(7) by (simp add: lists_ok_def)
  show ?thesis
    using assms(1) unfolding wait_inv_def Let_def assms(2-6) eq by assumption
qed

lemma length_heads [simp]: "length (heads sp) = length (sp_slots sp)"
  by (simp add: heads_def)

lemma waiters_ok_rest:
  assumes "waiters_ok sp" "rest_same sp sp'"
  shows "waiters_ok sp'"
proof -
  have "length (sp_slots sp') = length (sp_slots sp)"
    using assms(2) length_heads [of sp] length_heads [of sp'] by (simp add: rest_same_def)
  then show ?thesis
    using assms unfolding waiters_ok_def rest_same_def by (metis wait_inv_same)
qed

lemma finite_waiting [simp]: "finite (waiting_set C n)" "finite (ticket_set C n mb r)"
  by (simp_all add: waiting_set_def ticket_set_def)

lemma entry_div:
  fixes k mb :: nat
  assumes "k < mb"
  shows "(r * mb + k) div mb = r" "(r * mb + k) mod mb = k"
  using assms by simp_all

section \<open>Adding and removing an entry\<close>

lemma waiting_set_cons:
  "i < n \<Longrightarrow> waiting_set (C(i := e # C i)) n = insert e (waiting_set C n)"
  by (auto simp: waiting_set_def split: if_splits)

lemma lists_ok_disjoint:
  assumes "lists_ok C H n ws" "i < n" "C i = e # es"
  shows "e \<notin> set es" "j < n \<Longrightarrow> j \<noteq> i \<Longrightarrow> e \<notin> set (C j)" "chain ws (H i) (e # es)"
proof -
  show "e \<notin> set es" "chain ws (H i) (e # es)"
    using assms unfolding lists_ok_def by (metis distinct.simps(2), metis)
  show "e \<notin> set (C j)" if "j < n" "j \<noteq> i"
  proof -
    have "set (C i) \<inter> set (C j) = {}"
      using assms(1,2) that unfolding lists_ok_def by blast
    then show ?thesis
      using assms(3) by auto
  qed
qed

lemma waiting_set_tail:
  assumes "lists_ok C H n ws" "i < n" "C i = e # es"
  shows "waiting_set (C(i := es)) n = waiting_set C n - {e}" "e \<in> waiting_set C n"
proof -
  have d: "e \<notin> set es" "\<And>j. j < n \<Longrightarrow> j \<noteq> i \<Longrightarrow> e \<notin> set (C j)"
    using lists_ok_disjoint [OF assms] by auto
  show "e \<in> waiting_set C n"
    using assms(2,3) by (force simp: waiting_set_def)
  show "waiting_set (C(i := es)) n = waiting_set C n - {e}"
  proof (intro equalityI subsetI)
    fix x
    assume "x \<in> waiting_set (C(i := es)) n"
    then obtain j where j: "j < n" "x \<in> set ((C(i := es)) j)"
      by (auto simp: waiting_set_def)
    then have "x \<noteq> e" "x \<in> set (C j)"
      using d assms(3) by (cases "j = i"; auto)+
    then show "x \<in> waiting_set C n - {e}"
      using j(1) by (auto simp: waiting_set_def)
  next
    fix x
    assume "x \<in> waiting_set C n - {e}"
    then obtain j where "j < n" "x \<in> set (C j)" "x \<noteq> e"
      by (auto simp: waiting_set_def)
    then have "x \<in> set ((C(i := es)) j)"
      using assms(3) by (cases "j = i") auto
    then show "x \<in> waiting_set (C(i := es)) n"
      unfolding waiting_set_def using \<open>j < n\<close> by (intro UN_I [of j]) simp_all
  qed
qed

lemma ticket_set_insert:
  assumes "waiting_set C' n = insert e (waiting_set C n)" "e \<notin> waiting_set C n"
  shows "card (ticket_set C' n mb r) = card (ticket_set C n mb r) + (if e div mb = r then 1 else 0)"
proof (cases "e div mb = r")
  case True
  have "ticket_set C' n mb r = insert e (ticket_set C n mb r)"
    using True by (auto simp: ticket_set_def assms(1))
  then show ?thesis
    using True assms(2) by (simp add: ticket_set_def)
next
  case False
  have "ticket_set C' n mb r = ticket_set C n mb r"
    using False by (auto simp: ticket_set_def assms(1))
  then show ?thesis
    using False by simp
qed

lemma ticket_set_remove:
  assumes "waiting_set C' n = waiting_set C n - {e}" "e \<in> waiting_set C n"
  shows "card (ticket_set C n mb r) = card (ticket_set C' n mb r) + (if e div mb = r then 1 else 0)"
proof -
  have "waiting_set C n = insert e (waiting_set C' n)" "e \<notin> waiting_set C' n"
    using assms by auto
  then show ?thesis
    by (rule ticket_set_insert)
qed

lemma lists_ok_cons:
  assumes ok: "lists_ok C H n ws" and i: "i < n" and e: "e \<notin> waiting_set C n" "e < length ws" "e \<noteq> NONE"
    and w: "wait_next w = H i"
  shows "lists_ok (C(i := e # C i)) (H(i := e)) n (ws[e := w])"
proof -
  have out: "e \<notin> set (C j)" if "j < n" for j
    using e(1) that by (auto simp: waiting_set_def)
  have "chain (ws[e := w]) ((H(i := e)) j) ((C(i := e # C i)) j)" if "j < n" for j
    using ok i e w out that by (auto simp: lists_ok_def chain_update)
  moreover have "distinct ((C(i := e # C i)) j)" if "j < n" for j
    using ok out that by (auto simp: lists_ok_def)
  moreover have "set ((C(i := e # C i)) j) \<inter> set ((C(i := e # C i)) k) = {}" if "j < n" "k < n" "j \<noteq> k" for j k
    using ok out that by (auto simp: lists_ok_def)
  ultimately show ?thesis
    by (simp add: lists_ok_def)
qed

lemma lists_ok_tail:
  assumes ok: "lists_ok C H n ws" and i: "i < n" "C i = e # es"
  shows "lists_ok (C(i := es)) (H(i := wait_next (ws ! e))) n (ws[e := w])"
proof -
  note out = lists_ok_disjoint [OF assms]
  then have "chain (ws[e := w]) ((H(i := wait_next (ws ! e))) j) ((C(i := es)) j)" if "j < n" for j
    using ok out that by (auto simp: lists_ok_def chain_update)
  moreover have "distinct ((C(i := es)) j)" if "j < n" for j
    using ok i that unfolding lists_ok_def by (metis distinct.simps(2) fun_upd_apply)
  moreover have "set ((C(i := es)) j) \<inter> set ((C(i := es)) k) = {}" if "j < n" "k < n" "j \<noteq> k" for j k
  proof -
    have "set ((C(i := es)) j) \<subseteq> set (C j)" "set ((C(i := es)) k) \<subseteq> set (C k)"
      using i(2) by auto
    then show ?thesis
      using ok that unfolding lists_ok_def by blast
  qed
  ultimately show ?thesis
    by (simp add: lists_ok_def)
qed

lemma lists_ok_other:
  assumes ok: "lists_ok C H n ws" and e: "e \<notin> waiting_set C n"
  shows "lists_ok C H n (ws[e := w])"
  using ok e by (auto simp: lists_ok_def waiting_set_def chain_update)

section \<open>Writing an entry\<close>

text \<open>
  Entry \<open>e\<close> of ticket \<open>r\<close> is the next one to be written. It goes on the list of slot \<open>i\<close>, pending, or
  it gets its final outcome at once.
\<close>

lemma entry_fresh:
  assumes inv: "wait_inv C H dn sp" and k: "dn r = k" "k < sc_max_batch_chunks (sp_config sp)"
    and e: "e = r * sc_max_batch_chunks (sp_config sp) + k" and r: "r < length (sp_tickets sp)"
  shows "e \<notin> waiting_set C (length (sp_slots sp))" "e div sc_max_batch_chunks (sp_config sp) = r"
    "e mod sc_max_batch_chunks (sp_config sp) = k" "e < length (sp_waiters sp)" "e \<noteq> NONE"
proof -
  note D = wait_invD [OF inv]
  let ?mb = "sc_max_batch_chunks (sp_config sp)"
  show dm: "e div ?mb = r" "e mod ?mb = k"
    unfolding e using k(2) by (simp_all add: entry_div)
  show "e \<notin> waiting_set C (length (sp_slots sp))"
  proof
    assume "e \<in> waiting_set C (length (sp_slots sp))"
    then have "e mod ?mb < dn (e div ?mb)"
      using D(6) by (simp add: entry_ok_def)
    then show False
      using k(1) by (simp add: dm)
  qed
  have "Suc r * ?mb \<le> length (sp_tickets sp) * ?mb"
    using r by (intro mult_le_mono1) simp
  then show lt: "e < length (sp_waiters sp)"
    using D(4) e k(2) by simp
  show "e \<noteq> NONE"
    using lt D(2,4) by simp
qed

lemma wait_inv_link:
  assumes inv: "wait_inv C H dn sp" and k: "dn r = k" "k < sc_max_batch_chunks (sp_config sp)"
    and e: "e = r * sc_max_batch_chunks (sp_config sp) + k" and r: "r < length (sp_tickets sp)"
    and held: "tick_in_use (sp_tickets sp ! r)"
    and i: "i < length (sp_slots sp)"
    and sp': "sp_config sp' = sp_config sp" "length (sp_slots sp') = length (sp_slots sp)"
      "sp_waiters sp' = (sp_waiters sp)[e := w]" "sp_tickets_held sp' = sp_tickets_held sp"
      "sp_tickets sp' = (sp_tickets sp)[r := (sp_tickets sp ! r)\<lparr>tick_pending := tick_pending (sp_tickets sp ! r) + 1\<rparr>]"
    and w: "wait_next w = H i" "wait_outcome w = Pending"
  shows "wait_inv (C(i := e # C i)) (H(i := e)) (dn(r := Suc k)) sp'"
proof -
  note D = wait_invD [OF inv] and F = entry_fresh [OF inv k e r]
  let ?mb = "sc_max_batch_chunks (sp_config sp)" and ?n = "length (sp_slots sp)"
  let ?C = "C(i := e # C i)" and ?dn = "dn(r := Suc k)"
  have set: "waiting_set ?C ?n = insert e (waiting_set C ?n)"
    using i by (rule waiting_set_cons)
  have lists: "lists_ok ?C (H(i := e)) ?n (sp_waiters sp')"
    unfolding sp'(3) using D(5) i F(1,4,5) w(1) by (rule lists_ok_cons)
  have use_same: "tick_in_use (sp_tickets sp' ! q) = tick_in_use (sp_tickets sp ! q)"
    "tick_held (sp_tickets sp' ! q) = tick_held (sp_tickets sp ! q)" for q
    using r by (cases "q = r"; simp add: sp'(5))+
  have entries: "entry_ok ?dn ?mb (sp_tickets sp') x" if "x \<in> waiting_set ?C ?n" for x
  proof (cases "x = e")
    case True
    have "entry_ok ?dn ?mb (sp_tickets sp') e"
      unfolding entry_ok_def F(2,3) use_same using F(4) D(4) held by (simp add: sp'(5))
    then show ?thesis
      by (simp add: True)
  next
    case False
    have "entry_ok dn ?mb (sp_tickets sp) x"
      using that False by (intro D(6)) (simp add: set)
    then show ?thesis
      using k(1) unfolding entry_ok_def use_same by (auto simp: sp'(5))
  qed
  have out: "wait_outcome (sp_waiters sp' ! x) = (if x = e then Pending else wait_outcome (sp_waiters sp ! x))" for x
    using F(4) w(2) by (cases "x = e") (simp_all add: sp'(3))
  have records: "waiting_record_ok (waiting_set ?C ?n) (ticket_set ?C ?n ?mb q) (?dn q) ?mb (sp_waiters sp') q (sp_tickets sp' ! q)"
    if q: "q < length (sp_tickets sp)" for q
  proof -
    note R = D(7) [OF q]
    have "tick_pending (sp_tickets sp' ! q) = tick_pending (sp_tickets sp ! q) + (if q = r then 1 else 0)"
      using r by (cases "q = r") (simp_all add: sp'(5))
    moreover have "card (ticket_set ?C ?n ?mb q) = card (ticket_set C ?n ?mb q) + (if q = r then 1 else 0)"
      using ticket_set_insert [OF set F(1), of ?mb q] F(2) by auto
    moreover have "(wait_outcome (sp_waiters sp' ! (q * ?mb + j)) = Pending) = (q * ?mb + j \<in> waiting_set ?C ?n)"
      if use: "tick_in_use (sp_tickets sp ! q)" and j: "j < ?dn q" for j
    proof (cases "q * ?mb + j = e")
      case False
      have "j < dn q"
        using j False k(1) e by (cases "q = r") (auto simp: less_Suc_eq)
      then show ?thesis
        using R use False by (simp add: out set waiting_record_ok_def)
    qed (simp add: out set)
    ultimately show ?thesis
      using R k by (auto simp: waiting_record_ok_def use_same)
  qed
  have "count_where tick_held (sp_tickets sp') = count_where tick_held (sp_tickets sp)"
    using count_where_update [OF r, of tick_held "(sp_tickets sp ! r)\<lparr>tick_pending := tick_pending (sp_tickets sp ! r) + 1\<rparr>"]
    by (simp add: sp'(5))
  then show ?thesis
    using D lists entries records unfolding wait_inv_def Let_def sp'(1,2,4)
    by (simp add: sp'(3,5))
qed

lemma wait_inv_settled:
  assumes inv: "wait_inv C H dn sp" and k: "dn r = k" "k < sc_max_batch_chunks (sp_config sp)"
    and e: "e = r * sc_max_batch_chunks (sp_config sp) + k" and r: "r < length (sp_tickets sp)"
    and sp': "sp_config sp' = sp_config sp" "length (sp_slots sp') = length (sp_slots sp)"
      "sp_waiters sp' = (sp_waiters sp)[e := w]" "sp_tickets_held sp' = sp_tickets_held sp"
      "sp_tickets sp' = sp_tickets sp"
    and w: "wait_outcome w \<noteq> Pending"
  shows "wait_inv C H (dn(r := Suc k)) sp'"
proof -
  note D = wait_invD [OF inv] and F = entry_fresh [OF inv k e r]
  let ?mb = "sc_max_batch_chunks (sp_config sp)" and ?n = "length (sp_slots sp)"
  let ?dn = "dn(r := Suc k)"
  have lists: "lists_ok C H ?n (sp_waiters sp')"
    unfolding sp'(3) using D(5) F(1) by (rule lists_ok_other)
  have entries: "entry_ok ?dn ?mb (sp_tickets sp) x" if "x \<in> waiting_set C ?n" for x
    using D(6) [OF that] k(1) by (auto simp: entry_ok_def)
  have out: "wait_outcome (sp_waiters sp' ! x) = (if x = e then wait_outcome w else wait_outcome (sp_waiters sp ! x))" for x
    using F(4) by (cases "x = e") (simp_all add: sp'(3))
  have records: "waiting_record_ok (waiting_set C ?n) (ticket_set C ?n ?mb q) (?dn q) ?mb (sp_waiters sp') q (sp_tickets sp ! q)"
    if q: "q < length (sp_tickets sp)" for q
  proof -
    note R = D(7) [OF q]
    have "(wait_outcome (sp_waiters sp' ! (q * ?mb + j)) = Pending) = (q * ?mb + j \<in> waiting_set C ?n)"
      if use: "tick_in_use (sp_tickets sp ! q)" and j: "j < ?dn q" for j
    proof (cases "q * ?mb + j = e")
      case True
      then show ?thesis
        using F(1) w by (simp add: out)
    next
      case False
      have "j < dn q"
        using j False k(1) e by (cases "q = r") (auto simp: less_Suc_eq)
      then show ?thesis
        using R use False by (simp add: out waiting_record_ok_def)
    qed
    then show ?thesis
      using R k by (auto simp: waiting_record_ok_def)
  qed
  show ?thesis
    using D lists entries records unfolding wait_inv_def Let_def sp'(1,2,4,5)
    by (simp add: sp'(3))
qed

section \<open>Draining a list\<close>

definition settle_ticket :: "ticket_record \<Rightarrow> ticket_record" where
  "settle_ticket t =
     (let t = t\<lparr>tick_pending := tick_pending t - 1\<rparr>
      in if tick_pending t = 0 \<and> \<not> tick_held t then t\<lparr>tick_in_use := False\<rparr> else t)"

lemma settle_ticket_simps [simp]:
  "tick_pending (settle_ticket t) = tick_pending t - 1" "tick_held (settle_ticket t) = tick_held t"
  "tick_chunks (settle_ticket t) = tick_chunks t" "tick_generation (settle_ticket t) = tick_generation t"
  "tick_in_use (settle_ticket t) \<longleftrightarrow> tick_in_use t \<and> (tick_pending t - 1 \<noteq> 0 \<or> tick_held t)"
  by (simp_all add: settle_ticket_def Let_def)

lemma settle_waiter_tickets:
  "sp_tickets (settle_waiter e st sp) = (sp_tickets sp)[e div sc_max_batch_chunks (sp_config sp) :=
     settle_ticket (sp_tickets sp ! (e div sc_max_batch_chunks (sp_config sp)))]"
  by (simp add: settle_waiter_def settle_ticket_def Let_def)

lemma wait_inv_settle:
  assumes inv: "wait_inv C H dn sp" and i: "i < length (sp_slots sp)" "C i = e # es" and st: "st \<noteq> Pending"
  shows "wait_inv (C(i := es)) (H(i := wait_next (sp_waiters sp ! e))) dn (settle_waiter e st sp)"
proof -
  note D = wait_invD [OF inv]
  let ?mb = "sc_max_batch_chunks (sp_config sp)" and ?n = "length (sp_slots sp)"
  let ?C = "C(i := es)" and ?r = "e div sc_max_batch_chunks (sp_config sp)" and ?sp = "settle_waiter e st sp"
  note set = waiting_set_tail [OF D(5) i]
  have e: "entry_ok dn ?mb (sp_tickets sp) e"
    using set(2) by (rule D(6))
  then have lt: "e < length (sp_waiters sp)"
    using D(4) by (simp add: entry_ok_def)
  have r: "?r < length (sp_tickets sp)"
    using e by (simp add: entry_ok_def less_mult_imp_div_less)
  have lists: "lists_ok ?C (H(i := wait_next (sp_waiters sp ! e))) ?n (sp_waiters ?sp)"
    unfolding sp_waiters_settle using D(5) i by (rule lists_ok_tail)
  have tick: "sp_tickets ?sp ! q = (if q = ?r then settle_ticket (sp_tickets sp ! q) else sp_tickets sp ! q)" for q
    using r by (cases "q = ?r") (simp_all add: settle_waiter_tickets)
  have cards: "card (ticket_set C ?n ?mb q) = card (ticket_set ?C ?n ?mb q) + (if ?r = q then 1 else 0)" for q
    using ticket_set_remove [OF set] .
  have out: "wait_outcome (sp_waiters ?sp ! x) = (if x = e then st else wait_outcome (sp_waiters sp ! x))" for x
    using lt by (cases "x = e") (simp_all add: sp_waiters_settle)
  have records: "waiting_record_ok (waiting_set ?C ?n) (ticket_set ?C ?n ?mb q) (dn q) ?mb (sp_waiters ?sp) q (sp_tickets ?sp ! q)"
    if q: "q < length (sp_tickets sp)" for q
  proof -
    note R = D(7) [OF q]
    have "(wait_outcome (sp_waiters ?sp ! (q * ?mb + j)) = Pending) = (q * ?mb + j \<in> waiting_set ?C ?n)"
      if "tick_in_use (sp_tickets sp ! q)" "j < dn q" for j
      using R that st by (auto simp: out set(1) waiting_record_ok_def)
    then show ?thesis
      using R cards [of q] by (auto simp: waiting_record_ok_def tick)
  qed
  have entries: "entry_ok dn ?mb (sp_tickets ?sp) x" if x: "x \<in> waiting_set ?C ?n" for x
  proof -
    have old: "entry_ok dn ?mb (sp_tickets sp) x"
      using x set(1) by (intro D(6)) auto
    have "0 < tick_pending (sp_tickets sp ! ?r) - 1" if eq: "x div ?mb = ?r"
    proof -
      have "x \<in> ticket_set ?C ?n ?mb ?r"
        using x eq by (simp add: ticket_set_def)
      then have "0 < card (ticket_set ?C ?n ?mb ?r)"
        by (auto simp: card_gt_0_iff)
      then show ?thesis
        using D(7) [OF r] cards [of ?r] by (simp add: waiting_record_ok_def)
    qed
    then have "tick_in_use (sp_tickets ?sp ! (x div ?mb))"
      using old by (auto simp: tick entry_ok_def)
    then show ?thesis
      using old by (simp add: entry_ok_def settle_waiter_tickets)
  qed
  have "count_where tick_held (sp_tickets ?sp) = count_where tick_held (sp_tickets sp)"
    using count_where_update [OF r, of tick_held "settle_ticket (sp_tickets sp ! ?r)"]
    by (simp add: settle_waiter_tickets)
  moreover have "length (sp_tickets ?sp) = length (sp_tickets sp)" "length (sp_waiters ?sp) = length (sp_waiters sp)"
    by (simp_all add: settle_waiter_tickets sp_waiters_settle)
  ultimately show ?thesis
    using D(1-4,8) lists entries records unfolding wait_inv_def Let_def settle_waiter_simps by simp
qed

lemma wait_inv_drain:
  assumes "wait_inv C H dn sp" "i < length (sp_slots sp)" "st \<noteq> Pending"
  shows "wait_inv (C(i := [])) (H(i := NONE)) dn (drain_waiters (H i) st sp)"
  using assms
proof (induction "C i" arbitrary: C H sp)
  case Nil
  have "H i = NONE"
    using wait_invD(5) [OF Nil.prems(1)] Nil.hyps Nil.prems(2) unfolding lists_ok_def
    by (metis chain.simps(1))
  then show ?case
    using Nil by (subst drain_waiters.simps) (simp add: fun_upd_idem)
next
  case (Cons e es)
  let ?sp = "settle_waiter e st sp" and ?h = "wait_next (sp_waiters sp ! e)"
  note D = wait_invD [OF Cons.prems(1)] and set = waiting_set_tail(2) [OF wait_invD(5) [OF Cons.prems(1)] Cons.prems(2) Cons.hyps(2) [symmetric]]
  have Hi: "H i = e" "e \<noteq> NONE"
    using lists_ok_disjoint(3) [OF D(5) Cons.prems(2) Cons.hyps(2) [symmetric]] by simp_all
  have lt: "e < length (sp_waiters sp)"
    using D(6) [OF set] D(4) by (simp add: entry_ok_def)
  have step: "drain_waiters (H i) st sp = drain_waiters ?h st ?sp"
    using Hi lt by (subst drain_waiters.simps) simp
  have inv: "wait_inv (C(i := es)) (H(i := ?h)) dn ?sp"
    using Cons.prems(1,2) Cons.hyps(2) [symmetric] Cons.prems(3) by (rule wait_inv_settle)
  have "wait_inv ((C(i := es))(i := [])) ((H(i := ?h))(i := NONE)) dn (drain_waiters ((H(i := ?h)) i) st ?sp)"
    by (rule Cons.hyps(1)) (use inv Cons.prems in simp_all)
  then show ?case
    by (simp add: step)
qed

lemma drain_tickets:
  "tick_chunks (sp_tickets (drain_waiters e st sp) ! r) = tick_chunks (sp_tickets sp ! r) \<and>
   tick_held (sp_tickets (drain_waiters e st sp) ! r) = tick_held (sp_tickets sp ! r) \<and>
   tick_generation (sp_tickets (drain_waiters e st sp) ! r) = tick_generation (sp_tickets sp ! r) \<and>
   length (sp_tickets (drain_waiters e st sp)) = length (sp_tickets sp)"
proof (induction e st sp rule: drain_waiters.induct)
  case (1 e st sp)
  let ?q = "e div sc_max_batch_chunks (sp_config sp)"
  have same: "tick_chunks (sp_tickets (settle_waiter e st sp) ! r) = tick_chunks (sp_tickets sp ! r)"
    "tick_held (sp_tickets (settle_waiter e st sp) ! r) = tick_held (sp_tickets sp ! r)"
    "tick_generation (sp_tickets (settle_waiter e st sp) ! r) = tick_generation (sp_tickets sp ! r)"
    "length (sp_tickets (settle_waiter e st sp)) = length (sp_tickets sp)"
    by (cases "?q < length (sp_tickets sp)"; cases "r = ?q";
        simp add: settle_waiter_tickets list_update_beyond)+
  show ?case
    using 1 same by (subst (1 2 3 4) drain_waiters.simps) simp
qed

lemma waiters_ok_complete:
  assumes ok: "waiters_ok sp" and res: "result_status result \<noteq> Pending"
  shows "waiters_ok (sp_on_complete token result sp)"
proof (cases "sp_is_stale token sp")
  case True
  then show ?thesis
    using ok by (intro waiters_ok_rest [OF ok]) (simp add: sp_on_complete_def rest_same_def)
next
  case False
  obtain C where C: "wait_inv C (\<lambda>i. heads sp ! i) (\<lambda>r. tick_chunks (sp_tickets sp ! r)) sp"
    using ok by (auto simp: waiters_ok_def)
  let ?i = "token_index token" and ?s = "sp_slots sp ! token_index token"
  let ?st = "classify_fill result (chunk_length (sp_config sp) (slot_chunk ?s))"
  let ?c = "complete_slot ?i ?st result sp"
  let ?sp1 = "upd_slot ?i (\<lambda>s. s\<lparr>slot_waiter_head := NONE\<rparr>) ?c"
  have i: "?i < length (sp_slots sp)"
    using False by (simp add: sp_is_stale_def)
  have st: "?st \<noteq> Pending"
    using res by (simp add: classify_fill_def)
  have head: "slot_waiter_head (sp_slots ?c ! ?i) = heads sp ! ?i"
    using i by (simp add: complete_slot_slots heads_def)
  have eq: "sp_on_complete token result sp = drain_waiters (heads sp ! ?i) ?st ?sp1"
    using sp_on_complete_live [OF False] head by (simp add: Let_def)
  have len: "length (sp_slots ?sp1) = length (sp_slots sp)"
    using i by (simp add: complete_slot_slots)
  have "wait_inv C (\<lambda>i. heads sp ! i) (\<lambda>r. tick_chunks (sp_tickets sp ! r)) ?sp1"
    using len by (intro wait_inv_same [OF C]) simp_all
  then have D: "wait_inv (C(?i := [])) ((\<lambda>i. heads sp ! i)(?i := NONE)) (\<lambda>r. tick_chunks (sp_tickets sp ! r))
      (drain_waiters (heads sp ! ?i) ?st ?sp1)"
    using wait_inv_drain [of C "\<lambda>i. heads sp ! i" _ ?sp1 ?i ?st] i st len by simp
  have hd: "((\<lambda>i. heads sp ! i)(?i := NONE)) j = heads (drain_waiters (heads sp ! ?i) ?st ?sp1) ! j"
    if "j < length (sp_slots sp)" for j
    using i that by (simp add: heads_def complete_slot_slots nth_upd)
  have "wait_inv (C(?i := [])) (\<lambda>j. heads (drain_waiters (heads sp ! ?i) ?st ?sp1) ! j)
     (\<lambda>r. tick_chunks (sp_tickets (drain_waiters (heads sp ! ?i) ?st ?sp1) ! r))
     (drain_waiters (heads sp ! ?i) ?st ?sp1)"
    unfolding drain_tickets [THEN conjunct1]
    using wait_inv_same [OF D, of _ "\<lambda>j. heads (drain_waiters (heads sp ! ?i) ?st ?sp1) ! j"] hd len by simp
  then show ?thesis
    unfolding eq waiters_ok_def by blast
qed

section \<open>Tickets are opened and dropped\<close>

lemma find_free_record_Some:
  "find_free_record ts j = Some i \<Longrightarrow> j \<le> i \<and> i < j + length ts \<and> \<not> tick_in_use (ts ! (i - j))"
proof (induction ts arbitrary: j)
  case (Cons t ts)
  show ?case
  proof (cases "tick_in_use t")
    case True
    then have "Suc j \<le> i \<and> i < Suc j + length ts \<and> \<not> tick_in_use (ts ! (i - Suc j))"
      using Cons.IH [of "Suc j"] Cons.prems by simp
    moreover from this have "i - j = Suc (i - Suc j)"
      by auto
    ultimately show ?thesis
      by simp
  next
    case False
    then show ?thesis
      using Cons.prems by simp
  qed
qed simp

lemma find_free_record_None: "find_free_record ts j = None \<longleftrightarrow> (\<forall>t \<in> set ts. tick_in_use t)"
  by (induction ts arbitrary: j) auto

lemma unused_ticket_set:
  assumes "wait_inv C H dn sp" "\<not> tick_in_use (sp_tickets sp ! r)"
  shows "ticket_set C (length (sp_slots sp)) (sc_max_batch_chunks (sp_config sp)) r = {}"
  using wait_invD(6) [OF assms(1)] assms(2) by (auto simp: ticket_set_def entry_ok_def)

lemma wait_inv_open:
  assumes inv: "wait_inv C H dn sp" and r: "r < length (sp_tickets sp)" "\<not> tick_in_use (sp_tickets sp ! r)"
  shows "wait_inv C H (dn(r := 0)) (open_record r chunks sp)"
proof -
  note D = wait_invD [OF inv]
  let ?sp = "open_record r chunks sp" and ?mb = "sc_max_batch_chunks (sp_config sp)" and ?n = "length (sp_slots sp)"
  let ?t = "\<lparr>tick_generation = tick_generation (sp_tickets sp ! r) + 1, tick_chunks = chunks, tick_pending = 0,
                tick_held = True, tick_in_use = True\<rparr>"
  have E: "sp_slots ?sp = sp_slots sp" "sp_config ?sp = sp_config sp" "sp_waiters ?sp = sp_waiters sp"
    "sp_tickets ?sp = (sp_tickets sp)[r := ?t]" "sp_tickets_held ?sp = sp_tickets_held sp + 1"
    by (simp_all add: open_record_def Let_def)
  have empty: "ticket_set C ?n ?mb r = {}"
    using inv r(2) by (rule unused_ticket_set)
  have notin: "x div ?mb \<noteq> r" if "x \<in> waiting_set C ?n" for x
    using empty that by (auto simp: ticket_set_def)
  have "entry_ok (dn(r := 0)) ?mb (sp_tickets ?sp) x" if "x \<in> waiting_set C ?n" for x
    using D(6) [OF that] notin [OF that] by (simp add: entry_ok_def E(4))
  moreover have "waiting_record_ok (waiting_set C ?n) (ticket_set C ?n ?mb q) ((dn(r := 0)) q) ?mb (sp_waiters sp) q (sp_tickets ?sp ! q)"
    if "q < length (sp_tickets sp)" for q
    using D(7) [OF that] r(1) empty by (cases "q = r") (auto simp: waiting_record_ok_def E(4))
  moreover have "\<not> tick_held (sp_tickets sp ! r)"
    using D(7) [OF r(1)] r(2) by (simp add: waiting_record_ok_def)
  then have "count_where tick_held (sp_tickets ?sp) = count_where tick_held (sp_tickets sp) + 1"
    using count_where_update [OF r(1), of tick_held ?t] by (simp add: E(4))
  ultimately show ?thesis
    using D(1-5,8) unfolding wait_inv_def Let_def E(1-3,5) by (simp add: E(4))
qed

lemma waiters_ok_discard:
  assumes ok: "waiters_ok sp" and r: "r < length (sp_tickets sp)" and run: "discard_ticket r g sp = Some sp'"
  shows "waiters_ok sp'"
proof -
  obtain C where C: "wait_inv C (\<lambda>i. heads sp ! i) (\<lambda>r. tick_chunks (sp_tickets sp ! r)) sp"
    using ok by (auto simp: waiters_ok_def)
  note D = wait_invD [OF C]
  let ?t = "sp_tickets sp ! r" and ?mb = "sc_max_batch_chunks (sp_config sp)" and ?n = "length (sp_slots sp)"
  let ?t' = "if tick_pending ?t = 0 then ?t\<lparr>tick_held := False, tick_in_use := False\<rparr> else ?t\<lparr>tick_held := False\<rparr>"
  have held: "tick_held ?t"
    using run by (auto simp: discard_ticket_def Let_def split: if_splits)
  have E: "sp_slots sp' = sp_slots sp" "sp_config sp' = sp_config sp" "sp_waiters sp' = sp_waiters sp"
    "sp_tickets sp' = (sp_tickets sp)[r := ?t']" "sp_tickets_held sp' = sp_tickets_held sp - 1"
    using run r by (auto simp: discard_ticket_def Let_def split: if_splits)
  have t': "tick_pending ?t' = tick_pending ?t" "tick_chunks ?t' = tick_chunks ?t" "\<not> tick_held ?t'"
    "tick_in_use ?t' \<longleftrightarrow> tick_in_use ?t \<and> tick_pending ?t \<noteq> 0"
    by simp_all
  have ch: "(\<lambda>q. tick_chunks (sp_tickets sp' ! q)) = (\<lambda>q. tick_chunks (sp_tickets sp ! q))"
  proof
    fix q
    show "tick_chunks (sp_tickets sp' ! q) = tick_chunks (sp_tickets sp ! q)"
      using r by (cases "q = r") (simp_all add: E(4))
  qed
  have "entry_ok (\<lambda>q. tick_chunks (sp_tickets sp ! q)) ?mb (sp_tickets sp') x" if x: "x \<in> waiting_set C ?n" for x
  proof -
    have old: "entry_ok (\<lambda>q. tick_chunks (sp_tickets sp ! q)) ?mb (sp_tickets sp) x"
      using x by (rule D(6))
    have "tick_pending ?t \<noteq> 0" if "x div ?mb = r"
    proof -
      have "x \<in> ticket_set C ?n ?mb r"
        using x that by (simp add: ticket_set_def)
      then have "card (ticket_set C ?n ?mb r) \<noteq> 0"
        by (auto simp: card_gt_0_iff)
      then show ?thesis
        using D(7) [OF r] unfolding waiting_record_ok_def by metis
    qed
    then have "tick_in_use (sp_tickets sp' ! (x div ?mb))"
      using old r t'(4) by (cases "x div ?mb = r") (simp_all add: E(4) entry_ok_def)
    then show ?thesis
      using old by (simp add: entry_ok_def E(4))
  qed
  moreover have "waiting_record_ok (waiting_set C ?n) (ticket_set C ?n ?mb q) (tick_chunks (sp_tickets sp ! q)) ?mb
      (sp_waiters sp) q (sp_tickets sp' ! q)" if "q < length (sp_tickets sp)" for q
    using D(7) [OF that] r t' by (cases "q = r") (auto simp: waiting_record_ok_def E(4))
  moreover have "count_where tick_held (sp_tickets sp') = count_where tick_held (sp_tickets sp) - 1"
    using count_where_update [OF r, of tick_held ?t'] held t'(3) by (simp add: E(4))
  ultimately have "wait_inv C (\<lambda>i. heads sp' ! i) (\<lambda>q. tick_chunks (sp_tickets sp' ! q)) sp'"
    using D(1-5,8) heads_same [OF E(1)] unfolding wait_inv_def Let_def E(1-3,5) ch by (simp add: E(4))
  then show ?thesis
    unfolding waiters_ok_def by blast
qed

section \<open>Prefetch\<close>

text \<open>What choosing the slot of a chunk does to the waiters: nothing, or it settles the entry.\<close>

definition slot_choice :: "nat \<Rightarrow> nat \<Rightarrow> slot_pool \<Rightarrow> slot_pool \<Rightarrow> bool" where
  "slot_choice entry i sp sp' \<longleftrightarrow>
     sp_config sp' = sp_config sp \<and> sp_tickets sp' = sp_tickets sp \<and>
     sp_tickets_held sp' = sp_tickets_held sp \<and> heads sp' = heads sp \<and>
     (if i \<noteq> NONE \<and> slot_state (sp_slots sp' ! i) = Slot_Filling
      then i < length (sp_slots sp') \<and> sp_waiters sp' = sp_waiters sp
      else \<exists>st. st \<noteq> Pending \<and>
             sp_waiters sp' = (sp_waiters sp)[entry := (sp_waiters sp ! entry)\<lparr>wait_outcome := st\<rparr>])"

lemma heads_nth: "i < length (sp_slots sp) \<Longrightarrow> heads sp ! i = slot_waiter_head (sp_slots sp ! i)"
  by (simp add: heads_def)

lemma heads_flag:
  "heads (upd_slot v (\<lambda>s. s\<lparr>slot_hint_unconsumed := x\<rparr>) sp) = heads sp"
  by (rule heads_update [of _ sp v "(sp_slots sp ! v)\<lparr>slot_hint_unconsumed := x\<rparr>"]) simp_all

context completing_backend
begin

lemma prefetch_slot_choice:
  assumes inv: "pinv R self L sp b m" and c: "chunk_inside (sp_config sp) c"
    and run: "prefetch_slot submit self admission entry c sp b = (i, sp', b')"
  shows "slot_choice entry i sp sp'"
proof (cases "sp_find c sp = NONE")
  case False
  note F = sp_find_slot [OF pool_invD(1) [OF inv] False]
  show ?thesis
  proof (cases "slot_state (sp_slots sp ! sp_find c sp) = Slot_Ready")
    case True
    then have "i = sp_find c sp" "sp' = set_outcome entry Ok (count_hint_resident sp)"
      using run False by (simp_all add: prefetch_slot_def Let_def)
    then show ?thesis
      using True by (auto simp: slot_choice_def set_outcome_def count_hint_resident_def)
  next
    case no: False
    then have "i = sp_find c sp" "sp' = count_coalesced (count_hint_resident sp)"
      using run False by (simp_all add: prefetch_slot_def Let_def)
    then show ?thesis
      using False no F by (auto simp: slot_choice_def count_coalesced_def count_hint_resident_def slot_live_def)
  qed
next
  case True
  obtain v sp1 where claim: "claim_victim admission sp = (v, sp1)"
    by (cases "claim_victim admission sp")
  note C = claim_victim_core [OF pool_invD(1) [OF inv] claim]
  have inv1: "pinv R self L sp1 b m"
    using inv claim by (rule pool_inv_claim)
  have c1: "sp_config sp1 = sp_config sp" "length (sp_slots sp1) = length (sp_slots sp)"
      "sp_tickets sp1 = sp_tickets sp" "sp_tickets_held sp1 = sp_tickets_held sp" "sp_waiters sp1 = sp_waiters sp"
    using C(2) by (simp_all add: sweep_frame_def)
  have h1: "heads sp1 = heads sp"
    using C(2) by (rule heads_sweep)
  show ?thesis
  proof (cases "v = NONE")
    case none: True
    then have "i = NONE" "sp' = set_outcome entry (if admission = Speculative then Declined else Pool_Exhausted)
      (if admission = Speculative then count_hint_declined sp1 else count_admission_failure sp1)"
      using run True claim by (auto simp: prefetch_slot_def Let_def)
    then show ?thesis
      by (auto simp: slot_choice_def set_outcome_def count_hint_declined_def count_admission_failure_def c1 h1)
  next
    case some: False
    have v: "v < length (sp_slots sp1)" "slot_state (sp_slots sp1 ! v) = Slot_Free"
      using C(3) [OF some] c1 by simp_all
    have absent: "sp_find c sp1 = NONE"
      using sweep_absent [OF pool_invD(1) [OF inv] C(1,2) True] .
    obtain st sp2 b2 where fill: "start_fill submit self v c sp1 b = (st, sp2, b2)"
      by (cases "start_fill submit self v c sp1 b") auto
    note F = pool_inv_start_fill [OF inv1 v absent _ fill, unfolded c1(1), OF c]
    have same2: "sp_config sp2 = sp_config sp" "sp_tickets sp2 = sp_tickets sp"
        "sp_tickets_held sp2 = sp_tickets_held sp" "sp_waiters sp2 = sp_waiters sp" "heads sp2 = heads sp"
      using F(2) c1 h1 by (simp_all add: rest_same_def)
    show ?thesis
    proof (cases "st = Ok")
      case False
      then have "i = NONE" "sp' = set_outcome entry st (count_admission_failure sp2)"
        using run True some claim fill by (auto simp: prefetch_slot_def Let_def)
      moreover have "st = Queue_Exhausted"
        using F(3) False by simp
      ultimately show ?thesis
        by (auto simp: slot_choice_def set_outcome_def count_admission_failure_def same2)
    next
      case ok: True
      then have "i = v" "sp' = upd_slot v (\<lambda>s. s\<lparr>slot_hint_unconsumed := True\<rparr>)
          (upd_counters (\<lambda>c. c\<lparr>sps_hint_admitted := sps_hint_admitted c + 1\<rparr>) sp2)"
        using run True some claim fill by (auto simp: prefetch_slot_def Let_def)
      then show ?thesis
        using v(1) F(4) [OF ok] some by (auto simp: slot_choice_def same2 heads_flag)
    qed
  qed
qed

lemma wait_inv_prefetch_chunk:
  assumes inv: "pinv R self L sp b m" and c: "chunk_inside (sp_config sp) c"
    and w: "wait_inv C (\<lambda>i. heads sp ! i) dn sp"
    and k: "dn r = k" "k < sc_max_batch_chunks (sp_config sp)"
    and e: "e = r * sc_max_batch_chunks (sp_config sp) + k" and r: "r < length (sp_tickets sp)"
    and use: "tick_in_use (sp_tickets sp ! r)"
    and run: "prefetch_chunk submit self admission r e c sp b = (sp', b')"
  obtains C' where "wait_inv C' (\<lambda>i. heads sp' ! i) (dn(r := Suc k)) sp'"
    "length (sp_tickets sp') = length (sp_tickets sp)" "tick_in_use (sp_tickets sp' ! r)"
    "\<And>q. tick_chunks (sp_tickets sp' ! q) = tick_chunks (sp_tickets sp ! q) \<and>
       tick_held (sp_tickets sp' ! q) = tick_held (sp_tickets sp ! q) \<and>
       tick_generation (sp_tickets sp' ! q) = tick_generation (sp_tickets sp ! q)"
proof -
  let ?sp = "upd_counters (\<lambda>c. c\<lparr>sps_hint_issued := sps_hint_issued c + 1\<rparr>)
     (upd_waiter e (\<lambda>w. w\<lparr>wait_next := NONE\<rparr>) sp)"
  obtain i sp1 b1 where slot: "prefetch_slot submit self admission e c ?sp b = (i, sp1, b1)"
    by (cases "prefetch_slot submit self admission e c ?sp b") auto
  have inv1: "pinv R self L ?sp b m"
    using inv by (rule pool_inv_slots_same) simp_all
  have choice: "slot_choice e i ?sp sp1"
    using prefetch_slot_choice [OF inv1 _ slot] c by simp
  have sp': "sp' = link_waiter r e i sp1"
    using run slot by (simp add: prefetch_chunk_def Let_def)
  note F = entry_fresh [OF w k e r]
  have len1: "length (sp_slots sp1) = length (sp_slots sp)"
    using choice length_heads [of sp1] length_heads [of sp] by (simp add: slot_choice_def)
  have same: "sp_config sp1 = sp_config sp" "sp_tickets sp1 = sp_tickets sp"
      "sp_tickets_held sp1 = sp_tickets_held sp" "heads sp1 = heads sp"
    using choice by (simp_all add: slot_choice_def)
  show thesis
  proof (cases "i \<noteq> NONE \<and> slot_state (sp_slots sp1 ! i) = Slot_Filling")
    case True
    have i: "i < length (sp_slots sp1)"
      and ws: "sp_waiters sp1 = (sp_waiters sp)[e := (sp_waiters sp ! e)\<lparr>wait_next := NONE\<rparr>]"
      using choice True by (simp_all add: slot_choice_def)
    let ?w = "(sp_waiters sp ! e)\<lparr>wait_next := NONE, wait_outcome := Pending, wait_next := slot_waiter_head (sp_slots sp1 ! i)\<rparr>"
    have eq: "sp' = upd_ticket r (\<lambda>r. r\<lparr>tick_pending := tick_pending r + 1\<rparr>)
       (upd_slot i (\<lambda>s. s\<lparr>slot_waiter_head := e\<rparr>)
         (upd_waiter e (\<lambda>w. w\<lparr>wait_outcome := Pending, wait_next := slot_waiter_head (sp_slots sp1 ! i)\<rparr>) sp1))"
      using True by (simp add: sp' link_waiter_def Let_def)
    have heads': "heads sp' = (heads sp)[i := e]"
      using i by (simp add: eq same(4) [symmetric]) (simp add: heads_def map_update)
    have wi: "wait_inv (C(i := e # C i)) ((\<lambda>i. heads sp ! i)(i := e)) (dn(r := Suc k)) sp'"
    proof (rule wait_inv_link [OF w k e r use, where w = ?w])
      show "i < length (sp_slots sp)"
        using i len1 by simp
      show "wait_next ?w = heads sp ! i"
        using i heads_nth [of i sp1] by (simp add: same(4))
    qed (use i F(4) in \<open>simp_all add: eq same len1 ws\<close>)
    have "wait_inv (C(i := e # C i)) (\<lambda>j. heads sp' ! j) (dn(r := Suc k)) sp'"
    proof (rule wait_inv_same [OF wi])
      show "heads sp' ! j = ((\<lambda>i. heads sp ! i)(i := e)) j" if "j < length (sp_slots sp')" for j
        using that i len1 heads' length_heads [of sp'] by (simp add: nth_upd)
    qed simp_all
    moreover have "tick_chunks (sp_tickets sp' ! q) = tick_chunks (sp_tickets sp ! q) \<and>
       tick_held (sp_tickets sp' ! q) = tick_held (sp_tickets sp ! q) \<and>
       tick_generation (sp_tickets sp' ! q) = tick_generation (sp_tickets sp ! q)" for q
      using r by (cases "q = r") (simp_all add: eq same)
    ultimately show thesis
      using r use by (intro that) (simp_all add: eq same)
  next
    case False
    obtain st where st: "st \<noteq> Pending"
      "sp_waiters sp1 = (sp_waiters ?sp)[e := (sp_waiters ?sp ! e)\<lparr>wait_outcome := st\<rparr>]"
      using choice False by (auto simp: slot_choice_def)
    have eq: "sp' = sp1"
      using False by (auto simp: sp' link_waiter_def)
    have "wait_inv C (\<lambda>i. heads sp ! i) (dn(r := Suc k)) sp1"
      by (rule wait_inv_settled [OF w k e r, where w = "(sp_waiters sp ! e)\<lparr>wait_next := NONE, wait_outcome := st\<rparr>"])
        (use st F(4) len1 in \<open>simp_all add: same\<close>)
    then show thesis
      using that [of C] use by (simp add: eq same)
  qed
qed

lemma wait_inv_prefetch_loop:
  assumes "pinv R self L sp b m" "\<And>c. c \<in> set cs \<Longrightarrow> chunk_inside (sp_config sp) c"
    "wait_inv C (\<lambda>i. heads sp ! i) dn sp"
    "dn r + length cs \<le> sc_max_batch_chunks (sp_config sp)"
    "e = r * sc_max_batch_chunks (sp_config sp) + dn r" "r < length (sp_tickets sp)"
    "tick_in_use (sp_tickets sp ! r)"
    "prefetch_loop submit self admission r e cs sp b = (sp', b')"
  shows "(\<exists>C'. wait_inv C' (\<lambda>i. heads sp' ! i) (dn(r := dn r + length cs)) sp') \<and>
    length (sp_tickets sp') = length (sp_tickets sp) \<and>
    (\<forall>q. tick_chunks (sp_tickets sp' ! q) = tick_chunks (sp_tickets sp ! q) \<and>
         tick_held (sp_tickets sp' ! q) = tick_held (sp_tickets sp ! q) \<and>
         tick_generation (sp_tickets sp' ! q) = tick_generation (sp_tickets sp ! q))"
  using assms
proof (induction cs arbitrary: sp b C dn e)
  case Nil
  then show ?case by auto
next
  case (Cons c cs)
  obtain sp1 b1 where one: "prefetch_chunk submit self admission r e c sp b = (sp1, b1)"
    by (cases "prefetch_chunk submit self admission r e c sp b")
  have loop: "prefetch_loop submit self admission r (e + 1) cs sp1 b1 = (sp', b')"
    using Cons.prems(8) one by simp
  have inside: "chunk_inside (sp_config sp) c"
    using Cons.prems(2) by simp
  note P = pool_inv_prefetch_chunk [OF Cons.prems(1) inside one]
  have k: "dn r < sc_max_batch_chunks (sp_config sp)"
    using Cons.prems(4) by simp
  obtain C1 where C1: "wait_inv C1 (\<lambda>i. heads sp1 ! i) (dn(r := Suc (dn r))) sp1"
    "length (sp_tickets sp1) = length (sp_tickets sp)" "tick_in_use (sp_tickets sp1 ! r)"
    "\<And>q. tick_chunks (sp_tickets sp1 ! q) = tick_chunks (sp_tickets sp ! q) \<and>
       tick_held (sp_tickets sp1 ! q) = tick_held (sp_tickets sp ! q) \<and>
       tick_generation (sp_tickets sp1 ! q) = tick_generation (sp_tickets sp ! q)"
    by (rule wait_inv_prefetch_chunk [OF Cons.prems(1) inside Cons.prems(3) refl k Cons.prems(5,6,7) one]) (rule that)
  have IH: "(\<exists>C'. wait_inv C' (\<lambda>i. heads sp' ! i)
        ((dn(r := Suc (dn r)))(r := (dn(r := Suc (dn r))) r + length cs)) sp') \<and>
    length (sp_tickets sp') = length (sp_tickets sp1) \<and>
    (\<forall>q. tick_chunks (sp_tickets sp' ! q) = tick_chunks (sp_tickets sp1 ! q) \<and>
         tick_held (sp_tickets sp' ! q) = tick_held (sp_tickets sp1 ! q) \<and>
         tick_generation (sp_tickets sp' ! q) = tick_generation (sp_tickets sp1 ! q))"
    by (rule Cons.IH [OF P(1) _ C1(1) _ _ _ _ loop])
      (use Cons.prems C1 P(2) in simp_all)
  have eq: "(dn(r := Suc (dn r)))(r := (dn(r := Suc (dn r))) r + length cs) = dn(r := dn r + length (c # cs))"
    by (rule ext) simp
  show ?case
    using IH unfolding eq C1(2) by (simp only: C1(4)) blast
qed

lemma prefetch_tickets:
  assumes inv: "pinv R self L sp b m" and ok: "waiters_ok sp"
    and run: "sp_prefetch submit self ranges admission sp b = (res, sp', b')"
  shows "waiters_ok sp'" "length (sp_tickets sp') = length (sp_tickets sp)"
    "case res of
       Inl e \<Rightarrow> sp' = sp
     | Inr t \<Rightarrow> ticket_pool t = Some self \<and> ticket_record t < length (sp_tickets sp) \<and>
         \<not> tick_held (sp_tickets sp ! ticket_record t) \<and>
         tick_generation (sp_tickets sp' ! ticket_record t) = ticket_generation t \<and>
         ticket_generation t = tick_generation (sp_tickets sp ! ticket_record t) + 1 \<and>
         tick_held (sp_tickets sp' ! ticket_record t) \<and>
         tick_chunks (sp_tickets sp' ! ticket_record t) = length (for_each_chunk (sp_config sp) ranges) \<and>
         (\<forall>q. q \<noteq> ticket_record t \<longrightarrow>
            tick_held (sp_tickets sp' ! q) = tick_held (sp_tickets sp ! q) \<and>
            tick_generation (sp_tickets sp' ! q) = tick_generation (sp_tickets sp ! q))"
proof -
  obtain st chunks where batch: "validate_batch (sp_config sp) ranges = (st, chunks)"
    by (cases "validate_batch (sp_config sp) ranges")
  have "waiters_ok sp' \<and> length (sp_tickets sp') = length (sp_tickets sp) \<and>
    (case res of
       Inl e \<Rightarrow> sp' = sp
     | Inr t \<Rightarrow> ticket_pool t = Some self \<and> ticket_record t < length (sp_tickets sp) \<and>
         \<not> tick_held (sp_tickets sp ! ticket_record t) \<and>
         tick_generation (sp_tickets sp' ! ticket_record t) = ticket_generation t \<and>
         ticket_generation t = tick_generation (sp_tickets sp ! ticket_record t) + 1 \<and>
         tick_held (sp_tickets sp' ! ticket_record t) \<and>
         tick_chunks (sp_tickets sp' ! ticket_record t) = length (for_each_chunk (sp_config sp) ranges) \<and>
         (\<forall>q. q \<noteq> ticket_record t \<longrightarrow>
            tick_held (sp_tickets sp' ! q) = tick_held (sp_tickets sp ! q) \<and>
            tick_generation (sp_tickets sp' ! q) = tick_generation (sp_tickets sp ! q)))"
  proof (cases "st = Ok \<and> find_free_record (sp_tickets sp) 0 \<noteq> None")
    case False
    then have "sp' = sp" "\<exists>e. res = Inl e"
      using run batch by (auto simp: sp_prefetch_def split: if_splits)
    then show ?thesis
      using ok by auto
  next
    case True
    then obtain r where free: "find_free_record (sp_tickets sp) 0 = Some r"
      by auto
    have r: "r < length (sp_tickets sp)" "\<not> tick_in_use (sp_tickets sp ! r)"
      using find_free_record_Some [OF free] by simp_all
    obtain C where C: "wait_inv C (\<lambda>i. heads sp ! i) (\<lambda>q. tick_chunks (sp_tickets sp ! q)) sp"
      using ok by (auto simp: waiters_ok_def)
    let ?sp = "open_record r chunks sp" and ?mb = "sc_max_batch_chunks (sp_config sp)"
    let ?cs = "map fst (for_each_chunk (sp_config sp) ranges)"
    let ?dn = "(\<lambda>q. tick_chunks (sp_tickets sp ! q))(r := 0)"
    have cfg: "config_ok (sp_config sp)"
      using core_okD(1) [OF pool_invD(1) [OF inv]] .
    have batch1: "validate_batch (sp_config sp) ranges = (Ok, chunks)"
      using batch True by simp
    note B = validate_batch_Ok [OF cfg batch1]
    have lc: "length ?cs = chunks" "length (for_each_chunk (sp_config sp) ranges) = chunks"
      by (simp_all add: B(2))
    have E: "sp_config ?sp = sp_config sp" "sp_slots ?sp = sp_slots sp"
      "sp_tickets ?sp = (sp_tickets sp)[r := \<lparr>tick_generation = tick_generation (sp_tickets sp ! r) + 1,
         tick_chunks = chunks, tick_pending = 0, tick_held = True, tick_in_use = True\<rparr>]"
      by (simp_all add: open_record_def Let_def)
    have inv1: "pinv R self L ?sp b m"
      using inv by (rule pool_inv_slots_same) (simp_all add: open_record_def Let_def)
    have w1: "wait_inv C (\<lambda>i. heads ?sp ! i) ?dn ?sp"
      using wait_inv_open [OF C r] heads_same [OF E(2)] by simp
    obtain sp2 b2 where loop: "prefetch_loop submit self admission r (r * ?mb) ?cs ?sp b = (sp2, b2)"
      by (meson surj_pair)
    have W: "(\<exists>C'. wait_inv C' (\<lambda>i. heads sp2 ! i) (?dn(r := ?dn r + length ?cs)) sp2) \<and>
      length (sp_tickets sp2) = length (sp_tickets ?sp) \<and>
      (\<forall>q. tick_chunks (sp_tickets sp2 ! q) = tick_chunks (sp_tickets ?sp ! q) \<and>
           tick_held (sp_tickets sp2 ! q) = tick_held (sp_tickets ?sp ! q) \<and>
           tick_generation (sp_tickets sp2 ! q) = tick_generation (sp_tickets ?sp ! q))"
    proof (rule wait_inv_prefetch_loop [OF inv1 _ w1 _ _ _ _ loop])
      show "chunk_inside (sp_config ?sp) c" if "c \<in> set ?cs" for c
        using for_each_chunk_inside [OF cfg B(1) that] by (simp add: E)
    qed (use lc(1) B(3) r in \<open>simp_all add: E\<close>)
    then obtain C2 where C2: "wait_inv C2 (\<lambda>i. heads sp2 ! i) (?dn(r := ?dn r + length ?cs)) sp2"
      by blast
    have "(?dn(r := ?dn r + length ?cs)) = (\<lambda>q. tick_chunks (sp_tickets sp2 ! q))"
    proof
      fix q
      show "(?dn(r := ?dn r + length ?cs)) q = tick_chunks (sp_tickets sp2 ! q)"
        using W r lc(1) by (cases "q = r") (simp_all add: E)
    qed
    then have "waiters_ok sp2"
      using C2 unfolding waiters_ok_def by auto
    moreover have "sp' = sp2"
      "res = Inr \<lparr>ticket_pool = Some self, ticket_record = r, ticket_generation = tick_generation (sp_tickets sp2 ! r)\<rparr>"
      using run batch1 free loop by (auto simp: sp_prefetch_def Let_def E(1))
    moreover have "\<not> tick_held (sp_tickets sp ! r)"
      using wait_invD(7) [OF C r(1)] r(2) by (simp add: waiting_record_ok_def)
    ultimately show ?thesis
      using W r lc(2) by (simp add: E)
  qed
  then show "waiters_ok sp'" "length (sp_tickets sp') = length (sp_tickets sp)"
    "case res of
       Inl e \<Rightarrow> sp' = sp
     | Inr t \<Rightarrow> ticket_pool t = Some self \<and> ticket_record t < length (sp_tickets sp) \<and>
         \<not> tick_held (sp_tickets sp ! ticket_record t) \<and>
         tick_generation (sp_tickets sp' ! ticket_record t) = ticket_generation t \<and>
         ticket_generation t = tick_generation (sp_tickets sp ! ticket_record t) + 1 \<and>
         tick_held (sp_tickets sp' ! ticket_record t) \<and>
         tick_chunks (sp_tickets sp' ! ticket_record t) = length (for_each_chunk (sp_config sp) ranges) \<and>
         (\<forall>q. q \<noteq> ticket_record t \<longrightarrow>
            tick_held (sp_tickets sp' ! q) = tick_held (sp_tickets sp ! q) \<and>
            tick_generation (sp_tickets sp' ! q) = tick_generation (sp_tickets sp ! q))"
    by simp_all
qed

end

section \<open>The tickets clients hold\<close>

definition tickets_ok :: "sink \<Rightarrow> slot_pool \<Rightarrow> ticket list \<Rightarrow> bool" where
  "tickets_ok self sp tks \<longleftrightarrow>
     distinct (map ticket_record tks) \<and>
     (\<forall>t \<in> set tks. ticket_pool t = Some self \<and> ticket_record t < length (sp_tickets sp) \<and>
        tick_held (sp_tickets sp ! ticket_record t) \<and>
        tick_generation (sp_tickets sp ! ticket_record t) = ticket_generation t) \<and>
     (\<forall>r < length (sp_tickets sp). tick_held (sp_tickets sp ! r) \<longrightarrow> r \<in> ticket_record ` set tks)"

lemma tickets_ok_same:
  assumes "tickets_ok self sp tks" "length (sp_tickets sp') = length (sp_tickets sp)"
    and "\<And>q. tick_held (sp_tickets sp' ! q) = tick_held (sp_tickets sp ! q) \<and>
              tick_generation (sp_tickets sp' ! q) = tick_generation (sp_tickets sp ! q)"
  shows "tickets_ok self sp' tks"
  using assms by (simp add: tickets_ok_def)

lemma tickets_ok_complete:
  "tickets_ok self sp tks \<Longrightarrow> tickets_ok self (sp_on_complete token result sp) tks"
proof (cases "sp_is_stale token sp")
  case True
  assume "tickets_ok self sp tks"
  then show ?thesis
    by (rule tickets_ok_same) (simp_all add: True sp_on_complete_def)
next
  case False
  assume "tickets_ok self sp tks"
  then show ?thesis
    by (rule tickets_ok_same) (simp_all add: sp_on_complete_live [OF False] Let_def drain_tickets)
qed

lemma tickets_ok_discard:
  assumes ok: "tickets_ok self sp tks" and t: "t \<in> set tks"
    and run: "ticket_reset t sp = Some (t', sp')"
  shows "tickets_ok self sp' (remove1 t tks)"
proof -
  let ?r = "ticket_record t"
  have tt: "ticket_pool t = Some self" "?r < length (sp_tickets sp)" "distinct (map ticket_record tks)"
    using ok t by (simp_all add: tickets_ok_def)
  have run': "discard_ticket ?r (ticket_generation t) sp = Some sp'"
    using run tt(1) by (simp add: ticket_reset_def split: option.splits)
  have len: "length (sp_tickets sp') = length (sp_tickets sp)"
    and gen: "tick_generation (sp_tickets sp' ! q) = tick_generation (sp_tickets sp ! q)"
    and held: "tick_held (sp_tickets sp' ! q) \<longleftrightarrow> tick_held (sp_tickets sp ! q) \<and> q \<noteq> ?r" for q
    using run' tt(2) by (cases "q = ?r"; auto simp: discard_ticket_def Let_def split: if_splits)+
  have other: "x \<in> set (remove1 t tks) \<longleftrightarrow> x \<in> set tks \<and> ticket_record x \<noteq> ?r" for x
  proof -
    have "set (remove1 t tks) = set tks - {t}"
      using tt(3) by (intro set_remove1_eq) (simp add: distinct_map)
    moreover have "x = t" if "x \<in> set tks" "ticket_record x = ?r"
      using tt(3) t that by (metis distinct_map inj_on_eq_iff)
    ultimately show ?thesis
      by auto
  qed
  have "distinct (map ticket_record (remove1 t tks))"
    using tt(3) other by (metis distinct_map distinct_remove1 inj_on_subset set_remove1_subset)
  moreover have "q \<in> ticket_record ` set (remove1 t tks)"
    if "q < length (sp_tickets sp)" "tick_held (sp_tickets sp ! q)" "q \<noteq> ?r" for q
    using ok that by (force simp: tickets_ok_def other)
  ultimately show ?thesis
    using ok by (auto simp: tickets_ok_def len gen held other)
qed

text \<open>Dropping a held ticket never terminates.\<close>

lemma ticket_reset_held:
  assumes "tickets_ok self sp tks" "t \<in> set tks"
  shows "\<exists>sp'. ticket_reset t sp = Some (t\<lparr>ticket_pool := None\<rparr>, sp')"
  using assms by (auto simp: tickets_ok_def ticket_reset_def discard_ticket_def Let_def)

lemma tickets_ok_add:
  assumes ok: "tickets_ok self sp tks" and len: "length (sp_tickets sp') = length (sp_tickets sp)"
    and t: "ticket_pool t = Some self" "ticket_record t < length (sp_tickets sp)"
      "\<not> tick_held (sp_tickets sp ! ticket_record t)"
      "tick_generation (sp_tickets sp' ! ticket_record t) = ticket_generation t"
      "tick_held (sp_tickets sp' ! ticket_record t)"
    and same: "\<And>q. q \<noteq> ticket_record t \<Longrightarrow> tick_held (sp_tickets sp' ! q) = tick_held (sp_tickets sp ! q) \<and>
       tick_generation (sp_tickets sp' ! q) = tick_generation (sp_tickets sp ! q)"
  shows "tickets_ok self sp' (t # tks)"
proof -
  have new: "ticket_record x \<noteq> ticket_record t" if "x \<in> set tks" for x
    using ok t(3) that unfolding tickets_ok_def by metis
  have "ticket_pool x = Some self \<and> ticket_record x < length (sp_tickets sp') \<and>
      tick_held (sp_tickets sp' ! ticket_record x) \<and>
      tick_generation (sp_tickets sp' ! ticket_record x) = ticket_generation x" if "x \<in> set (t # tks)" for x
  proof (cases "x = t")
    case False
    then have "x \<in> set tks"
      using that by simp
    then show ?thesis
      using ok same [OF new] by (simp add: tickets_ok_def len)
  qed (use t len in simp)
  moreover have "r \<in> ticket_record ` set (t # tks)"
    if "r < length (sp_tickets sp')" "tick_held (sp_tickets sp' ! r)" for r
  proof (cases "r = ticket_record t")
    case False
    then show ?thesis
      using ok same [OF False] that by (simp add: tickets_ok_def len)
  qed simp
  moreover have "distinct (map ticket_record (t # tks))"
    using ok new by (auto simp: tickets_ok_def)
  ultimately show ?thesis
    by (simp add: tickets_ok_def)
qed

section \<open>Tickets of the system\<close>

definition ps_tickets_inv :: "sink \<Rightarrow> 'b pool_system \<Rightarrow> bool" where
  "ps_tickets_inv self s \<longleftrightarrow> waiters_ok (ps_pool s) \<and> tickets_ok self (ps_pool s) (ps_tickets s)"

lemma tickets_inv_rest:
  assumes "ps_tickets_inv self s" "rest_same (ps_pool s) (ps_pool t)" "ps_tickets t = ps_tickets s"
  shows "ps_tickets_inv self t"
  using assms waiters_ok_rest by (auto simp: ps_tickets_inv_def rest_same_def intro: tickets_ok_same)

lemma rest_same_demote:
  assumes "core_ok sp"
  shows "rest_same sp (demote_chunks cs sp)"
  using assms
proof (induction cs arbitrary: sp)
  case (Cons c cs)
  let ?i = "sp_find c sp"
  let ?s = "(sp_slots sp ! ?i)\<lparr>slot_referenced := False\<rparr>"
  let ?sp = "if ?i \<noteq> NONE then upd_slot ?i (\<lambda>s. s\<lparr>slot_referenced := False\<rparr>) sp else sp"
  have core: "core_ok ?sp"
  proof (cases "?i = NONE")
    case False
    note F = sp_find_slot(1) [OF Cons.prems False]
    have "core_ok (upd_slot ?i (\<lambda>s. s\<lparr>slot_referenced := False\<rparr>) sp)"
      using slot_ok_nth [OF Cons.prems F]
      by (intro core_ok_same_slot [OF Cons.prems F, where s = ?s]) (simp_all add: slot_ok_def)
    then show ?thesis
      using False by simp
  qed (use Cons.prems in simp)
  have "heads ?sp = heads sp"
    using heads_update [of "upd_slot ?i (\<lambda>s. s\<lparr>slot_referenced := False\<rparr>) sp" sp ?i ?s] by simp
  then have "rest_same sp ?sp"
    by (simp add: rest_same_def)
  then show ?case
    using Cons.IH [OF core] by (simp add: Let_def rest_same_def)
qed (simp add: rest_same_def)

lemma rest_same_wont_need:
  assumes "pool_inv outstanding valid content R self L sp b m"
  shows "rest_same sp (sp_wont_need ranges sp)"
  using assms
proof (induction ranges arbitrary: sp)
  case (Cons rng ranges)
  let ?sp = "if validate_range rng (sc_source_bytes (sp_config sp)) \<noteq> Ok then sp
        else demote_chunks (map fst (for_each_chunk (sp_config sp) [rng])) sp"
  have "rest_same sp ?sp"
    using rest_same_demote [OF pool_invD(1) [OF Cons.prems]] by (simp add: rest_same_def)
  moreover have "pool_inv outstanding valid content R self L ?sp b m"
    using pool_inv_demote [OF Cons.prems] Cons.prems by simp
  ultimately show ?case
    using Cons.IH [of ?sp] by (simp add: rest_same_def)
qed (simp add: rest_same_def)

lemma waiters_ok_construct:
  assumes "config_ok config"
  shows "waiters_ok (sp_construct config)" "tickets_ok self (sp_construct config) []"
proof -
  let ?sp = "sp_construct config"
  have E: "sp_config ?sp = config" "sp_tickets ?sp = replicate (sc_max_tickets config) default_ticket_record"
    "sp_waiters ?sp = replicate (sc_max_tickets config * sc_max_batch_chunks config) default_waiter"
    "sp_slots ?sp = replicate (sc_num_slots config) default_slot" "sp_tickets_held ?sp = 0"
    by (simp_all add: sp_construct_def Let_def)
  have w: "waiting_set (\<lambda>_. []) n = {}" "ticket_set (\<lambda>_. []) n mb r = {}" for n mb r
    by (simp_all add: waiting_set_def ticket_set_def)
  have "heads ?sp ! i = NONE" if "i < sc_num_slots config" for i
    using that by (simp add: heads_def E default_slot_def)
  then have "wait_inv (\<lambda>_. []) (\<lambda>i. heads ?sp ! i) (\<lambda>r. tick_chunks (sp_tickets ?sp ! r)) ?sp"
    using assms unfolding wait_inv_def Let_def E
    by (simp add: lists_ok_def w waiting_record_ok_def default_ticket_record_def config_ok_def mult.commute)
  then show "waiters_ok ?sp"
    unfolding waiters_ok_def by blast
  show "tickets_ok self ?sp []"
    by (simp add: tickets_ok_def E default_ticket_record_def)
qed

context terminal_backend
begin

lemma ps_step_tickets:
  assumes inv: "ps_inv outstanding valid content self s" and tk: "ps_tickets_inv self s"
    and st: "ps_step submit outstanding completes self s t"
  shows "ps_tickets_inv self t"
  using st
proof (cases rule: ps_step.cases)
  case (prefetched ranges admission t' sp' b')
  have P: "waiters_ok sp'" "length (sp_tickets sp') = length (sp_tickets (ps_pool s))"
    "ticket_pool t' = Some self \<and> ticket_record t' < length (sp_tickets (ps_pool s)) \<and>
         \<not> tick_held (sp_tickets (ps_pool s) ! ticket_record t') \<and>
         tick_generation (sp_tickets sp' ! ticket_record t') = ticket_generation t' \<and>
         tick_held (sp_tickets sp' ! ticket_record t') \<and>
         (\<forall>q. q \<noteq> ticket_record t' \<longrightarrow>
            tick_held (sp_tickets sp' ! q) = tick_held (sp_tickets (ps_pool s) ! q) \<and>
            tick_generation (sp_tickets sp' ! q) = tick_generation (sp_tickets (ps_pool s) ! q))"
    using prefetch_tickets [OF ps_invD(1) [OF inv] _ prefetched(2)] tk by (simp_all add: ps_tickets_inv_def)
  then show ?thesis
    using tk tickets_ok_add [of self "ps_pool s" "ps_tickets s" sp' t']
    by (simp add: ps_tickets_inv_def prefetched(1))
next
  case (prefetch_refused ranges admission e sp' b')
  then show ?thesis
    using prefetch_tickets(3) [OF ps_invD(1) [OF inv] _ prefetch_refused(2)] tk by (simp add: ps_tickets_inv_def)
next
  case (resolving out ranges pinned out' sp' b')
  show ?thesis
    by (rule tickets_inv_rest [OF tk])
      (use resolve_begin_cases(1) [OF ps_invD(1) [OF inv] _ resolving(2,3)] in \<open>simp_all add: resolving(1)\<close>)
next
  case (resolve_refused out ranges e out' sp' b')
  show ?thesis
    by (rule tickets_inv_rest [OF tk])
      (use resolve_begin_cases(1) [OF ps_invD(1) [OF inv] _ resolve_refused(2,3)] in
        \<open>simp_all add: resolve_refused(1)\<close>)
next
  case (resolved pinned out n out' sp')
  show ?thesis
    by (rule tickets_inv_rest [OF tk])
      (use pool_inv_resolve_end(3) [OF ps_waiting_split [OF inv resolved(2)] _ ps_invD(2) [OF inv resolved(2)]
          resolved(3)] in \<open>simp_all add: resolved(1)\<close>)
next
  case (resolve_failed pinned out e out' sp')
  show ?thesis
    by (rule tickets_inv_rest [OF tk])
      (use pool_inv_resolve_end(3) [OF ps_waiting_split [OF inv resolve_failed(2)] _
          ps_invD(2) [OF inv resolve_failed(2)] resolve_failed(3)] in \<open>simp_all add: resolve_failed(1)\<close>)
next
  case (try_resolved out ranges n out' sp')
  show ?thesis
    by (rule tickets_inv_rest [OF tk])
      (use try_resolve_cases(1) [OF ps_invD(1) [OF inv] _ try_resolved(2,3)] in \<open>simp_all add: try_resolved(1)\<close>)
next
  case (try_refused out ranges e out' sp')
  show ?thesis
    by (rule tickets_inv_rest [OF tk])
      (use try_resolve_cases(1) [OF ps_invD(1) [OF inv] _ try_refused(2,3)] in \<open>simp_all add: try_refused(1)\<close>)
next
  case (released l l' sp')
  have "sp' = unpin_locked (lease_slot l) (ps_pool s)"
    using release_lease_held [OF ps_invD(1) [OF inv], of l] released(2,3) by simp
  then show ?thesis
    by (intro tickets_inv_rest [OF tk]) (simp_all add: released(1) rest_same_def)
next
  case (discarded t1 t' sp')
  have ok: "tickets_ok self (ps_pool s) (ps_tickets s)" "waiters_ok (ps_pool s)"
    using tk by (simp_all add: ps_tickets_inv_def)
  have "ticket_record t1 < length (sp_tickets (ps_pool s))" "ticket_pool t1 = Some self"
    using ok(1) discarded(2) by (simp_all add: tickets_ok_def)
  moreover have "discard_ticket (ticket_record t1) (ticket_generation t1) (ps_pool s) = Some sp'"
    using discarded(3) calculation by (simp add: ticket_reset_def split: option.splits)
  ultimately have "waiters_ok sp'"
    using waiters_ok_discard [OF ok(2)] by blast
  then show ?thesis
    using tickets_ok_discard [OF ok(1) discarded(2,3)] by (simp add: ps_tickets_inv_def discarded(1))
next
  case (demoted ranges)
  show ?thesis
    by (rule tickets_inv_rest [OF tk])
      (use rest_same_wont_need [OF ps_invD(1) [OF inv]] in \<open>simp_all add: demoted(1)\<close>)
next
  case (writing r m')
  then show ?thesis
    using tk by (simp add: ps_tickets_inv_def)
next
  case (delivered r res b' m')
  have "result_status res \<noteq> Pending"
    using completes_terminal [OF pool_invD(5) [OF ps_invD(1) [OF inv]] delivered(2)] .
  then show ?thesis
    using tk waiters_ok_complete tickets_ok_complete by (auto simp: ps_tickets_inv_def delivered(1))
next
  case (duplicate token res)
  show ?thesis
    by (rule tickets_inv_rest [OF tk])
      (use duplicate(2) in \<open>simp_all add: duplicate(1) sp_on_complete_def rest_same_def\<close>)
qed

theorem ps_reachable_tickets:
  "ps_reachable submit outstanding valid completes self s \<Longrightarrow> ps_tickets_inv self s"
proof (induction rule: ps_reachable.induct)
  case (start config sp b m)
  then show ?case
    using waiters_ok_construct [OF sp_create_Inr(1) [OF start(1)]] sp_create_Inr(2) [OF start(1)]
    by (simp add: ps_tickets_inv_def ps_init_def)
next
  case (step s t)
  show ?case
    by (rule ps_step_tickets [OF ps_reachable_inv [OF step.hyps(1)] step.IH step.hyps(2)])
qed

end

end
