(* ===== verification/Slot_Pool_Policy.thy ===== *)
theory Slot_Pool_Policy
  imports Slot_Pool_Waiters
begin

text \<open>
  The eviction policy and the accounting of a pool: which sweep finds a victim and which bits it may
  clear, how the hint counters add up, and how \<open>wait\<close> tallies the entries of a ticket.
\<close>

section \<open>The sweep finds what there is to find\<close>

definition next_hand :: "slot_pool \<Rightarrow> nat" where
  "next_hand sp = (if sp_clock_hand sp + 1 = sc_num_slots (sp_config sp) then 0 else sp_clock_hand sp + 1)"

text \<open>A slot a sweep may take: nothing pins it and no backend writes it.\<close>

definition evictable :: "slot \<Rightarrow> bool" where
  "evictable s \<longleftrightarrow> slot_pins s = 0 \<and> (slot_state s = Slot_Free \<or> slot_state s = Slot_Ready)"

definition takeable :: "slot \<Rightarrow> bool" where
  "takeable s \<longleftrightarrow> evictable s \<and> (slot_state s = Slot_Free \<or> \<not> slot_referenced s)"

lemma next_hand_less: "sp_clock_hand sp < sc_num_slots (sp_config sp) \<Longrightarrow> next_hand sp < sc_num_slots (sp_config sp)"
  by (simp add: next_hand_def)

text \<open>One round of the sweep: it returns the slot under the hand, or moves on.\<close>

definition pass_slot :: "admission_class \<Rightarrow> slot_pool \<Rightarrow> slot_pool" where
  "pass_slot admission sp =
     (let i = sp_clock_hand sp; s = sp_slots sp ! i; sp1 = sp\<lparr>sp_clock_hand := next_hand sp\<rparr>
      in if slot_pins s = 0 \<and> slot_state s = Slot_Ready \<and> slot_referenced s \<and> admission = Declared
         then upd_slot i (\<lambda>s. s\<lparr>slot_referenced := False\<rparr>) sp1 else sp1)"

lemma victim_loop_pass:
  "\<not> takeable (sp_slots sp ! sp_clock_hand sp) \<Longrightarrow>
     victim_loop (Suc steps) admission sp = victim_loop steps admission (pass_slot admission sp)"
  by (cases "slot_state (sp_slots sp ! sp_clock_hand sp)")
    (auto simp: takeable_def evictable_def pass_slot_def next_hand_def Let_def)

lemma victim_loop_take:
  "takeable (sp_slots sp ! sp_clock_hand sp) \<Longrightarrow>
     fst (victim_loop (Suc steps) admission sp) = sp_clock_hand sp"
  by (auto simp: takeable_def evictable_def Let_def)

lemma pass_slot_simps [simp]:
  "sp_config (pass_slot admission sp) = sp_config sp"
  "sp_clock_hand (pass_slot admission sp) = next_hand sp"
  "length (sp_slots (pass_slot admission sp)) = length (sp_slots sp)"
  "j \<noteq> sp_clock_hand sp \<Longrightarrow> sp_slots (pass_slot admission sp) ! j = sp_slots sp ! j"
  by (simp_all add: pass_slot_def Let_def)

lemma pass_slot_hand:
  "sp_clock_hand sp < length (sp_slots sp) \<Longrightarrow> evictable (sp_slots sp ! sp_clock_hand sp) \<Longrightarrow>
     \<not> takeable (sp_slots sp ! sp_clock_hand sp) \<Longrightarrow>
     takeable (sp_slots (pass_slot Declared sp) ! sp_clock_hand sp)"
  by (auto simp: pass_slot_def takeable_def evictable_def Let_def)

definition clock_ok :: "slot_pool \<Rightarrow> bool" where
  "clock_ok sp \<longleftrightarrow> length (sp_slots sp) = sc_num_slots (sp_config sp) \<and>
     sp_clock_hand sp < sc_num_slots (sp_config sp) \<and> sc_num_slots (sp_config sp) < NONE"

lemma clock_ok_core: "core_ok sp \<Longrightarrow> clock_ok sp"
  by (simp add: core_ok_def clock_ok_def config_ok_def)

lemma clock_ok_pass: "clock_ok sp \<Longrightarrow> clock_ok (pass_slot admission sp)"
  using next_hand_less [of sp] by (simp add: clock_ok_def)

lemma next_hand_cdist:
  "clock_ok sp \<Longrightarrow> j < length (sp_slots sp) \<Longrightarrow> j \<noteq> sp_clock_hand sp \<Longrightarrow>
     Suc (cdist (length (sp_slots sp)) (next_hand sp) j) = cdist (length (sp_slots sp)) (sp_clock_hand sp) j"
  by (auto simp: clock_ok_def next_hand_def cdist_def)

lemma next_hand_around:
  "clock_ok sp \<Longrightarrow> cdist (length (sp_slots sp)) (next_hand sp) (sp_clock_hand sp) < length (sp_slots sp)"
  by (auto simp: clock_ok_def next_hand_def cdist_def)

lemma sweep_takeable:
  "clock_ok sp \<Longrightarrow> j < length (sp_slots sp) \<Longrightarrow> takeable (sp_slots sp ! j) \<Longrightarrow>
     cdist (length (sp_slots sp)) (sp_clock_hand sp) j < steps \<Longrightarrow>
     fst (victim_loop steps admission sp) \<noteq> NONE"
proof (induction steps arbitrary: sp)
  case (Suc steps)
  show ?case
  proof (cases "takeable (sp_slots sp ! sp_clock_hand sp)")
    case True
    then show ?thesis
      using victim_loop_take [OF True, of steps admission] Suc.prems(1) by (simp add: clock_ok_def)
  next
    case False
    then have j: "j \<noteq> sp_clock_hand sp"
      using Suc.prems(3) by auto
    have "fst (victim_loop steps admission (pass_slot admission sp)) \<noteq> NONE"
      using Suc.prems j next_hand_cdist [OF Suc.prems(1,2) j]
      by (intro Suc.IH) (simp_all add: clock_ok_pass)
    then show ?thesis
      using victim_loop_pass [OF False] by simp
  qed
qed simp

lemma sweep_evictable:
  "clock_ok sp \<Longrightarrow> j < length (sp_slots sp) \<Longrightarrow> evictable (sp_slots sp ! j) \<Longrightarrow>
     cdist (length (sp_slots sp)) (sp_clock_hand sp) j + length (sp_slots sp) < steps \<Longrightarrow>
     fst (victim_loop steps Declared sp) \<noteq> NONE"
proof (induction steps arbitrary: sp)
  case (Suc steps)
  show ?case
  proof (cases "takeable (sp_slots sp ! sp_clock_hand sp)")
    case True
    then show ?thesis
      using victim_loop_take [OF True, of steps Declared] Suc.prems(1) by (simp add: clock_ok_def)
  next
    case False
    note pass = victim_loop_pass [OF False, of steps Declared]
    show ?thesis
    proof (cases "j = sp_clock_hand sp")
      case True
      have "takeable (sp_slots (pass_slot Declared sp) ! j)"
        using Suc.prems(2,3) False True pass_slot_hand [of sp] by simp
      moreover have "cdist (length (sp_slots sp)) (next_hand sp) j < steps"
        using next_hand_around [OF Suc.prems(1)] Suc.prems(4) True by simp
      ultimately have "fst (victim_loop steps Declared (pass_slot Declared sp)) \<noteq> NONE"
        using Suc.prems(1,2) by (intro sweep_takeable [of _ j]) (simp_all add: clock_ok_pass)
      then show ?thesis
        using pass by simp
    next
      case j: False
      have "fst (victim_loop steps Declared (pass_slot Declared sp)) \<noteq> NONE"
        using Suc.prems j next_hand_cdist [OF Suc.prems(1,2) j]
        by (intro Suc.IH) (simp_all add: clock_ok_pass)
      then show ?thesis
        using pass by simp
    qed
  qed
qed simp

lemma claim_declared_finds:
  assumes core: "core_ok sp" and n: "sc_num_slots (sp_config sp) < 2147483648"
    and j: "j < length (sp_slots sp)" "evictable (sp_slots sp ! j)"
  shows "fst (claim_victim Declared sp) \<noteq> NONE"
proof -
  have "cdist (length (sp_slots sp)) (sp_clock_hand sp) j < length (sp_slots sp)"
    using core_okD(2,3) [OF core] j(1) by (intro cdist_less) simp_all
  then have "cdist (length (sp_slots sp)) (sp_clock_hand sp) j + length (sp_slots sp)
      < u32 (2 * sc_num_slots (sp_config sp))"
    using core_okD(2) [OF core] n by simp
  then show ?thesis
    using sweep_evictable [OF clock_ok_core [OF core] j] by (simp add: claim_victim_def Let_def)
qed

lemma claim_speculative_finds:
  assumes core: "core_ok sp" and j: "j < length (sp_slots sp)" "takeable (sp_slots sp ! j)"
  shows "fst (claim_victim Speculative sp) \<noteq> NONE"
proof -
  have "cdist (length (sp_slots sp)) (sp_clock_hand sp) j < sc_num_slots (sp_config sp)"
    using core_okD(2,3) [OF core] j(1) cdist_less [of j "length (sp_slots sp)" "sp_clock_hand sp"] by simp
  then show ?thesis
    using sweep_takeable [OF clock_ok_core [OF core] j] by (simp add: claim_victim_def Let_def)
qed

text \<open>What a sweep returns was evictable; a speculative sweep also leaves every other slot as it was.\<close>

lemma claim_evictable:
  assumes core: "core_ok sp" and run: "claim_victim admission sp = (i, sp')" "i \<noteq> NONE"
  shows "i < length (sp_slots sp)" "evictable (sp_slots sp ! i)"
proof -
  note C = claim_victim_core [OF core run(1)]
  show i: "i < length (sp_slots sp)"
    using C(3) [OF run(2)] by simp
  have "slot_state (sp_slots sp' ! i) = Slot_Free"
    using C(3) [OF run(2)] by simp
  moreover have "slot_state (sp_slots sp' ! i) = slot_state (sp_slots sp ! i) \<or>
         slot_state (sp_slots sp ! i) = Slot_Ready \<and> slot_pins (sp_slots sp ! i) = 0"
    using C(2) i by (auto simp: sweep_frame_def)
  moreover have "slot_ok (sp_config sp) (sp_slots sp ! i)"
    using slot_ok_nth [OF core i] .
  ultimately show "evictable (sp_slots sp ! i)"
    by (auto simp: evictable_def slot_ok_def)
qed

lemma victim_loop_speculative:
  "clock_ok sp \<Longrightarrow> victim_loop steps Speculative sp = (i, sp') \<Longrightarrow>
     (i = NONE \<longrightarrow> sp_slots sp' = sp_slots sp) \<and>
     (i \<noteq> NONE \<longrightarrow> takeable (sp_slots sp ! i) \<and>
        sp_slots sp' = (if slot_state (sp_slots sp ! i) = Slot_Free then sp_slots sp
                        else (sp_slots sp)[i := freed (sp_slots sp ! i)]))"
proof (induction steps arbitrary: sp)
  case (Suc steps)
  show ?case
  proof (cases "takeable (sp_slots sp ! sp_clock_hand sp)")
    case True
    moreover have "sp_clock_hand sp < NONE"
      using Suc.prems(1) by (simp add: clock_ok_def)
    ultimately show ?thesis
      using Suc.prems(2) by (auto simp: takeable_def evictable_def Let_def)
  next
    case False
    have slots: "sp_slots (pass_slot Speculative sp) = sp_slots sp"
      by (simp add: pass_slot_def Let_def)
    have "victim_loop steps Speculative (pass_slot Speculative sp) = (i, sp')"
      using Suc.prems(2) victim_loop_pass [OF False, of steps Speculative] by simp
    then show ?thesis
      using Suc.IH [of "pass_slot Speculative sp"] clock_ok_pass [OF Suc.prems(1)] by (simp add: slots)
  qed
qed simp

section \<open>Hint accounting\<close>

definition hint_counts :: "slot_pool \<Rightarrow> nat \<times> nat \<times> nat \<times> nat \<times> nat" where
  "hint_counts sp =
     (sps_hint_issued (sp_counters sp), sps_hint_admitted (sp_counters sp),
      sps_hint_resident (sp_counters sp), sps_hint_declined (sp_counters sp),
      sps_admission_failures (sp_counters sp))"

definition hints_balanced :: "slot_pool \<Rightarrow> bool" where
  "hints_balanced sp \<longleftrightarrow>
     sps_hint_issued (sp_counters sp) =
       sps_hint_admitted (sp_counters sp) + sps_hint_resident (sp_counters sp) +
       sps_hint_declined (sp_counters sp) + sps_admission_failures (sp_counters sp)"

lemma hints_balanced_same: "hint_counts sp' = hint_counts sp \<Longrightarrow> hints_balanced sp' = hints_balanced sp"
  by (simp add: hints_balanced_def hint_counts_def)

lemma hint_counts_victim:
  "victim_loop steps admission sp = (i, sp') \<Longrightarrow> hint_counts sp' = hint_counts sp"
proof (induction steps arbitrary: sp)
  case (Suc steps)
  show ?case
  proof (cases "takeable (sp_slots sp ! sp_clock_hand sp)")
    case True
    then show ?thesis
      using Suc.prems by (auto simp: takeable_def evictable_def hint_counts_def Let_def split: if_splits)
  next
    case False
    have "victim_loop steps admission (pass_slot admission sp) = (i, sp')"
      using Suc.prems victim_loop_pass [OF False, of steps admission] by simp
    then have "hint_counts sp' = hint_counts (pass_slot admission sp)"
      by (rule Suc.IH)
    then show ?thesis
      by (simp add: pass_slot_def hint_counts_def Let_def)
  qed
qed simp

lemma hint_counts_claim: "claim_victim admission sp = (i, sp') \<Longrightarrow> hint_counts sp' = hint_counts sp"
  using hint_counts_victim by (auto simp: claim_victim_def Let_def)

lemma hint_counts_start:
  "start_fill submit self i c sp b = (st, sp', b') \<Longrightarrow> hint_counts sp' = hint_counts sp"
  by (auto simp: start_fill_def begin_fill_def hint_counts_def Let_def split: prod.splits if_splits)

lemma hint_counts_upd [simp]:
  "hint_counts (upd_slot i f sp) = hint_counts sp"
  "hint_counts (upd_ticket i g sp) = hint_counts sp"
  "hint_counts (upd_waiter i h sp) = hint_counts sp"
  "hint_counts (sp\<lparr>sp_in_flight := n\<rparr>) = hint_counts sp"
  "hint_counts (sp\<lparr>sp_pins_total := n\<rparr>) = hint_counts sp"
  "hint_counts (sp\<lparr>sp_tickets_held := n\<rparr>) = hint_counts sp"
  "hint_counts (sp_index_erase c sp) = hint_counts sp"
  "hint_counts (make_free i sp) = hint_counts sp"
  "hint_counts (unpin_locked i sp) = hint_counts sp"
  "hint_counts (count_coalesced sp) = hint_counts sp"
  by (simp_all add: hint_counts_def count_coalesced_def)

lemma hint_counts_drain [simp]: "hint_counts (drain_waiters e st sp) = hint_counts sp"
proof (induction e st sp rule: drain_waiters.induct)
  case (1 e st sp)
  then show ?case
    by (subst drain_waiters.simps) (simp add: settle_waiter_def Let_def)
qed

lemma hint_counts_on_complete: "hint_counts (sp_on_complete token res sp) = hint_counts sp"
proof (cases "sp_is_stale token sp")
  case True
  then show ?thesis
    by (simp add: sp_on_complete_def hint_counts_def)
next
  case False
  have "hint_counts (complete_slot i st res sp) = hint_counts sp" for i st
  proof -
    have "hint_counts (upd_counters (\<lambda>c. c\<lparr>sps_bytes_read := n c\<rparr>) sp) = hint_counts sp"
      "hint_counts (upd_counters (\<lambda>c. c\<lparr>sps_fills_failed := n c\<rparr>) sp) = hint_counts sp"
      "hint_counts (upd_counters (\<lambda>c. c\<lparr>sps_hint_unconsumed := n c\<rparr>) sp) = hint_counts sp" for sp n
      by (simp_all add: hint_counts_def)
    then show ?thesis
      by (simp add: complete_slot_def complete_ok_def complete_failed_def Let_def)
  qed
  then show ?thesis
    using False by (simp add: sp_on_complete_live Let_def)
qed

lemma hint_counts_pin: "pin_chunk self i c rng rs sp = (rs', sp') \<Longrightarrow> hint_counts sp' = hint_counts sp"
  by (auto simp: pin_chunk_def make_lease_def Let_def)

lemma hint_counts_resolve_counters [simp]:
  "hint_counts (upd_counters (\<lambda>c. c\<lparr>sps_resolve_hits := n c\<rparr>) sp) = hint_counts sp"
  "hint_counts (upd_counters (\<lambda>c. c\<lparr>sps_resolve_misses := n c\<rparr>) sp) = hint_counts sp"
  by (simp_all add: hint_counts_def)

lemma hint_counts_resolve_chunk:
  assumes "resolve_chunk submit self call rs sp b = (rs', sp', b')"
  shows "hint_counts sp' = hint_counts sp"
proof -
  obtain c rng where call: "call = (c, rng)"
    by (cases call)
  let ?sp = "upd_counters (\<lambda>c. c\<lparr>sps_resolve_misses := sps_resolve_misses c + 1\<rparr>) sp"
  obtain i sp2 where victim: "claim_victim Declared ?sp = (i, sp2)"
    by (cases "claim_victim Declared ?sp")
  obtain st sp3 b3 where start: "start_fill submit self i c sp2 b = (st, sp3, b3)"
    by (cases "start_fill submit self i c sp2 b")
  have "hint_counts sp2 = hint_counts sp" "hint_counts sp3 = hint_counts sp2"
    using hint_counts_claim [OF victim] hint_counts_start [OF start] by simp_all
  then show ?thesis
    using assms call victim start
    by (auto simp: resolve_chunk_def Let_def split: if_splits prod.splits dest!: hint_counts_pin)
qed

lemma hint_counts_resolve_loop:
  "resolve_loop submit self calls rs sp b = (rs', sp', b') \<Longrightarrow> hint_counts sp' = hint_counts sp"
proof (induction calls arbitrary: rs sp b)
  case (Cons call calls)
  obtain rs1 sp1 b1 where step: "resolve_chunk submit self call rs sp b = (rs1, sp1, b1)"
    by (cases "resolve_chunk submit self call rs sp b")
  then show ?case
    using Cons hint_counts_resolve_chunk [OF step] by simp
qed simp

lemma hint_counts_unwind: "unwind ls sp = (ls', sp') \<Longrightarrow> hint_counts sp' = hint_counts sp"
  by (induction ls arbitrary: sp ls') (auto simp: Let_def split: prod.splits)

lemma hint_counts_release: "lease_reset l sp = Some (l', sp') \<Longrightarrow> hint_counts sp' = hint_counts sp"
  by (auto simp: lease_reset_def release_lease_def split: if_splits)

lemma hint_counts_release_all: "release_all ls sp = Some (ls', sp') \<Longrightarrow> hint_counts sp' = hint_counts sp"
  by (induction ls arbitrary: sp ls') (auto split: option.splits prod.splits dest!: hint_counts_release)

lemma hint_counts_resolve_begin:
  "sp_resolve_begin submit self ranges out sp b = Some (res, out', sp', b') \<Longrightarrow>
     hint_counts sp' = hint_counts sp"
  by (auto simp: sp_resolve_begin_def Let_def split: prod.splits if_splits option.splits
      dest!: hint_counts_release_all hint_counts_resolve_loop hint_counts_unwind)

lemma hint_counts_resolve_end:
  "sp_resolve_end pinned out sp = Some (res, out', sp') \<Longrightarrow> hint_counts sp' = hint_counts sp"
  by (auto simp: sp_resolve_end_def Let_def split: prod.splits if_splits dest!: hint_counts_unwind)

lemma hint_counts_pin_loop: "pin_loop self calls rs sp = (rs', sp') \<Longrightarrow> hint_counts sp' = hint_counts sp"
proof (induction self calls rs sp rule: pin_loop.induct)
  case (2 self c rng calls rs sp)
  then show ?case
    by (fastforce simp: Let_def split: prod.splits dest: hint_counts_pin)
qed simp

lemma hint_counts_try_resolve:
  "sp_try_resolve self ranges out sp = Some (res, out', sp') \<Longrightarrow> hint_counts sp' = hint_counts sp"
  by (auto simp: sp_try_resolve_def Let_def split: prod.splits if_splits option.splits
      dest!: hint_counts_release_all hint_counts_pin_loop)

lemma hint_counts_discard: "ticket_reset t sp = Some (t', sp') \<Longrightarrow> hint_counts sp' = hint_counts sp"
  by (auto simp: ticket_reset_def discard_ticket_def Let_def split: if_splits)

lemma hint_counts_demote: "hint_counts (demote_chunks cs sp) = hint_counts sp"
  by (induction cs arbitrary: sp) (simp_all add: Let_def)

lemma hint_counts_wont_need: "hint_counts (sp_wont_need ranges sp) = hint_counts sp"
  by (induction ranges arbitrary: sp) (simp_all add: hint_counts_demote)

subsection \<open>Every hinted chunk is counted once\<close>

text \<open>The four outcomes of one hinted chunk, on the five counts.\<close>

definition hint_outcome :: "nat \<times> nat \<times> nat \<times> nat \<times> nat \<Rightarrow> nat \<times> nat \<times> nat \<times> nat \<times> nat \<Rightarrow> bool" where
  "hint_outcome h h' \<longleftrightarrow>
     (case h of (issued, admitted, resident, declined, failures) \<Rightarrow>
        h' \<in> {(issued, admitted + 1, resident, declined, failures),
              (issued, admitted, resident + 1, declined, failures),
              (issued, admitted, resident, declined + 1, failures),
              (issued, admitted, resident, declined, failures + 1)})"

lemma hint_outcomeI:
  assumes "hint_counts sp = hint_counts sp0"
  shows "hint_outcome (hint_counts sp0) (hint_counts (count_hint_resident sp))"
    "hint_outcome (hint_counts sp0) (hint_counts (count_hint_declined sp))"
    "hint_outcome (hint_counts sp0) (hint_counts (count_admission_failure sp))"
    "hint_outcome (hint_counts sp0)
       (hint_counts (upd_counters (\<lambda>c. c\<lparr>sps_hint_admitted := sps_hint_admitted c + 1\<rparr>) sp))"
  using assms [symmetric]
  by (simp_all add: hint_outcome_def hint_counts_def count_hint_resident_def count_hint_declined_def
      count_admission_failure_def)

lemma hint_counts_outcome [simp]: "hint_counts (set_outcome e st sp) = hint_counts sp"
  by (simp add: set_outcome_def)

lemma hint_counts_link [simp]: "hint_counts (link_waiter r e i sp) = hint_counts sp"
  by (simp add: link_waiter_def Let_def)

lemma hint_outcome_slot:
  assumes "prefetch_slot submit self admission e c sp b = (i, sp', b')"
  shows "hint_outcome (hint_counts sp) (hint_counts sp')"
proof -
  obtain j sp2 where victim: "claim_victim admission sp = (j, sp2)"
    by (cases "claim_victim admission sp")
  obtain st sp3 b3 where start: "start_fill submit self j c sp2 b = (st, sp3, b3)"
    by (cases "start_fill submit self j c sp2 b")
  have same: "hint_counts sp2 = hint_counts sp" "hint_counts sp3 = hint_counts sp"
    using hint_counts_claim [OF victim] hint_counts_start [OF start] by simp_all
  show ?thesis
    using assms victim start hint_outcomeI [of sp sp] hint_outcomeI [OF same(1)] hint_outcomeI [OF same(2)]
    by (auto simp: prefetch_slot_def Let_def split: if_splits)
qed

lemma hints_prefetch_chunk:
  assumes run: "prefetch_chunk submit self admission r e c sp b = (sp', b')" and bal: "hints_balanced sp"
  shows "hints_balanced sp'"
    "sps_hint_issued (sp_counters sp') = sps_hint_issued (sp_counters sp) + 1"
proof -
  let ?sp = "upd_counters (\<lambda>c. c\<lparr>sps_hint_issued := sps_hint_issued c + 1\<rparr>)
    (upd_waiter e (\<lambda>w. w\<lparr>wait_next := NONE\<rparr>) sp)"
  obtain i sp2 b2 where slot: "prefetch_slot submit self admission e c ?sp b = (i, sp2, b2)"
    by (cases "prefetch_slot submit self admission e c ?sp b")
  have "hint_counts sp' = hint_counts sp2"
    using run slot by (simp add: prefetch_chunk_def Let_def) (metis hint_counts_link)
  then have "hint_outcome (hint_counts ?sp) (hint_counts sp')"
    using hint_outcome_slot [OF slot] by simp
  then show "hints_balanced sp'"
    "sps_hint_issued (sp_counters sp') = sps_hint_issued (sp_counters sp) + 1"
    using bal by (auto simp: hint_outcome_def hint_counts_def hints_balanced_def)
qed

lemma hints_prefetch_loop:
  "prefetch_loop submit self admission r e cs sp b = (sp', b') \<Longrightarrow> hints_balanced sp \<Longrightarrow>
     hints_balanced sp' \<and>
     sps_hint_issued (sp_counters sp') = sps_hint_issued (sp_counters sp) + length cs"
proof (induction cs arbitrary: e sp b)
  case (Cons c cs)
  obtain sp1 b1 where step: "prefetch_chunk submit self admission r e c sp b = (sp1, b1)"
    by (cases "prefetch_chunk submit self admission r e c sp b")
  then show ?case
    using Cons hints_prefetch_chunk [OF step Cons.prems(2)] by simp
qed simp

lemma hints_prefetch:
  assumes run: "sp_prefetch submit self ranges admission sp b = (res, sp', b')" and bal: "hints_balanced sp"
  shows "hints_balanced sp'"
    "res = Inr t \<Longrightarrow> sps_hint_issued (sp_counters sp')
       = sps_hint_issued (sp_counters sp) + length (for_each_chunk (sp_config sp) ranges)"
    "res = Inl x \<Longrightarrow> hint_counts sp' = hint_counts sp"
proof -
  have opened: "hint_counts (open_record r n sp) = hint_counts sp" for r n
    by (simp add: open_record_def Let_def)
  have "hints_balanced (open_record r n sp)"
    "sps_hint_issued (sp_counters (open_record r n sp)) = sps_hint_issued (sp_counters sp)"
    "sp_config (open_record r n sp) = sp_config sp" for r n
    using hints_balanced_same [OF opened] bal by (simp_all add: open_record_def Let_def)
  note open_facts = this
  show "hints_balanced sp'"
    using run bal open_facts
    by (auto simp: sp_prefetch_def Let_def split: prod.splits if_splits option.splits
        dest!: hints_prefetch_loop)
  show "sps_hint_issued (sp_counters sp')
       = sps_hint_issued (sp_counters sp) + length (for_each_chunk (sp_config sp) ranges)" if "res = Inr t"
    using run that open_facts
    by (auto simp: sp_prefetch_def Let_def split: prod.splits if_splits option.splits
        dest!: hints_prefetch_loop)
  show "hint_counts sp' = hint_counts sp" if "res = Inl x"
    using run that by (auto simp: sp_prefetch_def Let_def split: prod.splits if_splits option.splits)
qed

subsection \<open>The accounting of the system\<close>

lemma ps_step_hints:
  assumes "ps_step submit outstanding completes self s t" "hints_balanced (ps_pool s)"
  shows "hints_balanced (ps_pool t)"
  using assms(1)
proof (cases rule: ps_step.cases)
  case (prefetched ranges admission tk sp' b')
  then show ?thesis
    using hints_prefetch(1) [OF prefetched(2) assms(2)] by simp
next
  case (prefetch_refused ranges admission e sp' b')
  then show ?thesis
    using hints_prefetch(1) [OF prefetch_refused(2) assms(2)] by simp
next
  case (resolving out ranges pinned out' sp' b')
  then show ?thesis
    using hints_balanced_same [OF hint_counts_resolve_begin [OF resolving(3)]] assms(2) by simp
next
  case (resolve_refused out ranges e out' sp' b')
  then show ?thesis
    using hints_balanced_same [OF hint_counts_resolve_begin [OF resolve_refused(3)]] assms(2) by simp
next
  case (resolved pinned out n out' sp')
  then show ?thesis
    using hints_balanced_same [OF hint_counts_resolve_end [OF resolved(3)]] assms(2) by simp
next
  case (resolve_failed pinned out e out' sp')
  then show ?thesis
    using hints_balanced_same [OF hint_counts_resolve_end [OF resolve_failed(3)]] assms(2) by simp
next
  case (try_resolved out ranges n out' sp')
  then show ?thesis
    using hints_balanced_same [OF hint_counts_try_resolve [OF try_resolved(3)]] assms(2) by simp
next
  case (try_refused out ranges e out' sp')
  then show ?thesis
    using hints_balanced_same [OF hint_counts_try_resolve [OF try_refused(3)]] assms(2) by simp
next
  case (released l l' sp')
  then show ?thesis
    using hints_balanced_same [OF hint_counts_release [OF released(3)]] assms(2) by simp
next
  case (discarded tk t' sp')
  then show ?thesis
    using hints_balanced_same [OF hint_counts_discard [OF discarded(3)]] assms(2) by simp
next
  case (demoted ranges)
  then show ?thesis
    using hints_balanced_same [OF hint_counts_wont_need] assms(2) by simp
next
  case (writing r m')
  then show ?thesis
    using assms(2) by simp
next
  case (delivered r res b' m')
  then show ?thesis
    using hints_balanced_same [OF hint_counts_on_complete] assms(2) by simp
next
  case (duplicate token res)
  then show ?thesis
    using hints_balanced_same [OF hint_counts_on_complete] assms(2) by simp
qed

theorem ps_reachable_hints:
  "ps_reachable submit outstanding valid completes self s \<Longrightarrow> hints_balanced (ps_pool s)"
proof (induction rule: ps_reachable.induct)
  case (start config sp b m)
  then show ?case
    using sp_create_Inr(2) [OF start(1)]
    by (simp add: ps_init_def sp_construct_def hints_balanced_def default_pool_stats_def Let_def)
next
  case (step s t)
  show ?case
    by (rule ps_step_hints [OF step.hyps(2) step.IH])
qed

section \<open>The outcome of a wait\<close>

definition is_declined :: "status \<Rightarrow> bool" where
  "is_declined st \<longleftrightarrow> st \<in> {Declined, Pool_Exhausted, Queue_Exhausted}"

definition is_failure :: "status \<Rightarrow> bool" where
  "is_failure st \<longleftrightarrow> st \<noteq> Ok \<and> st \<noteq> Pending"

text \<open>The first failure among a list of outcomes, and the outcome that \<open>wait\<close> should report.\<close>

fun first_bad :: "status list \<Rightarrow> status" where
  "first_bad [] = Ok"
| "first_bad (st # sts) = (if is_failure st then st else first_bad sts)"

lemma tally_status:
  "wo_status (fold tally ws o0) = (if wo_status o0 = Ok then first_bad (map wait_outcome ws) else wo_status o0)"
proof (induction ws arbitrary: o0)
  case (Cons w ws)
  have "wo_status (tally w o0) =
      (if wo_status o0 = Ok \<and> is_failure (wait_outcome w) then wait_outcome w else wo_status o0)"
    by (cases "wait_outcome w") (simp_all add: tally_def is_failure_def)
  then show ?case
    using Cons.IH by (auto simp: is_failure_def)
qed simp

lemma tally_counts:
  "wo_filled (fold tally ws o0) = wo_filled o0 + count_where (\<lambda>w. wait_outcome w = Ok) ws"
  "wo_pending (fold tally ws o0) = wo_pending o0 + count_where (\<lambda>w. wait_outcome w = Pending) ws"
  "wo_declined (fold tally ws o0) = wo_declined o0 + count_where (\<lambda>w. is_declined (wait_outcome w)) ws"
  "wo_failed (fold tally ws o0) = wo_failed o0 + count_where
     (\<lambda>w. is_failure (wait_outcome w) \<and> \<not> is_declined (wait_outcome w)) ws"
proof (induction ws arbitrary: o0)
  case (Cons w ws)
  have step: "wo_filled (tally w o0) = wo_filled o0 + (if wait_outcome w = Ok then 1 else 0)"
    "wo_pending (tally w o0) = wo_pending o0 + (if wait_outcome w = Pending then 1 else 0)"
    "wo_declined (tally w o0) = wo_declined o0 + (if is_declined (wait_outcome w) then 1 else 0)"
    "wo_failed (tally w o0) = wo_failed o0 +
       (if is_failure (wait_outcome w) \<and> \<not> is_declined (wait_outcome w) then 1 else 0)" for o0
    by (simp_all add: tally_def Let_def is_declined_def is_failure_def split: status.split)
  {
    case 1 show ?case using Cons.IH(1) step(1) by auto
  next
    case 2 show ?case using Cons.IH(2) step(2) by auto
  next
    case 3 show ?case using Cons.IH(3) step(3) by auto
  next
    case 4 show ?case using Cons.IH(4) step(4) by auto
  }
qed simp_all

text \<open>The pending entries of a ticket are those its record counts.\<close>

lemma pending_entries:
  assumes ok: "waiters_ok sp" and r: "r < length (sp_tickets sp)" and use: "tick_in_use (sp_tickets sp ! r)"
  shows "length (ticket_entries sp r) = tick_chunks (sp_tickets sp ! r)"
    "count_where (\<lambda>w. wait_outcome w = Pending) (ticket_entries sp r) = tick_pending (sp_tickets sp ! r)"
proof -
  obtain C where C: "wait_inv C (\<lambda>i. heads sp ! i) (\<lambda>r. tick_chunks (sp_tickets sp ! r)) sp"
    using ok by (auto simp: waiters_ok_def)
  note D = wait_invD [OF C]
  let ?mb = "sc_max_batch_chunks (sp_config sp)" and ?d = "tick_chunks (sp_tickets sp ! r)"
  let ?P = "waiting_set C (length (sp_slots sp))"
  have rec: "tick_pending (sp_tickets sp ! r) = card (ticket_set C (length (sp_slots sp)) ?mb r)" "?d \<le> ?mb"
    and out: "\<And>k. k < ?d \<Longrightarrow> wait_outcome (sp_waiters sp ! (r * ?mb + k)) = Pending \<longleftrightarrow> r * ?mb + k \<in> ?P"
    using D(7) [OF r] use by (auto simp: waiting_record_ok_def)
  have "Suc r * ?mb \<le> length (sp_tickets sp) * ?mb"
    using r by (intro mult_le_mono1) simp
  then have room: "r * ?mb + ?d \<le> length (sp_waiters sp)"
    using D(4) rec(2) by simp
  then show len: "length (ticket_entries sp r) = ?d"
    by (simp add: ticket_entries_def)
  have nth: "ticket_entries sp r ! k = sp_waiters sp ! (r * ?mb + k)" if "k < ?d" for k
    using that room by (simp add: ticket_entries_def)
  have "count_where (\<lambda>w. wait_outcome w = Pending) (ticket_entries sp r) = card {k. k < ?d \<and> r * ?mb + k \<in> ?P}"
    unfolding count_where_def length_filter_conv_card len using nth out by (intro arg_cong [where f = card]) auto
  also have "\<dots> = card ((\<lambda>k. r * ?mb + k) ` {k. k < ?d \<and> r * ?mb + k \<in> ?P})"
    by (rule card_image [symmetric]) (simp add: inj_on_def)
  also have "(\<lambda>k. r * ?mb + k) ` {k. k < ?d \<and> r * ?mb + k \<in> ?P} = ticket_set C (length (sp_slots sp)) ?mb r"
  proof (intro set_eqI iffI)
    fix e
    assume "e \<in> (\<lambda>k. r * ?mb + k) ` {k. k < ?d \<and> r * ?mb + k \<in> ?P}"
    then show "e \<in> ticket_set C (length (sp_slots sp)) ?mb r"
      using rec(2) entry_div(1) by (auto simp: ticket_set_def)
  next
    fix e
    assume e: "e \<in> ticket_set C (length (sp_slots sp)) ?mb r"
    then have "e \<in> ?P" "e div ?mb = r"
      by (simp_all add: ticket_set_def)
    moreover have "e mod ?mb < ?d"
      using D(6) [of e] calculation by (simp add: entry_ok_def)
    moreover have "e = r * ?mb + e mod ?mb"
      using calculation(2) div_mult_mod_eq [of e ?mb] by simp
    ultimately show "e \<in> (\<lambda>k. r * ?mb + k) ` {k. k < ?d \<and> r * ?mb + k \<in> ?P}"
      by (intro image_eqI [of _ _ "e mod ?mb"]) auto
  qed
  finally show "count_where (\<lambda>w. wait_outcome w = Pending) (ticket_entries sp r) = tick_pending (sp_tickets sp ! r)"
    using rec(1) by simp
qed

lemma held_in_use:
  assumes ok: "waiters_ok sp" and r: "r < length (sp_tickets sp)" and held: "tick_held (sp_tickets sp ! r)"
  shows "tick_in_use (sp_tickets sp ! r)"
proof -
  obtain C where C: "wait_inv C (\<lambda>i. heads sp ! i) (\<lambda>r. tick_chunks (sp_tickets sp ! r)) sp"
    using ok by (auto simp: waiters_ok_def)
  show ?thesis
    using wait_invD(7) [OF C r] held by (simp add: waiting_record_ok_def)
qed

lemma outcomes_partition:
  "count_where (\<lambda>w. wait_outcome w = Ok) ws +
   count_where (\<lambda>w. is_failure (wait_outcome w) \<and> \<not> is_declined (wait_outcome w)) ws +
   count_where (\<lambda>w. is_declined (wait_outcome w)) ws + count_where (\<lambda>w. wait_outcome w = Pending) ws = length ws"
proof (induction ws)
  case (Cons w ws)
  then show ?case
    by (cases "wait_outcome w") (simp_all add: is_failure_def is_declined_def)
qed simp

lemma tally_sum:
  defines "t \<equiv> \<lambda>ws. fold tally ws default_outcome"
  shows "wo_filled (t ws) + wo_failed (t ws) + wo_declined (t ws) + wo_pending (t ws) = length ws"
  using outcomes_partition [of ws] by (simp add: t_def tally_counts default_outcome_def)

lemma count_where_all: "count_where P xs = length xs \<longleftrightarrow> (\<forall>x \<in> set xs. P x)"
proof (induction xs)
  case (Cons x xs)
  then show ?case
    using count_where_le_length [of P xs] by auto
qed simp

lemma first_bad_Ok: "first_bad sts = Ok \<longleftrightarrow> (\<forall>st \<in> set sts. \<not> is_failure st)"
  by (induction sts) (auto simp: is_failure_def)

lemma tally_all_filled:
  defines "t \<equiv> \<lambda>ws. fold tally ws default_outcome"
  shows "wo_filled (t ws) = length ws \<longleftrightarrow> wo_pending (t ws) = 0 \<and> first_bad (map wait_outcome ws) = Ok"
  by (auto simp: t_def tally_counts default_outcome_def count_where_all count_where_0_iff first_bad_Ok is_failure_def)

text \<open>The counts by the statuses that the code's \<open>switch\<close> lists.\<close>

lemma tally_filters:
  defines "t \<equiv> \<lambda>ws. fold tally ws default_outcome"
  shows "wo_filled (t ws) = length (filter (\<lambda>st. st = Ok) (map wait_outcome ws))"
    "wo_pending (t ws) = length (filter (\<lambda>st. st = Pending) (map wait_outcome ws))"
    "wo_declined (t ws) = length (filter (\<lambda>st. st \<in> {Declined, Pool_Exhausted, Queue_Exhausted}) (map wait_outcome ws))"
    "wo_failed (t ws)
       = length (filter (\<lambda>st. st \<notin> {Ok, Pending, Declined, Pool_Exhausted, Queue_Exhausted}) (map wait_outcome ws))"
proof -
  have "(is_failure st \<and> \<not> is_declined st) = (st \<notin> {Ok, Pending, Declined, Pool_Exhausted, Queue_Exhausted})" for st
    by (auto simp: is_failure_def is_declined_def)
  then show "wo_filled (t ws) = length (filter (\<lambda>st. st = Ok) (map wait_outcome ws))"
    "wo_pending (t ws) = length (filter (\<lambda>st. st = Pending) (map wait_outcome ws))"
    "wo_declined (t ws) = length (filter (\<lambda>st. st \<in> {Declined, Pool_Exhausted, Queue_Exhausted}) (map wait_outcome ws))"
    "wo_failed (t ws)
       = length (filter (\<lambda>st. st \<notin> {Ok, Pending, Declined, Pool_Exhausted, Queue_Exhausted}) (map wait_outcome ws))"
    by (simp_all add: t_def tally_counts default_outcome_def count_where_def filter_map comp_def is_declined_def)
qed

end
