(* ===== verification/Slot_Pool_Facts.thy ===== *)
theory Slot_Pool_Facts
  imports Slot_Pool_Policy
begin

text \<open>
  What the invariants of a pool say about its leases, its index, the requests of its backend and the
  outcome of a wait: the facts from which the properties of the slot pool follow.
\<close>

section \<open>Leases\<close>

lemma lease_inside:
  assumes inv: "pool_inv outstanding valid content R self L sp b m" and l: "l \<in> set L"
  defines "s \<equiv> sp_slots sp ! lease_slot l"
  defines "off \<equiv> lease_source_offset l - slot_chunk s * sc_slot_bytes (sp_config sp)"
  shows "lease_slot l < sc_num_slots (sp_config sp)" "chunk_inside (sp_config sp) (slot_chunk s)"
    "unat off + lease_size l \<le> unat (chunk_length (sp_config sp) (slot_chunk s))"
    "lease_bytes l = slot_span (sp_config sp) (lease_slot l) off (span_size (lease_bytes l))"
    "lease_source_offset l = slot_chunk s * sc_slot_bytes (sp_config sp) + off"
proof -
  note D = pool_invD [OF inv]
  have ok: "lease_ok self sp l"
    using lease_pinned(1) [OF D(2) l] .
  show "lease_slot l < sc_num_slots (sp_config sp)"
    using lease_pinned(2) [OF D(2) l] core_okD(2) [OF D(1)] by simp
  show "chunk_inside (sp_config sp) (slot_chunk s)"
    using ok by (simp add: lease_ok_def s_def Let_def)
  have le: "unat (slot_chunk s * sc_slot_bytes (sp_config sp)) \<le> unat (lease_source_offset l)"
    and fit: "unat (lease_source_offset l) + lease_size l
      \<le> unat (slot_chunk s * sc_slot_bytes (sp_config sp)) + unat (chunk_length (sp_config sp) (slot_chunk s))"
    using ok by (simp_all add: lease_ok_def s_def Let_def lease_size_def)
  have "unat off = unat (lease_source_offset l) - unat (slot_chunk s * sc_slot_bytes (sp_config sp))"
    unfolding off_def using le by (intro unat_minus_64) (simp only: word_le_nat_alt)
  then show "unat off + lease_size l \<le> unat (chunk_length (sp_config sp) (slot_chunk s))"
    using le fit by linarith
  show "lease_bytes l = slot_span (sp_config sp) (lease_slot l) off (span_size (lease_bytes l))"
    using ok by (simp add: lease_ok_def s_def off_def Let_def)
  show "lease_source_offset l = slot_chunk s * sc_slot_bytes (sp_config sp) + off"
    by (simp add: off_def)
qed

lemma lease_content:
  assumes inv: "pool_inv outstanding valid content R self L sp b m" and l: "l \<in> set R"
    and k: "k < lease_size l"
  shows "m (span_data (lease_bytes l) + of_nat k)
    = content (sc_source (sp_config sp)) (lease_source_offset l + of_nat k)"
proof -
  note D = pool_invD [OF inv]
  have mem: "l \<in> set L" and ready: "slot_state (sp_slots sp ! lease_slot l) = Slot_Ready"
    using D(2) l by (auto simp: leases_ok_def)
  let ?s = "sp_slots sp ! lease_slot l"
  let ?start = "slot_chunk ?s * sc_slot_bytes (sp_config sp)"
  let ?off = "lease_source_offset l - ?start"
  note I = lease_inside [OF inv mem]
  have data: "span_data (lease_bytes l) = slot_data (sp_config sp) (lease_slot l) + ?off"
    by (subst I(4)) simp
  have lt: "unat ?off + k < unat (chunk_length (sp_config sp) (slot_chunk ?s))"
    using I(3) k by linarith
  have of: "of_nat (unat ?off + k) = ?off + of_nat k"
    by simp
  have "m (slot_data (sp_config sp) (lease_slot l) + of_nat (unat ?off + k))
      = content (sc_source (sp_config sp)) (?start + of_nat (unat ?off + k))"
    using D(4) ready lt lease_pinned(2) [OF D(2) mem] unfolding content_ok_def by blast
  then show ?thesis
    unfolding data of using I(5) by (simp add: add.assoc)
qed

lemma request_lease_disjoint:
  assumes inv: "pool_inv outstanding valid content R self L sp b m" and l: "l \<in> set L"
    and r: "r \<in># outstanding b"
    and other: "token_index (req_token r) \<noteq> lease_slot l \<or> slot_state (sp_slots sp ! lease_slot l) \<noteq> Slot_Filling"
  shows "span_addrs (req_destination r) \<inter> span_addrs (lease_bytes l) = {}"
proof -
  note D = pool_invD [OF inv]
  obtain i where i: "i \<in> filling_set sp" "r = slot_request self sp i"
    using D(3) r by (auto simp: requests_ok_def)
  have ilt: "i < length (sp_slots sp)" "slot_state (sp_slots sp ! i) = Slot_Filling"
    using i(1) by (simp_all add: filling_set_def)
  have ne: "i \<noteq> lease_slot l"
    using other ilt(2) i(2) by (auto simp: slot_request_def sp_request_def)
  have cfg: "config_ok (sp_config sp)"
    using core_okD(1) [OF D(1)] .
  have inside: "chunk_inside (sp_config sp) (slot_chunk (sp_slots sp ! i))"
    using slot_ok_nth [OF D(1) ilt(1)] ilt(2) by (simp add: slot_ok_def slot_live_def)
  have dest: "req_destination r = slot_span (sp_config sp) i 0 (chunk_length (sp_config sp) (slot_chunk (sp_slots sp ! i)))"
    by (simp add: i(2) slot_request_def sp_request_def slot_span_def)
  note I = lease_inside [OF inv l]
  let ?off = "lease_source_offset l
    - slot_chunk (sp_slots sp ! lease_slot l) * sc_slot_bytes (sp_config sp)"
  have "span_addrs (slot_span (sp_config sp) i 0 (chunk_length (sp_config sp) (slot_chunk (sp_slots sp ! i))))
      \<inter> span_addrs (slot_span (sp_config sp) (lease_slot l) ?off (span_size (lease_bytes l))) = {}"
  proof (rule slot_spans_disjoint [OF cfg _ I(1) ne])
    show "i < sc_num_slots (sp_config sp)"
      using ilt(1) core_okD(2) [OF D(1)] by simp
    show "unat (0 :: u64) + unat (chunk_length (sp_config sp) (slot_chunk (sp_slots sp ! i)))
        \<le> unat (sc_slot_bytes (sp_config sp))"
      using chunk_length_le [OF inside] by simp
    show "unat ?off + unat (span_size (lease_bytes l)) \<le> unat (sc_slot_bytes (sp_config sp))"
      using I(3) chunk_length_le [OF I(2)] by (simp add: lease_size_def)
  qed
  then show ?thesis
    unfolding dest using I(4) by simp
qed

section \<open>Counters of the pool\<close>

lemma slot_sum_filling: "slot_sum filling_w ss = length (filter (\<lambda>s. slot_state s = Slot_Filling) ss)"
  by (induction ss) (auto simp: slot_sum_def filling_w_def)

lemma in_flight_outstanding:
  assumes inv: "pool_inv outstanding valid content R self L sp b m"
  shows "sp_in_flight sp = size (outstanding b)"
proof -
  note D = pool_invD [OF inv]
  have "size (outstanding b) = card (filling_set sp)"
    using D(3) by (simp add: requests_ok_def)
  also have "\<dots> = length (filter (\<lambda>s. slot_state s = Slot_Filling) (sp_slots sp))"
    by (simp add: filling_set_def length_filter_conv_card)
  finally show ?thesis
    using core_okD(6) [OF D(1)] by (simp add: slot_sum_filling)
qed

lemma pins_no_leases:
  assumes inv: "pool_inv outstanding valid content R self L sp b m"
  shows "sp_pins_total sp = 0 \<longleftrightarrow> L = []"
proof -
  note D = pool_invD [OF inv]
  have "sp_pins_total sp = 0 \<longleftrightarrow> (\<forall>i < length (sp_slots sp). slot_pins (sp_slots sp ! i) = 0)"
    using core_okD(7) [OF D(1)] by (simp add: slot_sum_0_iff all_set_conv_all_nth)
  also have "\<dots> \<longleftrightarrow> L = []"
  proof
    assume none: "\<forall>i < length (sp_slots sp). slot_pins (sp_slots sp ! i) = 0"
    have "l \<notin> set L" for l
      using lease_pinned(2,3) [OF D(2), of l] none by fastforce
    then show "L = []"
      by (cases L) auto
  next
    assume "L = []"
    then show "\<forall>i < length (sp_slots sp). slot_pins (sp_slots sp ! i) = 0"
      using leases_pins [OF D(2)] by simp
  qed
  finally show ?thesis .
qed

lemma tickets_held_none:
  assumes ok: "waiters_ok sp" and tk: "tickets_ok self sp tks"
  shows "sp_tickets_held sp = 0 \<longleftrightarrow> tks = []"
proof -
  obtain C where C: "wait_inv C (\<lambda>i. heads sp ! i) (\<lambda>r. tick_chunks (sp_tickets sp ! r)) sp"
    using ok by (auto simp: waiters_ok_def)
  have "sp_tickets_held sp = 0 \<longleftrightarrow> (\<forall>r < length (sp_tickets sp). \<not> tick_held (sp_tickets sp ! r))"
    using wait_invD(8) [OF C] by (simp add: count_where_0_iff all_set_conv_all_nth)
  also have "\<dots> \<longleftrightarrow> tks = []"
    using tk unfolding tickets_ok_def by (cases tks) auto
  finally show ?thesis .
qed

lemma pins_exact:
  assumes inv: "pool_inv outstanding valid content R self L sp b m"
    and inv': "pool_inv outstanding valid content R' self L sp' b' m'"
    and len: "length (sp_slots sp') = length (sp_slots sp)" and i: "i < length (sp_slots sp)"
  shows "slot_pins (sp_slots sp' ! i) = slot_pins (sp_slots sp ! i)"
  using leases_pins [OF pool_invD(2) [OF inv] i] leases_pins [OF pool_invD(2) [OF inv']] i len by simp

section \<open>The chunk index of a pool\<close>

lemma core_index_total:
  assumes core: "core_ok sp"
  shows "\<exists>i. index_find (sp_index sp) (slot_key sp) (sp_index_shift sp) c = Some i"
  using core_okD(4) [OF core] unfolding idx_ok_def by (intro ci.find_total) blast

lemma core_index_erase:
  assumes core: "core_ok sp" and i: "i < length (sp_slots sp)" "slot_live (sp_slots sp ! i)"
  shows "\<exists>ix. index_erase (sp_index sp) (slot_key sp) (sp_index_shift sp) (slot_key sp i) = Some ix"
proof -
  have "i \<in> entries (sp_index sp)"
    using core_okD(4) [OF core] i by (simp add: idx_ok_def live_set_def)
  then show ?thesis
    using ci.del_member core_okD(4) [OF core] unfolding idx_ok_def by blast
qed

lemma core_index_insert:
  assumes core: "core_ok sp" and i: "i < length (sp_slots sp)" "\<not> slot_live (sp_slots sp ! i)"
    and c: "sp_find c sp = NONE"
  shows "\<exists>ix. index_insert (sp_index sp) (sp_index_shift sp) c i = Some ix"
proof -
  have idx: "idx_ok sp"
    using core_okD(4) [OF core] .
  have "card (live_set sp) < card {..<length (sp_slots sp)}"
    using i by (intro psubset_card_mono) (auto simp: live_set_def)
  then have "card (entries (sp_index sp)) + 1 < length (sp_index sp)"
    using idx i(1) by (simp add: idx_ok_def)
  moreover have "index_ok (sp_index sp) ((slot_key sp)(i := c)) (sp_index_shift sp)"
    by (rule ci.ok_cong [where key = "slot_key sp"]) (use idx i(2) in \<open>auto simp: idx_ok_def live_set_def\<close>)
  moreover have "((slot_key sp)(i := c)) t \<noteq> ((slot_key sp)(i := c)) i" if "t \<in> entries (sp_index sp)" for t
    using that idx i(2) c sp_find_iff [OF idx, of c] by (auto simp: idx_ok_def live_set_def slot_key_def)
  moreover have "i \<noteq> NONE"
    using idx i(1) by (simp add: idx_ok_def)
  ultimately show ?thesis
    using ci.ins_member [of "sp_index sp" "(slot_key sp)(i := c)" "sp_index_shift sp" i] by auto
qed

lemma sp_find_correct:
  assumes core: "core_ok sp" and i: "i < length (sp_slots sp)"
  shows "sp_find c sp = i \<longleftrightarrow> slot_live (sp_slots sp ! i) \<and> slot_chunk (sp_slots sp ! i) = c"
proof -
  have idx: "idx_ok sp"
    using core_okD(4) [OF core] .
  have ne: "i \<noteq> NONE"
    using idx i by (simp add: idx_ok_def)
  show ?thesis
    using sp_find_live [OF idx, of c] sp_find_unique [OF idx, of i] ne i by (auto simp: live_set_def)
qed

section \<open>Failed calls of resolve leave nothing behind\<close>

lemma resolve_chunk_out:
  assumes "resolve_chunk submit self call rs sp b = (rs', sp', b')"
  shows "rs_out rs' = rs_out rs \<and> rs_pinned rs' = rs_pinned rs \<or>
    (\<exists>l. rs_out rs' = (rs_out rs)[rs_pinned rs := l] \<and> rs_pinned rs' = rs_pinned rs + 1)"
  using assms
  by (auto simp: resolve_chunk_def pin_chunk_def Let_def split: prod.splits if_splits)

lemma resolve_loop_out:
  "resolve_loop submit self calls rs sp b = (rs', sp', b') \<Longrightarrow>
     rs_pinned rs \<le> rs_pinned rs' \<and> drop (rs_pinned rs') (rs_out rs') = drop (rs_pinned rs') (rs_out rs)"
proof (induction calls arbitrary: rs sp b)
  case (Cons call calls)
  obtain rs1 sp1 b1 where step: "resolve_chunk submit self call rs sp b = (rs1, sp1, b1)"
    by (cases "resolve_chunk submit self call rs sp b")
  have IH: "rs_pinned rs1 \<le> rs_pinned rs'" "drop (rs_pinned rs') (rs_out rs') = drop (rs_pinned rs') (rs_out rs1)"
    using Cons.IH [of rs1 sp1 b1] Cons.prems step by simp_all
  show ?case
    using resolve_chunk_out [OF step] IH by (auto simp: drop_update_cancel)
qed simp

lemma unwind_empties:
  "unwind ls sp = (ls', sp') \<Longrightarrow> length ls' = length ls \<and> (\<forall>l \<in> set ls'. lease_pool l = None)"
  by (induction ls arbitrary: sp ls') (auto simp: Let_def split: prod.splits)

section \<open>Each chunk is fetched once\<close>

lemma chunk_start_inj:
  assumes "chunk_inside config c" "chunk_inside config d" "0 < unat (sc_slot_bytes config)"
    and "c * sc_slot_bytes config = d * sc_slot_bytes config"
  shows "c = d"
proof (rule u64_eqI)
  have "unat c * unat (sc_slot_bytes config) = unat d * unat (sc_slot_bytes config)"
    using chunk_start_unat [OF assms(1)] chunk_start_unat [OF assms(2)] assms(4) by metis
  then show "unat c = unat d"
    using assms(3) by simp
qed

lemma fetched_once:
  assumes inv: "pool_inv outstanding valid content R self L sp b m"
  shows "size (filter_mset (\<lambda>r. req_source_offset r = off) (outstanding b)) \<le> 1"
proof -
  note D = pool_invD [OF inv]
  let ?F = "{i \<in> filling_set sp. req_source_offset (slot_request self sp i) = off}"
  have "i = j" if "i \<in> ?F" "j \<in> ?F" for i j
  proof -
    have ij: "i < length (sp_slots sp)" "slot_live (sp_slots sp ! i)"
      "j < length (sp_slots sp)" "slot_live (sp_slots sp ! j)"
      using that by (auto simp: filling_set_def slot_live_def)
    have in_i: "chunk_inside (sp_config sp) (slot_chunk (sp_slots sp ! i))"
      and in_j: "chunk_inside (sp_config sp) (slot_chunk (sp_slots sp ! j))"
      using slot_ok_nth [OF D(1)] ij by (simp_all add: slot_ok_def)
    have "slot_chunk (sp_slots sp ! i) * sc_slot_bytes (sp_config sp)
        = slot_chunk (sp_slots sp ! j) * sc_slot_bytes (sp_config sp)"
      using that by (simp add: slot_request_def sp_request_def)
    then have "slot_chunk (sp_slots sp ! i) = slot_chunk (sp_slots sp ! j)"
      using chunk_start_inj [OF in_i in_j config_ok_bounds(1) [OF core_okD(1) [OF D(1)]]] by simp
    then show ?thesis
      using live_chunks_distinct [OF core_okD(4) [OF D(1)], of i j] ij by (simp add: live_set_def)
  qed
  then have "card ?F \<le> 1"
    by (intro card_le_Suc0_iff_eq [THEN iffD2, folded One_nat_def]) auto
  moreover have "filter_mset (\<lambda>r. req_source_offset r = off) (outstanding b)
      = image_mset (slot_request self sp) (mset_set ?F)"
    using D(3) by (simp add: requests_ok_def filter_mset_image_mset)
  ultimately show ?thesis
    by simp
qed

section \<open>Residency\<close>

text \<open>The chunks whose bytes a pool has: the abstract content of the cache.\<close>

definition resident :: "slot_pool \<Rightarrow> u64 set" where
  "resident sp = {c. \<exists>s \<in> set (sp_slots sp). slot_state s = Slot_Ready \<and> slot_chunk s = c}"

lemma residentI: "i < length (sp_slots sp) \<Longrightarrow> slot_state (sp_slots sp ! i) = Slot_Ready \<Longrightarrow>
    slot_chunk (sp_slots sp ! i) \<in> resident sp"
  by (auto simp: resident_def intro: nth_mem)

lemma resident_find:
  assumes core: "core_ok sp"
  shows "c \<in> resident sp \<longleftrightarrow> sp_find c sp \<noteq> NONE \<and> slot_state (sp_slots sp ! sp_find c sp) = Slot_Ready"
proof
  assume "c \<in> resident sp"
  then obtain i where i: "i < length (sp_slots sp)" "slot_state (sp_slots sp ! i) = Slot_Ready"
    "slot_chunk (sp_slots sp ! i) = c"
    by (auto simp: resident_def in_set_conv_nth)
  then have "sp_find c sp = i"
    using sp_find_correct [OF core i(1)] by (simp add: slot_live_def)
  then show "sp_find c sp \<noteq> NONE \<and> slot_state (sp_slots sp ! sp_find c sp) = Slot_Ready"
    using i core_okD(4) [OF core] by (simp add: idx_ok_def)
next
  assume "sp_find c sp \<noteq> NONE \<and> slot_state (sp_slots sp ! sp_find c sp) = Slot_Ready"
  then show "c \<in> resident sp"
    using sp_find_live [OF core_okD(4) [OF core], of c] by (auto simp: resident_def)
qed

text \<open>Releasing a lease changes no residency.\<close>

lemma resident_nth: "resident sp = {c. \<exists>i < length (sp_slots sp). slot_state (sp_slots sp ! i) = Slot_Ready \<and> slot_chunk (sp_slots sp ! i) = c}"
  unfolding resident_def by (fastforce simp: in_set_conv_nth)

lemma resident_unpin: "resident (unpin_locked i sp) = resident sp"
proof (cases "i < length (sp_slots sp)")
  case True
  have "slot_state (sp_slots (unpin_locked i sp) ! j) = Slot_Ready \<longleftrightarrow> slot_state (sp_slots sp ! j) = Slot_Ready"
    "slot_chunk (sp_slots (unpin_locked i sp) ! j) = slot_chunk (sp_slots sp ! j)" for j
    using True by (cases "j = i"; simp add: unpin_slots)+
  then show ?thesis
    using True by (simp add: resident_nth unpin_slots)
next
  case False
  then have "sp_slots (unpin_locked i sp) = sp_slots sp"
    by (simp add: unpin_locked_def Let_def list_update_beyond)
  then show ?thesis
    by (simp add: resident_def)
qed

lemma release_all_empties:
  "release_all ls sp = Some (ls', sp') \<Longrightarrow>
     length ls' = length ls \<and> (\<forall>l \<in> set ls'. lease_pool l = None) \<and> resident sp' = resident sp"
proof (induction ls arbitrary: sp ls')
  case (Cons l ls)
  then obtain l1 sp1 ls1 where step: "lease_reset l sp = Some (l1, sp1)" "release_all ls sp1 = Some (ls1, sp')" "ls' = l1 # ls1"
    by (auto split: option.splits)
  have "lease_pool l1 = None \<and> resident sp1 = resident sp"
    using step(1) by (auto simp: lease_reset_def release_lease_def resident_unpin split: if_splits)
  with Cons.IH [OF step(2)] step(3) show ?case
    by simp
qed simp

lemma resolve_begin_refused:
  assumes batch: "validate_batch (sp_config sp) ranges = (Ok, chunks)" and room: "chunks \<le> length out"
    and run: "sp_resolve_begin submit self ranges out sp b = Some (Inl e, out', sp', b')"
  shows "\<forall>l \<in> set (take chunks out'). lease_pool l = None"
proof -
  obtain released sp0 where rel: "release_all (take chunks out) sp = Some (released, sp0)"
    using run batch room by (auto simp: sp_resolve_begin_def split: option.splits)
  let ?X = "released @ drop chunks out" and ?calls = "for_each_chunk (sp_config sp0) ranges"
  obtain rs sp1 b1 where loop: "resolve_loop submit self ?calls \<lparr>rs_failure = Ok, rs_out = ?X, rs_pinned = 0\<rparr> sp0 b = (rs, sp1, b1)"
    by (cases "resolve_loop submit self ?calls \<lparr>rs_failure = Ok, rs_out = ?X, rs_pinned = 0\<rparr> sp0 b")
  let ?p = "rs_pinned rs"
  obtain undone sp2 where un: "unwind (take ?p (rs_out rs)) sp1 = (undone, sp2)"
    by (cases "unwind (take ?p (rs_out rs)) sp1")
  note empty = release_all_empties [OF rel] and gone = unwind_empties [OF un]
  have len: "length released = chunks"
    using empty room by simp
  have out': "out' = undone @ drop ?p (rs_out rs)" and same: "drop ?p (rs_out rs) = drop ?p ?X"
    using run batch room rel loop un resolve_loop_out [OF loop]
    by (auto simp: sp_resolve_begin_def Let_def split: if_splits)
  have "set (take chunks out') \<subseteq> set undone \<union> set released"
  proof (cases "?p \<le> length (rs_out rs)")
    case True
    then have "length undone = ?p"
      using gone by simp
    then have "take chunks out' = take chunks undone @ drop ?p (take chunks ?X)"
      using take_append [of chunks undone "drop ?p ?X"] drop_take [of ?p chunks ?X] by (simp only: out' same)
    then show ?thesis
      using len by (auto dest: in_set_takeD in_set_dropD)
  next
    case False
    then show ?thesis
      by (auto simp: out' dest: in_set_takeD)
  qed
  with empty gone show ?thesis
    by blast
qed

lemma all_ready_resident:
  assumes "core_ok sp"
  shows "all_ready cs sp \<longleftrightarrow> set cs \<subseteq> resident sp"
  by (induction cs) (auto simp: resident_find [OF assms] Let_def)

lemma resident_update:
  assumes core: "core_ok sp" and i: "i < length (sp_slots sp)" "slot_state (sp_slots sp ! i) = Slot_Filling"
    and slots: "sp_slots sp' = (sp_slots sp)[i := s]"
  shows "resident sp' = (if slot_state s = Slot_Ready then insert (slot_chunk s) (resident sp) else resident sp)"
proof -
  have nth: "sp_slots sp' ! j = (if j = i then s else sp_slots sp ! j)" if "j < length (sp_slots sp)" for j
    using that by (simp add: slots nth_list_update)
  have len: "length (sp_slots sp') = length (sp_slots sp)"
    by (simp add: slots)
  have "c \<in> resident sp' \<longleftrightarrow> slot_state s = Slot_Ready \<and> slot_chunk s = c \<or> c \<in> resident sp" for c
  proof
    assume "c \<in> resident sp'"
    then obtain j where j: "j < length (sp_slots sp)" "slot_state (sp_slots sp' ! j) = Slot_Ready"
      "slot_chunk (sp_slots sp' ! j) = c"
      by (auto simp: resident_def in_set_conv_nth len)
    then show "slot_state s = Slot_Ready \<and> slot_chunk s = c \<or> c \<in> resident sp"
      using nth [OF j(1)] residentI [OF j(1)] by (auto split: if_splits)
  next
    assume "slot_state s = Slot_Ready \<and> slot_chunk s = c \<or> c \<in> resident sp"
    then show "c \<in> resident sp'"
    proof
      assume "slot_state s = Slot_Ready \<and> slot_chunk s = c"
      then show ?thesis
        using residentI [of i sp'] nth [OF i(1)] i(1) len by simp
    next
      assume "c \<in> resident sp"
      then obtain j where j: "j < length (sp_slots sp)" "slot_state (sp_slots sp ! j) = Slot_Ready"
        "slot_chunk (sp_slots sp ! j) = c"
        by (auto simp: resident_def in_set_conv_nth)
      then have "j \<noteq> i"
        using i(2) by auto
      then show ?thesis
        using residentI [of j sp'] nth [OF j(1)] j len by simp
    qed
  qed
  then show ?thesis
    by auto
qed

lemma resident_complete:
  assumes core: "core_ok sp"
  shows "resident (sp_on_complete token res sp) =
    (let s = sp_slots sp ! token_index token in
     if \<not> sp_is_stale token sp \<and> classify_fill res (chunk_length (sp_config sp) (slot_chunk s)) = Ok
     then insert (slot_chunk s) (resident sp) else resident sp)"
proof (cases "sp_is_stale token sp")
  case True
  then show ?thesis
    by (simp add: sp_on_complete_def resident_def Let_def)
next
  case False
  have i: "token_index token < length (sp_slots sp)" "slot_state (sp_slots sp ! token_index token) = Slot_Filling"
    using False by (simp_all add: sp_is_stale_def)
  show ?thesis
    using resident_update [OF core i sp_on_complete_slots [OF False, of res]] False by (simp add: Let_def)
qed

section \<open>An idle backend\<close>

lemma idle_slots:
  assumes inv: "pool_inv outstanding valid content R self L sp b m" and idle: "outstanding b = {#}"
    and s: "s \<in> set (sp_slots sp)"
  shows "slot_state s \<noteq> Slot_Filling"
proof -
  have "filling_set sp = {}"
    using pool_invD(3) [OF inv] idle by (simp add: requests_ok_def mset_set_empty_iff)
  then show ?thesis
    using s by (auto simp: filling_set_def in_set_conv_nth)
qed

text \<open>No entry waits when no slot is being filled, so no ticket has a pending chunk.\<close>

lemma idle_pending:
  assumes core: "core_ok sp" and ok: "waiters_ok sp" and r: "r < length (sp_tickets sp)"
    and idle: "\<And>s. s \<in> set (sp_slots sp) \<Longrightarrow> slot_state s \<noteq> Slot_Filling"
  shows "tick_pending (sp_tickets sp ! r) = 0"
    "tick_in_use (sp_tickets sp ! r) \<Longrightarrow> tick_held (sp_tickets sp ! r)"
proof -
  obtain C where C: "wait_inv C (\<lambda>i. heads sp ! i) (\<lambda>r. tick_chunks (sp_tickets sp ! r)) sp"
    using ok by (auto simp: waiters_ok_def)
  note D = wait_invD [OF C]
  have "C i = []" if "i < length (sp_slots sp)" for i
  proof -
    have "heads sp ! i = NONE"
      using slot_ok_nth [OF core that] idle [OF nth_mem [OF that]] that by (simp add: heads_nth slot_ok_def)
    then show ?thesis
      using D(5) that chain_NONE by (auto simp: lists_ok_def)
  qed
  then have "waiting_set C (length (sp_slots sp)) = {}"
    by (auto simp: waiting_set_def)
  then show "tick_pending (sp_tickets sp ! r) = 0"
    "tick_in_use (sp_tickets sp ! r) \<Longrightarrow> tick_held (sp_tickets sp ! r)"
    using D(7) [OF r] by (auto simp: waiting_record_ok_def ticket_set_def)
qed

end
