(* ===== verification/Slot_Pool_Demo.thy ===== *)
theory Slot_Pool_Demo
  imports Slot_Pool_Facts Fake_Backend
begin

text \<open>
  The slot pool run over the fake backend: commands in the style of \<open>tests/slot_pool_tests.cpp\<close>, each a
  step of the system, and the concrete reachable states that the witnesses of the pool's properties
  evaluate on.
\<close>

section \<open>Commands\<close>

text \<open>
  \<open>Do_Resolve\<close> is the first half of \<open>resolve\<close> with an empty output of the maximal batch size,
  \<open>Do_Finish\<close> the second half of the newest waiting call; a position of \<open>Do_Release\<close> and
  \<open>Do_Discard\<close> counts the held leases and tickets.
\<close>

datatype pool_command =
    Do_Prefetch "byte_range list" admission_class
  | Do_Resolve "byte_range list"
  | Do_Finish
  | Do_Try "byte_range list"
  | Do_Release nat
  | Do_Discard nat
  | Do_Wont_Need "byte_range list"
  | Do_Fill nat fake_completion

definition fresh_leases :: "slot_pool \<Rightarrow> lease list" where
  "fresh_leases sp = replicate (sc_max_batch_chunks (sp_config sp)) default_lease"

definition ps_exec ::
    "sink \<Rightarrow> pool_command \<Rightarrow> fake_backend pool_system \<Rightarrow> fake_backend pool_system option" where
  "ps_exec self cmd s =
     (let sp = ps_pool s; b = ps_backend s in
      case cmd of
        Do_Prefetch ranges admission \<Rightarrow>
          (case sp_prefetch fake_submit self ranges admission sp b of
             (Inr t, sp, b) \<Rightarrow> Some (s\<lparr>ps_pool := sp, ps_backend := b, ps_tickets := t # ps_tickets s\<rparr>)
           | (Inl e, sp, b) \<Rightarrow> Some (s\<lparr>ps_pool := sp, ps_backend := b\<rparr>))
      | Do_Resolve ranges \<Rightarrow>
          (case sp_resolve_begin fake_submit self ranges (fresh_leases sp) sp b of
             None \<Rightarrow> None
           | Some (Inr n, out, sp, b) \<Rightarrow>
               Some (s\<lparr>ps_pool := sp, ps_backend := b, ps_waiting := (n, out) # ps_waiting s\<rparr>)
           | Some (Inl e, out, sp, b) \<Rightarrow> Some (s\<lparr>ps_pool := sp, ps_backend := b\<rparr>))
      | Do_Finish \<Rightarrow>
          (case ps_waiting s of
             [] \<Rightarrow> None
           | (n, out) # ws \<Rightarrow>
               (case sp_resolve_end n out sp of
                  None \<Rightarrow> None
                | Some (Inr n, out, sp) \<Rightarrow>
                    Some (s\<lparr>ps_pool := sp, ps_waiting := ws, ps_leases := ps_leases s @ take n out\<rparr>)
                | Some (Inl e, out, sp) \<Rightarrow> Some (s\<lparr>ps_pool := sp, ps_waiting := ws\<rparr>)))
      | Do_Try ranges \<Rightarrow>
          (case sp_try_resolve self ranges (fresh_leases sp) sp of
             None \<Rightarrow> None
           | Some (Inr n, out, sp) \<Rightarrow> Some (s\<lparr>ps_pool := sp, ps_leases := take n out @ ps_leases s\<rparr>)
           | Some (Inl e, out, sp) \<Rightarrow> Some (s\<lparr>ps_pool := sp\<rparr>))
      | Do_Release k \<Rightarrow>
          (if k < length (ps_leases s)
           then map_option (\<lambda>(l, sp). s\<lparr>ps_pool := sp, ps_leases := remove1 (ps_leases s ! k) (ps_leases s)\<rparr>)
                  (lease_reset (ps_leases s ! k) sp)
           else None)
      | Do_Discard k \<Rightarrow>
          (if k < length (ps_tickets s)
           then map_option (\<lambda>(t, sp). s\<lparr>ps_pool := sp, ps_tickets := remove1 (ps_tickets s ! k) (ps_tickets s)\<rparr>)
                  (ticket_reset (ps_tickets s ! k) sp)
           else None)
      | Do_Wont_Need ranges \<Rightarrow> Some (s\<lparr>ps_pool := sp_wont_need ranges sp\<rparr>)
      | Do_Fill position how \<Rightarrow>
          map_option (\<lambda>(r, res, b', m').
              s\<lparr>ps_pool := sp_on_complete (req_token r) res sp, ps_backend := b', ps_memory := m'\<rparr>)
            (fake_complete position how b (ps_memory s)))"

fun ps_run ::
    "sink \<Rightarrow> pool_command list \<Rightarrow> fake_backend pool_system \<Rightarrow> fake_backend pool_system option" where
  "ps_run self [] s = Some s"
| "ps_run self (cmd # cmds) s =
     (case ps_exec self cmd s of None \<Rightarrow> None | Some t \<Rightarrow> ps_run self cmds t)"

abbreviation fake_ps_step where
  "fake_ps_step \<equiv> ps_step fake_submit fake_outstanding fake_completes"

abbreviation fake_ps_reachable where
  "fake_ps_reachable \<equiv> ps_reachable fake_submit fake_outstanding fake_valid fake_completes"

lemma fresh_leases_empty: "\<forall>l \<in> set (fresh_leases sp). lease_pool l = None"
  by (auto simp: fresh_leases_def default_lease_def)

lemma ps_exec_step:
  assumes "ps_exec self cmd s = Some t"
  shows "fake_ps_step self s t"
proof (cases cmd)
  case (Do_Prefetch ranges admission)
  then show ?thesis
    using assms by (auto simp: ps_exec_def Let_def split: prod.splits sum.splits
        intro: ps_step.prefetched ps_step.prefetch_refused)
next
  case (Do_Resolve ranges)
  then show ?thesis
    using assms fresh_leases_empty [of "ps_pool s"]
    by (auto simp: ps_exec_def Let_def split: prod.splits sum.splits option.splits
        intro: ps_step.resolving ps_step.resolve_refused)
next
  case Do_Finish
  then obtain n out ws where w: "ps_waiting s = (n, out) # ws"
    using assms by (auto simp: ps_exec_def Let_def split: list.splits)
  then have mem: "(n, out) \<in> set (ps_waiting s)" and rem: "remove1 (n, out) (ps_waiting s) = ws"
    by simp_all
  obtain res out' sp' where run: "sp_resolve_end n out (ps_pool s) = Some (res, out', sp')"
    using assms Do_Finish w
    by (cases "sp_resolve_end n out (ps_pool s)") (auto simp: ps_exec_def Let_def)
  show ?thesis
  proof (cases res)
    case (Inl e)
    then have "t = s\<lparr>ps_pool := sp', ps_waiting := remove1 (n, out) (ps_waiting s)\<rparr>"
      using assms Do_Finish w run by (simp add: ps_exec_def Let_def)
    then show ?thesis
      using ps_step.resolve_failed [OF mem run [unfolded Inl]] by simp
  next
    case (Inr k)
    then have "t = s\<lparr>ps_pool := sp', ps_waiting := remove1 (n, out) (ps_waiting s),
        ps_leases := ps_leases s @ take k out'\<rparr>"
      using assms Do_Finish w run by (simp add: ps_exec_def Let_def)
    then show ?thesis
      using ps_step.resolved [OF mem run [unfolded Inr]] by simp
  qed
next
  case (Do_Try ranges)
  then show ?thesis
    using assms fresh_leases_empty [of "ps_pool s"]
    by (auto simp: ps_exec_def Let_def split: prod.splits sum.splits option.splits
        intro: ps_step.try_resolved ps_step.try_refused)
next
  case (Do_Release k)
  then show ?thesis
    using assms by (auto simp: ps_exec_def Let_def split: if_splits intro: ps_step.released)
next
  case (Do_Discard k)
  then show ?thesis
    using assms by (auto simp: ps_exec_def Let_def split: if_splits intro: ps_step.discarded)
next
  case (Do_Wont_Need ranges)
  then show ?thesis
    using assms by (auto simp: ps_exec_def Let_def intro: ps_step.demoted)
next
  case (Do_Fill position how)
  then obtain r res b' m' where "fake_complete position how (ps_backend s) (ps_memory s) = Some (r, res, b', m')"
    "t = s\<lparr>ps_pool := sp_on_complete (req_token r) res (ps_pool s), ps_backend := b', ps_memory := m'\<rparr>"
    using assms by (auto simp: ps_exec_def Let_def)
  then show ?thesis
    using ps_step.delivered [where completes = fake_completes and s = s, of r res b' m' fake_submit]
    by (auto simp: fake_completes_def)
qed

lemma ps_run_reachable:
  "fake_ps_reachable self s \<Longrightarrow> ps_run self cmds s = Some t \<Longrightarrow> fake_ps_reachable self t"
proof (induction cmds arbitrary: s)
  case (Cons cmd cmds)
  from Cons.prems(2) obtain u where "ps_exec self cmd s = Some u" "ps_run self cmds u = Some t"
    by (auto split: option.splits)
  with Cons.prems(1) Cons.IH show ?case
    by (blast intro: ps_reachable.step ps_exec_step)
qed simp

section \<open>A pool of three slots\<close>

text \<open>Chunks of 16 bytes of a source of 100 bytes, two tickets of at most three chunks each.\<close>

definition pool_config :: slot_pool_config where
  "pool_config =
     \<lparr>sc_source = 5, sc_source_bytes = 100, sc_slot_bytes = 16, sc_num_slots = 3,
      sc_slot_storage = \<lparr>span_data = 4096, span_size = 48\<rparr>, sc_max_tickets = 2,
      sc_max_batch_chunks = 3\<rparr>"

definition pool_start :: "fake_backend pool_system" where
  "pool_start = ps_init (sp_construct pool_config) (fake_create 8) (\<lambda>_. 205)"

lemma pool_start_reachable: "fake_ps_reachable self pool_start"
  unfolding pool_start_def
proof (rule ps_reachable.start [where config = pool_config])
  show "sp_create pool_config = Inr (sp_construct pool_config)"
    by (simp add: sp_create_def pool_config_def NONE_def UINT32_MAX_def UINT64_MAX_def)
qed (auto simp: fake_create_def fake_valid_def fake_outstanding_def)

subsection \<open>Evaluation\<close>

text \<open>
  The equations that run a pool by simplification: the definitions of its operations, and the loops
  on a literal number of rounds.
\<close>

lemmas loop_numeral =
  find_loop.simps(2) [of "pred_numeral k" for k, folded numeral_eq_Suc]
  insert_loop.simps(2) [of "pred_numeral k" for k, folded numeral_eq_Suc]
  hole_loop.simps(2) [of "pred_numeral k" for k, folded numeral_eq_Suc]
  shift_loop.simps(2) [of "pred_numeral k" for k, folded numeral_eq_Suc]
  victim_loop.simps(2) [of "pred_numeral k" for k, folded numeral_eq_Suc]
  chunk_steps.simps(2) [of "pred_numeral k" for k, folded numeral_eq_Suc]
  replicate_Suc [of "pred_numeral k" for k, folded numeral_eq_Suc]

lemmas pool_eval =
  Let_def ps_exec_def fresh_leases_def sp_resolve_begin_def validate_batch_def validate_range_def checked_end_def
  span_chunks_def range_chunks_def chunk_length_def slot_data_def slot_key_def sp_find_def sp_index_insert_def
  sp_index_erase_def make_free_def claim_victim_def sp_request_def begin_fill_def start_fill_def
  sp_is_stale_def complete_ok_def complete_failed_def sp_on_complete_def drain_waiters.simps settle_waiter_def
  unpin_locked_def release_lease_def make_lease_def distinct_slots_def lease_is_held_def lease_reset_def
  discard_ticket_def ticket_reset_def count_hint_resident_def count_coalesced_def count_admission_failure_def
  count_hint_declined_def set_outcome_def prefetch_slot_def link_waiter_def prefetch_chunk_def open_record_def
  sp_prefetch_def pin_chunk_def resolve_chunk_def sp_resolve_end_def sp_try_resolve_def
  default_slot_def default_ticket_record_def default_waiter_def default_pool_stats_def default_lease_def
  empty_span_def default_ticket_def index_find_def index_insert_def index_erase_def index_home_def index_mask_def
  fake_submit_def fake_complete_def fake_deliver_def fake_written_def fake_status_def fake_create_def
  classify_fill_def pool_start_def pool_config_def ps_init_def sp_construct_def bit_ceil_def bit_ceil_from.simps
  countr_zero.simps NONE_def UINT32_MAX_def UINT64_MAX_def remove_at_def upd_slot_def upd_counters_def upd_waiter_def upd_ticket_def loop_numeral

text \<open>
  One range over two chunks resolved and leased; a prefetch of one of these chunks and of a third,
  which is still being filled.
\<close>

definition pool_commands :: "pool_command list" where
  "pool_commands =
     [Do_Resolve [\<lparr>range_offset = 10, range_length = 20\<rparr>], Do_Fill 1 Full, Do_Fill 0 Full, Do_Finish,
      Do_Prefetch [\<lparr>range_offset = 20, range_length = 12\<rparr>, \<lparr>range_offset = 70, range_length = 5\<rparr>] Speculative]"

definition pool_state :: "fake_backend pool_system" where
  "pool_state =
     \<lparr>ps_pool =
        \<lparr>sp_config =
           \<lparr>sc_source = 5, sc_source_bytes = 100, sc_slot_bytes = 16,
              sc_num_slots = 3,
              sc_slot_storage = \<lparr>span_data = 4096, span_size = 48\<rparr>,
              sc_max_tickets = 2, sc_max_batch_chunks = 3\<rparr>,
           sp_slots =
             [\<lparr>slot_chunk = 0, slot_generation = 1, slot_pins = 1,
                 slot_waiter_head = NONE, slot_state = Slot_Ready,
                 slot_failure = Ok, slot_referenced = True,
                 slot_hint_unconsumed = False\<rparr>,
              \<lparr>slot_chunk = 1, slot_generation = 1, slot_pins = 1,
                 slot_waiter_head = NONE, slot_state = Slot_Ready,
                 slot_failure = Ok, slot_referenced = True,
                 slot_hint_unconsumed = False\<rparr>,
              \<lparr>slot_chunk = 4, slot_generation = 1, slot_pins = 0,
                 slot_waiter_head = 1, slot_state = Slot_Filling,
                 slot_failure = Ok, slot_referenced = False,
                 slot_hint_unconsumed = True\<rparr>],
           sp_index =
             [0, NONE, NONE, 2, 1, NONE,
              NONE, NONE],
           sp_tickets =
             [\<lparr>tick_generation = 1, tick_chunks = 2, tick_pending = 1,
                 tick_held = True, tick_in_use = True\<rparr>,
              \<lparr>tick_generation = 0, tick_chunks = 0, tick_pending = 0,
                 tick_held = False, tick_in_use = False\<rparr>],
           sp_waiters =
             [\<lparr>wait_next = NONE, wait_outcome = Ok\<rparr>,
              \<lparr>wait_next = NONE, wait_outcome = Pending\<rparr>,
              \<lparr>wait_next = NONE, wait_outcome = Pending\<rparr>,
              \<lparr>wait_next = NONE, wait_outcome = Pending\<rparr>,
              \<lparr>wait_next = NONE, wait_outcome = Pending\<rparr>,
              \<lparr>wait_next = NONE, wait_outcome = Pending\<rparr>],
           sp_clock_hand = 0, sp_in_flight = 1, sp_pins_total = 2,
           sp_tickets_held = 1, sp_non_free = 3,
           sp_index_shift = 61,
           sp_counters =
             \<lparr>sps_slots_total = 3, sps_slots_pinned = 0, sps_slots_ready = 0,
                sps_slots_filling = 0, sps_high_water_slots = 3,
                sps_hint_issued = 2, sps_hint_admitted = 1,
                sps_hint_resident = 1, sps_hint_declined = 0,
                sps_hint_unconsumed = 0, sps_admission_failures = 0,
                sps_resolve_hits = 0, sps_resolve_misses = 2,
                sps_coalesced = 0, sps_evictions = 0, sps_fills_failed = 0,
                sps_stale_completions = 0, sps_bytes_read = 32\<rparr>\<rparr>,
        ps_backend =
          \<lparr>fb_capacity = 8,
             fb_pending =
               [\<lparr>req_source = 5, req_source_offset = 64,
                   req_destination = \<lparr>span_data = 4128, span_size = 16\<rparr>,
                   req_token =
                     \<lparr>token_index = 2, token_generation = 1\<rparr>,
                   req_sink = 9\<rparr>],
             fb_last =
               Some
                \<lparr>req_source = 5, req_source_offset = 0,
                   req_destination = \<lparr>span_data = 4096, span_size = 16\<rparr>,
                   req_token = \<lparr>token_index = 0, token_generation = 1\<rparr>,
                   req_sink = 9\<rparr>,
             fb_accepted = 3, fb_rejected = 0\<rparr>,
        ps_memory =
          write_bytes
           (write_bytes (\<lambda>_. 205) 4112 (\<lambda>i. source_byte (16 + of_nat i))
             16)
           4096 (\<lambda>i. source_byte (of_nat i)) 16,
        ps_leases =
          [\<lparr>lease_pool = Some 9, lease_slot = 0, lease_generation = 1,
              lease_bytes = \<lparr>span_data = 4106, span_size = 6\<rparr>,
              lease_source_offset = 10\<rparr>,
           \<lparr>lease_pool = Some 9, lease_slot = 1, lease_generation = 1,
              lease_bytes = \<lparr>span_data = 4112, span_size = 14\<rparr>,
              lease_source_offset = 16\<rparr>],
        ps_waiting = [],
        ps_tickets =
          [\<lparr>ticket_pool = Some 9, ticket_record = 0, ticket_generation = 1\<rparr>]\<rparr>"

lemma pool_run: "ps_run 9 pool_commands pool_start = Some pool_state"
  by (simp add: pool_commands_def pool_state_def pool_eval cong: let_weak_cong)

lemma pool_state_reachable: "fake_ps_reachable 9 pool_state"
  using ps_run_reachable [OF pool_start_reachable pool_run] .

text \<open>A call of \<open>resolve\<close> that waits for one chunk, of which the backend has delivered a short read.\<close>

definition failed_state :: "fake_backend pool_system" where
  "failed_state =
     \<lparr>ps_pool =
        \<lparr>sp_config =
           \<lparr>sc_source = 5, sc_source_bytes = 100, sc_slot_bytes = 16,
              sc_num_slots = 3,
              sc_slot_storage = \<lparr>span_data = 4096, span_size = 48\<rparr>,
              sc_max_tickets = 2, sc_max_batch_chunks = 3\<rparr>,
           sp_slots =
             [\<lparr>slot_chunk = 0, slot_generation = 1, slot_pins = 1,
                 slot_waiter_head = NONE, slot_state = Slot_Failed,
                 slot_failure = Short_Read, slot_referenced = True,
                 slot_hint_unconsumed = False\<rparr>,
              \<lparr>slot_chunk = 0, slot_generation = 0, slot_pins = 0,
                 slot_waiter_head = NONE, slot_state = Slot_Free,
                 slot_failure = Ok, slot_referenced = False,
                 slot_hint_unconsumed = False\<rparr>,
              \<lparr>slot_chunk = 0, slot_generation = 0, slot_pins = 0,
                 slot_waiter_head = NONE, slot_state = Slot_Free,
                 slot_failure = Ok, slot_referenced = False,
                 slot_hint_unconsumed = False\<rparr>],
           sp_index =
             [NONE, NONE, NONE, NONE, NONE,
              NONE, NONE, NONE],
           sp_tickets =
             [\<lparr>tick_generation = 0, tick_chunks = 0, tick_pending = 0,
                 tick_held = False, tick_in_use = False\<rparr>,
              \<lparr>tick_generation = 0, tick_chunks = 0, tick_pending = 0,
                 tick_held = False, tick_in_use = False\<rparr>],
           sp_waiters =
             [\<lparr>wait_next = NONE, wait_outcome = Pending\<rparr>,
              \<lparr>wait_next = NONE, wait_outcome = Pending\<rparr>,
              \<lparr>wait_next = NONE, wait_outcome = Pending\<rparr>,
              \<lparr>wait_next = NONE, wait_outcome = Pending\<rparr>,
              \<lparr>wait_next = NONE, wait_outcome = Pending\<rparr>,
              \<lparr>wait_next = NONE, wait_outcome = Pending\<rparr>],
           sp_clock_hand = 1, sp_in_flight = 0, sp_pins_total = 1,
           sp_tickets_held = 0, sp_non_free = 1, sp_index_shift = 61,
           sp_counters =
             \<lparr>sps_slots_total = 3, sps_slots_pinned = 0, sps_slots_ready = 0,
                sps_slots_filling = 0, sps_high_water_slots = 1,
                sps_hint_issued = 0, sps_hint_admitted = 0,
                sps_hint_resident = 0, sps_hint_declined = 0,
                sps_hint_unconsumed = 0, sps_admission_failures = 0,
                sps_resolve_hits = 0, sps_resolve_misses = 1,
                sps_coalesced = 0, sps_evictions = 0, sps_fills_failed = 1,
                sps_stale_completions = 0, sps_bytes_read = 0\<rparr>\<rparr>,
        ps_backend =
          \<lparr>fb_capacity = 8, fb_pending = [],
             fb_last =
               Some
                \<lparr>req_source = 5, req_source_offset = 0,
                   req_destination = \<lparr>span_data = 4096, span_size = 16\<rparr>,
                   req_token = \<lparr>token_index = 0, token_generation = 1\<rparr>,
                   req_sink = 9\<rparr>,
             fb_accepted = 1, fb_rejected = 0\<rparr>,
        ps_memory =
          write_bytes (\<lambda>_. 205) 4096 (\<lambda>i. source_byte (of_nat i)) 8,
        ps_leases = [],
        ps_waiting =
          [(1,
            [\<lparr>lease_pool = Some 9, lease_slot = 0, lease_generation = 1,
                lease_bytes = \<lparr>span_data = 4099, span_size = 4\<rparr>,
                lease_source_offset = 3\<rparr>,
             \<lparr>lease_pool = None, lease_slot = 0, lease_generation = 0,
                lease_bytes = \<lparr>span_data = 0, span_size = 0\<rparr>,
                lease_source_offset = 0\<rparr>,
             \<lparr>lease_pool = None, lease_slot = 0, lease_generation = 0,
                lease_bytes = \<lparr>span_data = 0, span_size = 0\<rparr>,
                lease_source_offset = 0\<rparr>])],
        ps_tickets = []\<rparr>"

lemma failed_run:
  "ps_run 9 [Do_Resolve [\<lparr>range_offset = 3, range_length = 4\<rparr>], Do_Fill 0 Fake_Short_Read] pool_start = Some failed_state"
  by (simp add: failed_state_def pool_eval cong: let_weak_cong)

lemma failed_state_reachable: "fake_ps_reachable 9 failed_state"
  using ps_run_reachable [OF pool_start_reachable failed_run] .

end
