(* ===== verification/Slot_Pool_Props.thy ===== *)
theory Slot_Pool_Props
  imports Slot_Pool_Demo
begin

text \<open>
  What the slot pool promises, for every backend that meets its contract and every interleaving of its
  operations, with witnesses on the pool of \<open>Slot_Pool_Demo\<close>.
\<close>

section \<open>Leases\<close>

text \<open>
  C1: byte exactness. Whatever the interleaving of prefetches, resolves, evictions, partial writes,
  completions, failures, duplicate deliveries and releases, a lease that a client holds shows exactly
  the bytes of the source at its offset.
\<close>

theorem lease_bytes_exact:
  assumes "completing_backend submit outstanding valid completes content"
    and "ps_reachable submit outstanding valid completes self s"
    and "l \<in> set (ps_leases s)" and "k < lease_size l"
  shows "ps_memory s (span_data (lease_bytes l) + of_nat k)
    = content (sc_source (sp_config (ps_pool s))) (lease_source_offset l + of_nat k)"
  using lease_content [OF _ assms(3,4)] completing_backend.ps_reachable_inv [OF assms(1,2)]
  by (auto simp: ps_inv_def)

theorem lease_bytes_exact_witness:
  "ps_memory pool_state (4112 + of_nat 3) = fake_content 5 (16 + of_nat 3)"
proof -
  let ?l = "ps_leases pool_state ! 1"
  have l: "?l \<in> set (ps_leases pool_state)" "3 < lease_size ?l"
    and eq: "span_data (lease_bytes ?l) = 4112" "lease_source_offset ?l = 16"
      "sc_source (sp_config (ps_pool pool_state)) = 5"
    by (simp_all add: pool_state_def lease_size_def)
  show ?thesis
    using lease_bytes_exact [OF fake.completing_backend_axioms pool_state_reachable l] unfolding eq .
qed

text \<open>
  C4: the memory of a lease has no writer: no request that the backend still owns meets the bytes of a
  lease a client holds, nor those of a waiting \<open>resolve\<close> except for the very fill it waits for.
\<close>

theorem leased_bytes_not_written:
  assumes "completing_backend submit outstanding valid completes content"
    and "ps_reachable submit outstanding valid completes self s"
    and "l \<in> set (all_leases s)" and "r \<in># outstanding (ps_backend s)"
    and "l \<in> set (ps_leases s) \<or> token_index (req_token r) \<noteq> lease_slot l"
  shows "span_addrs (req_destination r) \<inter> span_addrs (lease_bytes l) = {}"
proof -
  have inv: "pool_inv outstanding valid content (ps_leases s) self (all_leases s) (ps_pool s) (ps_backend s)
      (ps_memory s)"
    using completing_backend.ps_reachable_inv [OF assms(1,2)] by (simp add: ps_inv_def)
  have "token_index (req_token r) \<noteq> lease_slot l \<or>
      slot_state (sp_slots (ps_pool s) ! lease_slot l) \<noteq> Slot_Filling"
    using assms(5) pool_invD(2) [OF inv] by (auto simp: leases_ok_def)
  then show ?thesis
    by (rule request_lease_disjoint [OF inv assms(3,4)])
qed

theorem leased_bytes_not_written_witness:
  "span_addrs (req_destination (fb_pending (ps_backend pool_state) ! 0))
     \<inter> span_addrs (lease_bytes (ps_leases pool_state ! 0)) = {}"
  by (rule leased_bytes_not_written [OF fake.completing_backend_axioms pool_state_reachable])
    (simp_all add: pool_state_def all_leases_def fake_outstanding_def)

text \<open>
  C24: releasing a held lease and dropping a held ticket never reach \<open>std::terminate\<close>, and destroying
  the pool terminates exactly when a fill is in flight, a lease is held or pinned by a waiting
  \<open>resolve\<close>, or a ticket is held.
\<close>

theorem pool_release_and_destroy_safe:
  assumes "terminal_backend submit outstanding valid completes content"
    and "ps_reachable submit outstanding valid completes self s"
  shows "(\<forall>l \<in> set (ps_leases s). lease_reset l (ps_pool s) \<noteq> None) \<and>
    (\<forall>t \<in> set (ps_tickets s). ticket_reset t (ps_pool s) \<noteq> None) \<and>
    (sp_destroy (ps_pool s) = Some () \<longleftrightarrow>
       outstanding (ps_backend s) = {#} \<and> all_leases s = [] \<and> ps_tickets s = [])"
proof -
  have cb: "completing_backend submit outstanding valid completes content"
    using assms(1) by (rule terminal_backend.axioms)
  have inv: "pool_inv outstanding valid content (ps_leases s) self (all_leases s) (ps_pool s) (ps_backend s)
      (ps_memory s)"
    using completing_backend.ps_reachable_inv [OF cb assms(2)] by (simp add: ps_inv_def)
  have tk: "waiters_ok (ps_pool s)" "tickets_ok self (ps_pool s) (ps_tickets s)"
    using terminal_backend.ps_reachable_tickets [OF assms] by (simp_all add: ps_tickets_inv_def)
  have "lease_reset l (ps_pool s) \<noteq> None" if "l \<in> set (ps_leases s)" for l
    using release_lease_held [OF inv, of l] that by (simp add: all_leases_def)
  moreover have "ticket_reset t (ps_pool s) \<noteq> None" if "t \<in> set (ps_tickets s)" for t
    using ticket_reset_held [OF tk(2) that] by auto
  moreover have "sp_tickets_held (ps_pool s) = 0 \<longleftrightarrow> ps_tickets s = []"
    using tickets_held_none [OF tk] .
  ultimately show ?thesis
    using in_flight_outstanding [OF inv] pins_no_leases [OF inv] by (auto simp: sp_destroy_def)
qed

theorem pool_release_and_destroy_safe_witness:
  "lease_reset (ps_leases pool_state ! 1) (ps_pool pool_state) \<noteq> None \<and>
   ticket_reset (ps_tickets pool_state ! 0) (ps_pool pool_state) \<noteq> None \<and>
   sp_destroy (ps_pool pool_state) = None"
proof -
  have mem: "ps_leases pool_state ! 1 \<in> set (ps_leases pool_state)"
    "ps_tickets pool_state ! 0 \<in> set (ps_tickets pool_state)" "ps_tickets pool_state \<noteq> []"
    by (simp_all add: pool_state_def)
  then show ?thesis
    using pool_release_and_destroy_safe [OF fake.terminal_backend_axioms pool_state_reachable]
    by (cases "sp_destroy (ps_pool pool_state)") auto
qed

section \<open>Requests\<close>

text \<open>The check of a request over the natural numbers, where nothing wraps.\<close>

fun batch_spec :: "slot_pool_config \<Rightarrow> byte_range list \<Rightarrow> nat \<Rightarrow> status \<times> nat" where
  "batch_spec config [] n = (if n = 0 then Empty_Range else Ok, n)"
| "batch_spec config (rng # ranges) n =
     (let off = unat (range_offset rng); len = unat (range_length rng); size = unat (sc_slot_bytes config);
          chunks = (off + len - 1) div size - off div size + 1
      in if len = 0 then (Empty_Range, n)
         else if off + len > unat (sc_source_bytes config) then (Out_Of_Range, n)
         else if n + chunks > sc_max_batch_chunks config then (Batch_Too_Large, n)
         else batch_spec config ranges (n + chunks))"

lemma validate_loop_spec:
  assumes "0 < unat (sc_slot_bytes config)" "sc_max_batch_chunks config < 18446744073709551616"
  shows "unat chunks \<le> sc_max_batch_chunks config \<Longrightarrow>
    (case validate_loop config ranges chunks of (st, n) \<Rightarrow> (st, unat n)) = batch_spec config ranges (unat chunks)"
proof (induction ranges arbitrary: chunks)
  case Nil
  then show ?case
    by (simp add: unat_eq_zero)
next
  case (Cons rng ranges)
  let ?m = "of_nat (sc_max_batch_chunks config) :: u64"
  have m: "unat ?m = sc_max_batch_chunks config"
    using assms(2) by (rule unat_of_nat_64)
  show ?case
  proof (cases "validate_range rng (sc_source_bytes config) = Ok")
    case False
    then show ?thesis
      by (auto simp: validate_range_unat Let_def split: if_splits)
  next
    case True
    then have ok: "range_ok config rng"
      by (simp add: validate_range_ok)
    have span: "unat (span_chunks config rng) = last_chunk config rng - first_chunk config rng + 1"
      using length_range_chunks(1) [OF ok assms(1)] by (simp add: range_chunks_eq [OF ok])
    have le: "chunks \<le> ?m"
      using Cons.prems m by (simp only: word_le_nat_alt)
    have big: "span_chunks config rng > ?m - chunks \<longleftrightarrow>
        unat chunks + unat (span_chunks config rng) > sc_max_batch_chunks config"
      using Cons.prems unat_minus_64 [OF le] m by (simp only: word_less_nat_alt) linarith
    have add: "unat (chunks + span_chunks config rng) = unat chunks + unat (span_chunks config rng)"
      if "\<not> span_chunks config rng > ?m - chunks"
      using that big assms(2) by (intro unat_plus_64) linarith
    have rng: "unat (range_length rng) \<noteq> 0"
      "unat (range_offset rng) + unat (range_length rng) \<le> unat (sc_source_bytes config)"
      using ok by (simp_all add: range_ok_def)
    show ?thesis
    proof (cases "span_chunks config rng > ?m - chunks")
      case huge: True
      then show ?thesis
        using True big span rng by (simp add: Let_def first_chunk_def last_chunk_def)
    next
      case False
      then have "unat (chunks + span_chunks config rng) \<le> sc_max_batch_chunks config"
        using add big by simp
      from Cons.IH [OF this] show ?thesis
        using True False big add span rng by (simp add: Let_def first_chunk_def last_chunk_def)
    qed
  qed
qed

text \<open>
  The check of a batch is exact. With the parameters that \<open>create\<close> accepts, none of its 64-bit sums,
  differences and quotients wraps: it reports the first offending range, refuses a batch as too large
  exactly when its chunks exceed the bound, and otherwise returns their number.
\<close>

theorem validate_batch_exact:
  assumes "sp_create config = Inr sp"
  shows "validate_batch config ranges = batch_spec config ranges 0"
  using validate_loop_spec [OF config_ok_bounds(1,2) [OF sp_create_Inr(1) [OF assms]], of 0 ranges]
  by (simp add: validate_batch_def)

theorem validate_batch_exact_witness:
  "validate_batch pool_config [\<lparr>range_offset = 0, range_length = 16\<rparr>,
      \<lparr>range_offset = 18446744073709551615, range_length = 2\<rparr>] = (Out_Of_Range, 1)"
proof -
  have "sp_create pool_config = Inr (sp_construct pool_config)"
    by (simp add: sp_create_def pool_config_def NONE_def UINT32_MAX_def UINT64_MAX_def)
  then show ?thesis
    by (subst validate_batch_exact) (simp_all add: pool_config_def Let_def)
qed

section \<open>Resolve\<close>

lemma reachable_pool_inv:
  assumes "completing_backend submit outstanding valid completes content"
    and "ps_reachable submit outstanding valid completes self s"
  shows "pool_inv outstanding valid content (ps_leases s) self (all_leases s) (ps_pool s) (ps_backend s)
      (ps_memory s)"
  using completing_backend.ps_reachable_inv [OF assms] by (simp add: ps_inv_def)

text \<open>
  C10: coverage. When the first part of \<open>resolve\<close> succeeds, its leases cut each requested range, in order
  and without gap or overlap, into non-empty consecutive segments; so do those of \<open>try_resolve\<close>, which
  moreover succeeds exactly when every chunk of the request is resident.
\<close>

theorem resolve_covers_request:
  assumes "completing_backend submit outstanding valid completes content"
    and "ps_reachable submit outstanding valid completes self s"
    and "\<forall>l \<in> set out. lease_pool l = None"
    and "sp_resolve_begin submit self ranges out (ps_pool s) (ps_backend s) = Some (Inr pinned, out', sp', b')"
  shows "pinned \<le> length out' \<and> batch_tiles ranges (take pinned out') \<and>
    (\<forall>l \<in> set (take pinned out'). lease_pool l = Some self)"
proof -
  note inv = reachable_pool_inv [OF assms(1,2)]
  have sub: "set (ps_leases s) \<subseteq> set (all_leases s)"
    by (simp add: all_leases_def)
  have cases: "pinned \<le> length out' \<and>
      pool_inv outstanding valid content (ps_leases s) self (take pinned out' @ all_leases s) sp' b' (ps_memory s) \<and>
      batch_ok (sp_config (ps_pool s)) ranges \<and>
      list_all2 (lease_for self (sp_config (ps_pool s))) (for_each_chunk (sp_config (ps_pool s)) ranges)
        (take pinned out')"
    using completing_backend.resolve_begin_cases(2) [OF assms(1) inv sub assms(3,4)] by simp
  then have "leases_ok (ps_leases s) self (take pinned out' @ all_leases s) sp'"
    by (auto dest: pool_invD(2))
  then have "lease_pool l = Some self" if "l \<in> set (take pinned out')" for l
    using lease_pinned(1) [of _ self "take pinned out' @ all_leases s" sp' l] that by (simp add: lease_ok_def)
  then show ?thesis
    using cases batch_tiles_leases [OF core_okD(1) [OF pool_invD(1) [OF inv]]] by blast
qed

theorem resolve_covers_request_witness:
  "case sp_resolve_begin fake_submit 9 [\<lparr>range_offset = 5, range_length = 20\<rparr>] [default_lease, default_lease]
      (ps_pool pool_state) (ps_backend pool_state) of
     Some (Inr pinned, out', sp', b') \<Rightarrow>
       pinned = 2 \<and> batch_tiles [\<lparr>range_offset = 5, range_length = 20\<rparr>] (take 2 out')
   | _ \<Rightarrow> False"
proof -
  obtain out' sp' b' where run: "sp_resolve_begin fake_submit 9 [\<lparr>range_offset = 5, range_length = 20\<rparr>]
      [default_lease, default_lease] (ps_pool pool_state) (ps_backend pool_state) = Some (Inr 2, out', sp', b')"
    by (simp add: pool_state_def pool_eval cong: let_weak_cong)
  have free: "\<forall>l \<in> set [default_lease, default_lease]. lease_pool l = None"
    by (simp add: default_lease_def)
  show ?thesis
    using resolve_covers_request [OF fake.completing_backend_axioms pool_state_reachable free run]
    unfolding run by (simp del: batch_tiles.simps)
qed

text \<open>
  The leases of slot \<open>i\<close> that an output array holds. An output whose held leases are handles of the client
  (each once) can be passed to \<open>resolve\<close>; the entries it needs are released first.
\<close>

definition held_in :: "nat \<Rightarrow> lease list \<Rightarrow> nat" where
  "held_in i leases = length (filter (\<lambda>l. lease_is_held l \<and> lease_slot l = i) leases)"

lemma held_split:
  assumes "completing_backend submit outstanding valid completes content"
    and "ps_reachable submit outstanding valid completes self s"
    and "mset (filter lease_is_held out) \<subseteq># mset (ps_leases s)"
  obtains L where "pool_inv outstanding valid content [] self (filter lease_is_held (take k out) @ L)
      (ps_pool s) (ps_backend s) (ps_memory s)"
proof -
  have "filter lease_is_held out = filter lease_is_held (take k out) @ filter lease_is_held (drop k out)"
    by (simp flip: filter_append)
  then have "mset (filter lease_is_held (take k out)) \<subseteq># mset (filter lease_is_held out)"
    by simp
  also have "\<dots> \<subseteq># mset (all_leases s)"
    using assms(3) by (simp add: all_leases_def subset_mset.add_increasing2)
  finally obtain M where "mset (all_leases s) = mset (filter lease_is_held (take k out)) + M"
    by (metis mset_subset_eq_exists_conv)
  moreover obtain L where "mset L = M"
    using ex_mset by blast
  ultimately have "mset (filter lease_is_held (take k out) @ L) = mset (all_leases s)"
    by simp
  moreover have "pool_inv outstanding valid content [] self (all_leases s) (ps_pool s) (ps_backend s) (ps_memory s)"
    by (rule completing_backend.pool_inv_fewer [OF assms(1) reachable_pool_inv [OF assms(1,2)]]) simp
  ultimately show thesis
    using completing_backend.pool_inv_mset [OF assms(1)] that by blast
qed

lemma pins_moved:
  assumes before: "pool_inv outstanding valid content R self (filter lease_is_held xs @ L) sp b m"
    and after: "pool_inv outstanding valid content R' self (filter lease_is_held ys @ L) sp' b' m'"
    and same: "rest_same sp sp'" and i: "i < length (sp_slots sp)"
  shows "slot_pins (sp_slots sp' ! i) + held_in i xs = slot_pins (sp_slots sp ! i) + held_in i ys"
proof -
  have "length (sp_slots sp') = length (sp_slots sp)"
    using same length_heads [of sp'] length_heads [of sp] by (simp add: rest_same_def)
  then show ?thesis
    using leases_pins [OF pool_invD(2) [OF before] i] leases_pins [OF pool_invD(2) [OF after], of i] i
    by (simp add: held_in_def count_where_def conj_commute)
qed

lemma held_in_none: "\<forall>l \<in> set ls. lease_pool l = None \<Longrightarrow> filter lease_is_held ls = [] \<and> held_in i ls = 0"
  by (auto simp: held_in_def lease_is_held_def filter_empty_conv)

text \<open>
  C19: all or nothing, whatever leases the output still holds. \<open>resolve\<close> before its wait never terminates the
  program. A request that fails validation, or whose output is too small, changes nothing. Otherwise only the
  first entries of the output change, as many as the request has chunks: either all of them hold leases of this
  pool, or it fails (pool exhausted, batch too large for the pool, queue full) and all of them are empty. The pins
  of every slot change by exactly the leases that these entries held before and hold now: no other pin is
  taken or lost.
\<close>

theorem resolve_begin_all_or_nothing:
  assumes "completing_backend submit outstanding valid completes content"
    and "ps_reachable submit outstanding valid completes self s"
    and "mset (filter lease_is_held out) \<subseteq># mset (ps_leases s)"
    and "validate_batch (sp_config (ps_pool s)) ranges = (status, chunks)"
  shows "\<exists>res out' sp' b'. sp_resolve_begin submit self ranges out (ps_pool s) (ps_backend s) = Some (res, out', sp', b') \<and>
    (if status = Ok \<and> chunks \<le> length out
     then length out' = length out \<and> drop chunks out' = drop chunks out \<and>
       (case res of
          Inl e \<Rightarrow> e \<in> {Batch_Too_Large, Pool_Exhausted, Queue_Exhausted} \<and> (\<forall>l \<in> set (take chunks out'). lease_pool l = None)
        | Inr pinned \<Rightarrow> pinned = chunks \<and> (\<forall>l \<in> set (take chunks out'). lease_pool l = Some self)) \<and>
       (\<forall>i < length (sp_slots (ps_pool s)).
          slot_pins (sp_slots sp' ! i) + held_in i (take chunks out)
            = slot_pins (sp_slots (ps_pool s) ! i) + held_in i (take chunks out'))
     else res = Inl (if status = Ok then Batch_Too_Large else status) \<and> out' = out \<and> sp' = ps_pool s \<and> b' = ps_backend s)"
proof (cases "status = Ok \<and> chunks \<le> length out")
  case False
  then show ?thesis
    using assms(4) by (auto simp: sp_resolve_begin_def)
next
  case True
  then have batch: "validate_batch (sp_config (ps_pool s)) ranges = (Ok, chunks)" and room: "chunks \<le> length out"
    using assms(4) by simp_all
  obtain L where inv: "pool_inv outstanding valid content [] self (filter lease_is_held (take chunks out) @ L)
      (ps_pool s) (ps_backend s) (ps_memory s)"
    using held_split [OF assms(1-3)] .
  have sub: "set [] \<subseteq> set L"
    by simp
  obtain res out' sp' b' where
      run: "sp_resolve_begin submit self ranges out (ps_pool s) (ps_backend s) = Some (res, out', sp', b')"
      and len: "length out' = length out" and rest: "rest_same (ps_pool s) sp'" and dr: "drop chunks out' = drop chunks out"
      and out: "case res of
         Inl e \<Rightarrow> e \<in> {Batch_Too_Large, Pool_Exhausted, Queue_Exhausted} \<and>
           pool_inv outstanding valid content [] self L sp' b' (ps_memory s)
       | Inr pinned \<Rightarrow> pinned = chunks \<and>
           pool_inv outstanding valid content [] self (take chunks out' @ L) sp' b' (ps_memory s) \<and>
           list_all2 (lease_for self (sp_config (ps_pool s))) (for_each_chunk (sp_config (ps_pool s)) ranges) (take chunks out')"
    by (rule completing_backend.pool_inv_resolve_begin [OF assms(1) inv sub batch room])
  show ?thesis
  proof (cases res)
    case (Inl e)
    have empty: "\<forall>l \<in> set (take chunks out'). lease_pool l = None"
      by (rule resolve_begin_refused [OF batch room run [unfolded Inl]])
    have "pool_inv outstanding valid content [] self (filter lease_is_held (take chunks out') @ L) sp' b' (ps_memory s)"
      using out Inl held_in_none [OF empty] by simp
    note pins = pins_moved [OF inv this rest]
    show ?thesis
      using run len dr out Inl True empty pins by simp
  next
    case (Inr pinned)
    note after = out [unfolded Inr sum.case]
    have held: "\<forall>l \<in> set (take chunks out'). lease_pool l = Some self"
      using lease_pinned(1) [OF pool_invD(2) [OF conjunct1 [OF conjunct2 [OF after]]]] by (simp add: lease_ok_def)
    then have "filter lease_is_held (take chunks out') = take chunks out'"
      by (simp add: filter_id_conv lease_is_held_def)
    then have "pool_inv outstanding valid content [] self (filter lease_is_held (take chunks out') @ L) sp' b' (ps_memory s)"
      using after by simp
    note pins = pins_moved [OF inv this rest]
    show ?thesis
      using run len dr after Inr True held pins by simp
  qed
qed

text \<open>
  A request of three chunks into an output that holds both leases, the second one behind the entries needed: the
  pool is exhausted, the needed entries are empty, slot 1 has lost its pin, and slot 0 has kept it.
\<close>

definition full_output :: "lease list" where
  "full_output = [default_lease, ps_leases pool_state ! 1, default_lease, ps_leases pool_state ! 0]"

lemma full_output_held: "mset (filter lease_is_held full_output) \<subseteq># mset (ps_leases pool_state)"
proof -
  have "mset (filter lease_is_held full_output) = mset (ps_leases pool_state)"
    by (simp add: full_output_def pool_state_def lease_is_held_def default_lease_def add_mset_commute)
  then show ?thesis
    by simp
qed

theorem resolve_begin_all_or_nothing_witness:
  "case sp_resolve_begin fake_submit 9 [\<lparr>range_offset = 20, range_length = 30\<rparr>] full_output
      (ps_pool pool_state) (ps_backend pool_state) of
     Some (Inl e, out', sp', b') \<Rightarrow> e = Pool_Exhausted \<and> filter lease_is_held out' = [ps_leases pool_state ! 0] \<and>
       slot_pins (sp_slots sp' ! 1) = 0 \<and> slot_pins (sp_slots sp' ! 0) = 1
   | _ \<Rightarrow> False"
proof -
  let ?ranges = "[\<lparr>range_offset = 20, range_length = 30\<rparr>]"
  obtain out' sp' b' where run: "sp_resolve_begin fake_submit 9 ?ranges full_output
      (ps_pool pool_state) (ps_backend pool_state) = Some (Inl Pool_Exhausted, out', sp', b')"
    by (simp add: pool_state_def full_output_def pool_eval cong: let_weak_cong)
  have batch: "validate_batch (sp_config (ps_pool pool_state)) ?ranges = (Ok, 3)"
    by (simp add: pool_state_def pool_eval cong: let_weak_cong)
  have facts: "length full_output = 4" "length (sp_slots (ps_pool pool_state)) = 3"
    "slot_pins (sp_slots (ps_pool pool_state) ! 0) = 1" "slot_pins (sp_slots (ps_pool pool_state) ! 1) = 1"
    "held_in 0 (take 3 full_output) = 0" "held_in 1 (take 3 full_output) = 1" "drop 3 full_output = [ps_leases pool_state ! 0]"
    "lease_is_held (ps_leases pool_state ! 0)"
    by (simp_all add: full_output_def pool_state_def held_in_def lease_is_held_def default_lease_def)
  from resolve_begin_all_or_nothing [OF fake.completing_backend_axioms pool_state_reachable full_output_held batch]
  have post: "drop 3 out' = drop 3 full_output" "\<forall>l \<in> set (take 3 out'). lease_pool l = None"
    "\<forall>i < 3. slot_pins (sp_slots sp' ! i) + held_in i (take 3 full_output)
        = slot_pins (sp_slots (ps_pool pool_state) ! i) + held_in i (take 3 out')"
    unfolding run facts(1,2) by simp_all
  have "out' = take 3 out' @ [ps_leases pool_state ! 0]"
    using post(1) facts(7) by (metis append_take_drop_id)
  then have "filter lease_is_held out' = [ps_leases pool_state ! 0]"
    using held_in_none [OF post(2)] facts(8) by (metis append_Nil filter.simps filter_append)
  moreover have "slot_pins (sp_slots sp' ! 1) = 0" "slot_pins (sp_slots sp' ! 0) = 1"
    using post(3) [rule_format, of 1] post(3) [rule_format, of 0] facts(3-6) held_in_none [OF post(2)] by simp_all
  ultimately show ?thesis
    unfolding run by simp
qed

text \<open>
  C20: when \<open>resolve\<close> fails after its wait, because a fill it joined has failed, its output is empty again
  and the pins that remain are exactly those of the other leases.
\<close>

theorem resolve_end_all_or_nothing:
  assumes "completing_backend submit outstanding valid completes content"
    and "ps_reachable submit outstanding valid completes self s"
    and "(pinned, out) \<in> set (ps_waiting s)"
    and "sp_resolve_end pinned out (ps_pool s) = Some (Inl e, out', sp')"
  shows "e \<noteq> Ok \<and> (\<forall>l \<in> set (take pinned out'). lease_pool l = None) \<and>
    (\<forall>i < length (sp_slots (ps_pool s)). slot_pins (sp_slots sp' ! i) = count_where (\<lambda>l. lease_slot l = i)
       (ps_leases s @ waiting_leases (remove1 (pinned, out) (ps_waiting s))))"
proof -
  have inv: "ps_inv outstanding valid content self s"
    using completing_backend.ps_reachable_inv [OF assms(1,2)] .
  note W = completing_backend.ps_waiting_split [OF assms(1) inv assms(3)]
  have len: "pinned \<le> length out"
    using completing_backend.ps_invD(2) [OF assms(1) inv assms(3)] .
  note E = completing_backend.pool_inv_resolve_end [OF assms(1) W _ len assms(4)]
  have "length (sp_slots sp') = length (sp_slots (ps_pool s))"
    using E(3) length_heads [of sp'] length_heads [of "ps_pool s"] by (simp add: rest_same_def)
  then show ?thesis
    using E(4) leases_pins by (auto dest!: pool_invD(2))
qed

theorem resolve_end_all_or_nothing_witness:
  "case sp_resolve_end 1 (snd (ps_waiting failed_state ! 0)) (ps_pool failed_state) of
     Some (Inl e, out', sp') \<Rightarrow> e = Short_Read \<and> slot_pins (sp_slots sp' ! 0) = 0
   | _ \<Rightarrow> False"
proof -
  let ?out = "snd (ps_waiting failed_state ! 0)"
  have mem: "(1, ?out) \<in> set (ps_waiting failed_state)"
    and facts: "length (sp_slots (ps_pool failed_state)) = 3"
      "ps_leases failed_state @ waiting_leases (remove1 (1, ?out) (ps_waiting failed_state)) = []"
    by (simp_all add: failed_state_def waiting_leases_def)
  obtain out' sp' where run: "sp_resolve_end 1 ?out (ps_pool failed_state) = Some (Inl Short_Read, out', sp')"
    by (simp add: failed_state_def pool_eval cong: let_weak_cong)
  show ?thesis
    using resolve_end_all_or_nothing [OF fake.completing_backend_axioms failed_state_reachable mem run] facts
    unfolding run by simp
qed

text \<open>
  C21: \<open>try_resolve\<close> decides exactly, whatever leases the output still holds. A request that fails validation, or
  whose output is too small, changes nothing. Otherwise the first entries of the output are released, one per
  chunk of the request; then, exactly when every chunk is resident, they get one lease of a ready slot per chunk, in
  order, and else it reports not resident and leaves them empty. No residency changes, and the pins of every slot
  change by exactly the leases that these entries held before and hold now.
\<close>

theorem try_resolve_decides:
  assumes "completing_backend submit outstanding valid completes content"
    and "ps_reachable submit outstanding valid completes self s"
    and "mset (filter lease_is_held out) \<subseteq># mset (ps_leases s)"
    and "validate_batch (sp_config (ps_pool s)) ranges = (status, chunks)"
  shows "\<exists>res out' sp'. sp_try_resolve self ranges out (ps_pool s) = Some (res, out', sp') \<and>
    (if status = Ok \<and> chunks \<le> length out
     then length out' = length out \<and> drop chunks out' = drop chunks out \<and>
       (if set (map fst (for_each_chunk (sp_config (ps_pool s)) ranges)) \<subseteq> resident (ps_pool s)
        then res = Inr chunks \<and> batch_tiles ranges (take chunks out') \<and>
             (\<forall>l \<in> set (take chunks out'). lease_pool l = Some self \<and>
                slot_state (sp_slots sp' ! lease_slot l) = Slot_Ready)
        else res = Inl Not_Resident \<and> (\<forall>l \<in> set (take chunks out'). lease_pool l = None)) \<and>
       (\<forall>i < length (sp_slots (ps_pool s)).
          slot_pins (sp_slots sp' ! i) + held_in i (take chunks out)
            = slot_pins (sp_slots (ps_pool s) ! i) + held_in i (take chunks out'))
     else res = Inl (if status = Ok then Batch_Too_Large else status) \<and> out' = out \<and> sp' = ps_pool s)"
proof (cases "status = Ok \<and> chunks \<le> length out")
  case False
  then show ?thesis
    using assms(4) by (auto simp: sp_try_resolve_def)
next
  case True
  let ?c = "sp_config (ps_pool s)"
  have batch: "validate_batch ?c ranges = (Ok, chunks)" and room: "chunks \<le> length out"
    using assms(4) True by simp_all
  obtain L where inv: "pool_inv outstanding valid content [] self (filter lease_is_held (take chunks out) @ L)
      (ps_pool s) (ps_backend s) (ps_memory s)"
    using held_split [OF assms(1-3)] .
  have cfg: "config_ok ?c"
    using core_okD(1) [OF pool_invD(1) [OF inv]] .
  have sub: "set [] \<subseteq> set L"
    by simp
  obtain res out' sp' where
      run: "sp_try_resolve self ranges out (ps_pool s) = Some (res, out', sp')"
      and len: "length out' = length out" and rest: "rest_same (ps_pool s) sp'" and dr: "drop chunks out' = drop chunks out"
      and out: "case res of
         Inl e \<Rightarrow> e = Not_Resident \<and> pool_inv outstanding valid content [] self L sp' (ps_backend s) (ps_memory s)
       | Inr pinned \<Rightarrow> pinned = chunks \<and>
           pool_inv outstanding valid content [] self (take chunks out' @ L) sp' (ps_backend s) (ps_memory s) \<and>
           list_all2 (lease_for self ?c) (for_each_chunk ?c ranges) (take chunks out') \<and>
           (\<forall>l \<in> set (take chunks out'). slot_state (sp_slots sp' ! lease_slot l) = Slot_Ready)"
    by (rule completing_backend.pool_inv_try_resolve [OF assms(1) inv sub batch room])
  from completing_backend.pool_inv_release_all [OF assms(1) inv sub] obtain released sp1 where
      rel: "release_all (take chunks out) (ps_pool s) = Some (released, sp1)" and same: "rest_same (ps_pool s) sp1"
      and core: "core_ok sp1"
    by (auto dest: pool_invD(1))
  note empty = release_all_empties [OF rel]
  have decided: "all_ready (map fst (for_each_chunk (sp_config sp1) ranges)) sp1 \<longleftrightarrow>
      set (map fst (for_each_chunk ?c ranges)) \<subseteq> resident (ps_pool s)"
    using all_ready_resident [OF core] empty same by (simp add: rest_same_def)
  show ?thesis
  proof (cases res)
    case (Inl e)
    have miss: "\<not> set (map fst (for_each_chunk ?c ranges)) \<subseteq> resident (ps_pool s)" "out' = released @ drop chunks out"
      using run Inl batch room rel unfolding decided [symmetric]
      by (auto simp: sp_try_resolve_def Let_def split: if_splits prod.splits)
    then have gone: "\<forall>l \<in> set (take chunks out'). lease_pool l = None"
      using empty room by simp
    have "pool_inv outstanding valid content [] self (filter lease_is_held (take chunks out') @ L) sp' (ps_backend s) (ps_memory s)"
      using out Inl held_in_none [OF gone] by simp
    note pins = pins_moved [OF inv this rest]
    show ?thesis
      using run len dr out Inl True miss gone pins by simp
  next
    case (Inr pinned)
    note after = out [unfolded Inr sum.case]
    have hit: "set (map fst (for_each_chunk ?c ranges)) \<subseteq> resident (ps_pool s)"
      using run Inr batch room rel unfolding decided [symmetric]
      by (auto simp: sp_try_resolve_def Let_def split: if_splits prod.splits)
    have held: "\<forall>l \<in> set (take chunks out'). lease_pool l = Some self"
      using lease_pinned(1) [OF pool_invD(2) [OF conjunct1 [OF conjunct2 [OF after]]]] by (simp add: lease_ok_def)
    then have "filter lease_is_held (take chunks out') = take chunks out'"
      by (simp add: filter_id_conv lease_is_held_def)
    then have "pool_inv outstanding valid content [] self (filter lease_is_held (take chunks out') @ L) sp' (ps_backend s) (ps_memory s)"
      using after by simp
    note pins = pins_moved [OF inv this rest]
    have "batch_tiles ranges (take chunks out')"
      using batch_tiles_leases [OF cfg validate_batch_Ok(1) [OF cfg batch]] after by blast
    then show ?thesis
      using run len dr after Inr True hit held pins by simp
  qed
qed

text \<open>
  Two resident chunks into an output that still holds the lease of one of them; and the chunk that is being
  filled, into the same output: the lease is gone all the same.
\<close>

theorem try_resolve_decides_witness:
  "(\<exists>out' sp'. sp_try_resolve 9 [\<lparr>range_offset = 5, range_length = 20\<rparr>] full_output (ps_pool pool_state) = Some (Inr 2, out', sp') \<and>
     batch_tiles [\<lparr>range_offset = 5, range_length = 20\<rparr>] (take 2 out')) \<and>
   (\<exists>out' sp'. sp_try_resolve 9 [\<lparr>range_offset = 50, range_length = 30\<rparr>] full_output (ps_pool pool_state)
       = Some (Inl Not_Resident, out', sp') \<and> slot_pins (sp_slots sp' ! 1) = 0)"
proof -
  let ?hit = "[\<lparr>range_offset = 5, range_length = 20\<rparr>]" and ?miss = "[\<lparr>range_offset = 50, range_length = 30\<rparr>]"
  have batch: "validate_batch (sp_config (ps_pool pool_state)) ?hit = (Ok, 2)"
    "validate_batch (sp_config (ps_pool pool_state)) ?miss = (Ok, 2)"
    by (simp_all add: pool_state_def pool_eval cong: let_weak_cong)
  have resident: "set (map fst (for_each_chunk (sp_config (ps_pool pool_state)) ?hit)) \<subseteq> resident (ps_pool pool_state)"
    "\<not> set (map fst (for_each_chunk (sp_config (ps_pool pool_state)) ?miss)) \<subseteq> resident (ps_pool pool_state)"
    by (simp_all add: pool_state_def pool_eval resident_def cong: let_weak_cong)
  have facts: "length full_output = 4" "length (sp_slots (ps_pool pool_state)) = 3"
    "slot_pins (sp_slots (ps_pool pool_state) ! 1) = 1" "held_in 1 (take 2 full_output) = 1"
    by (simp_all add: full_output_def pool_state_def held_in_def lease_is_held_def default_lease_def)
  note decides = try_resolve_decides [OF fake.completing_backend_axioms pool_state_reachable full_output_held]
  from decides [OF batch(2)] obtain out' sp' where
      run: "sp_try_resolve 9 ?miss full_output (ps_pool pool_state) = Some (Inl Not_Resident, out', sp')"
      and gone: "\<forall>l \<in> set (take 2 out'). lease_pool l = None"
      and pins: "\<forall>i < 3. slot_pins (sp_slots sp' ! i) + held_in i (take 2 full_output)
          = slot_pins (sp_slots (ps_pool pool_state) ! i) + held_in i (take 2 out')"
    unfolding facts(1,2) if_not_P [OF resident(2)] by auto
  have "slot_pins (sp_slots sp' ! 1) = 0"
    using pins [rule_format, of 1] facts(3,4) held_in_none [OF gone] by simp
  moreover from decides [OF batch(1)] have "\<exists>out' sp'. sp_try_resolve 9 ?hit full_output (ps_pool pool_state) = Some (Inr 2, out', sp') \<and>
     batch_tiles ?hit (take 2 out')"
    unfolding facts(1) if_P [OF resident(1)] by (auto simp del: batch_tiles.simps)
  ultimately show ?thesis
    using run by blast
qed

section \<open>The chunk index of a pool\<close>

text \<open>
  C11: in every reachable state the probe loops of the index end, and a lookup returns exactly the one
  slot that is filling or ready with the chunk; there is never a second one.
\<close>

theorem pool_lookup_exact:
  assumes "completing_backend submit outstanding valid completes content"
    and "ps_reachable submit outstanding valid completes self s"
  defines "sp \<equiv> ps_pool s"
  shows "(\<exists>i. index_find (sp_index sp) (slot_key sp) (sp_index_shift sp) c = Some i) \<and>
    (\<forall>i < length (sp_slots sp). sp_find c sp = i \<longleftrightarrow>
       (slot_state (sp_slots sp ! i) = Slot_Filling \<or> slot_state (sp_slots sp ! i) = Slot_Ready) \<and>
       slot_chunk (sp_slots sp ! i) = c) \<and>
    (sp_find c sp = NONE \<or> sp_find c sp < length (sp_slots sp))"
proof -
  have core: "core_ok sp"
    unfolding sp_def using pool_invD(1) [OF reachable_pool_inv [OF assms(1,2)]] .
  show ?thesis
    using core_index_total [OF core] sp_find_correct [OF core, of _ c] sp_find_live(1) [OF core_okD(4) [OF core], of c]
    by (auto simp: slot_live_def)
qed

theorem pool_lookup_exact_witness: "sp_find 4 (ps_pool pool_state) = 2"
proof -
  have "(slot_state (sp_slots (ps_pool pool_state) ! 2) = Slot_Filling \<and>
      slot_chunk (sp_slots (ps_pool pool_state) ! 2) = 4) \<and> 2 < length (sp_slots (ps_pool pool_state))"
    by (simp add: pool_state_def)
  then show ?thesis
    using pool_lookup_exact [OF fake.completing_backend_axioms pool_state_reachable, of 4] by blast
qed

text \<open>
  C14: each chunk is read once: the backend never owns two requests for the same offset, however many
  prefetches and resolves ask for it.
\<close>

theorem chunk_fetched_once:
  assumes "completing_backend submit outstanding valid completes content"
    and "ps_reachable submit outstanding valid completes self s"
  shows "size (filter_mset (\<lambda>r. req_source_offset r = off) (outstanding (ps_backend s))) \<le> 1"
  by (rule fetched_once [OF reachable_pool_inv [OF assms]])

theorem chunk_fetched_once_witness:
  "size (filter_mset (\<lambda>r. req_source_offset r = 64) (fake_outstanding (ps_backend pool_state))) = 1"
proof -
  have "size (filter_mset (\<lambda>r. req_source_offset r = 64) (fake_outstanding (ps_backend pool_state))) \<noteq> 0"
    by (simp add: pool_state_def fake_outstanding_def)
  then show ?thesis
    using chunk_fetched_once [OF fake.completing_backend_axioms pool_state_reachable, of 64] by linarith
qed

text \<open>
  C6: what is published. A delivery makes its chunk resident exactly when it is the first one for the
  fill, reports ok and has written the whole chunk; short reads, failures, late and duplicate deliveries
  change nothing of what is resident.
\<close>

theorem delivery_publishes_exactly:
  assumes "completing_backend submit outstanding valid completes content"
    and "ps_reachable submit outstanding valid completes self s"
  shows "resident (sp_on_complete token res (ps_pool s)) =
    (let slot = sp_slots (ps_pool s) ! token_index token in
     if token_index token < length (sp_slots (ps_pool s)) \<and> slot_generation slot = token_generation token \<and>
        slot_state slot = Slot_Filling \<and> result_status res = Ok \<and>
        result_bytes res = chunk_length (sp_config (ps_pool s)) (slot_chunk slot)
     then insert (slot_chunk slot) (resident (ps_pool s)) else resident (ps_pool s))"
  using resident_complete [OF pool_invD(1) [OF reachable_pool_inv [OF assms]], of token res]
  by (auto simp: sp_is_stale_def classify_fill_def Let_def not_le)

theorem delivery_publishes_exactly_witness:
  "4 \<in> resident (sp_on_complete \<lparr>token_index = 2, token_generation = 1\<rparr>
       \<lparr>result_status = Ok, result_bytes = 16\<rparr> (ps_pool pool_state)) \<and>
   4 \<notin> resident (sp_on_complete \<lparr>token_index = 2, token_generation = 1\<rparr>
       \<lparr>result_status = Ok, result_bytes = 8\<rparr> (ps_pool pool_state))"
  unfolding delivery_publishes_exactly [OF fake.completing_backend_axioms pool_state_reachable]
  by (simp add: pool_state_def resident_def chunk_length_def Let_def)

text \<open>
  A second delivery of a token changes nothing but the count of stale completions, whatever the two
  results are.
\<close>

theorem duplicate_fill_ignored:
  "sp_on_complete token res2 (sp_on_complete token res1 sp) =
     (let sp1 = sp_on_complete token res1 sp
      in upd_counters (\<lambda>c. c\<lparr>sps_stale_completions := sps_stale_completions c + 1\<rparr>) sp1)"
proof -
  have "sp_is_stale token (sp_on_complete token res1 sp)"
  proof (cases "sp_is_stale token sp")
    case True
    then show ?thesis
      by (simp add: sp_on_complete_def sp_is_stale_def)
  next
    case False
    then show ?thesis
      using sp_on_complete_slots [OF False, of res1] by (simp add: sp_is_stale_def [of token "sp_on_complete token res1 sp"])
        (auto simp: sp_is_stale_def)
  qed
  then show ?thesis
    by (simp add: sp_on_complete_def Let_def)
qed

section \<open>Admission and eviction\<close>

text \<open>
  C17: a declared claim is complete. In a pool of fewer than \<open>2 ^ 31\<close> slots, the sweep of at most two
  revolutions returns a slot exactly when some slot is free, or ready and not pinned; what it returns
  was one of those, and is free afterwards.
\<close>

theorem declared_claim_complete:
  assumes "completing_backend submit outstanding valid completes content"
    and "ps_reachable submit outstanding valid completes self s"
    and "sc_num_slots (sp_config (ps_pool s)) < 2147483648"
    and "claim_victim Declared (ps_pool s) = (i, sp')"
  shows "(i = NONE \<longleftrightarrow> (\<forall>c \<in> set (sp_slots (ps_pool s)). \<not> evictable c)) \<and>
    (i \<noteq> NONE \<longrightarrow> i < length (sp_slots (ps_pool s)) \<and> evictable (sp_slots (ps_pool s) ! i) \<and>
       slot_state (sp_slots sp' ! i) = Slot_Free)"
proof -
  have core: "core_ok (ps_pool s)"
    using pool_invD(1) [OF reachable_pool_inv [OF assms(1,2)]] .
  have found: "i \<noteq> NONE \<Longrightarrow> i < length (sp_slots (ps_pool s)) \<and> evictable (sp_slots (ps_pool s) ! i)"
    using claim_evictable [OF core assms(4)] by blast
  have "i \<noteq> NONE" if "c \<in> set (sp_slots (ps_pool s))" "evictable c" for c
    using claim_declared_finds [OF core assms(3)] that assms(4) by (auto simp: in_set_conv_nth)
  then show ?thesis
    using found claim_victim_core(3) [OF core assms(4)] by (auto intro: nth_mem)
qed

theorem declared_claim_complete_witness:
  "fst (claim_victim Declared (ps_pool pool_state)) = NONE"
proof -
  have n: "sc_num_slots (sp_config (ps_pool pool_state)) < 2147483648"
    and none: "\<forall>c \<in> set (sp_slots (ps_pool pool_state)). \<not> evictable c"
    by (simp_all add: pool_state_def evictable_def)
  show ?thesis
    using declared_claim_complete [OF fake.completing_backend_axioms pool_state_reachable n, OF prod.collapse [symmetric]]
      none by blast
qed

text \<open>
  A speculative claim is gentle. It finds a slot exactly when one is free, or ready, not pinned and
  not referenced since the hand last passed; it clears no reference bit, and the only slot it may change
  is the one it returns.
\<close>

theorem speculative_claim_gentle:
  assumes "completing_backend submit outstanding valid completes content"
    and "ps_reachable submit outstanding valid completes self s"
    and "claim_victim Speculative (ps_pool s) = (i, sp')"
  shows "(i = NONE \<longleftrightarrow> (\<forall>c \<in> set (sp_slots (ps_pool s)). \<not> takeable c)) \<and>
    (\<forall>j < length (sp_slots (ps_pool s)). j \<noteq> i \<longrightarrow> sp_slots sp' ! j = sp_slots (ps_pool s) ! j) \<and>
    (i \<noteq> NONE \<longrightarrow> takeable (sp_slots (ps_pool s) ! i))"
proof -
  have core: "core_ok (ps_pool s)"
    using pool_invD(1) [OF reachable_pool_inv [OF assms(1,2)]] .
  have loop: "victim_loop (sc_num_slots (sp_config (ps_pool s))) Speculative (ps_pool s) = (i, sp')"
    using assms(3) by (simp add: claim_victim_def Let_def)
  note V = victim_loop_speculative [OF clock_ok_core [OF core] loop]
  have lt: "i \<noteq> NONE \<Longrightarrow> i < length (sp_slots (ps_pool s))"
    using claim_evictable(1) [OF core assms(3)] .
  have "i \<noteq> NONE" if "c \<in> set (sp_slots (ps_pool s))" "takeable c" for c
    using claim_speculative_finds [OF core] that assms(3) by (auto simp: in_set_conv_nth)
  then show ?thesis
    using V lt by (auto split: if_splits intro: nth_mem)
qed

theorem speculative_claim_gentle_witness:
  "fst (claim_victim Speculative (ps_pool failed_state)) \<noteq> NONE"
proof -
  have "takeable (sp_slots (ps_pool failed_state) ! 1)" "sp_slots (ps_pool failed_state) ! 1 \<in> set (sp_slots (ps_pool failed_state))"
    by (simp_all add: failed_state_def takeable_def evictable_def)
  then show ?thesis
    using speculative_claim_gentle [OF fake.completing_backend_axioms failed_state_reachable, OF prod.collapse [symmetric]]
    by blast
qed

text \<open>
  C40: the bound of the declared sweep wraps. The code computes \<open>2 * n\<close> in \<open>uint32_t\<close>, so in a pool of
  exactly \<open>2 ^ 31\<close> slots, which \<open>create\<close> accepts, a declared claim makes no step at all and reports
  that there is no victim, even when every slot is free.
\<close>

theorem declared_claim_wraps:
  assumes "sc_num_slots (sp_config sp) = 2147483648"
  shows "claim_victim Declared sp = (NONE, sp)"
  using assms by (simp add: claim_victim_def u32_def)

definition huge_config :: slot_pool_config where
  "huge_config =
     \<lparr>sc_source = 5, sc_source_bytes = 100, sc_slot_bytes = 1, sc_num_slots = 2147483648,
      sc_slot_storage = \<lparr>span_data = 0, span_size = 2147483648\<rparr>, sc_max_tickets = 1,
      sc_max_batch_chunks = 1\<rparr>"

theorem declared_claim_wraps_witness:
  "sp_create huge_config = Inr (sp_construct huge_config) \<and>
   sp_slots (sp_construct huge_config) = replicate 2147483648 default_slot \<and> evictable default_slot \<and>
   fst (claim_victim Declared (sp_construct huge_config)) = NONE"
proof -
  have "sp_config (sp_construct huge_config) = huge_config"
    and "sp_slots (sp_construct huge_config) = replicate 2147483648 default_slot"
    by (simp_all add: sp_construct_def huge_config_def Let_def)
  moreover have "evictable default_slot"
    by (simp add: evictable_def default_slot_def)
  moreover have "sp_create huge_config = Inr (sp_construct huge_config)"
    by (simp add: sp_create_def huge_config_def NONE_def UINT32_MAX_def UINT64_MAX_def)
  moreover have "sc_num_slots huge_config = 2147483648"
    by (simp add: huge_config_def)
  ultimately show ?thesis
    using declared_claim_wraps [of "sp_construct huge_config"] by simp
qed

section \<open>Hints, tickets and waiting\<close>

text \<open>
  C27: every hinted chunk is accounted once: the chunks named by prefetch are those admitted, already
  resident, declined, or refused, and a prefetch that returns a ticket adds exactly its chunks.
\<close>

theorem hints_accounted:
  assumes "ps_reachable submit outstanding valid completes self s"
  shows "sps_hint_issued (sp_counters (ps_pool s)) =
      sps_hint_admitted (sp_counters (ps_pool s)) + sps_hint_resident (sp_counters (ps_pool s)) +
      sps_hint_declined (sp_counters (ps_pool s)) + sps_admission_failures (sp_counters (ps_pool s)) \<and>
    (\<forall>t sp' b'. sp_prefetch submit self ranges admission (ps_pool s) b = (Inr t, sp', b') \<longrightarrow>
       sps_hint_issued (sp_counters sp') = sps_hint_issued (sp_counters (ps_pool s)) +
         length (for_each_chunk (sp_config (ps_pool s)) ranges))"
  using ps_reachable_hints [OF assms] hints_prefetch(2) by (fastforce simp: hints_balanced_def)

theorem hints_accounted_witness:
  "sps_hint_issued (sp_counters (ps_pool pool_state)) = 1 + 1 + 0 + 0"
proof -
  have "sps_hint_admitted (sp_counters (ps_pool pool_state)) = 1" "sps_hint_resident (sp_counters (ps_pool pool_state)) = 1"
    "sps_hint_declined (sp_counters (ps_pool pool_state)) = 0" "sps_admission_failures (sp_counters (ps_pool pool_state)) = 0"
    by (simp_all add: pool_state_def)
  then show ?thesis
    using hints_accounted [OF pool_state_reachable] by simp
qed

text \<open>
  C26: \<open>wait\<close> on a held ticket. Without a deadline it returns only when no chunk is pending. Each count is the
  number of the ticket's chunks with that outcome: filled those that are ok, pending those still pending, declined
  those that were declined or found the pool or the queue exhausted, failed all others. They add up to the
  chunks of the ticket, the pending count is that of the record, the status is ok exactly when every chunk was
  filled, a timeout exactly when some are pending, and otherwise the first failure in the order of the request.
\<close>

theorem wait_outcome_exact:
  assumes "terminal_backend submit outstanding valid completes content"
    and "ps_reachable submit outstanding valid completes self s"
    and "t \<in> set (ps_tickets s)" and "sp_wait self t expired (ps_pool s) = Some outcome"
  defines "record \<equiv> sp_tickets (ps_pool s) ! ticket_record t"
    and "statuses \<equiv> map wait_outcome (ticket_entries (ps_pool s) (ticket_record t))"
  shows "wo_filled outcome = length (filter (\<lambda>st. st = Ok) statuses) \<and>
    wo_pending outcome = length (filter (\<lambda>st. st = Pending) statuses) \<and>
    wo_declined outcome = length (filter (\<lambda>st. st \<in> {Declined, Pool_Exhausted, Queue_Exhausted}) statuses) \<and>
    wo_failed outcome = length (filter (\<lambda>st. st \<notin> {Ok, Pending, Declined, Pool_Exhausted, Queue_Exhausted}) statuses) \<and>
    wo_filled outcome + wo_failed outcome + wo_declined outcome + wo_pending outcome = tick_chunks record \<and>
    wo_pending outcome = tick_pending record \<and> (wo_pending outcome = 0 \<or> expired) \<and>
    wo_status outcome = (if wo_pending outcome \<noteq> 0 then Timeout else first_bad statuses) \<and>
    (wo_status outcome = Ok \<longleftrightarrow> wo_filled outcome = tick_chunks record)"
proof -
  let ?sp = "ps_pool s" and ?r = "ticket_record t"
  have tk: "waiters_ok ?sp" "tickets_ok self ?sp (ps_tickets s)"
    using terminal_backend.ps_reachable_tickets [OF assms(1,2)] by (simp_all add: ps_tickets_inv_def)
  have r: "?r < length (sp_tickets ?sp)" "tick_held record" "ticket_pool t = Some self"
    using tk(2) assms(3) by (simp_all add: tickets_ok_def record_def)
  have use: "tick_in_use (sp_tickets ?sp ! ?r)"
    using held_in_use [OF tk(1) r(1)] r(2) by (simp add: record_def)
  note P = pending_entries [OF tk(1) r(1) use]
  let ?ws = "ticket_entries ?sp ?r"
  let ?o = "fold tally ?ws default_outcome"
  have out: "outcome = (if wo_pending ?o \<noteq> 0 then ?o\<lparr>wo_status := Timeout\<rparr> else ?o)"
    and may: "tick_pending record = 0 \<or> expired"
    using assms(4) r(3) by (auto simp: sp_wait_def record_def Let_def split: if_splits)
  have sum: "wo_filled ?o + wo_failed ?o + wo_declined ?o + wo_pending ?o = length ?ws"
    by (rule tally_sum)
  have pend: "wo_pending ?o = tick_pending record"
    using P(2) by (simp add: tally_counts default_outcome_def record_def)
  have status: "wo_status ?o = first_bad statuses"
    by (simp add: tally_status default_outcome_def statuses_def)
  have filled: "wo_filled ?o = length ?ws \<longleftrightarrow> wo_pending ?o = 0 \<and> first_bad statuses = Ok"
    unfolding statuses_def by (rule tally_all_filled)
  have len: "length ?ws = tick_chunks record"
    using P(1) by (simp add: record_def)
  note counts = tally_filters [of ?ws, folded statuses_def]
  have "wo_filled outcome = wo_filled ?o" "wo_pending outcome = wo_pending ?o" "wo_declined outcome = wo_declined ?o"
    "wo_failed outcome = wo_failed ?o"
    by (simp_all add: out)
  with counts out may sum pend status filled show ?thesis
    unfolding len by simp
qed

theorem wait_outcome_exact_witness:
  "\<exists>outcome. sp_wait 9 (ps_tickets pool_state ! 0) True (ps_pool pool_state) = Some outcome \<and>
     wo_status outcome = Timeout \<and> wo_filled outcome = 1 \<and> wo_pending outcome = 1"
proof -
  let ?t = "ps_tickets pool_state ! 0"
  have t: "?t \<in> set (ps_tickets pool_state)" "ticket_pool ?t = Some 9" "ticket_record ?t = 0"
    "tick_pending (sp_tickets (ps_pool pool_state) ! 0) = 1"
    by (simp_all add: pool_state_def)
  have entries: "map wait_outcome (ticket_entries (ps_pool pool_state) 0) = [Ok, Pending]"
    by (simp add: pool_state_def ticket_entries_def)
  obtain outcome where run: "sp_wait 9 ?t True (ps_pool pool_state) = Some outcome"
    using t(2) by (simp add: sp_wait_def Let_def)
  then show ?thesis
    using wait_outcome_exact [OF fake.terminal_backend_axioms pool_state_reachable t(1) run] t(3,4) by (auto simp: entries)
qed

section \<open>Draining\<close>

lemma fake_drain_reachable:
  assumes "fake_complete_all sp_on_complete b m sp = (b', m', sp')"
    and "fake_ps_reachable self (s\<lparr>ps_pool := sp, ps_backend := b, ps_memory := m\<rparr>)"
  shows "fake_ps_reachable self (s\<lparr>ps_pool := sp', ps_backend := b', ps_memory := m'\<rparr>)"
  using assms
proof (induction "sp_on_complete" b m sp rule: fake_complete_all.induct)
  case (1 b m sp)
  show ?case
  proof (cases "fake_complete_newest Full b m")
    case None
    with "1.prems" show ?thesis
      by (simp add: fake_complete_all.simps [of sp_on_complete b])
  next
    case (Some x)
    obtain r res b2 m2 where x: "x = (r, res, b2, m2)"
      by (cases x)
    let ?t = "s\<lparr>ps_pool := sp_on_complete (req_token r) res sp, ps_backend := b2, ps_memory := m2\<rparr>"
    have all: "fake_complete_all sp_on_complete b2 m2 (sp_on_complete (req_token r) res sp) = (b', m', sp')"
      using "1.prems"(1) Some x by (simp add: fake_complete_all.simps [of sp_on_complete b])
    have "fake_completes b r res m b2 m2"
      using Some x by (auto simp: fake_completes_def fake_complete_newest_def Let_def split: if_splits)
    then have "fake_ps_step self (s\<lparr>ps_pool := sp, ps_backend := b, ps_memory := m\<rparr>) ?t"
      using ps_step.delivered [where completes = fake_completes and
          s = "s\<lparr>ps_pool := sp, ps_backend := b, ps_memory := m\<rparr>"] by simp
    with "1.prems"(2) have "fake_ps_reachable self ?t"
      by (rule ps_reachable.step)
    with "1.hyps" Some x all show ?thesis
      by blast
  qed
qed

text \<open>
  C28: waiting is for the backend only. Over every backend that meets the contract, in every reachable state: \<open>drain\<close>
  returns ok when the backend owns no request, and otherwise waits, or reports a timeout at its deadline; and once the
  backend owns no request, no call waits any longer: \<open>wait\<close> returns for every held ticket, and every waiting
  \<open>resolve\<close> returns.
\<close>

theorem drained_pool_never_blocks:
  assumes "terminal_backend submit outstanding valid completes content"
    and "ps_reachable submit outstanding valid completes self s"
  shows "sp_drain expired (ps_pool s) =
      (if outstanding (ps_backend s) = {#} then Some Ok else if expired then Some Timeout else None) \<and>
    (outstanding (ps_backend s) = {#} \<longrightarrow>
       (\<forall>t \<in> set (ps_tickets s). sp_wait self t expired (ps_pool s) \<noteq> None) \<and>
       (\<forall>(pinned, out) \<in> set (ps_waiting s). sp_resolve_end pinned out (ps_pool s) \<noteq> None))"
proof (intro conjI impI ballI)
  let ?sp = "ps_pool s"
  note inv = reachable_pool_inv [OF terminal_backend.axioms(1) [OF assms(1)] assms(2)]
  have core: "core_ok ?sp"
    using pool_invD(1) [OF inv] .
  show "sp_drain expired ?sp =
      (if outstanding (ps_backend s) = {#} then Some Ok else if expired then Some Timeout else None)"
    using in_flight_outstanding [OF inv] by (auto simp: sp_drain_def)
  assume empty: "outstanding (ps_backend s) = {#}"
  note idle = idle_slots [OF inv empty]
  have tk: "waiters_ok ?sp" "tickets_ok self ?sp (ps_tickets s)"
    using terminal_backend.ps_reachable_tickets [OF assms] by (simp_all add: ps_tickets_inv_def)
  show "sp_wait self t expired ?sp \<noteq> None" if "t \<in> set (ps_tickets s)" for t
  proof -
    have "ticket_record t < length (sp_tickets ?sp)"
      using tk(2) that by (simp add: tickets_ok_def)
    then show ?thesis
      using idle_pending(1) [OF core tk(1)] idle by (simp add: sp_wait_def Let_def)
  qed
  show "case w of (pinned, out) \<Rightarrow> sp_resolve_end pinned out ?sp \<noteq> None" if "w \<in> set (ps_waiting s)" for w
  proof -
    obtain pinned out where w: "w = (pinned, out)"
      by (cases w)
    have "slot_state (sp_slots ?sp ! lease_slot l) \<noteq> Slot_Filling" if "l \<in> set (take pinned out)" for l
    proof -
      have "l \<in> set (all_leases s)"
        using w \<open>w \<in> set (ps_waiting s)\<close> that by (auto simp: all_leases_def waiting_leases_def)
      then have "lease_slot l < length (sp_slots ?sp)"
        using lease_pinned(2) [OF pool_invD(2) [OF inv]] by simp
      then show ?thesis
        using idle by simp
    qed
    then have "\<not> list_ex (\<lambda>l. slot_state (sp_slots ?sp ! lease_slot l) = Slot_Filling) (take pinned out)"
      by (simp add: list_ex_iff)
    then show ?thesis
      by (auto simp: w sp_resolve_end_def Let_def split: prod.splits)
  qed
qed

text \<open>The fake backend after it has delivered everything, newest first.\<close>

lemma fake_drained_reachable:
  assumes "fake_ps_reachable self s"
    and "fake_complete_all sp_on_complete (ps_backend s) (ps_memory s) (ps_pool s) = (b', m', sp')"
  shows "fake_ps_reachable self (s\<lparr>ps_pool := sp', ps_backend := b', ps_memory := m'\<rparr>)" "fake_outstanding b' = {#}"
proof -
  have "s\<lparr>ps_pool := ps_pool s, ps_backend := ps_backend s, ps_memory := ps_memory s\<rparr> = s"
    by (cases s) simp
  with assms(1) show "fake_ps_reachable self (s\<lparr>ps_pool := sp', ps_backend := b', ps_memory := m'\<rparr>)"
    by (intro fake_drain_reachable [OF assms(2)]) (simp only:)
  show "fake_outstanding b' = {#}"
    using fake_complete_all_drains [OF assms(2)] by (simp add: fake_outstanding_def)
qed

text \<open>
  With one fill on its way \<open>drain\<close> waits; after the delivery it returns, and so does \<open>wait\<close> on the held ticket.
\<close>

theorem drained_pool_never_blocks_witness:
  "sp_drain False (ps_pool pool_state) = None \<and> sp_drain True (ps_pool pool_state) = Some Timeout \<and>
   (case fake_complete_all sp_on_complete (ps_backend pool_state) (ps_memory pool_state) (ps_pool pool_state) of
      (b', m', sp') \<Rightarrow> sp_drain False sp' = Some Ok \<and> sp_wait 9 (ps_tickets pool_state ! 0) False sp' \<noteq> None)"
proof -
  obtain b' m' sp' where all: "fake_complete_all sp_on_complete (ps_backend pool_state) (ps_memory pool_state)
      (ps_pool pool_state) = (b', m', sp')"
    by (cases "fake_complete_all sp_on_complete (ps_backend pool_state) (ps_memory pool_state) (ps_pool pool_state)")
  note quiet = fake_drained_reachable [OF pool_state_reachable all]
  have busy: "fake_outstanding (ps_backend pool_state) \<noteq> {#}" and t: "ps_tickets pool_state ! 0 \<in> set (ps_tickets pool_state)"
    by (simp_all add: pool_state_def fake_outstanding_def)
  show ?thesis
    using drained_pool_never_blocks [OF fake.terminal_backend_axioms quiet(1), of False]
      drained_pool_never_blocks [OF fake.terminal_backend_axioms pool_state_reachable] quiet(2) busy t
    by (simp add: all)
qed

text \<open>
  Dropped tickets are recycled: when no fill is in flight and no ticket is held, every record of the
  ticket table is free again, so the next valid prefetch is never refused for lack of one.
\<close>

theorem ticket_records_recycled:
  assumes "terminal_backend submit outstanding valid completes content"
    and "ps_reachable submit outstanding valid completes self s"
    and "outstanding (ps_backend s) = {#}" and "ps_tickets s = []"
  shows "find_free_record (sp_tickets (ps_pool s)) 0 = Some 0"
proof -
  let ?sp = "ps_pool s"
  have cb: "completing_backend submit outstanding valid completes content"
    using assms(1) by (rule terminal_backend.axioms)
  note inv = reachable_pool_inv [OF cb assms(2)]
  have tk: "waiters_ok ?sp" "tickets_ok self ?sp []"
    using terminal_backend.ps_reachable_tickets [OF assms(1,2)] assms(4) by (simp_all add: ps_tickets_inv_def)
  have core: "core_ok ?sp"
    using pool_invD(1) [OF inv] .
  obtain C where C: "wait_inv C (\<lambda>i. heads ?sp ! i) (\<lambda>r. tick_chunks (sp_tickets ?sp ! r)) ?sp"
    using tk(1) by (auto simp: waiters_ok_def)
  have "0 < length (sp_tickets ?sp)"
    using wait_invD(3) [OF C] core_okD(1) [OF core] by (simp add: config_ok_def)
  moreover have "\<not> tick_in_use (sp_tickets ?sp ! 0)"
    using idle_pending(2) [OF core tk(1) _ idle_slots [OF inv assms(3)], of 0] tk(2) calculation
    by (auto simp: tickets_ok_def)
  ultimately show ?thesis
    by (cases "sp_tickets ?sp") auto
qed

theorem ticket_records_recycled_witness: "find_free_record (sp_tickets (ps_pool failed_state)) 0 = Some 0"
  by (rule ticket_records_recycled [OF fake.terminal_backend_axioms failed_state_reachable])
    (simp_all add: failed_state_def fake_outstanding_def)

end
