(* ===== verification/Read_Loop.thy ===== *)
theory Read_Loop
  imports Transfer_Core
begin

text \<open>
  The loop that every positional read of the program is: attempts at the bytes still missing, each of which
  is repeated, fails, meets the end of the file, or brings some bytes. The backend's \<open>read_range\<close> and the
  tools' \<open>read_at\<close>, on POSIX systems and on Windows, are this loop with their own attempt. Proved here, once:
  which bytes of the destination it writes, and with what; how many; and that it ends.
\<close>

section \<open>The loop\<close>

text \<open>\<open>Chunk bytes final\<close> brings bytes, and \<open>final\<close> says that the loop stops after them.\<close>

datatype attempt = Again | Failure | End_Of_File | Chunk "byte list" bool

type_synonym attempt_fn = "nat \<Rightarrow> u64 \<Rightarrow> u64 \<Rightarrow> attempt"

text \<open>
  The attempt depends on the number of calls made so far, the bytes filled and the bytes remaining. \<open>None\<close> is a
  loop that never ends. The result is the byte count, the status, the number of calls and the memory.
\<close>

partial_function (option) fill_loop ::
    "attempt_fn \<Rightarrow> u64 \<Rightarrow> nat \<Rightarrow> u64 \<Rightarrow> u64 \<Rightarrow> status \<Rightarrow> memory \<Rightarrow> (u64 \<times> status \<times> nat \<times> memory) option" where
  "fill_loop att destination k filled remaining status m =
     (if remaining = 0 then Some (filled, status, k, m)
      else case att k filled remaining of
        Again \<Rightarrow> fill_loop att destination (k + 1) filled remaining status m
      | Failure \<Rightarrow> Some (filled, Io_Error, k + 1, m)
      | End_Of_File \<Rightarrow> Some (filled, status, k + 1, m)
      | Chunk bytes final \<Rightarrow>
          let m = write_bytes m (destination + filled) (\<lambda>i. bytes ! i) (length bytes);
              filled = filled + of_nat (length bytes)
          in if final then Some (filled, status, k + 1, m)
             else fill_loop att destination (k + 1) filled (remaining - of_nat (length bytes)) status m)"

declare fill_loop.simps [code]

section \<open>Bytes read\<close>

text \<open>
  The bytes from index \<open>lo\<close> to \<open>hi\<close> of a destination hold the file's bytes, and nothing else changed.
\<close>

definition bytes_read ::
    "(u64 \<Rightarrow> byte) \<Rightarrow> u64 \<Rightarrow> u64 \<Rightarrow> nat \<Rightarrow> nat \<Rightarrow> memory \<Rightarrow> memory \<Rightarrow> bool" where
  "bytes_read content destination off lo hi m m' \<longleftrightarrow>
     (\<forall>i. lo \<le> i \<longrightarrow> i < hi \<longrightarrow> m' (destination + of_nat i) = content (off + of_nat i)) \<and>
     (\<forall>a. (\<forall>i. lo \<le> i \<longrightarrow> i < hi \<longrightarrow> a \<noteq> destination + of_nat i) \<longrightarrow> m' a = m a)"

lemma bytes_read_refl [simp]: "bytes_read content destination off lo lo m m"
  by (simp add: bytes_read_def)

lemma bytes_read_trans:
  assumes "bytes_read content destination off lo mid m m'" "bytes_read content destination off mid hi m' m''"
    and "lo \<le> mid" "mid \<le> hi" "hi \<le> 18446744073709551616"
  shows "bytes_read content destination off lo hi m m''"
proof -
  have "m'' (destination + of_nat i) = content (off + of_nat i)" if i: "lo \<le> i" "i < hi" for i
  proof (cases "mid \<le> i")
    case True
    with assms(2) i show ?thesis by (simp add: bytes_read_def)
  next
    case False
    have "destination + of_nat i \<noteq> destination + (of_nat j :: u64)" if "mid \<le> j" "j < hi" for j
      using False that i assms(5) by (simp add: of_nat_eq_64)
    then have "m'' (destination + of_nat i) = m' (destination + of_nat i)"
      using assms(2) unfolding bytes_read_def by blast
    with False assms(1) i show ?thesis by (simp add: bytes_read_def)
  qed
  moreover have "m'' a = m a" if a: "\<forall>i. lo \<le> i \<longrightarrow> i < hi \<longrightarrow> a \<noteq> destination + of_nat i" for a
  proof -
    have "m'' a = m' a"
      using assms(2,3) a unfolding bytes_read_def by (meson order_trans)
    also have "\<dots> = m a"
      using assms(1,4) a unfolding bytes_read_def by (meson less_le_trans)
    finally show ?thesis .
  qed
  ultimately show ?thesis
    by (simp add: bytes_read_def)
qed

lemma bytes_read_write:
  assumes "n \<le> 18446744073709551616" "\<And>i. i < n \<Longrightarrow> f i = content (off + of_nat (lo + i))"
  shows "bytes_read content destination off lo (lo + n) m (write_bytes m (destination + of_nat lo) f n)"
  unfolding bytes_read_def
proof (intro conjI allI impI)
  fix i assume i: "lo \<le> i" "i < lo + n"
  then obtain j where j: "i = lo + j" "j < n"
    by (metis le_Suc_ex nat_add_left_cancel_less)
  have "write_bytes m (destination + of_nat lo) f n (destination + of_nat lo + of_nat j) = f j"
    using j(2) assms(1) by (rule write_bytes_inside)
  with j assms(2) show "write_bytes m (destination + of_nat lo) f n (destination + of_nat i) = content (off + of_nat i)"
    by (simp add: add.assoc)
next
  fix a assume a: "\<forall>i. lo \<le> i \<longrightarrow> i < lo + n \<longrightarrow> a \<noteq> destination + of_nat i"
  show "write_bytes m (destination + of_nat lo) f n a = m a"
  proof (rule write_bytes_outside)
    fix j assume "j < n"
    then show "a \<noteq> destination + of_nat lo + of_nat j"
      using a [rule_format, of "lo + j"] by (simp add: add.assoc)
  qed
qed

section \<open>What a finished loop has done\<close>

text \<open>
  \<open>chunk_ok content fsize pos n bytes\<close>: one call at position \<open>pos\<close> brought at most \<open>n\<close> bytes, the file's, none
  past its end. \<open>attempt_ok\<close> says so of every attempt of a loop at offset \<open>off\<close>. Its parameter \<open>stops\<close> records why a
  loop may end before its count is complete and before the end of the file: \<open>stops k Io_Error p n\<close> for an
  attempt at \<open>n\<close> bytes, the call with number \<open>k\<close>, that failed at position \<open>p\<close>, \<open>stops k Ok p n\<close> for one that asked
  for \<open>n\<close> bytes and gave up at \<open>p\<close>. A loop that ended so has made that call
  last: its number is one less than the number of calls returned.
\<close>

definition chunk_ok :: "(u64 \<Rightarrow> byte) \<Rightarrow> nat \<Rightarrow> u64 \<Rightarrow> u64 \<Rightarrow> byte list \<Rightarrow> bool" where
  "chunk_ok content fsize pos n bytes \<longleftrightarrow>
     length bytes \<le> unat n \<and> (\<forall>i < length bytes. bytes ! i = content (pos + of_nat i)) \<and>
     (bytes \<noteq> [] \<longrightarrow> unat pos + length bytes \<le> fsize)"

type_synonym stops = "nat \<Rightarrow> status \<Rightarrow> nat \<Rightarrow> nat \<Rightarrow> bool"

definition attempt_ok :: "(u64 \<Rightarrow> byte) \<Rightarrow> nat \<Rightarrow> stops \<Rightarrow> u64 \<Rightarrow> attempt_fn \<Rightarrow> bool" where
  "attempt_ok content fsize stops off att \<longleftrightarrow>
     fsize < 18446744073709551616 \<and>
     (\<forall>k filled remaining bytes final. att k filled remaining = Chunk bytes final \<longrightarrow> remaining \<noteq> 0 \<longrightarrow>
        bytes \<noteq> [] \<and> chunk_ok content fsize (off + filled) remaining bytes \<and>
        (final \<longrightarrow> fsize \<le> unat (off + filled) + length bytes \<or>
           stops k Ok (unat (off + filled) + length bytes) (unat remaining))) \<and>
     (\<forall>k filled remaining. att k filled remaining = End_Of_File \<longrightarrow> remaining \<noteq> 0 \<longrightarrow>
        fsize \<le> unat (off + filled)) \<and>
     (\<forall>k filled remaining. att k filled remaining = Failure \<longrightarrow> remaining \<noteq> 0 \<longrightarrow>
        stops k Io_Error (unat (off + filled)) (unat remaining))"

lemma attempt_okD:
  assumes "attempt_ok content fsize stops off att"
  shows "fsize < 18446744073709551616"
    "att k filled remaining = End_Of_File \<Longrightarrow> remaining \<noteq> 0 \<Longrightarrow> fsize \<le> unat (off + filled)"
    "att k filled remaining = Chunk bytes final \<Longrightarrow> remaining \<noteq> 0 \<Longrightarrow> bytes \<noteq> []"
    "att k filled remaining = Chunk bytes final \<Longrightarrow> remaining \<noteq> 0 \<Longrightarrow> chunk_ok content fsize (off + filled) remaining bytes"
    "att k filled remaining = Chunk bytes final \<Longrightarrow> remaining \<noteq> 0 \<Longrightarrow> final \<Longrightarrow>
       fsize \<le> unat (off + filled) + length bytes \<or> stops k Ok (unat (off + filled) + length bytes) (unat remaining)"
    "att k filled remaining = Failure \<Longrightarrow> remaining \<noteq> 0 \<Longrightarrow> stops k Io_Error (unat (off + filled)) (unat remaining)"
  using assms unfolding attempt_ok_def by blast+

definition loop_post ::
    "(u64 \<Rightarrow> byte) \<Rightarrow> nat \<Rightarrow> stops \<Rightarrow> u64 \<Rightarrow> u64 \<Rightarrow> u64 \<Rightarrow> u64 \<Rightarrow> status \<Rightarrow> memory
       \<Rightarrow> u64 \<times> status \<times> nat \<times> memory \<Rightarrow> bool" where
  "loop_post content fsize stops destination off filled remaining status m out \<longleftrightarrow>
     (case out of (filled', status', k', m') \<Rightarrow>
        unat filled \<le> unat filled' \<and> unat filled' \<le> unat filled + unat remaining \<and>
        (filled' = 0 \<or> unat off + unat filled' \<le> fsize) \<and>
        bytes_read content destination off (unat filled) (unat filled') m m' \<and>
        (status' = Io_Error \<and> (\<exists>n \<le> unat remaining. stops (k' - 1) Io_Error (unat off + unat filled') n) \<or>
         status' = status \<and>
           (unat filled' < unat filled + unat remaining \<longrightarrow>
              fsize \<le> unat off + unat filled' \<or> (\<exists>n \<le> unat remaining. stops (k' - 1) Ok (unat off + unat filled') n))))"

lemma unat_position:
  fixes filled off :: u64
  assumes "fsize < 18446744073709551616" "filled = 0 \<or> unat off + unat filled \<le> fsize"
  shows "unat (off + filled) = unat off + unat filled"
  using assms by (cases "filled = 0") (simp, intro unat_plus_64, simp)

lemma read_chunk_step:
  fixes filled remaining destination :: u64 and m :: memory
  assumes size: "fsize < 18446744073709551616"
    and bound: "unat filled + unat remaining < 18446744073709551616"
    and inside: "filled = 0 \<or> unat off + unat filled \<le> fsize"
    and chunk: "chunk_ok content fsize (off + filled) remaining bytes" and some: "bytes \<noteq> []"
  defines "n \<equiv> of_nat (length bytes) :: u64"
    and "m1 \<equiv> write_bytes m (destination + filled) (\<lambda>i. bytes ! i) (length bytes)"
  shows "unat n = length bytes" "n \<le> remaining" "unat (filled + n) = unat filled + length bytes"
    "unat (remaining - n) = unat remaining - length bytes"
    "unat off + unat (filled + n) \<le> fsize"
    "bytes_read content destination off (unat filled) (unat (filled + n)) m m1"
proof -
  note bytes = chunk [unfolded chunk_ok_def]
  show n: "unat n = length bytes"
    using bytes unat_lt_64 [of remaining] by (simp add: n_def)
  with bytes show le: "n \<le> remaining"
    by (simp add: word_le_nat_alt)
  show sum: "unat (filled + n) = unat filled + length bytes"
    using bound bytes by (subst unat_plus_64) (simp_all add: n)
  show "unat (remaining - n) = unat remaining - length bytes"
    using le by (simp add: unat_minus_64 n)
  from bytes some sum unat_position [OF size inside] show "unat off + unat (filled + n) \<le> fsize"
    by simp
  have "bytes_read content destination off (unat filled) (unat filled + length bytes) m
          (write_bytes m (destination + of_nat (unat filled)) (\<lambda>i. bytes ! i) (length bytes))"
    using bytes unat_lt_64 [of remaining]
    by (intro bytes_read_write) (simp_all add: add.assoc)
  then show "bytes_read content destination off (unat filled) (unat (filled + n)) m m1"
    by (simp add: sum m1_def)
qed

lemma loop_post_step:
  fixes filled remaining :: u64
  assumes "fsize < 18446744073709551616"
    and "unat filled + unat remaining < 18446744073709551616"
    and "filled = 0 \<or> unat off + unat filled \<le> fsize"
    and "chunk_ok content fsize (off + filled) remaining bytes" "bytes \<noteq> []"
    and rest: "loop_post content fsize stops destination off (filled + of_nat (length bytes))
          (remaining - of_nat (length bytes)) status
          (write_bytes m (destination + filled) (\<lambda>i. bytes ! i) (length bytes)) out"
  shows "loop_post content fsize stops destination off filled remaining status m out"
proof -
  note step = read_chunk_step [OF assms(1-5)]
  obtain filled' status' k' m' where out: "out = (filled', status', k', m')"
    by (cases out)
  have sum: "unat remaining = length bytes + unat (remaining - of_nat (length bytes))"
    using step(2,4) unfolding word_le_nat_alt step(1) by simp
  have "bytes_read content destination off (unat filled) (unat filled') m m'"
    using rest step(3) unat_lt_64 [of filled']
    by (intro bytes_read_trans [OF step(6)]) (simp_all add: loop_post_def out)
  moreover note post = rest [unfolded loop_post_def out prod.case]
  have total: "unat (filled + of_nat (length bytes)) + unat (remaining - of_nat (length bytes)) = unat filled + unat remaining"
    using step(3) sum by simp
  have less: "n \<le> unat remaining" if "n \<le> unat (remaining - of_nat (length bytes))" for n
    using sum that by linarith
  from post have "status' = Io_Error \<and> (\<exists>n \<le> unat remaining. stops (k' - 1) Io_Error (unat off + unat filled') n) \<or>
      status' = status \<and> (unat filled' < unat filled + unat remaining \<longrightarrow>
        fsize \<le> unat off + unat filled' \<or> (\<exists>n \<le> unat remaining. stops (k' - 1) Ok (unat off + unat filled') n))"
    unfolding total using less by blast
  moreover have "unat filled \<le> unat filled'" "unat filled' \<le> unat filled + unat remaining"
    using post step(3) unfolding total by linarith+
  ultimately show ?thesis
    using post unfolding loop_post_def out prod.case by blast
qed

lemma fill_loop_post:
  assumes ok: "attempt_ok content fsize stops off att"
    and ret: "fill_loop att destination k filled remaining status m = Some out"
    and "unat filled + unat remaining < 18446744073709551616"
    and "filled = 0 \<or> unat off + unat filled \<le> fsize"
  shows "loop_post content fsize stops destination off filled remaining status m out"
proof -
  let ?pre = "\<lambda>att filled remaining. attempt_ok content fsize stops off att \<and>
    unat filled + unat remaining < 18446744073709551616 \<and> (filled = 0 \<or> unat off + unat filled \<le> fsize)"
  have "?pre att filled remaining \<longrightarrow> loop_post content fsize stops destination off filled remaining status m out"
  proof (rule fill_loop.raw_induct [where P = "\<lambda>att destination k filled remaining status m out.
      ?pre att filled remaining \<longrightarrow> loop_post content fsize stops destination off filled remaining status m out",
      OF _ ret], intro impI, elim conjE)
    fix loop att destination k filled remaining status m out
    let ?m = "\<lambda>bytes. write_bytes m (destination + filled) (\<lambda>i. bytes ! i) (length bytes)"
    assume IH: "\<And>att destination k filled remaining status m out.
          loop att destination k filled remaining status m = Some out \<Longrightarrow> ?pre att filled remaining \<longrightarrow>
          loop_post content fsize stops destination off filled remaining status m out"
      and eq: "(if remaining = 0 then Some (filled, status, k, m)
        else case att k filled remaining of
          Again \<Rightarrow> loop att destination (k + 1) filled remaining status m
        | Failure \<Rightarrow> Some (filled, Io_Error, k + 1, m)
        | End_Of_File \<Rightarrow> Some (filled, status, k + 1, m)
        | Chunk bytes final \<Rightarrow>
            let m = ?m bytes; filled = filled + of_nat (length bytes)
            in if final then Some (filled, status, k + 1, m)
               else loop att destination (k + 1) filled (remaining - of_nat (length bytes)) status m) = Some out"
      and ok: "attempt_ok content fsize stops off att"
      and bound: "unat filled + unat remaining < 18446744073709551616"
      and inside: "filled = 0 \<or> unat off + unat filled \<le> fsize"
    note size = attempt_okD(1) [OF ok]
    show "loop_post content fsize stops destination off filled remaining status m out"
    proof (cases "remaining = 0")
      case True
      with eq inside show ?thesis by (auto simp: loop_post_def)
    next
      case remaining: False
      show ?thesis
      proof (cases "att k filled remaining")
        case Again
        with eq remaining have "loop att destination (k + 1) filled remaining status m = Some out"
          by simp
        with ok bound inside show ?thesis
          using IH by blast
      next
        case Failure
        with eq remaining inside attempt_okD(6) [OF ok Failure remaining] show ?thesis
          by (auto simp: loop_post_def unat_position [OF size inside])
      next
        case End_Of_File
        then have "fsize \<le> unat off + unat filled"
          using attempt_okD(2) [OF ok] remaining unat_position [OF size inside] by metis
        with End_Of_File eq remaining inside show ?thesis
          by (auto simp: loop_post_def)
      next
        case (Chunk bytes final)
        note chunk = attempt_okD(3-5) [OF ok Chunk remaining]
        note step = read_chunk_step [OF size bound inside chunk(2,1)]
          and post = loop_post_step [OF size bound inside chunk(2,1)]
        show ?thesis
        proof (cases final)
          case True
          then have "out = (filled + of_nat (length bytes), status, k + 1, ?m bytes)"
            using eq remaining Chunk by (simp add: Let_def)
          moreover have "fsize \<le> unat off + unat (filled + of_nat (length bytes)) \<or>
              stops k Ok (unat off + unat (filled + of_nat (length bytes))) (unat remaining)"
            using chunk(3) True by (simp add: unat_position [OF size inside] step(3) add.assoc)
          ultimately show ?thesis
            using step(5,6) chunk(1) unat_position [OF size inside] step(1,2,3)
            by (auto simp: loop_post_def word_le_nat_alt)
        next
          case False
          then have "loop att destination (k + 1) (filled + of_nat (length bytes))
              (remaining - of_nat (length bytes)) status (?m bytes) = Some out"
            using eq remaining Chunk by (simp add: Let_def)
          moreover have "unat (filled + of_nat (length bytes)) + unat (remaining - of_nat (length bytes))
              = unat filled + unat remaining"
            using step(2,3,4) unfolding step(1) word_le_nat_alt by simp
          ultimately show ?thesis
            using IH [of att destination "k + 1"] ok bound step(5) by (intro post) simp
        qed
      qed
    qed
  qed
  with assms show ?thesis by blast
qed

text \<open>A loop reports no failure but its own.\<close>

lemma fill_loop_status:
  assumes "fill_loop att destination k filled remaining status m = Some out"
  shows "fst (snd out) \<in> {status, Io_Error}"
proof (rule fill_loop.raw_induct [where P = "\<lambda>att destination k filled remaining status m out.
      fst (snd out) \<in> {status, Io_Error}", OF _ assms], goal_cases)
  case (1 loop att destination k filled remaining status m out)
  from 1(2) show ?case
    by (auto simp: Let_def split: if_splits attempt.splits dest!: 1(1))
qed

section \<open>The loop ends\<close>

definition attempt_fair :: "attempt_fn \<Rightarrow> bool" where
  "attempt_fair att \<longleftrightarrow> (\<forall>filled remaining k. \<exists>j \<ge> k. att j filled remaining \<noteq> Again)"

lemma fill_loop_again:
  assumes "remaining \<noteq> 0" "\<And>i. k \<le> i \<Longrightarrow> i < k + n \<Longrightarrow> att i filled remaining = Again"
  shows "fill_loop att destination k filled remaining status m
       = fill_loop att destination (k + n) filled remaining status m"
  using assms(2)
proof (induction n)
  case (Suc n)
  then have "att (k + n) filled remaining = Again"
    by simp
  then have "fill_loop att destination (k + n) filled remaining status m
      = fill_loop att destination (k + Suc n) filled remaining status m"
    using assms(1) by (simp add: fill_loop.simps [of att destination "k + n"])
  with Suc show ?case by simp
qed simp

lemma first_attempt:
  assumes "attempt_fair att"
  obtains n where "att (k + n) filled remaining \<noteq> Again"
    "\<And>i. k \<le> i \<Longrightarrow> i < k + n \<Longrightarrow> att i filled remaining = Again"
proof -
  let ?P = "\<lambda>n. att (k + n) filled remaining \<noteq> Again"
  from assms obtain j where "j \<ge> k" "att j filled remaining \<noteq> Again"
    unfolding attempt_fair_def by blast
  then have "?P (j - k)" by simp
  then have "?P (LEAST n. ?P n)" "\<And>n. n < (LEAST n. ?P n) \<Longrightarrow> \<not> ?P n"
    by (rule LeastI, auto dest: not_less_Least)
  then show thesis
    by (intro that [of "LEAST n. ?P n"]) (auto simp: le_iff_add)
qed

lemma fill_loop_returns:
  assumes ok: "attempt_ok content fsize stops off att" and fair: "attempt_fair att"
  shows "\<exists>out. fill_loop att destination k filled remaining status m = Some out"
proof (induction "unat remaining" arbitrary: k filled remaining m rule: less_induct)
  case less
  show ?case
  proof (cases "remaining = 0")
    case True
    then show ?thesis by (simp add: fill_loop.simps)
  next
    case False
    obtain n where n: "att (k + n) filled remaining \<noteq> Again"
        "\<And>i. k \<le> i \<Longrightarrow> i < k + n \<Longrightarrow> att i filled remaining = Again"
      using first_attempt [OF fair] by blast
    have skip: "fill_loop att destination k filled remaining status m
        = fill_loop att destination (k + n) filled remaining status m"
      using False n(2) by (rule fill_loop_again)
    note run = fill_loop.simps [of att destination "k + n"]
    show ?thesis
    proof (cases "att (k + n) filled remaining")
      case (Chunk bytes final)
      then have "unat (remaining - of_nat (length bytes)) < unat remaining"
        using attempt_okD(3,4) [OF ok Chunk False] unat_lt_64 [of remaining] False
        by (simp add: chunk_ok_def unat_minus_64 word_le_nat_alt unat_gt_0)
      then have "\<exists>out. fill_loop att destination (k + n + 1) (filled + of_nat (length bytes))
          (remaining - of_nat (length bytes)) status
          (write_bytes m (destination + filled) (\<lambda>i. bytes ! i) (length bytes)) = Some out"
        by (rule less.hyps)
      with False Chunk skip show ?thesis
        by (simp add: run Let_def)
    qed (use False n(1) skip in \<open>simp_all add: run\<close>)
  qed
qed

end
