(* ===== verification/Local_File_Backend.thy ===== *)
theory Local_File_Backend
  imports Read_Loop
begin

text \<open>
  The portable worker-pool backend, \<open>include/sub0mempage/local_file_backend.hpp\<close>: a bounded ring of
  accepted requests, workers that take them and read the file, and a shutdown that cancels what no
  worker has taken. Both branches of the code are modelled, for POSIX systems and for Windows.

  \<^item> The local variable of a worker between two critical sections is state of the model: the items that
    workers perform, the results they have delivered but not yet counted, and the items that a running
    \<open>shutdown\<close> has still to cancel.
  \<^item> The system calls are parameters. \<open>pread\<close> is the outcome of the \<open>k\<close>-th call of a read, as a
    function of its handle, offset and count; so is a \<open>ReadFile\<close> with the \<open>GetOverlappedResult\<close> that follows it.
    The results of \<open>open\<close>, \<open>fcntl\<close> and \<open>fstat\<close>, of \<open>CreateFileW\<close> and \<open>GetFileSizeEx\<close> are arguments of the
    registration.
  \<^item> \<open>size_t\<close> positions of the ring are \<open>nat\<close>; offsets and lengths are 64-bit words, a \<open>DWORD\<close> is a 32-bit word.
\<close>

section \<open>State\<close>

datatype file_access = Buffered | Uncached

type_synonym handle = int

definition invalid_handle :: handle where
  "invalid_handle = -1"

definition uncached_alignment :: u64 where
  "uncached_alignment = 4096"

record local_config =
  lc_workers :: nat
  lc_queue_capacity :: nat
  lc_max_sources :: nat

record local_stats =
  lst_accepted :: nat
  lst_rejected_queue_full :: nat
  lst_completed_ok :: nat
  lst_short_reads :: nat
  lst_errors :: nat
  lst_cancelled :: nat
  lst_bytes_read :: nat
  lst_queue_high_water :: nat
  lst_in_flight :: nat

record source_entry =
  se_source :: source_id
  se_handle :: handle
  se_size :: u64
  se_access :: file_access

record work_item =
  wi_request :: fill_request
  wi_handle :: handle
  wi_source_size :: u64
  wi_access :: file_access
  wi_known :: bool

record local_backend =
  lf_sources :: "source_entry list"
  lf_source_capacity :: nat
  lf_ring :: "work_item list"
  lf_head :: nat
  lf_ring_size :: nat
  lf_shutting_down :: bool
  lf_counters :: local_stats
  lf_idle :: nat
  lf_performing :: "work_item list"
  lf_uncounted :: "(u64 \<times> fill_result) list"
  lf_cancelling :: "work_item list"

definition default_request :: fill_request where
  "default_request =
     \<lparr>req_source = 0, req_source_offset = 0, req_destination = empty_span,
      req_token = \<lparr>token_index = 0, token_generation = 0\<rparr>, req_sink = 0\<rparr>"

definition default_item :: work_item where
  "default_item =
     \<lparr>wi_request = default_request, wi_handle = invalid_handle, wi_source_size = 0,
      wi_access = Buffered, wi_known = False\<rparr>"

definition default_local_stats :: local_stats where
  "default_local_stats =
     \<lparr>lst_accepted = 0, lst_rejected_queue_full = 0, lst_completed_ok = 0, lst_short_reads = 0,
      lst_errors = 0, lst_cancelled = 0, lst_bytes_read = 0, lst_queue_high_water = 0, lst_in_flight = 0\<rparr>"

section \<open>Construction and registration\<close>

text \<open>
  \<open>reserve\<close> makes the capacity of the source table at least \<open>max_sources\<close>; what it is, the standard
  library decides, so it is an argument.
\<close>

definition lf_construct :: "nat \<Rightarrow> local_config \<Rightarrow> local_backend" where
  "lf_construct capacity config =
     \<lparr>lf_sources = [], lf_source_capacity = capacity,
      lf_ring = replicate (lc_queue_capacity config) default_item, lf_head = 0, lf_ring_size = 0,
      lf_shutting_down = False, lf_counters = default_local_stats, lf_idle = lc_workers config,
      lf_performing = [], lf_uncounted = [], lf_cancelling = []\<rparr>"

definition lf_create :: "nat \<Rightarrow> local_config \<Rightarrow> status + local_backend" where
  "lf_create capacity config =
     (if lc_workers config = 0 \<or> lc_queue_capacity config = 0 \<or> lc_max_sources config = 0
      then Inl Invalid_Argument else Inr (lf_construct capacity config))"

definition close_handle :: "handle \<Rightarrow> handle list" where
  "close_handle h = (if h = invalid_handle then [] else [h])"

text \<open>
  The end of \<open>register_file\<close>, under the lock: a file that was opened and sized is entered into the table. With
  the status and the backend it returns the handles it closes.
\<close>

definition lf_add_source ::
    "handle \<Rightarrow> u64 \<Rightarrow> source_id \<Rightarrow> file_access \<Rightarrow> local_backend \<Rightarrow> status \<times> handle list \<times> local_backend" where
  "lf_add_source opened n source access b =
     (if list_ex (\<lambda>e. se_source e = source) (lf_sources b) then (Invalid_Argument, close_handle opened, b)
      else if length (lf_sources b) = lf_source_capacity b then (Ticket_Exhausted, close_handle opened, b)
      else (Ok, [], b\<lparr>lf_sources := lf_sources b @
              [\<lparr>se_source = source, se_handle = opened, se_size = n, se_access = access\<rparr>]\<rparr>))"

text \<open>
  \<open>register_file\<close> on POSIX systems: \<open>opened\<close> is what \<open>open\<close> returns, \<open>nocache\<close> whether \<open>fcntl(F_NOCACHE)\<close>
  succeeds where it exists, \<open>sized\<close> what \<open>fstat\<close> reports.
\<close>

definition lf_register_file ::
    "handle \<Rightarrow> bool \<Rightarrow> u64 option \<Rightarrow> source_id \<Rightarrow> file_access \<Rightarrow> local_backend
       \<Rightarrow> status \<times> handle list \<times> local_backend" where
  "lf_register_file opened nocache sized source access b =
     (let uncached = (access = Uncached) in
      if opened = invalid_handle then (Io_Error, [], b)
      else if uncached \<and> \<not> nocache then (Io_Error, close_handle opened, b)
      else case sized of
        None \<Rightarrow> (Io_Error, close_handle opened, b)
      | Some n \<Rightarrow> lf_add_source opened n source access b)"

text \<open>On Windows: \<open>opened\<close> is what \<open>CreateFileW\<close> returns, \<open>sized\<close> what \<open>GetFileSizeEx\<close> reports.\<close>

definition lf_register_file_win ::
    "handle \<Rightarrow> u64 option \<Rightarrow> source_id \<Rightarrow> file_access \<Rightarrow> local_backend \<Rightarrow> status \<times> handle list \<times> local_backend" where
  "lf_register_file_win opened sized source access b =
     (if opened = invalid_handle then (Io_Error, [], b)
      else case sized of
        None \<Rightarrow> (Io_Error, close_handle opened, b)
      | Some n \<Rightarrow> lf_add_source opened n source access b)"

fun find_source :: "source_entry list \<Rightarrow> source_id \<Rightarrow> source_entry option" where
  "find_source [] source = None"
| "find_source (e # entries) source = (if se_source e = source then Some e else find_source entries source)"

section \<open>The queue\<close>

definition upd_lf_counters :: "(local_stats \<Rightarrow> local_stats) \<Rightarrow> local_backend \<Rightarrow> local_backend" where
  "upd_lf_counters f b = b\<lparr>lf_counters := f (lf_counters b)\<rparr>"

definition make_item :: "source_entry list \<Rightarrow> fill_request \<Rightarrow> work_item" where
  "make_item sources request =
     (let entry = find_source sources (req_source request) in
      \<lparr>wi_request = request,
       wi_handle = (case entry of Some e \<Rightarrow> se_handle e | None \<Rightarrow> invalid_handle),
       wi_source_size = (case entry of Some e \<Rightarrow> se_size e | None \<Rightarrow> 0),
       wi_access = (case entry of Some e \<Rightarrow> se_access e | None \<Rightarrow> Buffered),
       wi_known = (entry \<noteq> None)\<rparr>)"

definition lf_submit :: "local_backend submit_fn" where
  "lf_submit request b =
     (if lf_shutting_down b \<or> lf_ring_size b = length (lf_ring b)
      then (False, upd_lf_counters (\<lambda>c. c\<lparr>lst_rejected_queue_full := lst_rejected_queue_full c + 1\<rparr>) b)
      else let b = b\<lparr>lf_ring := (lf_ring b)[(lf_head b + lf_ring_size b) mod length (lf_ring b)
                                       := make_item (lf_sources b) request]\<rparr>;
               b = b\<lparr>lf_ring_size := lf_ring_size b + 1\<rparr>
           in (True, upd_lf_counters (\<lambda>c. c\<lparr>lst_accepted := lst_accepted c + 1,
                       lst_queue_high_water := max (lst_queue_high_water c) (lf_ring_size b)\<rparr>) b))"

text \<open>
  The critical section of \<open>worker_loop\<close>: \<open>None\<close> while the worker waits; otherwise the item it takes, or
  no item when the worker ends.
\<close>

definition lf_pop :: "local_backend \<Rightarrow> work_item \<times> local_backend" where
  "lf_pop b =
     (lf_ring b ! lf_head b,
      b\<lparr>lf_head := (lf_head b + 1) mod length (lf_ring b), lf_ring_size := lf_ring_size b - 1\<rparr>)"

definition lf_take :: "local_backend \<Rightarrow> (work_item option \<times> local_backend) option" where
  "lf_take b =
     (if lf_idle b = 0 \<or> (lf_ring_size b = 0 \<and> \<not> lf_shutting_down b) then None
      else if lf_ring_size b = 0 then Some (None, b\<lparr>lf_idle := lf_idle b - 1\<rparr>)
      else let (item, b) = lf_pop b;
               b = upd_lf_counters (\<lambda>c. c\<lparr>lst_in_flight := lst_in_flight c + 1\<rparr>) b
           in Some (Some item, b\<lparr>lf_idle := lf_idle b - 1, lf_performing := item # lf_performing b\<rparr>))"

section \<open>Reading\<close>

datatype pread_outcome = Interrupted | Pread_Failed | Got "byte list"

type_synonym pread_fn = "nat \<Rightarrow> handle \<Rightarrow> u64 \<Rightarrow> u64 \<Rightarrow> pread_outcome"

definition uncached_request_valid :: "work_item \<Rightarrow> bool" where
  "uncached_request_valid item =
     (let request = wi_request item;
          len = span_size (req_destination request);
          to_end_of_file = (req_source_offset request + len \<ge> wi_source_size item)
      in req_source_offset request mod uncached_alignment = 0 \<and>
         span_data (req_destination request) mod uncached_alignment = 0 \<and>
         (len mod uncached_alignment = 0 \<or> to_end_of_file))"

text \<open>
  One round of the loop of \<open>read_range\<close> on POSIX systems. The loop itself is \<open>fill_loop\<close>; its result is the byte
  count, the status, the number of calls made so far and the memory.
\<close>

definition pread_attempt :: "pread_fn \<Rightarrow> bool \<Rightarrow> handle \<Rightarrow> u64 \<Rightarrow> attempt_fn" where
  "pread_attempt pread short_is_eof h off k filled remaining =
     (case pread k h (off + filled) remaining of
        Interrupted \<Rightarrow> Again
      | Pread_Failed \<Rightarrow> Failure
      | Got bytes \<Rightarrow>
          if bytes = [] then End_Of_File else Chunk bytes (short_is_eof \<and> of_nat (length bytes) < remaining))"

type_synonym reader =
  "nat \<Rightarrow> handle \<Rightarrow> file_access \<Rightarrow> u64 \<Rightarrow> u64 \<Rightarrow> u64 \<Rightarrow> status \<Rightarrow> memory \<Rightarrow> (u64 \<times> status \<times> nat \<times> memory) option"

definition read_range :: "pread_fn \<Rightarrow> reader" where
  "read_range pread k h access destination len off status m =
     fill_loop (pread_attempt pread (access = Uncached) h off) destination k 0 len status m"

text \<open>
  On Windows: an overlapped \<open>ReadFile\<close> (at once, pending, at the end of the file, or failed) and the
  \<open>GetOverlappedResult\<close> that waits for it. The position is split into the halves of the \<open>OVERLAPPED\<close>.
\<close>

datatype issue_outcome = Issued | Issue_Eof | Issue_Failed

datatype overlapped_result = Transferred "byte list" | Result_Eof | Result_Failed

type_synonym overlapped_fn =
  "nat \<Rightarrow> handle \<Rightarrow> 32 word \<Rightarrow> 32 word \<Rightarrow> 32 word \<Rightarrow> issue_outcome \<times> overlapped_result"

definition win_attempt :: "overlapped_fn \<Rightarrow> bool \<Rightarrow> handle \<Rightarrow> u64 \<Rightarrow> attempt_fn" where
  "win_attempt win short_is_eof h off k filled remaining =
     (let pos = off + filled;
          chunk = min remaining 0x40000000;
          (issue, result) = win k h (ucast (pos AND 0xFFFFFFFF)) (ucast (drop_bit 32 pos)) (ucast chunk)
      in case issue of
           Issue_Eof \<Rightarrow> End_Of_File
         | Issue_Failed \<Rightarrow> Failure
         | Issued \<Rightarrow>
             (case result of
                Result_Eof \<Rightarrow> End_Of_File
              | Result_Failed \<Rightarrow> Failure
              | Transferred bytes \<Rightarrow>
                  if bytes = [] then End_Of_File
                  else Chunk bytes (short_is_eof \<and> of_nat (length bytes) < chunk)))"

definition read_range_win :: "overlapped_fn \<Rightarrow> bool \<Rightarrow> reader" where
  "read_range_win win event k h access destination len off status m =
     (if \<not> event then Some (0, Io_Error, k, m)
      else fill_loop (win_attempt win (access = Uncached) h off) destination k 0 len status m)"

text \<open>
  What \<open>worker_loop\<close> gives to the reads of its worker: nothing on POSIX systems, an event on Windows, which
  may have failed to be created.
\<close>

definition posix_readers :: "pread_fn \<Rightarrow> reader set" where
  "posix_readers pread = {read_range pread}"

definition win_readers :: "overlapped_fn \<Rightarrow> reader set" where
  "win_readers win = {read_range_win win True, read_range_win win False}"

text \<open>
  \<open>perform\<close> up to its delivery, with the \<open>read_range\<close> of the worker. The scratch block of the worker is memory of
  its own; what it holds before the read does not matter, since only bytes just read are copied out of it.
\<close>

definition lf_perform ::
    "reader \<Rightarrow> nat \<Rightarrow> work_item \<Rightarrow> memory \<Rightarrow> (fill_result \<times> nat \<times> memory) option" where
  "lf_perform read k item m =
     (let uncached = (wi_access item = Uncached); request = wi_request item in
      if \<not> wi_known item \<or> (uncached \<and> \<not> uncached_request_valid item)
      then Some (\<lparr>result_status = Invalid_Argument, result_bytes = 0\<rparr>, k, m)
      else let dst = span_data (req_destination request);
               wanted = span_size (req_destination request);
               in_place = (if uncached then wanted div uncached_alignment * uncached_alignment else wanted)
           in case read k (wi_handle item) (wi_access item) dst in_place (req_source_offset request) Ok m of
             None \<Rightarrow> None
           | Some (filled, status, k, m) \<Rightarrow>
               if status = Ok \<and> filled = in_place \<and> in_place < wanted
               then case read k (wi_handle item) (wi_access item) 0 uncached_alignment
                           (req_source_offset request + in_place) status (\<lambda>_. 0) of
                 None \<Rightarrow> None
               | Some (got, status, k, scratch) \<Rightarrow>
                   let tail = min got (wanted - in_place);
                       m = write_bytes m (dst + in_place) (\<lambda>i. scratch (of_nat i)) (unat tail)
                   in Some (\<lparr>result_status = status, result_bytes = filled + tail\<rparr>, k, m)
               else Some (\<lparr>result_status = status, result_bytes = filled\<rparr>, k, m))"

text \<open>The delivery of a performed item, and the counting under the lock that follows it.\<close>

definition lf_delivered :: "work_item \<Rightarrow> fill_result \<Rightarrow> local_backend \<Rightarrow> local_backend" where
  "lf_delivered item result b =
     b\<lparr>lf_performing := remove1 item (lf_performing b),
       lf_uncounted := (span_size (req_destination (wi_request item)), result) # lf_uncounted b\<rparr>"

definition count_result :: "u64 \<Rightarrow> fill_result \<Rightarrow> local_stats \<Rightarrow> local_stats" where
  "count_result wanted result c =
     (let c = c\<lparr>lst_bytes_read := lst_bytes_read c + unat (result_bytes result),
               lst_in_flight := lst_in_flight c - 1\<rparr>
      in if result_status result \<noteq> Ok then c\<lparr>lst_errors := lst_errors c + 1\<rparr>
         else if result_bytes result = wanted then c\<lparr>lst_completed_ok := lst_completed_ok c + 1\<rparr>
         else c\<lparr>lst_short_reads := lst_short_reads c + 1\<rparr>)"

definition lf_count :: "nat \<Rightarrow> local_backend \<Rightarrow> local_backend option" where
  "lf_count i b =
     (if i \<ge> length (lf_uncounted b) then None
      else let (wanted, result) = lf_uncounted b ! i
           in Some (upd_lf_counters (count_result wanted result)
                      (b\<lparr>lf_uncounted := remove_at i (lf_uncounted b), lf_idle := lf_idle b + 1\<rparr>)))"

section \<open>Shutdown\<close>

fun drain_ring :: "nat \<Rightarrow> local_backend \<Rightarrow> work_item list \<times> local_backend" where
  "drain_ring 0 b = ([], b)"
| "drain_ring (Suc n) b = (let (item, b) = lf_pop b; (items, b) = drain_ring n b in (item # items, b))"

text \<open>\<open>shutdown\<close> up to its first delivery, each of its deliveries, and its join.\<close>

definition lf_shutdown_begin :: "local_backend \<Rightarrow> local_backend" where
  "lf_shutdown_begin b =
     (if lf_shutting_down b then b
      else let b = b\<lparr>lf_shutting_down := True\<rparr>;
               (queued, b) = drain_ring (lf_ring_size b) b
           in b\<lparr>lf_cancelling := queued\<rparr>)"

definition cancelled_result :: fill_result where
  "cancelled_result = \<lparr>result_status = Cancelled, result_bytes = 0\<rparr>"

definition lf_cancel :: "local_backend \<Rightarrow> (fill_request \<times> fill_result \<times> local_backend) option" where
  "lf_cancel b =
     (case lf_cancelling b of
        [] \<Rightarrow> None
      | item # rest \<Rightarrow>
          Some (wi_request item, cancelled_result,
                upd_lf_counters (\<lambda>c. c\<lparr>lst_cancelled := lst_cancelled c + 1\<rparr>) (b\<lparr>lf_cancelling := rest\<rparr>)))"

definition lf_joined :: "local_backend \<Rightarrow> bool" where
  "lf_joined b \<longleftrightarrow>
     lf_shutting_down b \<and> lf_cancelling b = [] \<and> lf_idle b = 0 \<and> lf_performing b = [] \<and> lf_uncounted b = []"

text \<open>The handles that the destructor closes after \<open>shutdown\<close>.\<close>

definition lf_destroy :: "local_backend \<Rightarrow> handle list" where
  "lf_destroy b = concat (map (\<lambda>e. close_handle (se_handle e)) (lf_sources b))"

definition lf_stats :: "local_backend \<Rightarrow> local_stats" where
  "lf_stats b = lf_counters b"

end
