(* ===== verification/Local_File_Read.thy ===== *)
theory Local_File_Read
  imports Local_File_Backend
begin

text \<open>
  The two readers of the worker-pool backend. The documented behaviour of \<open>pread\<close> and of overlapped reads on a
  regular file enters as hypotheses (\<open>pread_spec\<close>, \<open>pread_fair\<close>; \<open>win_spec\<close>); from them both readers meet one contract,
  \<open>reader_ok\<close>, on which the rest of the backend's verification rests. Nothing is assumed about when a call
  fails, and nothing about how many of the requested bytes one call brings: a transfer that is cut short
  inside the file is an outcome that the contract names.
\<close>

section \<open>The contract of a reader\<close>

text \<open>
  \<open>file h\<close> is the content of the file behind handle \<open>h\<close> and \<open>fsize h\<close> its size; \<open>stops access h\<close> are the reasons,
  other than the end of the file, for which a read may end early.
\<close>

definition reader_ok ::
    "(handle \<Rightarrow> u64 \<Rightarrow> byte) \<Rightarrow> (handle \<Rightarrow> nat) \<Rightarrow> (file_access \<Rightarrow> handle \<Rightarrow> stops) \<Rightarrow> reader \<Rightarrow> bool" where
  "reader_ok file fsize stops read \<longleftrightarrow>
     (\<forall>h. fsize h < 18446744073709551616) \<and>
     (\<forall>k h access destination len off m out. read k h access destination len off Ok m = Some out \<longrightarrow>
        loop_post (file h) (fsize h) (stops access h) destination off 0 len Ok m out)"

definition reader_returns :: "reader \<Rightarrow> bool" where
  "reader_returns read \<longleftrightarrow>
     (\<forall>k h access destination len off status m. \<exists>out. read k h access destination len off status m = Some out)"

definition reader_honest :: "reader \<Rightarrow> bool" where
  "reader_honest read \<longleftrightarrow>
     (\<forall>k h access destination len off status m out.
        read k h access destination len off status m = Some out \<longrightarrow> fst (snd out) \<in> {status, Io_Error})"

lemma reader_okD:
  assumes "reader_ok file fsize stops read"
  shows "fsize h < 18446744073709551616"
    "read k h access destination len off Ok m = Some out \<Longrightarrow>
       loop_post (file h) (fsize h) (stops access h) destination off 0 len Ok m out"
  using assms unfolding reader_ok_def by blast+

lemma reader_ok_weaken:
  assumes "reader_ok file fsize stops read" "\<And>access h k s p n. stops access h k s p n \<Longrightarrow> stops' access h k s p n"
  shows "reader_ok file fsize stops' read"
proof -
  have "loop_post (file h) (fsize h) (stops' access h) destination off 0 len Ok m out"
    if "loop_post (file h) (fsize h) (stops access h) destination off 0 len Ok m out"
    for h access destination off len m out
    using that assms(2) unfolding loop_post_def by (fastforce split: prod.splits)
  with assms(1) show ?thesis
    unfolding reader_ok_def by blast
qed

section \<open>POSIX systems\<close>

text \<open>
  A call of \<open>pread\<close> returns at most the requested count, of the file's bytes, never past its end, and none of
  them only at the end.
\<close>

definition pread_spec :: "pread_fn \<Rightarrow> (handle \<Rightarrow> u64 \<Rightarrow> byte) \<Rightarrow> (handle \<Rightarrow> nat) \<Rightarrow> bool" where
  "pread_spec pread file fsize \<longleftrightarrow>
     (\<forall>h. fsize h < 18446744073709551616) \<and>
     (\<forall>k h off n bytes. pread k h off n = Got bytes \<longrightarrow>
        chunk_ok (file h) (fsize h) off n bytes \<and> (bytes = [] \<longrightarrow> n \<noteq> 0 \<longrightarrow> fsize h \<le> unat off))"

text \<open>
  The two ways in which the call of \<open>pread\<close> with number \<open>k\<close> leaves bytes unread: it fails, or it brings fewer than
  the requested \<open>n\<close> bytes, up to position \<open>p\<close>. A read goes on after the second one, except for direct access.
\<close>

definition pread_fails_at :: "pread_fn \<Rightarrow> nat \<Rightarrow> handle \<Rightarrow> nat \<Rightarrow> nat \<Rightarrow> bool" where
  "pread_fails_at pread k h p n \<longleftrightarrow>
     (\<exists>off len. pread k h off len = Pread_Failed \<and> unat off = p \<and> unat len = n)"

definition pread_cut_at :: "pread_fn \<Rightarrow> nat \<Rightarrow> handle \<Rightarrow> nat \<Rightarrow> nat \<Rightarrow> bool" where
  "pread_cut_at pread k h p n \<longleftrightarrow>
     (\<exists>off len bytes. pread k h off len = Got bytes \<and> unat len = n \<and> length bytes < n \<and>
        unat off + length bytes = p)"

text \<open>No call is interrupted for ever.\<close>

definition pread_fair :: "pread_fn \<Rightarrow> bool" where
  "pread_fair pread \<longleftrightarrow> (\<forall>h off n k. \<exists>j \<ge> k. pread j h off n \<noteq> Interrupted)"

definition posix_stops :: "pread_fn \<Rightarrow> file_access \<Rightarrow> handle \<Rightarrow> stops" where
  "posix_stops pread access h k s p n \<longleftrightarrow>
     (if s = Ok then access = Uncached \<and> pread_cut_at pread k h p n else pread_fails_at pread k h p n)"

lemma pread_attempt_ok:
  assumes spec: "pread_spec pread file fsize"
  shows "attempt_ok (file h) (fsize h) (posix_stops pread access h) off (pread_attempt pread (access = Uncached) h off)"
  unfolding attempt_ok_def
proof (intro conjI allI impI)
  show "fsize h < 18446744073709551616"
    using spec by (simp add: pread_spec_def)
next
  fix k filled remaining bytes final
  assume att: "pread_attempt pread (access = Uncached) h off k filled remaining = Chunk bytes final" and "remaining \<noteq> 0"
  have got: "pread k h (off + filled) remaining = Got bytes" and some: "bytes \<noteq> []"
    and final: "final = (access = Uncached \<and> of_nat (length bytes) < remaining)"
    using att by (auto simp: pread_attempt_def split: pread_outcome.splits if_splits)
  show "bytes \<noteq> []" by (rule some)
  show ok: "chunk_ok (file h) (fsize h) (off + filled) remaining bytes"
    using spec got unfolding pread_spec_def by blast
  show "fsize h \<le> unat (off + filled) + length bytes \<or>
      posix_stops pread access h k Ok (unat (off + filled) + length bytes) (unat remaining)" if final
  proof -
    have "length bytes < unat remaining"
      using that final ok unat_lt_64 [of remaining] by (simp add: chunk_ok_def word_less_nat_alt)
    with that final got show ?thesis
      unfolding posix_stops_def pread_cut_at_def by auto
  qed
next
  fix k filled remaining
  assume "pread_attempt pread (access = Uncached) h off k filled remaining = End_Of_File" "remaining \<noteq> 0"
  then show "fsize h \<le> unat (off + filled)"
    using spec unfolding pread_spec_def pread_attempt_def
    by (auto split: pread_outcome.splits if_splits)
next
  fix k filled remaining
  assume "pread_attempt pread (access = Uncached) h off k filled remaining = Failure"
  then show "posix_stops pread access h k Io_Error (unat (off + filled)) (unat remaining)"
    unfolding posix_stops_def pread_fails_at_def pread_attempt_def
    by (auto split: pread_outcome.splits if_splits)
qed

lemma pread_attempt_fair:
  assumes "pread_fair pread"
  shows "attempt_fair (pread_attempt pread sie h off)"
  unfolding attempt_fair_def
proof (intro allI)
  fix filled remaining k
  obtain j where "j \<ge> k" "pread j h (off + filled) remaining \<noteq> Interrupted"
    using assms unfolding pread_fair_def by blast
  then show "\<exists>j \<ge> k. pread_attempt pread sie h off j filled remaining \<noteq> Again"
    by (intro exI [of _ j]) (simp add: pread_attempt_def split: pread_outcome.split)
qed

lemma loop_reader_ok:
  assumes "\<And>h. fsize h < 18446744073709551616"
    and "\<And>h access off. attempt_ok (file h) (fsize h) (stops access h) off (att h access off)"
  shows "reader_ok file fsize stops
    (\<lambda>k h access destination len off status m. fill_loop (att h access off) destination k 0 len status m)"
  unfolding reader_ok_def
proof (intro conjI allI impI)
  fix k h access destination len off m out
  assume "fill_loop (att h access off) destination k 0 len Ok m = Some out"
  with assms(2) show "loop_post (file h) (fsize h) (stops access h) destination off 0 len Ok m out"
    by (rule fill_loop_post) (simp_all add: unat_lt_64)
qed (rule assms(1))

lemma posix_reader_ok:
  assumes "pread_spec pread file fsize"
  shows "reader_ok file fsize (posix_stops pread) (read_range pread)"
proof -
  have "attempt_ok (file h) (fsize h) (posix_stops pread access h) off (pread_attempt pread (access = Uncached) h off)"
    for h access off
    using assms by (rule pread_attempt_ok)
  then show ?thesis
    unfolding read_range_def [abs_def] using assms
    by (intro loop_reader_ok [where att = "\<lambda>h access off. pread_attempt pread (access = Uncached) h off"])
      (simp_all add: pread_spec_def)
qed

lemma posix_reader_returns:
  "pread_spec pread file fsize \<Longrightarrow> pread_fair pread \<Longrightarrow> reader_returns (read_range pread)"
  unfolding reader_returns_def read_range_def
  by (blast intro: fill_loop_returns pread_attempt_ok pread_attempt_fair)

lemma posix_reader_honest: "reader_honest (read_range pread)"
  unfolding reader_honest_def read_range_def by (blast dest: fill_loop_status)

section \<open>Windows\<close>

definition overlapped_pos :: "32 word \<Rightarrow> 32 word \<Rightarrow> u64" where
  "overlapped_pos lo hi = push_bit 32 (ucast hi) OR ucast lo"

lemma overlapped_pos_split: "overlapped_pos (ucast (pos AND 0xFFFFFFFF)) (ucast (drop_bit 32 pos)) = pos"
proof -
  have mask: "(0xFFFFFFFF :: u64) = mask 32"
    by (simp add: mask_eq_exp_minus_1)
  show ?thesis
    unfolding mask by (rule bit_eqI) (auto simp: overlapped_pos_def bit_simps)
qed

text \<open>
  An overlapped read at a position transfers at most the requested count, of the file's bytes, never past its
  end; it transfers none, or reports the end of the file, only at the end.
\<close>

definition win_spec :: "overlapped_fn \<Rightarrow> (handle \<Rightarrow> u64 \<Rightarrow> byte) \<Rightarrow> (handle \<Rightarrow> nat) \<Rightarrow> bool" where
  "win_spec win file fsize \<longleftrightarrow>
     (\<forall>h. fsize h < 18446744073709551616) \<and>
     (\<forall>k h lo hi n issue result. win k h lo hi n = (issue, result) \<longrightarrow>
        (\<forall>bytes. issue = Issued \<longrightarrow> result = Transferred bytes \<longrightarrow>
           chunk_ok (file h) (fsize h) (overlapped_pos lo hi) (ucast n) bytes \<and>
           (bytes = [] \<longrightarrow> n \<noteq> 0 \<longrightarrow> fsize h \<le> unat (overlapped_pos lo hi))) \<and>
        (issue = Issue_Eof \<or> issue = Issued \<and> result = Result_Eof \<longrightarrow> fsize h \<le> unat (overlapped_pos lo hi)))"

text \<open>
  A read that fails when it is issued or when its result is fetched, and one that transfers less than its chunk
  (at most a gibibyte of the \<open>n\<close> bytes that the loop still wants).
\<close>

definition win_fails_at :: "overlapped_fn \<Rightarrow> nat \<Rightarrow> handle \<Rightarrow> nat \<Rightarrow> bool" where
  "win_fails_at win k h p \<longleftrightarrow>
     (\<exists>lo hi len issue result. win k h lo hi len = (issue, result) \<and> unat (overlapped_pos lo hi) = p \<and>
        (issue = Issue_Failed \<or> issue = Issued \<and> result = Result_Failed))"

definition win_cut_at :: "overlapped_fn \<Rightarrow> nat \<Rightarrow> handle \<Rightarrow> nat \<Rightarrow> nat \<Rightarrow> bool" where
  "win_cut_at win k h p n \<longleftrightarrow>
     (\<exists>lo hi len bytes. win k h lo hi len = (Issued, Transferred bytes) \<and> unat len = min n 1073741824 \<and>
        length bytes < unat len \<and> unat (overlapped_pos lo hi) + length bytes = p)"

text \<open>A worker without an event reads nothing: \<open>event\<close> is whether it has one.\<close>

definition win_stops :: "overlapped_fn \<Rightarrow> bool \<Rightarrow> file_access \<Rightarrow> handle \<Rightarrow> stops" where
  "win_stops win event access h k s p n \<longleftrightarrow>
     (if s = Ok then access = Uncached \<and> win_cut_at win k h p n else \<not> event \<or> win_fails_at win k h p)"

lemma unat_win_chunk:
  fixes remaining :: u64
  shows "unat (ucast (min remaining 0x40000000) :: 32 word) = min (unat remaining) 1073741824"
proof -
  have "unat (min remaining 0x40000000) = min (unat remaining) 1073741824"
    by (simp add: unat_min_64)
  then show ?thesis
    by (simp add: unsigned_ucast_eq take_bit_nat_eq_self)
qed

lemma unat_ucast_32_64: "unat (ucast (x :: 32 word) :: u64) = unat x"
proof -
  have "unat x < 2 ^ LENGTH(32)"
    by (rule unsigned_less)
  then show ?thesis
    by (simp add: unsigned_ucast_eq take_bit_nat_eq_self del: unsigned_less)
qed

lemma win_attemptE:
  assumes "win_attempt win sie h off k filled remaining = outcome"
  obtains issue result lo hi where "win k h lo hi (ucast (min remaining 0x40000000)) = (issue, result)"
    "overlapped_pos lo hi = off + filled"
    "outcome = (case issue of
           Issue_Eof \<Rightarrow> End_Of_File
         | Issue_Failed \<Rightarrow> Failure
         | Issued \<Rightarrow>
             (case result of
                Result_Eof \<Rightarrow> End_Of_File
              | Result_Failed \<Rightarrow> Failure
              | Transferred bytes \<Rightarrow>
                  if bytes = [] then End_Of_File
                  else Chunk bytes (sie \<and> of_nat (length bytes) < min remaining 0x40000000)))"
proof -
  let ?pos = "off + filled" and ?chunk = "min remaining 0x40000000"
  let ?lo = "ucast (?pos AND 0xFFFFFFFF) :: 32 word" and ?hi = "ucast (drop_bit 32 ?pos) :: 32 word"
  obtain issue result where run: "win k h ?lo ?hi (ucast ?chunk) = (issue, result)"
    by (cases "win k h ?lo ?hi (ucast ?chunk)")
  show thesis
    by (rule that [OF run overlapped_pos_split])
      (use assms(1) run in \<open>simp add: win_attempt_def Let_def\<close>)
qed

lemma win_attempt_ok:
  assumes spec: "win_spec win file fsize"
  shows "attempt_ok (file h) (fsize h) (win_stops win event access h) off (win_attempt win (access = Uncached) h off)"
  unfolding attempt_ok_def
proof (intro conjI allI impI)
  show "fsize h < 18446744073709551616"
    using spec by (simp add: win_spec_def)
next
  fix k bytes final and filled remaining :: u64
  let ?chunk = "min remaining 0x40000000"
  assume "win_attempt win (access = Uncached) h off k filled remaining = Chunk bytes final" and "remaining \<noteq> 0"
  then obtain lo hi where pos: "overlapped_pos lo hi = off + filled"
      and run: "win k h lo hi (ucast ?chunk) = (Issued, Transferred bytes)"
      and some: "bytes \<noteq> []" and final: "final = (access = Uncached \<and> of_nat (length bytes) < ?chunk)"
    by (elim win_attemptE) (auto split: issue_outcome.splits overlapped_result.splits if_splits)
  show "bytes \<noteq> []" by (rule some)
  have chunk: "chunk_ok (file h) (fsize h) (off + filled) (ucast (ucast ?chunk :: 32 word)) bytes"
    using spec run unfolding win_spec_def pos [symmetric] by blast
  then have len: "length bytes \<le> min (unat remaining) 1073741824"
    by (simp add: chunk_ok_def unat_ucast_32_64 unat_win_chunk)
  with chunk show "chunk_ok (file h) (fsize h) (off + filled) remaining bytes"
    by (simp add: chunk_ok_def)
  show "fsize h \<le> unat (off + filled) + length bytes \<or>
      win_stops win event access h k Ok (unat (off + filled) + length bytes) (unat remaining)" if final
  proof -
    have "length bytes < unat ?chunk"
      using that final len by (simp add: word_less_nat_alt)
    then have "length bytes < unat (ucast ?chunk :: 32 word)"
      by (simp add: unat_win_chunk unat_min_64)
    with run have "win_cut_at win k h (unat (off + filled) + length bytes) (unat remaining)"
      unfolding win_cut_at_def pos [symmetric] using unat_win_chunk by blast
    with that final show ?thesis
      by (simp add: win_stops_def)
  qed
next
  fix k and filled remaining :: u64
  assume "win_attempt win (access = Uncached) h off k filled remaining = End_Of_File" and some: "remaining \<noteq> 0"
  then obtain issue result lo hi where pos: "overlapped_pos lo hi = off + filled"
      and run: "win k h lo hi (ucast (min remaining 0x40000000)) = (issue, result)"
      and kind: "issue = Issue_Eof \<or> issue = Issued \<and> (result = Result_Eof \<or> result = Transferred [])"
    by (elim win_attemptE) (auto split: issue_outcome.splits overlapped_result.splits if_splits)
  have "unat (ucast (min remaining 0x40000000) :: 32 word) \<noteq> 0"
    using some by (simp add: unat_win_chunk unat_gt_0)
  then have "ucast (min remaining 0x40000000) \<noteq> (0 :: 32 word)"
    by auto
  with spec run kind show "fsize h \<le> unat (off + filled)"
    unfolding win_spec_def pos [symmetric] by blast
next
  fix k and filled remaining :: u64
  assume "win_attempt win (access = Uncached) h off k filled remaining = Failure"
  then obtain issue result lo hi where "overlapped_pos lo hi = off + filled"
      "win k h lo hi (ucast (min remaining 0x40000000)) = (issue, result)"
      "issue = Issue_Failed \<or> issue = Issued \<and> result = Result_Failed"
    by (elim win_attemptE) (auto split: issue_outcome.splits overlapped_result.splits if_splits)
  then have "win_fails_at win k h (unat (off + filled))"
    unfolding win_fails_at_def by (metis (no_types, lifting))
  then show "win_stops win event access h k Io_Error (unat (off + filled)) (unat remaining)"
    by (simp add: win_stops_def)
qed

lemma win_attempt_fair: "attempt_fair (win_attempt win sie h off)"
proof -
  have "win_attempt win sie h off k filled remaining \<noteq> Again" for k filled remaining
    by (auto elim!: win_attemptE split: issue_outcome.splits overlapped_result.splits if_splits)
  then show ?thesis
    unfolding attempt_fair_def by blast
qed

lemma win_reader_cases:
  "read_range_win win event = (if event then (\<lambda>k h access destination len off status m.
       fill_loop (win_attempt win (access = Uncached) h off) destination k 0 len status m)
     else (\<lambda>k h access destination len off status m. Some (0, Io_Error, k, m)))"
  by (intro ext) (simp add: read_range_win_def)

lemma win_reader_ok:
  assumes spec: "win_spec win file fsize"
  shows "reader_ok file fsize (win_stops win event) (read_range_win win event)"
proof (cases event)
  case True
  have "attempt_ok (file h) (fsize h) (win_stops win event access h) off (win_attempt win (access = Uncached) h off)"
    for h access off
    using spec by (rule win_attempt_ok)
  then show ?thesis
    unfolding win_reader_cases using spec True
    by simp (intro loop_reader_ok, simp_all add: win_spec_def)
next
  case False
  with spec show ?thesis
    by (auto simp: win_reader_cases reader_ok_def loop_post_def win_spec_def win_stops_def)
qed

lemma win_reader_returns:
  assumes "win_spec win file fsize"
  shows "reader_returns (read_range_win win event)"
  unfolding reader_returns_def win_reader_cases
  using fill_loop_returns [OF win_attempt_ok [OF assms] win_attempt_fair] by auto

lemma win_reader_honest: "reader_honest (read_range_win win event)"
  unfolding reader_honest_def win_reader_cases by (auto dest: fill_loop_status)

section \<open>The readers of a platform\<close>

lemma posix_readers_ok:
  assumes "pread_spec pread file fsize" "read \<in> posix_readers pread"
  shows "reader_ok file fsize (posix_stops pread) read"
  using assms posix_reader_ok by (simp add: posix_readers_def)

lemma win_readers_ok:
  assumes "win_spec win file fsize" "read \<in> win_readers win"
  shows "reader_ok file fsize (\<lambda>_ _ _ _ _ _. True) read"
  using assms win_reader_ok [of win] by (auto simp: win_readers_def intro: reader_ok_weaken)

lemma posix_readers_honest: "read \<in> posix_readers pread \<Longrightarrow> reader_honest read"
  by (simp add: posix_readers_def posix_reader_honest)

lemma win_readers_honest: "read \<in> win_readers win \<Longrightarrow> reader_honest read"
  by (auto simp: win_readers_def win_reader_honest)

end
