(* ===== verification/Local_File_Perform.thy ===== *)
theory Local_File_Perform
  imports Local_File_Read
begin

text \<open>
  What \<open>perform\<close> does with any reader that meets the contract \<open>reader_ok\<close>: the bytes that reach the destination,
  in place and through the aligned tail of a direct read, the byte count and the status.
\<close>

section \<open>One request\<close>

abbreviation item_span :: "work_item \<Rightarrow> span" where
  "item_span item \<equiv> req_destination (wi_request item)"

abbreviation item_len :: "work_item \<Rightarrow> u64" where
  "item_len item \<equiv> span_size (item_span item)"

abbreviation item_offset :: "work_item \<Rightarrow> u64" where
  "item_offset item \<equiv> req_source_offset (wi_request item)"

definition item_readable :: "work_item \<Rightarrow> bool" where
  "item_readable item \<longleftrightarrow> wi_known item \<and> (wi_access item = Uncached \<longrightarrow> uncached_request_valid item)"

definition item_in_place :: "work_item \<Rightarrow> u64" where
  "item_in_place item =
     (if wi_access item = Uncached then item_len item div uncached_alignment * uncached_alignment
      else item_len item)"

lemma unat_alignment [simp]: "unat uncached_alignment = 4096"
  by (simp add: uncached_alignment_def)

lemma unat_in_place:
  "unat (item_in_place item) =
     (if wi_access item = Uncached then unat (item_len item) div 4096 * 4096 else unat (item_len item))"
proof -
  have "unat (item_len item) div 4096 * 4096 < 18446744073709551616"
    using unat_lt_64 [of "item_len item"] by (meson div_times_less_eq_dividend le_less_trans)
  then show ?thesis
    by (simp add: item_in_place_def unat_times_64 unat_div_64)
qed

lemma in_place_le: "unat (item_in_place item) \<le> unat (item_len item)"
  by (simp add: unat_in_place)

lemma in_place_rest:
  "wi_access item = Uncached \<Longrightarrow> unat (item_len item) < unat (item_in_place item) + 4096"
  "wi_access item = Buffered \<Longrightarrow> item_in_place item = item_len item"
  using div_mod_decomp [of "unat (item_len item)" 4096] mod_less_divisor [of 4096 "unat (item_len item)"]
  unfolding unat_in_place by (auto simp: item_in_place_def)

lemma lf_perform_unreadable:
  "\<not> item_readable item \<Longrightarrow>
     lf_perform read k item m = Some (\<lparr>result_status = Invalid_Argument, result_bytes = 0\<rparr>, k, m)"
  by (auto simp: lf_perform_def item_readable_def)

lemma lf_perform_readable:
  assumes "item_readable item"
  shows "lf_perform read k item m =
    (case read k (wi_handle item) (wi_access item) (span_data (item_span item))
            (item_in_place item) (item_offset item) Ok m of
       None \<Rightarrow> None
     | Some (filled, status, k, m) \<Rightarrow>
         if status = Ok \<and> filled = item_in_place item \<and> item_in_place item < item_len item
         then case read k (wi_handle item) (wi_access item) 0 uncached_alignment
                     (item_offset item + item_in_place item) status (\<lambda>_. 0) of
           None \<Rightarrow> None
         | Some (got, status, k, scratch) \<Rightarrow>
             (let tail = min got (item_len item - item_in_place item) in
              Some (\<lparr>result_status = status, result_bytes = filled + tail\<rparr>, k,
                    write_bytes m (span_data (item_span item) + item_in_place item)
                      (\<lambda>i. scratch (of_nat i)) (unat tail)))
         else Some (\<lparr>result_status = status, result_bytes = filled\<rparr>, k, m))"
  using assms unfolding lf_perform_def item_readable_def item_in_place_def Let_def
  by (cases "wi_access item") simp_all

lemma perform_returns:
  assumes "reader_returns read"
  shows "\<exists>result k' m'. lf_perform read k item m = Some (result, k', m')"
proof -
  have returns: "\<exists>n st k' m'. read k h access destination len off status m = Some (n, st, k', m')"
    for k h access destination len off status m
    using assms unfolding reader_returns_def by (metis prod_cases4)
  let ?first = "read k (wi_handle item) (wi_access item) (span_data (item_span item))
      (item_in_place item) (item_offset item) Ok m"
  obtain n st k1 m1 where first: "?first = Some (n, st, k1, m1)"
    using returns by blast
  obtain n2 st2 k2 m2 where "read k1 (wi_handle item) (wi_access item) 0 uncached_alignment
      (item_offset item + item_in_place item) st (\<lambda>_. 0) = Some (n2, st2, k2, m2)"
    using returns by blast
  with first show ?thesis
    by (auto simp: lf_perform_def item_in_place_def Let_def split: if_splits)
qed

text \<open>The two ways in which the perform of a readable item ends: without and with a tail.\<close>

lemma perform_readableE:
  assumes "lf_perform read k item m = Some (result, k', m')" "item_readable item"
  obtains (whole) n st where "result = \<lparr>result_status = st, result_bytes = n\<rparr>"
      "read k (wi_handle item) (wi_access item) (span_data (item_span item))
         (item_in_place item) (item_offset item) Ok m = Some (n, st, k', m')"
      "st = Ok \<Longrightarrow> n = item_in_place item \<Longrightarrow> item_len item \<le> item_in_place item"
  | (tail) st k1 m1 got scratch tail where
      "wi_access item = Uncached" "item_in_place item < item_len item"
      "read k (wi_handle item) Uncached (span_data (item_span item))
         (item_in_place item) (item_offset item) Ok m = Some (item_in_place item, Ok, k1, m1)"
      "read k1 (wi_handle item) Uncached 0 uncached_alignment
         (item_offset item + item_in_place item) Ok (\<lambda>_. 0) = Some (got, st, k', scratch)"
      "tail = min got (item_len item - item_in_place item)"
      "result = \<lparr>result_status = st, result_bytes = item_in_place item + tail\<rparr>"
      "m' = write_bytes m1 (span_data (item_span item) + item_in_place item) (\<lambda>i. scratch (of_nat i)) (unat tail)"
proof -
  let ?first = "read k (wi_handle item) (wi_access item) (span_data (item_span item))
      (item_in_place item) (item_offset item) Ok m"
  note ret = assms(1) [unfolded lf_perform_readable [OF assms(2)]]
  then have "?first \<noteq> None"
    by (auto split: option.splits)
  then obtain n st k1 m1 where first: "?first = Some (n, st, k1, m1)"
    by auto
  show thesis
  proof (cases "st = Ok \<and> n = item_in_place item \<and> item_in_place item < item_len item")
    case False
    then have "result = \<lparr>result_status = st, result_bytes = n\<rparr> \<and> k' = k1 \<and> m' = m1"
      using ret first by auto
    with False first show thesis
      by (intro whole [of st n]) auto
  next
    case True
    then have access: "wi_access item = Uncached"
      by (cases "wi_access item") (simp_all add: item_in_place_def)
    from True ret first obtain got st' scratch where
        second: "read k1 (wi_handle item) (wi_access item) 0 uncached_alignment
          (item_offset item + item_in_place item) Ok (\<lambda>_. 0) = Some (got, st', k', scratch)"
      and eqs: "result = \<lparr>result_status = st', result_bytes =
          item_in_place item + min got (item_len item - item_in_place item)\<rparr>"
        "m' = write_bytes m1 (span_data (item_span item) + item_in_place item) (\<lambda>i. scratch (of_nat i))
          (unat (min got (item_len item - item_in_place item)))"
      by (auto simp: Let_def split: option.splits prod.splits)
    with True first access show thesis
      by (intro tail [of k1 m1 got st' scratch]) simp_all
  qed
qed

text \<open>A worker never reports a cancellation.\<close>

lemma perform_not_cancelled:
  assumes honest: "reader_honest read" and ret: "lf_perform read k item m = Some (result, k', m')"
  shows "result_status result \<noteq> Cancelled"
proof (cases "item_readable item")
  case True
  have status: "st \<in> {Ok, Io_Error}" if "read k h access destination len off Ok m = Some (n, st, k', m')"
    for k h access destination len off m n st k' m'
    using honest that unfolding reader_honest_def by fastforce
  from ret True show ?thesis
    by (cases rule: perform_readableE) (auto dest!: status)
qed (use ret in \<open>auto simp: lf_perform_unreadable\<close>)

text \<open>
  What a finished \<open>perform\<close> has done: the bytes of the file, from the requested offset, are in the first
  \<open>result_bytes\<close> bytes of the destination, and nothing else is written. A successful count is exact unless the
  last call gave up a transfer right behind the bytes that are counted, and after an i/o error the last call failed.
\<close>

definition perform_done ::
    "(handle \<Rightarrow> u64 \<Rightarrow> byte) \<Rightarrow> (handle \<Rightarrow> nat) \<Rightarrow> stops \<Rightarrow> work_item \<Rightarrow> memory \<Rightarrow> fill_result \<Rightarrow> nat \<Rightarrow> memory \<Rightarrow> bool" where
  "perform_done file fsize stops item m result k' m' \<longleftrightarrow>
     (let n = unat (result_bytes result) in
        n \<le> unat (item_len item) \<and>
        bytes_read (file (wi_handle item)) (span_data (item_span item)) (item_offset item) 0 n m m' \<and>
        (result_status result = Io_Error \<and> (\<exists>p asked. unat (item_offset item) + n \<le> p \<and> stops (k' - 1) Io_Error p asked) \<or>
         result_status result = Ok \<and>
          (n = min (unat (item_len item)) (fsize (wi_handle item) - unat (item_offset item)) \<or>
           n < unat (item_len item) \<and>
           (\<exists>asked \<le> max (unat (item_len item)) 4096. stops (k' - 1) Ok (unat (item_offset item) + n) asked))))"

lemma loop_post_perform_done:
  assumes post: "loop_post (file (wi_handle item)) (fsize (wi_handle item)) stops (span_data (item_span item)) (item_offset item) 0
      (item_in_place item) Ok m (n, st, k', m')"
    and full: "st = Ok \<Longrightarrow> n = item_in_place item \<Longrightarrow> item_len item \<le> item_in_place item"
  shows "perform_done file fsize stops item m \<lparr>result_status = st, result_bytes = n\<rparr> k' m'"
proof -
  let ?h = "wi_handle item"
  have n: "unat n \<le> unat (item_in_place item)" "n = 0 \<or> unat (item_offset item) + unat n \<le> fsize ?h"
    using post by (simp_all add: loop_post_def)
  have "unat n = min (unat (item_len item)) (fsize ?h - unat (item_offset item)) \<or>
      unat n < unat (item_len item) \<and>
      (\<exists>asked \<le> max (unat (item_len item)) 4096. stops (k' - 1) Ok (unat (item_offset item) + unat n) asked)" if "st = Ok"
  proof (cases "n = item_in_place item")
    case True
    with full that have "unat n = unat (item_len item)"
      using in_place_le [of item] by (simp add: word_le_nat_alt)
    with n(2) show ?thesis by auto
  next
    case False
    with n(1) have less: "unat n < unat (item_in_place item)"
      by (metis le_neq_implies_less u64_eqI)
    with post that have "fsize ?h \<le> unat (item_offset item) + unat n \<or>
        (\<exists>asked \<le> unat (item_in_place item). stops (k' - 1) Ok (unat (item_offset item) + unat n) asked)"
      by (simp add: loop_post_def)
    then show ?thesis
    proof
      assume "fsize ?h \<le> unat (item_offset item) + unat n"
      with less n(2) in_place_le [of item] show ?thesis
        by auto
    next
      assume "\<exists>asked \<le> unat (item_in_place item). stops (k' - 1) Ok (unat (item_offset item) + unat n) asked"
      then obtain asked where "asked \<le> unat (item_in_place item)" "stops (k' - 1) Ok (unat (item_offset item) + unat n) asked"
        by blast
      with less in_place_le [of item] show ?thesis
        by (intro disjI2 conjI exI [of _ asked]) simp_all
    qed
  qed
  moreover have "\<exists>p asked. unat (item_offset item) + unat n \<le> p \<and> stops (k' - 1) Io_Error p asked" if "st = Io_Error"
    using post that by (auto simp: loop_post_def)
  moreover have "st = Io_Error \<or> st = Ok"
    using post by (auto simp: loop_post_def)
  ultimately show ?thesis
    using post n(1) in_place_le [of item] by (auto simp: perform_done_def loop_post_def)
qed

lemma tail_perform_done:
  assumes size: "fsize (wi_handle item) < 18446744073709551616"
    and access: "wi_access item = Uncached" and more: "item_in_place item < item_len item"
    and first: "loop_post (file (wi_handle item)) (fsize (wi_handle item)) stops (span_data (item_span item)) (item_offset item) 0
      (item_in_place item) Ok m (item_in_place item, Ok, k1, m1)"
    and second: "loop_post (file (wi_handle item)) (fsize (wi_handle item)) stops 0 (item_offset item + item_in_place item) 0
      uncached_alignment Ok (\<lambda>_. 0) (got, st, k', scratch)"
    and tail: "tail = min got (item_len item - item_in_place item)"
  shows "perform_done file fsize stops item m \<lparr>result_status = st, result_bytes = item_in_place item + tail\<rparr> k'
      (write_bytes m1 (span_data (item_span item) + item_in_place item) (\<lambda>i. scratch (of_nat i)) (unat tail))"
proof -
  let ?h = "wi_handle item" and ?p = "item_in_place item" and ?off = "item_offset item"
  let ?m' = "write_bytes m1 (span_data (item_span item) + ?p) (\<lambda>i. scratch (of_nat i)) (unat tail)"
  have inside: "?p = 0 \<or> unat ?off + unat ?p \<le> fsize ?h"
    using first by (simp add: loop_post_def)
  note off2 = unat_position [OF size inside]
  have tail_nat: "unat tail = min (unat got) (unat (item_len item) - unat ?p)"
    using more by (simp add: tail unat_min_64 unat_minus_64 less_imp_le)
  have more_nat: "unat ?p < unat (item_len item)" "unat (item_len item) < unat ?p + 4096"
    using more in_place_rest(1) [OF access] by (simp_all add: word_less_nat_alt)
  have sum: "unat (?p + tail) = unat ?p + unat tail"
    using more_nat tail_nat unat_lt_64 [of "item_len item"] by (intro unat_plus_64) simp
  have "bytes_read (file ?h) (span_data (item_span item)) ?off (unat ?p) (unat ?p + unat tail) m1
      (write_bytes m1 (span_data (item_span item) + of_nat (unat ?p)) (\<lambda>i. scratch (of_nat i)) (unat tail))"
  proof (rule bytes_read_write)
    fix i assume "i < unat tail"
    with tail_nat second show "scratch (of_nat i) = file ?h (?off + of_nat (unat ?p + i))"
      by (simp add: loop_post_def bytes_read_def add.assoc)
  qed (use unat_lt_64 [of tail] in simp)
  moreover have "bytes_read (file ?h) (span_data (item_span item)) ?off 0 (unat ?p) m m1"
    using first by (simp add: loop_post_def)
  ultimately have bytes: "bytes_read (file ?h) (span_data (item_span item)) ?off 0 (unat (?p + tail)) m ?m'"
    using unat_lt_64 [of "?p + tail"] bytes_read_trans [of "file ?h" "span_data (item_span item)" ?off 0 "unat ?p"]
    unfolding sum by simp
  have got: "got = 0 \<or> unat ?off + unat ?p + unat got \<le> fsize ?h"
    using second by (simp add: loop_post_def off2)
  have "unat (?p + tail) = min (unat (item_len item)) (fsize ?h - unat ?off) \<or>
      unat (?p + tail) < unat (item_len item) \<and>
      (\<exists>asked \<le> max (unat (item_len item)) 4096. stops (k' - 1) Ok (unat ?off + unat (?p + tail)) asked)" if "st = Ok"
  proof (cases "unat got < unat (item_len item) - unat ?p")
    case True
    then have all: "unat (?p + tail) = unat ?p + unat got"
      by (simp add: sum tail_nat)
    from True have "fsize ?h \<le> unat ?off + unat ?p + unat got \<or>
        (\<exists>asked \<le> 4096. stops (k' - 1) Ok (unat ?off + unat ?p + unat got) asked)"
      using second that more_nat(2) by (simp add: loop_post_def off2)
    then show ?thesis
    proof
      assume "fsize ?h \<le> unat ?off + unat ?p + unat got"
      with True got inside more_nat show ?thesis
        unfolding all by auto
    next
      assume "\<exists>asked \<le> 4096. stops (k' - 1) Ok (unat ?off + unat ?p + unat got) asked"
      then obtain asked where "asked \<le> 4096" "stops (k' - 1) Ok (unat ?off + unat ?p + unat got) asked"
        by blast
      with True more_nat show ?thesis
        unfolding all by (intro disjI2 conjI exI [of _ asked]) (simp_all add: add.assoc)
    qed
  next
    case False
    with got more_nat show ?thesis
      unfolding sum tail_nat by auto
  qed
  moreover have "\<exists>p asked. unat ?off + unat (?p + tail) \<le> p \<and> stops (k' - 1) Io_Error p asked" if err: "st = Io_Error"
  proof -
    obtain asked where "stops (k' - 1) Io_Error (unat ?off + unat ?p + unat got) asked"
      using second err by (auto simp: loop_post_def off2)
    then show ?thesis
      by (intro exI [of _ "unat ?off + unat ?p + unat got"] exI [of _ asked]) (simp add: sum tail_nat)
  qed
  moreover have "st = Io_Error \<or> st = Ok"
    using second by (auto simp: loop_post_def)
  moreover have "unat (?p + tail) \<le> unat (item_len item)"
    using more_nat tail_nat by (simp add: sum)
  ultimately show ?thesis
    using bytes by (auto simp: perform_done_def)
qed

lemma perform_post:
  assumes ok: "reader_ok file fsize stops read"
    and ret: "lf_perform read k item m = Some (result, k', m')" and readable: "item_readable item"
  shows "perform_done file fsize (stops (wi_access item) (wi_handle item)) item m result k' m'"
  using ret readable
proof (cases rule: perform_readableE)
  case (whole n st)
  from reader_okD(2) [OF ok whole(2)] whole(3) show ?thesis
    unfolding whole(1) by (rule loop_post_perform_done)
next
  case (tail st k1 m1 got scratch tail)
  from reader_okD(2) [OF ok tail(3)] reader_okD(2) [OF ok tail(4)] tail(5) show ?thesis
    unfolding tail(6,7) by (intro tail_perform_done [OF reader_okD(1) [OF ok] tail(1,2)]) (simp_all add: tail(1))
qed

lemma perform_frame:
  assumes "reader_ok file fsize stops read" "lf_perform read k item m = Some (result, k', m')"
    and "a \<notin> span_addrs (item_span item)"
  shows "m' a = m a"
proof (cases "item_readable item")
  case True
  from perform_post [OF assms(1,2) True] assms(3) show ?thesis
    by (auto simp: perform_done_def bytes_read_def Let_def span_addrs_iff)
next
  case False
  with assms(2) show ?thesis by (simp add: lf_perform_unreadable)
qed

lemma perform_status:
  assumes "reader_ok file fsize stops read" "lf_perform read k item m = Some (result, k', m')"
  shows "result_status result \<in> {Ok, Io_Error, Invalid_Argument}"
    "result_status result = Invalid_Argument \<longleftrightarrow> \<not> item_readable item"
  using assms(2) perform_post [OF assms]
  by (cases "item_readable item"; force simp: lf_perform_unreadable perform_done_def Let_def)+

lemma perform_content:
  assumes "reader_ok file fsize stops read" "lf_perform read k item m = Some (result, k', m')"
    and "classify_fill result (item_len item) = Ok" "i < unat (item_len item)"
  shows "item_readable item" "m' (span_data (item_span item) + of_nat i) = file (wi_handle item) (item_offset item + of_nat i)"
proof -
  have full: "result_status result = Ok" "result_bytes result = item_len item"
    using assms(3) by (auto simp: classify_fill_def split: if_splits)
  then show readable: "item_readable item"
    using perform_status [OF assms(1,2)] by auto
  from perform_post [OF assms(1,2) readable] assms(4) full(2)
  show "m' (span_data (item_span item) + of_nat i) = file (wi_handle item) (item_offset item + of_nat i)"
    by (simp add: perform_done_def bytes_read_def Let_def)
qed

text \<open>The result over all items, as the properties state it.\<close>

lemma perform_exact:
  assumes "reader_ok file fsize stops read" "lf_perform read k item m = Some (result, k', m')"
  shows "if item_readable item
    then (\<forall>i < unat (result_bytes result).
            m' (span_data (item_span item) + of_nat i) = file (wi_handle item) (item_offset item + of_nat i)) \<and>
         (\<forall>a. (\<forall>i < unat (result_bytes result). a \<noteq> span_data (item_span item) + of_nat i) \<longrightarrow> m' a = m a) \<and>
         unat (result_bytes result) \<le> unat (item_len item) \<and>
         (result_status result = Io_Error \<and>
            (\<exists>p asked. unat (item_offset item) + unat (result_bytes result) \<le> p \<and>
               stops (wi_access item) (wi_handle item) (k' - 1) Io_Error p asked) \<or>
          result_status result = Ok \<and>
            (unat (result_bytes result)
               = min (unat (item_len item)) (fsize (wi_handle item) - unat (item_offset item)) \<or>
             unat (result_bytes result) < unat (item_len item) \<and>
             (\<exists>asked \<le> max (unat (item_len item)) 4096. stops (wi_access item) (wi_handle item) (k' - 1) Ok
                (unat (item_offset item) + unat (result_bytes result)) asked)))
    else result = \<lparr>result_status = Invalid_Argument, result_bytes = 0\<rparr> \<and> m' = m"
proof (cases "item_readable item")
  case True
  with perform_post [OF assms] show ?thesis
    by (simp add: perform_done_def bytes_read_def Let_def)
next
  case False
  with assms(2) show ?thesis by (simp add: lf_perform_unreadable)
qed

end
