(* ===== verification/Local_File_Contract.thy ===== *)
theory Local_File_Contract
  imports Local_File_Perform
begin

text \<open>
  The ring of the worker-pool backend is a bounded first-in first-out queue, and the backend meets the
  contract \<open>terminal_backend\<close> under which the transfer set and the pool are verified, whatever its workers
  do between the calls of its client.
\<close>

section \<open>The ring as a queue\<close>

definition ring_ok :: "local_backend \<Rightarrow> bool" where
  "ring_ok b \<longleftrightarrow> lf_head b < length (lf_ring b) \<and> lf_ring_size b \<le> length (lf_ring b)"

text \<open>The accepted items, oldest first.\<close>

definition ring_items :: "local_backend \<Rightarrow> work_item list" where
  "ring_items b = map (\<lambda>k. lf_ring b ! ((lf_head b + k) mod length (lf_ring b))) [0..<lf_ring_size b]"

lemma length_ring_items [simp]: "length (ring_items b) = lf_ring_size b"
  by (simp add: ring_items_def)

lemma ring_items_empty_iff [simp]: "ring_items b = [] \<longleftrightarrow> lf_ring_size b = 0"
  by (simp add: ring_items_def)

lemma ring_items_none: "lf_ring_size b = 0 \<Longrightarrow> ring_items b = []"
  by simp

text \<open>The queue does not depend on the other members.\<close>

lemma ring_updates [simp]:
  "ring_items (b\<lparr>lf_sources := x0\<rparr>) = ring_items b" "ring_ok (b\<lparr>lf_sources := x0\<rparr>) = ring_ok b"
  "ring_items (b\<lparr>lf_shutting_down := x1\<rparr>) = ring_items b" "ring_ok (b\<lparr>lf_shutting_down := x1\<rparr>) = ring_ok b"
  "ring_items (b\<lparr>lf_idle := x2\<rparr>) = ring_items b" "ring_ok (b\<lparr>lf_idle := x2\<rparr>) = ring_ok b"
  "ring_items (b\<lparr>lf_performing := x3\<rparr>) = ring_items b" "ring_ok (b\<lparr>lf_performing := x3\<rparr>) = ring_ok b"
  "ring_items (b\<lparr>lf_uncounted := x4\<rparr>) = ring_items b" "ring_ok (b\<lparr>lf_uncounted := x4\<rparr>) = ring_ok b"
  "ring_items (b\<lparr>lf_cancelling := x5\<rparr>) = ring_items b" "ring_ok (b\<lparr>lf_cancelling := x5\<rparr>) = ring_ok b"
  by (simp_all add: ring_items_def ring_ok_def)

lemma mod_position_inj:
  fixes c :: nat
  assumes "(h + j) mod c = (h + k) mod c" "j < c" "k < c"
  shows "j = k"
  using assms
proof (induction j k rule: linorder_wlog)
  case (le j k)
  then have "c dvd (h + k) - (h + j)"
    by (metis add_le_cancel_left mod_eq_dvd_iff_nat)
  with le show ?case
    by (auto dest: dvd_imp_le)
qed simp

lemma upd_lf_counters_simps [simp]:
  "lf_sources (upd_lf_counters f b) = lf_sources b" "lf_ring (upd_lf_counters f b) = lf_ring b"
  "lf_head (upd_lf_counters f b) = lf_head b" "lf_ring_size (upd_lf_counters f b) = lf_ring_size b"
  "lf_shutting_down (upd_lf_counters f b) = lf_shutting_down b" "lf_idle (upd_lf_counters f b) = lf_idle b"
  "lf_performing (upd_lf_counters f b) = lf_performing b" "lf_uncounted (upd_lf_counters f b) = lf_uncounted b"
  "lf_cancelling (upd_lf_counters f b) = lf_cancelling b"
  "lf_source_capacity (upd_lf_counters f b) = lf_source_capacity b"
  "lf_counters (upd_lf_counters f b) = f (lf_counters b)"
  by (simp_all add: upd_lf_counters_def)

lemma ring_upd_lf_counters [simp]:
  "ring_items (upd_lf_counters f b) = ring_items b" "ring_ok (upd_lf_counters f b) = ring_ok b"
  by (simp_all add: ring_items_def ring_ok_def)

text \<open>\<open>submit\<close> appends to the queue exactly when there is room and no shutdown, and changes nothing else.\<close>

lemma lf_submit_refused:
  assumes "lf_submit r b = (False, b')"
  shows "b' = upd_lf_counters (\<lambda>c. c\<lparr>lst_rejected_queue_full := lst_rejected_queue_full c + 1\<rparr>) b"
    "lf_shutting_down b \<or> lf_ring_size b = length (lf_ring b)"
  using assms by (auto simp: lf_submit_def Let_def split: if_splits)

lemma lf_submit_accepted:
  assumes "lf_submit r b = (True, b')" "ring_ok b"
  shows "ring_items b' = ring_items b @ [make_item (lf_sources b) r]" "ring_ok b'"
    "\<not> lf_shutting_down b" "lf_ring_size b' = lf_ring_size b + 1"
    "lf_sources b' = lf_sources b" "lf_performing b' = lf_performing b" "lf_uncounted b' = lf_uncounted b"
    "lf_cancelling b' = lf_cancelling b" "lf_shutting_down b' = lf_shutting_down b" "lf_idle b' = lf_idle b"
    "length (lf_ring b') = length (lf_ring b)" "lf_source_capacity b' = lf_source_capacity b"
    "lf_counters b' = (lf_counters b)\<lparr>lst_accepted := lst_accepted (lf_counters b) + 1,
       lst_queue_high_water := max (lst_queue_high_water (lf_counters b)) (lf_ring_size b + 1)\<rparr>"
proof -
  let ?c = "length (lf_ring b)" and ?at = "\<lambda>k. (lf_head b + k) mod length (lf_ring b)"
  have room: "lf_ring_size b < ?c" and b': "lf_ring b' = (lf_ring b)[?at (lf_ring_size b) := make_item (lf_sources b) r]"
      "lf_head b' = lf_head b" "lf_ring_size b' = lf_ring_size b + 1"
    using assms by (auto simp: lf_submit_def ring_ok_def Let_def split: if_splits)
  have at: "?at k < ?c" for k
    using room by (intro mod_less_divisor) (cases "lf_ring b", simp_all)
  have "?at (lf_ring_size b) \<noteq> ?at k" if "k < lf_ring_size b" for k
    using that room mod_position_inj [of "lf_head b" k ?c "lf_ring_size b"] by auto
  then have "map (\<lambda>k. lf_ring b' ! ?at k) [0..<lf_ring_size b] = ring_items b"
    using at by (auto simp: ring_items_def b' nth_upd)
  then show "ring_items b' = ring_items b @ [make_item (lf_sources b) r]"
    using at by (simp add: ring_items_def b')
  show "ring_ok b'"
    using assms(2) room by (simp add: ring_ok_def b')
qed (use assms in \<open>auto simp: lf_submit_def Let_def split: if_splits\<close>)

text \<open>A worker takes the oldest item.\<close>

lemma lf_pop_simps [simp]:
  "lf_ring (snd (lf_pop b)) = lf_ring b" "lf_ring_size (snd (lf_pop b)) = lf_ring_size b - 1"
  "lf_sources (snd (lf_pop b)) = lf_sources b" "lf_performing (snd (lf_pop b)) = lf_performing b"
  "lf_uncounted (snd (lf_pop b)) = lf_uncounted b" "lf_cancelling (snd (lf_pop b)) = lf_cancelling b"
  "lf_shutting_down (snd (lf_pop b)) = lf_shutting_down b" "lf_idle (snd (lf_pop b)) = lf_idle b"
  "lf_counters (snd (lf_pop b)) = lf_counters b"
  "lf_source_capacity (snd (lf_pop b)) = lf_source_capacity b"
  by (simp_all add: lf_pop_def)

lemma ring_pop:
  assumes "ring_ok b" "0 < lf_ring_size b"
  shows "ring_items b = fst (lf_pop b) # ring_items (snd (lf_pop b))" "ring_ok (snd (lf_pop b))"
proof -
  obtain n where n: "lf_ring_size b = Suc n"
    using assms(2) by (cases "lf_ring_size b") auto
  have "[0..<lf_ring_size b] = 0 # map Suc [0..<n]"
    by (simp add: n upt_conv_Cons map_Suc_upt del: upt_Suc)
  then show "ring_items b = fst (lf_pop b) # ring_items (snd (lf_pop b))"
    using assms(1) by (simp add: ring_items_def lf_pop_def n mod_simps ring_ok_def)
  have "(lf_head b + 1) mod length (lf_ring b) < length (lf_ring b)"
    using assms by (intro mod_less_divisor) (auto simp: ring_ok_def)
  then show "ring_ok (snd (lf_pop b))"
    using assms(1) by (auto simp: ring_ok_def lf_pop_def)
qed

lemma drain_ring_all:
  assumes "ring_ok b" "n = lf_ring_size b" "drain_ring n b = (items, b')"
  shows "items = ring_items b" "ring_ok b'" "lf_ring_size b' = 0"
    "lf_sources b' = lf_sources b" "lf_performing b' = lf_performing b" "lf_uncounted b' = lf_uncounted b"
    "lf_cancelling b' = lf_cancelling b" "lf_shutting_down b' = lf_shutting_down b" "lf_idle b' = lf_idle b"
    "lf_counters b' = lf_counters b" "lf_ring b' = lf_ring b" "lf_source_capacity b' = lf_source_capacity b"
proof -
  have "items = ring_items b \<and> ring_ok b' \<and> lf_ring_size b' = 0 \<and>
    lf_sources b' = lf_sources b \<and> lf_performing b' = lf_performing b \<and> lf_uncounted b' = lf_uncounted b \<and>
    lf_cancelling b' = lf_cancelling b \<and> lf_shutting_down b' = lf_shutting_down b \<and> lf_idle b' = lf_idle b \<and>
    lf_counters b' = lf_counters b \<and> lf_ring b' = lf_ring b \<and> lf_source_capacity b' = lf_source_capacity b"
    using assms
  proof (induction n arbitrary: b items)
    case 0
    then show ?case by (simp add: ring_items_def)
  next
    case (Suc n)
    obtain items' where items': "drain_ring n (snd (lf_pop b)) = (items', b')" "items = fst (lf_pop b) # items'"
      using Suc.prems(3) by (cases "drain_ring n (snd (lf_pop b))") (auto simp: case_prod_beta)
    from Suc.IH [OF ring_pop(2) [OF Suc.prems(1)] _ this(1)] Suc.prems ring_pop(1) [OF Suc.prems(1)] this(2)
    show ?case by simp
  qed
  then show "items = ring_items b" "ring_ok b'" "lf_ring_size b' = 0"
    "lf_sources b' = lf_sources b" "lf_performing b' = lf_performing b" "lf_uncounted b' = lf_uncounted b"
    "lf_cancelling b' = lf_cancelling b" "lf_shutting_down b' = lf_shutting_down b" "lf_idle b' = lf_idle b"
    "lf_counters b' = lf_counters b" "lf_ring b' = lf_ring b" "lf_source_capacity b' = lf_source_capacity b"
    by blast+
qed

section \<open>What the workers do on their own\<close>

text \<open>
  The steps of workers and of an administrator that deliver nothing: a worker takes an item, it counts a
  result that it has delivered, and \<open>shutdown\<close> empties the queue.
\<close>

datatype lf_action = Worker_Takes | Worker_Counts nat | Shutdown_Begins

fun lf_act :: "lf_action \<Rightarrow> local_backend \<Rightarrow> local_backend" where
  "lf_act Worker_Takes b = (case lf_take b of None \<Rightarrow> b | Some (item, b') \<Rightarrow> b')"
| "lf_act (Worker_Counts i) b = (case lf_count i b of None \<Rightarrow> b | Some b' \<Rightarrow> b')"
| "lf_act Shutdown_Begins b = lf_shutdown_begin b"

lemma lf_takeE:
  assumes "lf_take b = Some (taken, b')" "ring_ok b"
  obtains (ends) "taken = None" "lf_shutting_down b" "lf_ring_size b = 0" "0 < lf_idle b"
      "b' = b\<lparr>lf_idle := lf_idle b - 1\<rparr>"
  | (takes) item where "taken = Some item" "ring_items b = item # ring_items b'" "ring_ok b'" "0 < lf_idle b"
      "lf_performing b' = item # lf_performing b" "lf_uncounted b' = lf_uncounted b"
      "lf_cancelling b' = lf_cancelling b" "lf_sources b' = lf_sources b" "lf_idle b' = lf_idle b - 1"
      "lf_shutting_down b' = lf_shutting_down b" "lf_ring_size b = lf_ring_size b' + 1"
      "length (lf_ring b') = length (lf_ring b)" "lf_source_capacity b' = lf_source_capacity b"
      "lf_counters b' = (lf_counters b)\<lparr>lst_in_flight := lst_in_flight (lf_counters b) + 1\<rparr>"
proof (cases "lf_ring_size b = 0")
  case True
  with assms(1) show thesis
    by (intro ends) (auto simp: lf_take_def split: if_splits)
next
  case False
  then have "taken = Some (fst (lf_pop b))"
    and b': "b' = (upd_lf_counters (\<lambda>c. c\<lparr>lst_in_flight := lst_in_flight c + 1\<rparr>) (snd (lf_pop b)))
      \<lparr>lf_idle := lf_idle b - 1, lf_performing := fst (lf_pop b) # lf_performing b\<rparr>" and "0 < lf_idle b"
    using assms(1) by (auto simp: lf_take_def Let_def case_prod_beta split: if_splits)
  moreover have "ring_items b' = ring_items (snd (lf_pop b))" "ring_ok b' = ring_ok (snd (lf_pop b))"
    by (simp_all add: b')
  ultimately show thesis
    using ring_pop [OF assms(2)] False by (intro takes [of "fst (lf_pop b)"]) (simp_all add: b')
qed

lemma lf_countE:
  assumes "lf_count i b = Some b'"
  obtains wanted result where "i < length (lf_uncounted b)" "lf_uncounted b ! i = (wanted, result)"
    "b' = upd_lf_counters (count_result wanted result)
       (b\<lparr>lf_uncounted := remove_at i (lf_uncounted b), lf_idle := lf_idle b + 1\<rparr>)"
  using assms by (auto simp: lf_count_def Let_def not_le split: if_splits prod.splits)

lemma lf_shutdown_beginE:
  assumes "ring_ok b"
  obtains (already) "lf_shutting_down b" "lf_shutdown_begin b = b"
  | (begins) b' where "\<not> lf_shutting_down b" "lf_shutdown_begin b = b'" "ring_ok b'" "lf_ring_size b' = 0"
      "lf_shutting_down b'" "lf_cancelling b' = ring_items b" "lf_performing b' = lf_performing b"
      "lf_uncounted b' = lf_uncounted b" "lf_sources b' = lf_sources b" "lf_idle b' = lf_idle b"
      "lf_counters b' = lf_counters b" "length (lf_ring b') = length (lf_ring b)"
      "lf_source_capacity b' = lf_source_capacity b"
proof (cases "lf_shutting_down b")
  case True
  then show thesis by (intro already) (simp_all add: lf_shutdown_begin_def)
next
  case False
  let ?b = "b\<lparr>lf_shutting_down := True\<rparr>"
  obtain items b2 where drained: "drain_ring (lf_ring_size ?b) ?b = (items, b2)"
    by (cases "drain_ring (lf_ring_size ?b) ?b")
  have "ring_ok ?b" "ring_items ?b = ring_items b"
    using assms by simp_all
  note d = drain_ring_all [OF this(1) refl drained, unfolded this(2)]
  have "lf_shutdown_begin b = b2\<lparr>lf_cancelling := items\<rparr>"
    using False drained by (simp add: lf_shutdown_begin_def)
  moreover have "ring_ok (b2\<lparr>lf_cancelling := items\<rparr>)"
    using d(2) by simp
  ultimately show thesis
    using d False by (intro begins [of "b2\<lparr>lf_cancelling := items\<rparr>"]) simp_all
qed

section \<open>Outstanding requests and deliveries\<close>

definition lf_outstanding :: "local_backend \<Rightarrow> fill_request multiset" where
  "lf_outstanding b =
     mset (map wi_request (ring_items b)) + mset (map wi_request (lf_performing b))
       + mset (map wi_request (lf_cancelling b))"

text \<open>
  A backend in good order: the ring is, a registered handle is open on its source's file, and an item that
  knows its source reads that file. A running \<open>shutdown\<close> is the only one that cancels.
\<close>

definition item_ok ::
    "(handle \<Rightarrow> u64 \<Rightarrow> byte) \<Rightarrow> (source_id \<Rightarrow> u64 \<Rightarrow> byte) \<Rightarrow> work_item \<Rightarrow> bool" where
  "item_ok file content item \<longleftrightarrow>
     (wi_known item \<longrightarrow> file (wi_handle item) = content (req_source (wi_request item)))"

definition lf_valid :: "(handle \<Rightarrow> u64 \<Rightarrow> byte) \<Rightarrow> (source_id \<Rightarrow> u64 \<Rightarrow> byte) \<Rightarrow> local_backend \<Rightarrow> bool" where
  "lf_valid file content b \<longleftrightarrow>
     ring_ok b \<and> (lf_shutting_down b \<or> lf_cancelling b = []) \<and>
     (\<forall>e \<in> set (lf_sources b). file (se_handle e) = content (se_source e)) \<and>
     (\<forall>item \<in> set (ring_items b) \<union> set (lf_performing b). item_ok file content item)"

definition lf_completes ::
    "reader set \<Rightarrow> local_backend \<Rightarrow> fill_request \<Rightarrow> fill_result \<Rightarrow> memory \<Rightarrow> local_backend \<Rightarrow> memory \<Rightarrow> bool" where
  "lf_completes readers b r result m b' m' \<longleftrightarrow>
     (\<exists>read item k k'. read \<in> readers \<and> item \<in> set (lf_performing b) \<and> r = wi_request item \<and>
        lf_perform read k item m = Some (result, k', m') \<and> b' = lf_delivered item result b)
     \<or> lf_cancel b = Some (r, result, b') \<and> m' = m"

lemma find_source_Some:
  "find_source entries source = Some e \<Longrightarrow> e \<in> set entries \<and> se_source e = source"
  by (induction entries) (auto split: if_splits)

lemma make_item_request [simp]: "wi_request (make_item sources r) = r"
  by (simp add: make_item_def Let_def)

lemma make_item_ok:
  "(\<forall>e \<in> set sources. file (se_handle e) = content (se_source e)) \<Longrightarrow>
     item_ok file content (make_item sources r)"
  by (auto simp: item_ok_def make_item_def Let_def split: option.splits dest: find_source_Some)

lemma lf_act_keeps:
  assumes "lf_valid file content b"
  shows "lf_outstanding (lf_act a b) = lf_outstanding b" "lf_valid file content (lf_act a b)"
proof -
  have ok: "ring_ok b"
    using assms by (simp add: lf_valid_def)
  have "lf_outstanding (lf_act a b) = lf_outstanding b \<and> lf_valid file content (lf_act a b)"
  proof (cases a)
    case Worker_Takes
    show ?thesis
    proof (cases "lf_take b")
      case (Some x)
      obtain taken b' where x: "lf_take b = Some (taken, b')"
        using Some by (cases x) auto
      from x ok show ?thesis
      proof (cases rule: lf_takeE)
        case ends
        then show ?thesis
          using assms by (simp add: Worker_Takes x lf_outstanding_def lf_valid_def)
      next
        case (takes item)
        then show ?thesis
          using assms by (auto simp: Worker_Takes x lf_outstanding_def lf_valid_def)
      qed
    qed (use assms in \<open>simp add: Worker_Takes\<close>)
  next
    case (Worker_Counts i)
    show ?thesis
    proof (cases "lf_count i b")
      case (Some b')
      then obtain wanted result where "b' = upd_lf_counters (count_result wanted result)
          (b\<lparr>lf_uncounted := remove_at i (lf_uncounted b), lf_idle := lf_idle b + 1\<rparr>)"
        by (rule lf_countE)
      then show ?thesis
        using assms by (simp add: Worker_Counts Some lf_outstanding_def lf_valid_def)
    qed (use assms in \<open>simp add: Worker_Counts\<close>)
  next
    case Shutdown_Begins
    from ok show ?thesis
    proof (cases rule: lf_shutdown_beginE)
      case (begins b')
      then show ?thesis
        using assms by (simp add: Shutdown_Begins lf_outstanding_def lf_valid_def ring_items_none)
    qed (use assms in \<open>simp add: Shutdown_Begins\<close>)
  qed
  then show "lf_outstanding (lf_act a b) = lf_outstanding b" "lf_valid file content (lf_act a b)"
    by blast+
qed

lemma lf_submit_keeps:
  assumes "lf_valid file content b" "lf_submit r b = (accepted, b')"
  shows "lf_outstanding b' = (if accepted then add_mset r (lf_outstanding b) else lf_outstanding b)"
    "lf_valid file content b'"
proof -
  have "lf_outstanding b' = (if accepted then add_mset r (lf_outstanding b) else lf_outstanding b)
      \<and> lf_valid file content b'"
  proof (cases accepted)
    case True
    then have "lf_submit r b = (True, b')"
      using assms(2) by simp
    note submitted = lf_submit_accepted [OF this]
    have "ring_ok b" "item_ok file content (make_item (lf_sources b) r)"
      using assms(1) make_item_ok by (auto simp: lf_valid_def)
    then show ?thesis
      using assms(1) True submitted
      by (auto simp: lf_outstanding_def lf_valid_def)
  next
    case False
    with assms lf_submit_refused(1) [of r b b'] show ?thesis
      by (simp add: lf_outstanding_def lf_valid_def)
  qed
  then show "lf_outstanding b' = (if accepted then add_mset r (lf_outstanding b) else lf_outstanding b)"
    "lf_valid file content b'"
    by blast+
qed

text \<open>A delivery is the end of a request that a worker performed, or the cancellation of a queued one.\<close>

lemma lf_cancelE:
  assumes "lf_cancel b = Some (r, result, b')"
  obtains item rest where "lf_cancelling b = item # rest" "r = wi_request item" "result = cancelled_result"
    "b' = upd_lf_counters (\<lambda>c. c\<lparr>lst_cancelled := lst_cancelled c + 1\<rparr>) (b\<lparr>lf_cancelling := rest\<rparr>)"
  using assms by (auto simp: lf_cancel_def split: list.splits)

lemma ring_delivered [simp]:
  "ring_items (lf_delivered item result b) = ring_items b" "ring_ok (lf_delivered item result b) = ring_ok b"
  by (simp_all add: lf_delivered_def)

lemma lf_delivered_keeps:
  assumes "lf_valid file content b" "item \<in> set (lf_performing b)"
  shows "lf_outstanding (lf_delivered item result b) = lf_outstanding b - {#wi_request item#}"
    "lf_valid file content (lf_delivered item result b)"
    "wi_request item \<in># lf_outstanding b"
proof -
  have "mset (map wi_request (lf_performing b))
      = add_mset (wi_request item) (mset (map wi_request (remove1 item (lf_performing b))))"
    using assms(2) by (metis image_mset_add_mset insert_DiffM mset_map mset_remove1 set_mset_mset)
  then show "lf_outstanding (lf_delivered item result b) = lf_outstanding b - {#wi_request item#}"
      "wi_request item \<in># lf_outstanding b"
    by (simp_all add: lf_outstanding_def lf_delivered_def)
  show "lf_valid file content (lf_delivered item result b)"
    using assms(1) set_remove1_subset [of item "lf_performing b"]
    by (auto simp: lf_valid_def lf_delivered_def)
qed

lemma lf_cancel_keeps:
  assumes "lf_valid file content b" "lf_cancel b = Some (r, result, b')"
  shows "lf_outstanding b' = lf_outstanding b - {#r#}" "lf_valid file content b'" "r \<in># lf_outstanding b"
  using assms(2)
  by (rule lf_cancelE, use assms(1) in \<open>auto simp: lf_outstanding_def lf_valid_def\<close>)+

definition readers_ok ::
    "(handle \<Rightarrow> u64 \<Rightarrow> byte) \<Rightarrow> (handle \<Rightarrow> nat) \<Rightarrow> (file_access \<Rightarrow> handle \<Rightarrow> stops) \<Rightarrow> reader set \<Rightarrow> bool" where
  "readers_ok file fsize stops readers \<longleftrightarrow> (\<forall>read \<in> readers. reader_ok file fsize stops read)"

lemma readers_okI [intro]:
  "(\<And>read. read \<in> readers \<Longrightarrow> reader_ok file fsize stops read) \<Longrightarrow> readers_ok file fsize stops readers"
  by (simp add: readers_ok_def)

lemma lf_completes_laws:
  assumes ok: "readers_ok file fsize stops readers" and valid: "lf_valid file content b"
    and completes: "lf_completes readers b r result m b' m'"
  shows "r \<in># lf_outstanding b" "lf_outstanding b' = lf_outstanding b - {#r#}" "lf_valid file content b'"
    "result_status result \<noteq> Pending" "a \<notin> span_addrs (req_destination r) \<Longrightarrow> m' a = m a"
    "classify_fill result (span_size (req_destination r)) = Ok \<Longrightarrow> i < unat (span_size (req_destination r)) \<Longrightarrow>
       m' (span_data (req_destination r) + of_nat i) = content (req_source r) (req_source_offset r + of_nat i)"
proof -
  consider (performed) read item k k' where "read \<in> readers" "item \<in> set (lf_performing b)" "r = wi_request item"
      "lf_perform read k item m = Some (result, k', m')" "b' = lf_delivered item result b"
    | (cancelled) "lf_cancel b = Some (r, result, b')" "m' = m"
    using completes unfolding lf_completes_def by blast
  then have "r \<in># lf_outstanding b \<and> lf_outstanding b' = lf_outstanding b - {#r#} \<and> lf_valid file content b' \<and>
    result_status result \<noteq> Pending \<and> (\<forall>a. a \<notin> span_addrs (req_destination r) \<longrightarrow> m' a = m a) \<and>
    (classify_fill result (span_size (req_destination r)) = Ok \<longrightarrow> (\<forall>i < unat (span_size (req_destination r)).
       m' (span_data (req_destination r) + of_nat i) = content (req_source r) (req_source_offset r + of_nat i)))"
  proof cases
    case performed
    have "reader_ok file fsize stops read"
      using ok performed(1) by (simp add: readers_ok_def)
    note reads = perform_frame [OF this performed(4)] perform_status [OF this performed(4)]
      perform_content [OF this performed(4)]
    have "file (wi_handle item) = content (req_source r)" if "item_readable item"
      using valid performed(2,3) that by (auto simp: lf_valid_def item_ok_def item_readable_def)
    with lf_delivered_keeps [OF valid performed(2)] reads performed(3,5)
    show ?thesis by auto
  next
    case cancelled
    have "result = cancelled_result"
      using cancelled(1) by (rule lf_cancelE)
    with lf_cancel_keeps [OF valid cancelled(1)] cancelled(2) show ?thesis
      by (simp add: cancelled_result_def classify_fill_def)
  qed
  then show "r \<in># lf_outstanding b" "lf_outstanding b' = lf_outstanding b - {#r#}" "lf_valid file content b'"
    "result_status result \<noteq> Pending" "a \<notin> span_addrs (req_destination r) \<Longrightarrow> m' a = m a"
    "classify_fill result (span_size (req_destination r)) = Ok \<Longrightarrow> i < unat (span_size (req_destination r)) \<Longrightarrow>
       m' (span_data (req_destination r) + of_nat i) = content (req_source r) (req_source_offset r + of_nat i)"
    by blast+
qed

section \<open>The contract, under every schedule of the workers\<close>

text \<open>
  Between two calls of the client, and before a delivery, the workers run: the backend's state carries the
  schedule, one list of steps for each call or delivery to come. Every interleaving is some schedule.
\<close>

record scheduled_backend =
  sb_backend :: local_backend
  sb_schedule :: "lf_action list list"

definition scheduled :: "scheduled_backend \<Rightarrow> local_backend" where
  "scheduled s =
     (case sb_schedule s of [] \<Rightarrow> sb_backend s | actions # _ \<Rightarrow> fold lf_act actions (sb_backend s))"

definition scheduled_submit :: "scheduled_backend submit_fn" where
  "scheduled_submit r s =
     (let (accepted, b) = lf_submit r (scheduled s)
      in (accepted, \<lparr>sb_backend = b, sb_schedule = tl (sb_schedule s)\<rparr>))"

definition scheduled_completes ::
    "reader set \<Rightarrow> scheduled_backend \<Rightarrow> fill_request \<Rightarrow> fill_result \<Rightarrow> memory \<Rightarrow> scheduled_backend \<Rightarrow> memory \<Rightarrow> bool" where
  "scheduled_completes readers s r result m s' m' \<longleftrightarrow>
     lf_completes readers (scheduled s) r result m (sb_backend s') m' \<and> sb_schedule s' = tl (sb_schedule s)"

definition scheduled_outstanding :: "scheduled_backend \<Rightarrow> fill_request multiset" where
  "scheduled_outstanding s = lf_outstanding (sb_backend s)"

definition scheduled_valid ::
    "(handle \<Rightarrow> u64 \<Rightarrow> byte) \<Rightarrow> (source_id \<Rightarrow> u64 \<Rightarrow> byte) \<Rightarrow> scheduled_backend \<Rightarrow> bool" where
  "scheduled_valid file content s \<longleftrightarrow> lf_valid file content (sb_backend s)"

lemma fold_lf_act_keeps:
  "lf_valid file content b \<Longrightarrow>
     lf_outstanding (fold lf_act actions b) = lf_outstanding b \<and> lf_valid file content (fold lf_act actions b)"
  by (induction actions arbitrary: b) (simp_all add: lf_act_keeps)

lemma scheduled_keeps:
  assumes "scheduled_valid file content s"
  shows "lf_outstanding (scheduled s) = scheduled_outstanding s" "lf_valid file content (scheduled s)"
  using assms fold_lf_act_keeps [where b = "sb_backend s"]
  by (auto simp: scheduled_def scheduled_outstanding_def scheduled_valid_def split: list.splits)

lemma scheduled_contract:
  assumes ok: "readers_ok file fsize stops readers"
  shows "terminal_backend scheduled_submit scheduled_outstanding (scheduled_valid file content)
    (scheduled_completes readers) content"
proof unfold_locales
  fix s r s' and a :: bool
  assume "scheduled_valid file content s"
  note keeps = scheduled_keeps [OF this]
  show "scheduled_submit r s = (True, s') \<Longrightarrow> scheduled_outstanding s' = add_mset r (scheduled_outstanding s)"
    and "scheduled_submit r s = (False, s') \<Longrightarrow> scheduled_outstanding s' = scheduled_outstanding s"
    and "scheduled_submit r s = (a, s') \<Longrightarrow> scheduled_valid file content s'"
    using lf_submit_keeps [OF keeps(2), of r] keeps(1)
    by (auto simp: scheduled_submit_def scheduled_outstanding_def [of s'] scheduled_valid_def split: prod.splits)
next
  fix s r result m s' m'
  assume valid: "scheduled_valid file content s" and completes: "scheduled_completes readers s r result m s' m'"
  note keeps = scheduled_keeps [OF valid]
  have "lf_completes readers (scheduled s) r result m (sb_backend s') m'"
    using completes by (simp add: scheduled_completes_def)
  note laws = lf_completes_laws [OF ok keeps(2) this]
  show "r \<in># scheduled_outstanding s" "scheduled_outstanding s' = scheduled_outstanding s - {#r#}"
    "scheduled_valid file content s'" "result_status result \<noteq> Pending"
    using laws(1-4) keeps(1) by (simp_all add: scheduled_outstanding_def [of s'] scheduled_valid_def)
  show "a \<notin> span_addrs (req_destination r) \<Longrightarrow> m' a = m a" for a
    by (rule laws(5))
  show "classify_fill result (span_size (req_destination r)) = Ok \<Longrightarrow> k < unat (span_size (req_destination r)) \<Longrightarrow>
      m' (span_data (req_destination r) + of_nat k) = content (req_source r) (req_source_offset r + of_nat k)" for k
    by (rule laws(6))
qed

end
