(* ===== verification/Local_File_System.thy ===== *)
theory Local_File_System
  imports Local_File_Contract
begin

text \<open>
  The worker-pool backend at work: its clients submit and register files, its workers take, perform and
  count, and \<open>shutdown\<close> cancels what is queued. With the backend and the memory, a state remembers the
  accepted requests, the deliveries in their order, and the handles opened and closed. The invariant says
  that every accepted request is outstanding or was delivered, once, and what each counter counts.
\<close>

section \<open>States and steps\<close>

record lf_system =
  ls_backend :: local_backend
  ls_memory :: memory
  ls_accepted :: "fill_request multiset"
  ls_log :: "(fill_request \<times> fill_result) list"
  ls_opened :: "handle multiset"
  ls_closed :: "handle multiset"

definition lf_system_init :: "nat \<Rightarrow> local_config \<Rightarrow> memory \<Rightarrow> lf_system" where
  "lf_system_init capacity config m =
     \<lparr>ls_backend = lf_construct capacity config, ls_memory = m, ls_accepted = {#}, ls_log = [],
      ls_opened = {#}, ls_closed = {#}\<rparr>"

text \<open>The steps of the workers and of the thread that runs \<open>shutdown\<close>.\<close>

inductive lf_worker_step :: "reader set \<Rightarrow> lf_system \<Rightarrow> lf_system \<Rightarrow> bool" for readers where
  takes: "lf_take (ls_backend s) = Some (taken, b') \<Longrightarrow> lf_worker_step readers s (s\<lparr>ls_backend := b'\<rparr>)"
| performs: "item \<in> set (lf_performing (ls_backend s)) \<Longrightarrow>
     read \<in> readers \<Longrightarrow> lf_perform read k item (ls_memory s) = Some (result, k', m') \<Longrightarrow>
     lf_worker_step readers s (s\<lparr>ls_backend := lf_delivered item result (ls_backend s), ls_memory := m',
       ls_log := ls_log s @ [(wi_request item, result)]\<rparr>)"
| counts: "lf_count i (ls_backend s) = Some b' \<Longrightarrow> lf_worker_step readers s (s\<lparr>ls_backend := b'\<rparr>)"
| cancels: "lf_cancel (ls_backend s) = Some (r, result, b') \<Longrightarrow>
     lf_worker_step readers s (s\<lparr>ls_backend := b', ls_log := ls_log s @ [(r, result)]\<rparr>)"

inductive lf_step :: "reader set \<Rightarrow> lf_system \<Rightarrow> lf_system \<Rightarrow> bool" for readers where
  registers: "lf_register_file opened nocache sized source access (ls_backend s) = (st, closed, b') \<Longrightarrow>
     lf_step readers s (s\<lparr>ls_backend := b',
       ls_opened := (if opened = invalid_handle then ls_opened s else add_mset opened (ls_opened s)),
       ls_closed := ls_closed s + mset closed\<rparr>)"
| registers_win: "lf_register_file_win opened sized source access (ls_backend s) = (st, closed, b') \<Longrightarrow>
     lf_step readers s (s\<lparr>ls_backend := b',
       ls_opened := (if opened = invalid_handle then ls_opened s else add_mset opened (ls_opened s)),
       ls_closed := ls_closed s + mset closed\<rparr>)"
| accepts: "lf_submit r (ls_backend s) = (True, b') \<Longrightarrow>
     lf_step readers s (s\<lparr>ls_backend := b', ls_accepted := add_mset r (ls_accepted s)\<rparr>)"
| refuses: "lf_submit r (ls_backend s) = (False, b') \<Longrightarrow> lf_step readers s (s\<lparr>ls_backend := b'\<rparr>)"
| shuts: "lf_step readers s (s\<lparr>ls_backend := lf_shutdown_begin (ls_backend s)\<rparr>)"
| works: "lf_worker_step readers s t \<Longrightarrow> lf_step readers s t"

inductive lf_reachable :: "reader set \<Rightarrow> local_config \<Rightarrow> lf_system \<Rightarrow> bool" for readers config where
  start: "lf_create capacity config = Inr b \<Longrightarrow> lc_max_sources config \<le> capacity \<Longrightarrow>
     lf_reachable readers config (lf_system_init capacity config m)"
| step: "lf_reachable readers config s \<Longrightarrow> lf_step readers s t \<Longrightarrow> lf_reachable readers config t"

inductive_cases lf_worker_stepE: "lf_worker_step readers s t"
inductive_cases lf_stepE: "lf_step readers s t"

section \<open>The invariant\<close>

text \<open>What the counters of a backend count, given the deliveries made so far.\<close>

definition delivered_bytes :: "(fill_request \<times> fill_result) list \<Rightarrow> nat" where
  "delivered_bytes log = sum_list (map (\<lambda>(r, result). unat (result_bytes result)) log)"

definition log_results :: "(fill_request \<times> fill_result) list \<Rightarrow> (u64 \<times> fill_result) list" where
  "log_results log = map (\<lambda>(r, result). (span_size (req_destination r), result)) log"

definition result_full :: "u64 \<times> fill_result \<Rightarrow> bool" where
  "result_full = (\<lambda>(wanted, result). result_status result = Ok \<and> result_bytes result = wanted)"

definition result_short :: "u64 \<times> fill_result \<Rightarrow> bool" where
  "result_short = (\<lambda>(wanted, result). result_status result = Ok \<and> result_bytes result \<noteq> wanted)"

definition result_error :: "u64 \<times> fill_result \<Rightarrow> bool" where
  "result_error = (\<lambda>(wanted, result). result_status result \<noteq> Ok \<and> result_status result \<noteq> Cancelled)"

definition result_cancelled :: "u64 \<times> fill_result \<Rightarrow> bool" where
  "result_cancelled = (\<lambda>(wanted, result). result_status result = Cancelled)"

lemmas result_kinds = result_full_def result_short_def result_error_def result_cancelled_def

definition lf_counters_ok :: "lf_system \<Rightarrow> bool" where
  "lf_counters_ok s \<longleftrightarrow>
     (let b = ls_backend s; c = lf_counters b in
        lst_accepted c = size (ls_accepted s) \<and>
        lst_in_flight c = length (lf_performing b) + length (lf_uncounted b) \<and>
        lst_completed_ok c + count_where result_full (lf_uncounted b) = count_where result_full (log_results (ls_log s)) \<and>
        lst_short_reads c + count_where result_short (lf_uncounted b) = count_where result_short (log_results (ls_log s)) \<and>
        lst_errors c + count_where result_error (lf_uncounted b) = count_where result_error (log_results (ls_log s)) \<and>
        lst_cancelled c = count_where result_cancelled (log_results (ls_log s)) \<and>
        count_where result_cancelled (lf_uncounted b) = 0 \<and>
        lst_bytes_read c + sum_list (map (\<lambda>(wanted, result). unat (result_bytes result)) (lf_uncounted b))
          = delivered_bytes (ls_log s) \<and>
        lf_ring_size b \<le> lst_queue_high_water c \<and> lst_queue_high_water c \<le> length (lf_ring b))"

definition lf_workers_ok :: "local_config \<Rightarrow> local_backend \<Rightarrow> bool" where
  "lf_workers_ok config b \<longleftrightarrow>
     lf_idle b + length (lf_performing b) + length (lf_uncounted b) \<le> lc_workers config \<and>
     (lf_shutting_down b \<or>
        lf_idle b + length (lf_performing b) + length (lf_uncounted b) = lc_workers config) \<and>
     length (lf_ring b) = lc_queue_capacity config \<and>
     (lf_shutting_down b \<longrightarrow> lf_ring_size b = 0) \<and> (\<not> lf_shutting_down b \<longrightarrow> lf_cancelling b = [])"

definition lf_sources_ok :: "lf_system \<Rightarrow> bool" where
  "lf_sources_ok s \<longleftrightarrow>
     (let b = ls_backend s in
        distinct (map se_source (lf_sources b)) \<and> length (lf_sources b) \<le> lf_source_capacity b \<and>
        invalid_handle \<notin> se_handle ` set (lf_sources b) \<and>
        ls_opened s = ls_closed s + mset (map se_handle (lf_sources b)))"

definition lf_inv :: "local_config \<Rightarrow> lf_system \<Rightarrow> bool" where
  "lf_inv config s \<longleftrightarrow>
     ring_ok (ls_backend s) \<and> lf_workers_ok config (ls_backend s) \<and> lf_counters_ok s \<and> lf_sources_ok s \<and>
     ls_accepted s = lf_outstanding (ls_backend s) + mset (map fst (ls_log s))"

lemma count_result_simps [simp]:
  "lst_accepted (count_result wanted result c) = lst_accepted c"
  "lst_queue_high_water (count_result wanted result c) = lst_queue_high_water c"
  "lst_in_flight (count_result wanted result c) = lst_in_flight c - 1"
  "lst_bytes_read (count_result wanted result c) = lst_bytes_read c + unat (result_bytes result)"
  "lst_cancelled (count_result wanted result c) = lst_cancelled c"
  by (simp_all add: count_result_def Let_def)

lemma count_result_kinds:
  "result_status result \<noteq> Cancelled \<Longrightarrow>
     lst_completed_ok (count_result wanted result c) = lst_completed_ok c + (if result_full (wanted, result) then 1 else 0)"
  "result_status result \<noteq> Cancelled \<Longrightarrow>
     lst_short_reads (count_result wanted result c) = lst_short_reads c + (if result_short (wanted, result) then 1 else 0)"
  "result_status result \<noteq> Cancelled \<Longrightarrow>
     lst_errors (count_result wanted result c) = lst_errors c + (if result_error (wanted, result) then 1 else 0)"
  by (simp_all add: count_result_def result_kinds Let_def)

lemma log_results_simps [simp]:
  "log_results [] = []"
  "log_results (log @ [(r, result)]) = log_results log @ [(span_size (req_destination r), result)]"
  by (simp_all add: log_results_def)

lemma outstanding_upd_lf_counters [simp]: "lf_outstanding (upd_lf_counters f b) = lf_outstanding b"
  by (simp add: lf_outstanding_def)

lemma delivered_bytes_append [simp]:
  "delivered_bytes (log @ [(r, result)]) = delivered_bytes log + unat (result_bytes result)"
  by (simp add: delivered_bytes_def)

lemma remove_at_sum_list:
  fixes f :: "'a \<Rightarrow> nat"
  assumes "i < length xs"
  shows "sum_list (map f (remove_at i xs)) + f (xs ! i) = sum_list (map f xs)"
  by (subst (2) id_take_nth_drop [OF assms]) (simp add: remove_at_def)

lemma remove_at_count_where:
  assumes "i < length xs"
  shows "count_where P xs = count_where P (remove_at i xs) + (if P (xs ! i) then 1 else 0)"
  by (subst id_take_nth_drop [OF assms]) (simp add: remove_at_def)

lemma lf_inv_init: "lf_create capacity config = Inr b \<Longrightarrow> lf_inv config (lf_system_init capacity config m)"
  by (auto simp: lf_inv_def lf_system_init_def lf_construct_def ring_ok_def lf_workers_ok_def lf_counters_ok_def
      lf_sources_ok_def lf_outstanding_def ring_items_none delivered_bytes_def default_local_stats_def
      lf_create_def split: if_splits)

lemma lf_inv_take:
  assumes inv: "lf_inv config s" and take: "lf_take (ls_backend s) = Some (taken, b')"
  shows "lf_inv config (s\<lparr>ls_backend := b'\<rparr>)"
proof -
  have ok: "ring_ok (ls_backend s)"
    using inv by (simp add: lf_inv_def)
  from take ok show ?thesis
  proof (cases rule: lf_takeE)
    case ends
    with inv show ?thesis
      by (auto simp: lf_inv_def lf_workers_ok_def lf_counters_ok_def lf_sources_ok_def lf_outstanding_def Let_def)
  next
    case (takes item)
    with inv show ?thesis
      by (auto simp: lf_inv_def lf_workers_ok_def lf_counters_ok_def lf_sources_ok_def lf_outstanding_def Let_def)
  qed
qed

lemma lf_inv_delivered:
  assumes inv: "lf_inv config s" and item: "item \<in> set (lf_performing (ls_backend s))"
    and status: "result_status result \<noteq> Cancelled"
  shows "lf_inv config (s\<lparr>ls_backend := lf_delivered item result (ls_backend s), ls_memory := m',
       ls_log := ls_log s @ [(wi_request item, result)]\<rparr>)"
proof -
  let ?b = "ls_backend s"
  have "length (lf_performing ?b) = Suc (length (remove1 item (lf_performing ?b)))"
    using item by (simp add: length_remove1) (metis Suc_pred length_pos_if_in_set)
  moreover have "mset (map wi_request (lf_performing ?b))
      = add_mset (wi_request item) (mset (map wi_request (remove1 item (lf_performing ?b))))"
    using item by (metis image_mset_add_mset insert_DiffM mset_map mset_remove1 set_mset_mset)
  then have "lf_outstanding ?b = add_mset (wi_request item) (lf_outstanding (lf_delivered item result ?b))"
    by (simp add: lf_outstanding_def lf_delivered_def)
  ultimately show ?thesis
    using inv status
    by (simp add: lf_inv_def lf_workers_ok_def lf_counters_ok_def lf_sources_ok_def Let_def)
      (simp add: lf_delivered_def result_cancelled_def)
qed

lemma lf_inv_count:
  assumes inv: "lf_inv config s" and count: "lf_count i (ls_backend s) = Some b'"
  shows "lf_inv config (s\<lparr>ls_backend := b'\<rparr>)"
proof -
  let ?b = "ls_backend s" and ?bytes = "\<lambda>(wanted :: u64, result). unat (result_bytes result)"
  from count obtain wanted result where i: "i < length (lf_uncounted ?b)" "lf_uncounted ?b ! i = (wanted, result)"
      and b': "b' = upd_lf_counters (count_result wanted result)
        (?b\<lparr>lf_uncounted := remove_at i (lf_uncounted ?b), lf_idle := lf_idle ?b + 1\<rparr>)"
    by (rule lf_countE)
  have "length (lf_uncounted ?b) = Suc (length (remove_at i (lf_uncounted ?b)))"
    using i(1) by (simp add: length_remove_at)
  moreover have kinds: "count_where P (lf_uncounted ?b)
      = count_where P (remove_at i (lf_uncounted ?b)) + (if P (wanted, result) then 1 else 0)" for P
    using remove_at_count_where [OF i(1), of P] i(2) by simp
  moreover from this [of result_cancelled] have status: "result_status result \<noteq> Cancelled"
    using inv by (auto simp: lf_inv_def lf_counters_ok_def result_cancelled_def Let_def split: if_splits)
  moreover have "sum_list (map ?bytes (lf_uncounted ?b))
      = sum_list (map ?bytes (remove_at i (lf_uncounted ?b))) + unat (result_bytes result)"
    using remove_at_sum_list [OF i(1), of ?bytes] i(2) by simp
  ultimately show ?thesis
    using inv count_result_kinds [OF status, of wanted "lf_counters ?b"]
    by (simp add: lf_inv_def b' lf_workers_ok_def lf_counters_ok_def lf_sources_ok_def lf_outstanding_def Let_def)
qed

lemma lf_inv_cancel:
  assumes inv: "lf_inv config s" and cancel: "lf_cancel (ls_backend s) = Some (r, result, b')"
  shows "lf_inv config (s\<lparr>ls_backend := b', ls_log := ls_log s @ [(r, result)]\<rparr>)"
  using cancel
  by (rule lf_cancelE) (use inv in \<open>simp add: lf_inv_def lf_workers_ok_def lf_counters_ok_def lf_sources_ok_def
      lf_outstanding_def cancelled_result_def result_kinds Let_def\<close>)

lemma lf_inv_submit:
  assumes inv: "lf_inv config s" and submit: "lf_submit r (ls_backend s) = (accepted, b')"
  shows "lf_inv config (s\<lparr>ls_backend := b',
      ls_accepted := (if accepted then add_mset r (ls_accepted s) else ls_accepted s)\<rparr>)"
proof (cases accepted)
  case True
  then have "lf_submit r (ls_backend s) = (True, b')" "ring_ok (ls_backend s)"
    using inv submit by (simp_all add: lf_inv_def)
  note submitted = lf_submit_accepted [OF this]
  with True inv show ?thesis
    by (auto simp: lf_inv_def lf_workers_ok_def lf_counters_ok_def lf_sources_ok_def lf_outstanding_def ring_ok_def Let_def)
next
  case False
  with inv submit lf_submit_refused(1) [of r "ls_backend s" b'] show ?thesis
    by (simp add: lf_inv_def lf_workers_ok_def lf_counters_ok_def lf_sources_ok_def Let_def)
qed

lemma lf_inv_shutdown_begin:
  assumes inv: "lf_inv config s"
  shows "lf_inv config (s\<lparr>ls_backend := lf_shutdown_begin (ls_backend s)\<rparr>)"
proof -
  have "ring_ok (ls_backend s)"
    using inv by (simp add: lf_inv_def)
  then show ?thesis
    by (rule lf_shutdown_beginE) (use inv in \<open>auto simp: lf_inv_def lf_workers_ok_def lf_counters_ok_def
      lf_sources_ok_def lf_outstanding_def ring_items_none Let_def\<close>)
qed

text \<open>Both platforms' registrations either refuse, and close what they opened, or enter the file.\<close>

lemma lf_add_source_cases:
  assumes "lf_add_source opened n source access b = (st, closed, b')"
  shows "st \<noteq> Ok \<and> closed = close_handle opened \<and> b' = b \<or>
    st = Ok \<and> closed = [] \<and> source \<notin> se_source ` set (lf_sources b) \<and>
    length (lf_sources b) \<noteq> lf_source_capacity b \<and>
    b' = b\<lparr>lf_sources := lf_sources b @
       [\<lparr>se_source = source, se_handle = opened, se_size = n, se_access = access\<rparr>]\<rparr>"
  using assms by (auto simp: lf_add_source_def list_ex_iff split: if_splits)

lemma lf_registerE:
  assumes "lf_register_file opened nocache sized source access b = (st, closed, b')
    \<or> lf_register_file_win opened sized source access b = (st, closed, b')"
  obtains (refused) "st \<noteq> Ok" "closed = close_handle opened" "b' = b"
  | (registered) n where "st = Ok" "closed = []" "opened \<noteq> invalid_handle" "sized = Some n"
      "source \<notin> se_source ` set (lf_sources b)" "length (lf_sources b) \<noteq> lf_source_capacity b"
      "b' = b\<lparr>lf_sources := lf_sources b @
         [\<lparr>se_source = source, se_handle = opened, se_size = n, se_access = access\<rparr>]\<rparr>"
proof -
  have "st \<noteq> Ok \<and> closed = close_handle opened \<and> b' = b \<or>
      (\<exists>n. opened \<noteq> invalid_handle \<and> sized = Some n \<and> lf_add_source opened n source access b = (st, closed, b'))"
    using assms
    by (auto simp: lf_register_file_def lf_register_file_win_def close_handle_def Let_def split: if_splits option.splits)
  with refused registered show thesis
    by (metis lf_add_source_cases)
qed

lemma lf_inv_register:
  assumes inv: "lf_inv config s"
    and reg: "lf_register_file opened nocache sized source access (ls_backend s) = (st, closed, b')
      \<or> lf_register_file_win opened sized source access (ls_backend s) = (st, closed, b')"
  shows "lf_inv config (s\<lparr>ls_backend := b',
       ls_opened := (if opened = invalid_handle then ls_opened s else add_mset opened (ls_opened s)),
       ls_closed := ls_closed s + mset closed\<rparr>)"
  using reg
proof (cases rule: lf_registerE)
  case refused
  with inv show ?thesis
    by (simp add: lf_inv_def lf_workers_ok_def lf_counters_ok_def lf_sources_ok_def close_handle_def Let_def)
next
  case (registered n)
  with inv show ?thesis
    by (auto simp: lf_inv_def lf_workers_ok_def lf_counters_ok_def lf_sources_ok_def lf_outstanding_def Let_def)
qed

definition readers_honest :: "reader set \<Rightarrow> bool" where
  "readers_honest readers \<longleftrightarrow> (\<forall>read \<in> readers. reader_honest read)"

lemma readers_honest_platforms [simp]: "readers_honest (posix_readers pread)" "readers_honest (win_readers win)"
  using posix_readers_honest win_readers_honest by (auto simp: readers_honest_def)

lemma lf_worker_step_inv:
  assumes "readers_honest readers" "lf_inv config s" "lf_worker_step readers s t"
  shows "lf_inv config t"
  using assms(3)
proof (cases rule: lf_worker_step.cases)
  case (performs item read k result k' m')
  have "result_status result \<noteq> Cancelled"
    using assms(1) performs(3) perform_not_cancelled [OF _ performs(4)] by (simp add: readers_honest_def)
  from lf_inv_delivered [OF assms(2) performs(2) this] show ?thesis
    unfolding performs(1) .
qed (use assms(2) in \<open>auto intro: lf_inv_take lf_inv_count lf_inv_cancel\<close>)

lemma lf_reachable_inv:
  assumes "lf_reachable readers config s" and honest: "readers_honest readers"
  shows "lf_inv config s"
  using assms(1)
proof (induction rule: lf_reachable.induct)
  case (start capacity b m)
  from start(1) show ?case by (rule lf_inv_init)
next
  case (step s t)
  from step(2,3) show ?case
  proof (cases rule: lf_step.cases)
    case registers
    from lf_inv_register [OF step(3) disjI1 [OF registers(2)]] show ?thesis
      unfolding registers(1) .
  next
    case registers_win
    from lf_inv_register [OF step(3) disjI2 [OF registers_win(2)]] show ?thesis
      unfolding registers_win(1) .
  next
    case (accepts r b')
    with step(3) lf_inv_submit [of config s r True b'] show ?thesis by simp
  next
    case (refuses r b')
    with step(3) lf_inv_submit [of config s r False b'] show ?thesis by simp
  next
    case works
    show ?thesis
      by (rule lf_worker_step_inv [OF honest step(3) works])
  qed (auto intro: lf_inv_shutdown_begin)
qed

section \<open>Shutdown\<close>

text \<open>How many steps the workers and the canceller have left, at most, once \<open>shutdown\<close> has begun.\<close>

definition lf_work :: "local_backend \<Rightarrow> nat" where
  "lf_work b = 4 * lf_ring_size b + 3 * length (lf_performing b) + 2 * length (lf_uncounted b)
     + length (lf_cancelling b) + lf_idle b"

lemma lf_worker_step_decreases:
  assumes "lf_worker_step readers s t" "ring_ok (ls_backend s)"
  shows "lf_work (ls_backend t) < lf_work (ls_backend s)"
  using assms(1)
proof (cases rule: lf_worker_step.cases)
  case (takes taken b')
  from takes(2) assms(2) show ?thesis
    by (cases rule: lf_takeE) (simp_all add: takes(1) lf_work_def)
next
  case (performs item)
  then have "length (lf_performing (ls_backend s)) = Suc (length (remove1 item (lf_performing (ls_backend s))))"
    by (simp add: length_remove1) (metis Suc_pred length_pos_if_in_set)
  with performs show ?thesis
    by (simp add: lf_work_def lf_delivered_def)
next
  case (counts i b')
  from counts(2) obtain wanted result where "i < length (lf_uncounted (ls_backend s))"
      "b' = upd_lf_counters (count_result wanted result) ((ls_backend s)
        \<lparr>lf_uncounted := remove_at i (lf_uncounted (ls_backend s)), lf_idle := lf_idle (ls_backend s) + 1\<rparr>)"
    by (rule lf_countE)
  with counts(1) show ?thesis
    by (simp add: lf_work_def length_remove_at)
next
  case (cancels r result b')
  from cancels(2) show ?thesis
    by (rule lf_cancelE) (simp add: cancels(1) lf_work_def)
qed

lemma lf_not_joined_works:
  assumes inv: "lf_inv config s" and read: "read \<in> readers" "reader_returns read"
    and shutting: "lf_shutting_down (ls_backend s)" and running: "\<not> lf_joined (ls_backend s)"
  shows "\<exists>t. lf_worker_step readers s t"
proof -
  let ?b = "ls_backend s"
  have empty: "lf_ring_size ?b = 0"
    using inv shutting by (simp add: lf_inv_def lf_workers_ok_def)
  consider "0 < lf_idle ?b" | item rest where "lf_performing ?b = item # rest"
    | "lf_uncounted ?b \<noteq> []" | item rest where "lf_cancelling ?b = item # rest"
    using running shutting by (auto simp: lf_joined_def neq_Nil_conv)
  then show ?thesis
  proof cases
    case 1
    then have "\<exists>x. lf_take ?b = Some x"
      using empty shutting by (simp add: lf_take_def)
    then show ?thesis by (auto intro: lf_worker_step.takes)
  next
    case 2
    then have "item \<in> set (lf_performing ?b)"
      by simp
    with perform_returns [OF read(2), of 0 item "ls_memory s"] read(1) show ?thesis
      by (auto intro: lf_worker_step.performs)
  next
    case 3
    then have "\<exists>b'. lf_count 0 ?b = Some b'"
      by (auto simp: lf_count_def split: prod.splits)
    then show ?thesis by (auto intro: lf_worker_step.counts)
  next
    case 4
    then have "\<exists>x. lf_cancel ?b = Some x"
      by (simp add: lf_cancel_def)
    then show ?thesis by (auto intro: lf_worker_step.cancels)
  qed
qed

lemma lf_worker_step_shutting:
  assumes "lf_worker_step readers s t" "ring_ok (ls_backend s)"
  shows "lf_shutting_down (ls_backend t) = lf_shutting_down (ls_backend s)"
  using assms(1)
proof (cases rule: lf_worker_step.cases)
  case (takes taken b')
  from takes(2) assms(2) show ?thesis
    by (cases rule: lf_takeE) (simp_all add: takes(1))
qed (auto simp: lf_delivered_def elim!: lf_countE lf_cancelE)

lemma lf_joined_nothing_left:
  assumes "lf_inv config s" "lf_joined (ls_backend s)"
  shows "lf_outstanding (ls_backend s) = {#}"
  using assms by (simp add: lf_inv_def lf_workers_ok_def lf_joined_def lf_outstanding_def ring_items_none)

lemma lf_joined_no_step: "lf_joined (ls_backend s) \<Longrightarrow> lf_workers_ok config (ls_backend s) \<Longrightarrow> \<not> lf_worker_step readers s t"
  by (auto simp: lf_joined_def lf_take_def lf_count_def lf_cancel_def elim!: lf_worker_stepE)

text \<open>Once the workers are joined, nothing is delivered and no destination is written any more.\<close>

lemma lf_joined_final:
  assumes inv: "lf_inv config s" and joined: "lf_joined (ls_backend s)" and step: "lf_step readers s t"
  shows "lf_joined (ls_backend t)" "ls_memory t = ls_memory s" "ls_log t = ls_log s" "ls_accepted t = ls_accepted s"
proof -
  have none: "\<not> lf_worker_step readers s t"
    using inv lf_joined_no_step [OF joined] unfolding lf_inv_def by blast
  have shut: "lf_shutting_down (ls_backend s)"
    using joined by (simp add: lf_joined_def)
  have "lf_joined (ls_backend t) \<and> ls_memory t = ls_memory s \<and> ls_log t = ls_log s \<and> ls_accepted t = ls_accepted s"
    using step
  proof (cases rule: lf_step.cases)
    case registers
    from disjI1 [OF registers(2)] show ?thesis
      by (cases rule: lf_registerE) (use joined registers(1) in \<open>simp_all add: lf_joined_def\<close>)
  next
    case registers_win
    from disjI2 [OF registers_win(2)] show ?thesis
      by (cases rule: lf_registerE) (use joined registers_win(1) in \<open>simp_all add: lf_joined_def\<close>)
  qed (use none shut joined in \<open>auto simp: lf_joined_def lf_submit_def lf_shutdown_begin_def\<close>)
  then show "lf_joined (ls_backend t)" "ls_memory t = ls_memory s" "ls_log t = ls_log s" "ls_accepted t = ls_accepted s"
    by blast+
qed

text \<open>From the start of \<open>shutdown\<close> the workers reach the join.\<close>

lemma lf_shutdown_joins:
  assumes "lf_inv config s" and read: "read \<in> readers" "reader_returns read" and honest: "readers_honest readers"
    and "lf_shutting_down (ls_backend s)"
  shows "\<exists>t. (lf_worker_step readers)\<^sup>*\<^sup>* s t \<and> lf_joined (ls_backend t)"
  using assms(1,5)
proof (induction "lf_work (ls_backend s)" arbitrary: s rule: less_induct)
  case less
  show ?case
  proof (cases "lf_joined (ls_backend s)")
    case False
    obtain u where u: "lf_worker_step readers s u"
      using lf_not_joined_works [OF less.prems(1) read less.prems(2) False] by blast
    have ok: "ring_ok (ls_backend s)"
      using less.prems(1) by (simp add: lf_inv_def)
    have "\<exists>t. (lf_worker_step readers)\<^sup>*\<^sup>* u t \<and> lf_joined (ls_backend t)"
      using less.hyps [OF lf_worker_step_decreases [OF u ok] lf_worker_step_inv [OF honest less.prems(1) u]]
        lf_worker_step_shutting [OF u ok] less.prems(2) by simp
    with u show ?thesis
      by (meson converse_rtranclp_into_rtranclp)
  qed blast
qed

end
