(* ===== verification/Local_File_Props.thy ===== *)
theory Local_File_Props
  imports Local_File_System
begin

text \<open>
  What the worker-pool backend promises, with witnesses on a run over two small files.
\<close>

section \<open>A run over two small files\<close>

text \<open>
  Handle 3 is a file of 7 bytes whose reads come back three bytes at a time; handle 4 a file of 6 bytes for
  direct access. Every third call is interrupted, and any other handle fails.
\<close>

definition demo_file :: "handle \<Rightarrow> u64 \<Rightarrow> byte" where
  "demo_file h off = of_int h * 16 + ucast off"

definition demo_fsize :: "handle \<Rightarrow> nat" where
  "demo_fsize h = (if h = 3 then 7 else if h = 4 then 6 else 0)"

definition demo_pread :: pread_fn where
  "demo_pread k h off n =
     (if k mod 3 = 0 then Interrupted
      else if h \<noteq> 3 \<and> h \<noteq> 4 then Pread_Failed
      else Got (map (\<lambda>i. demo_file h (off + of_nat i))
             [0..<min (if h = 3 then 3 else unat n) (min (unat n) (demo_fsize h - unat off))]))"

definition demo_content :: "source_id \<Rightarrow> u64 \<Rightarrow> byte" where
  "demo_content source = demo_file (if source = 1 then 3 else 4)"

lemma demo_pread_spec: "pread_spec demo_pread demo_file demo_fsize"
proof -
  have "0 < unat n" if "n \<noteq> 0" for n :: u64
    using that by (simp add: unat_gt_0)
  then show ?thesis
    unfolding pread_spec_def chunk_ok_def demo_pread_def demo_fsize_def
    by (auto simp: min_def split: if_splits) (metis add.commute le_diff_conv nat_le_linear le_0_eq neq0_conv)+
qed

lemma demo_pread_fair: "pread_fair demo_pread"
proof -
  have "\<exists>j \<ge> k. j mod 3 \<noteq> (0 :: nat)" for k
    by (rule exI [of _ "if k mod 3 = 0 then k + 1 else k"]) (auto simp: mod_Suc)
  then show ?thesis
    unfolding pread_fair_def demo_pread_def by (metis pread_outcome.distinct)
qed

datatype lf_command =
    Do_Register handle bool "u64 option" source_id file_access
  | Do_Queue fill_request
  | Do_Take
  | Do_Perform nat nat
  | Do_Count nat
  | Do_Shutdown
  | Do_Cancel

definition lf_exec :: "reader \<Rightarrow> lf_command \<Rightarrow> lf_system \<Rightarrow> lf_system option" where
  "lf_exec read cmd s =
     (case cmd of
        Do_Register opened nocache sized source access \<Rightarrow>
          (case lf_register_file opened nocache sized source access (ls_backend s) of
             (st, closed, b') \<Rightarrow> Some (s\<lparr>ls_backend := b',
               ls_opened := (if opened = invalid_handle then ls_opened s else add_mset opened (ls_opened s)),
               ls_closed := ls_closed s + mset closed\<rparr>))
      | Do_Queue r \<Rightarrow>
          (case lf_submit r (ls_backend s) of
             (True, b') \<Rightarrow> Some (s\<lparr>ls_backend := b', ls_accepted := add_mset r (ls_accepted s)\<rparr>)
           | (False, b') \<Rightarrow> Some (s\<lparr>ls_backend := b'\<rparr>))
      | Do_Take \<Rightarrow> map_option (\<lambda>(taken, b'). s\<lparr>ls_backend := b'\<rparr>) (lf_take (ls_backend s))
      | Do_Perform position k \<Rightarrow>
          (if position \<ge> length (lf_performing (ls_backend s)) then None
           else let item = lf_performing (ls_backend s) ! position
                in map_option (\<lambda>(result, k', m').
                     s\<lparr>ls_backend := lf_delivered item result (ls_backend s), ls_memory := m',
                       ls_log := ls_log s @ [(wi_request item, result)]\<rparr>)
                   (lf_perform read k item (ls_memory s)))
      | Do_Count i \<Rightarrow> map_option (\<lambda>b'. s\<lparr>ls_backend := b'\<rparr>) (lf_count i (ls_backend s))
      | Do_Shutdown \<Rightarrow> Some (s\<lparr>ls_backend := lf_shutdown_begin (ls_backend s)\<rparr>)
      | Do_Cancel \<Rightarrow>
          map_option (\<lambda>(r, result, b'). s\<lparr>ls_backend := b', ls_log := ls_log s @ [(r, result)]\<rparr>)
            (lf_cancel (ls_backend s)))"

fun lf_run :: "reader \<Rightarrow> lf_command list \<Rightarrow> lf_system \<Rightarrow> lf_system option" where
  "lf_run read [] s = Some s"
| "lf_run read (cmd # cmds) s = (case lf_exec read cmd s of None \<Rightarrow> None | Some t \<Rightarrow> lf_run read cmds t)"

lemma lf_exec_step:
  assumes "lf_exec read cmd s = Some t" and read: "read \<in> readers"
  shows "lf_step readers s t"
proof (cases cmd)
  case (Do_Register opened nocache sized source access)
  obtain st closed b' where
      reg: "lf_register_file opened nocache sized source access (ls_backend s) = (st, closed, b')"
    by (cases "lf_register_file opened nocache sized source access (ls_backend s)")
  from lf_step.registers [OF reg] show ?thesis
    using assms by (simp add: lf_exec_def Do_Register reg)
next
  case (Do_Perform position k)
  let ?item = "lf_performing (ls_backend s) ! position"
  obtain result k' m' where "position < length (lf_performing (ls_backend s))"
      and perform: "lf_perform read k ?item (ls_memory s) = Some (result, k', m')"
    using assms by (auto simp: lf_exec_def Do_Perform Let_def split: if_splits)
  with lf_worker_step.performs [OF nth_mem read perform] show ?thesis
    using assms by (auto simp: lf_exec_def Do_Perform Let_def intro: lf_step.works)
qed (use assms in \<open>auto simp: lf_exec_def split: prod.splits bool.splits
      intro: lf_step.intros lf_worker_step.intros\<close>)

lemma lf_run_reachable:
  "lf_reachable readers config s \<Longrightarrow> lf_run read cmds s = Some t \<Longrightarrow> read \<in> readers \<Longrightarrow> lf_reachable readers config t"
proof (induction cmds arbitrary: s)
  case (Cons cmd cmds)
  from Cons.prems(2) obtain u where "lf_exec read cmd s = Some u" "lf_run read cmds u = Some t"
    by (auto split: option.splits)
  with Cons.prems(1,3) Cons.IH show ?case
    by (blast intro: lf_reachable.step lf_exec_step)
qed simp

definition files_config :: local_config where
  "files_config = \<lparr>lc_workers = 2, lc_queue_capacity = 2, lc_max_sources = 2\<rparr>"

definition file_request :: "source_id \<Rightarrow> u64 \<Rightarrow> u64 \<Rightarrow> u64 \<Rightarrow> fill_request" where
  "file_request source off data len =
     \<lparr>req_source = source, req_source_offset = off, req_destination = \<lparr>span_data = data, span_size = len\<rparr>,
      req_token = \<lparr>token_index = 0, token_generation = 0\<rparr>, req_sink = 0\<rparr>"

text \<open>
  Two registrations of one source; requests that are read in full, past the end of the file, from an
  unknown source, refused by the full queue, and cancelled by the shutdown.
\<close>

definition files_commands :: "lf_command list" where
  "files_commands =
     [Do_Register 3 True (Some 7) 1 Buffered, Do_Register 9 True (Some 7) 1 Buffered,
      Do_Queue (file_request 1 2 4096 4), Do_Queue (file_request 1 5 4200 4),
      Do_Queue (file_request 9 0 4300 4), Do_Take, Do_Take, Do_Perform 1 0, Do_Queue (file_request 9 0 4300 4),
      Do_Count 0, Do_Perform 0 1, Do_Take, Do_Queue (file_request 1 0 4400 4), Do_Shutdown, Do_Perform 0 2,
      Do_Count 1]"

definition files_state :: lf_system where
  "files_state = the (lf_run (read_range demo_pread) files_commands (lf_system_init 2 files_config (\<lambda>_. 0)))"

definition joined_state :: lf_system where
  "joined_state = the (lf_run (read_range demo_pread) [Do_Cancel, Do_Count 0, Do_Take, Do_Take] files_state)"

lemma lf_init_reachable: "lf_reachable readers files_config (lf_system_init 2 files_config (\<lambda>_. 0))"
  by (rule lf_reachable.start) (auto simp: lf_create_def files_config_def)

lemma files_state_reachable: "lf_reachable (posix_readers demo_pread) files_config files_state"
proof (rule lf_run_reachable [OF lf_init_reachable])
  have "\<not> Option.is_none (lf_run (read_range demo_pread) files_commands (lf_system_init 2 files_config (\<lambda>_. 0)))"
    by code_simp
  then show "lf_run (read_range demo_pread) files_commands (lf_system_init 2 files_config (\<lambda>_. 0)) = Some files_state"
    by (simp add: files_state_def Option.is_none_def)
qed (simp add: posix_readers_def)

lemma files_state_facts:
  "lf_shutting_down (ls_backend files_state)" "\<not> lf_joined (ls_backend files_state)"
  "map (\<lambda>(r, result). (req_source r, result_status result, result_bytes result)) (ls_log files_state)
     = [(1, Ok, 4), (1, Ok, 2), (9, Invalid_Argument, 0)]"
  by code_simp+

lemma joined_state_reachable: "lf_reachable (posix_readers demo_pread) files_config joined_state"
proof (rule lf_run_reachable [OF files_state_reachable])
  have "\<not> Option.is_none (lf_run (read_range demo_pread) [Do_Cancel, Do_Count 0, Do_Take, Do_Take] files_state)"
    by code_simp
  then show "lf_run (read_range demo_pread) [Do_Cancel, Do_Count 0, Do_Take, Do_Take] files_state = Some joined_state"
    by (simp add: joined_state_def Option.is_none_def)
qed (simp add: posix_readers_def)

section \<open>Reading\<close>

text \<open>
  C8: exact reads. A performed request that is readable puts the file's bytes, from its offset on, into the
  first bytes of its destination and writes nowhere else, through interrupted and partial calls and through
  the aligned tail of a direct read. An i/o error is reported only when the last call of \<open>pread\<close> failed, at or
  behind the end of the bytes counted. Reported as \<open>Ok\<close>, the count is all that was asked for or all that the file
  has left: always for buffered access; for direct access unless the last call brought fewer bytes than it was
  asked for and ended exactly where the count ends (then the count is less than asked for). An unreadable request
  writes nothing. (\<open>k' - 1\<close> is the number of the last call.)
\<close>

theorem perform_reads_exactly:
  assumes "pread_spec pread file fsize" and "lf_perform (read_range pread) k item m = Some (result, k', m')"
  shows "if item_readable item
    then (\<forall>i < unat (result_bytes result).
            m' (span_data (item_span item) + of_nat i) = file (wi_handle item) (item_offset item + of_nat i)) \<and>
         (\<forall>a. (\<forall>i < unat (result_bytes result). a \<noteq> span_data (item_span item) + of_nat i) \<longrightarrow> m' a = m a) \<and>
         unat (result_bytes result) \<le> unat (item_len item) \<and>
         (result_status result = Io_Error \<and>
            (\<exists>p asked. unat (item_offset item) + unat (result_bytes result) \<le> p \<and>
               pread_fails_at pread (k' - 1) (wi_handle item) p asked) \<or>
          result_status result = Ok \<and>
            (unat (result_bytes result)
               = min (unat (item_len item)) (fsize (wi_handle item) - unat (item_offset item)) \<or>
             wi_access item = Uncached \<and> unat (result_bytes result) < unat (item_len item) \<and>
             (\<exists>asked \<le> max (unat (item_len item)) 4096. pread_cut_at pread (k' - 1) (wi_handle item)
                (unat (item_offset item) + unat (result_bytes result)) asked)))
    else result = \<lparr>result_status = Invalid_Argument, result_bytes = 0\<rparr> \<and> m' = m"
proof (cases "item_readable item")
  case True
  have "posix_stops pread access h j Io_Error p n = pread_fails_at pread j h p n"
    "posix_stops pread access h j Ok p n \<longleftrightarrow> access = Uncached \<and> pread_cut_at pread j h p n" for access h j p n
    by (simp_all add: posix_stops_def)
  with True perform_exact [OF posix_reader_ok [OF assms(1)] assms(2)] show ?thesis
    unfolding if_P [OF True] by blast
next
  case False
  with assms(2) show ?thesis by (simp add: lf_perform_unreadable)
qed

text \<open>Eight bytes asked for at offset 1 of the direct file of six bytes, at unaligned and aligned offsets.\<close>

definition direct_item :: "u64 \<Rightarrow> work_item" where
  "direct_item off =
     \<lparr>wi_request = file_request 2 off 8192 8, wi_handle = 4, wi_source_size = 6, wi_access = Uncached,
      wi_known = True\<rparr>"

theorem perform_reads_exactly_witness:
  "\<exists>m'. lf_perform (read_range demo_pread) 0 (direct_item 0) (\<lambda>_. 0) = Some (\<lparr>result_status = Ok, result_bytes = 6\<rparr>, 2, m') \<and>
     m' (8192 + of_nat 5) = demo_file 4 (0 + of_nat 5) \<and> m' 8198 = 0"
proof -
  have readable: "item_readable (direct_item 0)"
    by code_simp
  have fields: "wi_handle (direct_item 0) = 4" "span_data (item_span (direct_item 0)) = 8192"
    "item_offset (direct_item 0) = 0"
    by code_simp+
  have "map_option (\<lambda>(result, k, m'). (result, k)) (lf_perform (read_range demo_pread) 0 (direct_item 0) (\<lambda>_. 0))
      = Some (\<lparr>result_status = Ok, result_bytes = 6\<rparr>, 2)"
    by code_simp
  then obtain m' where
      ret: "lf_perform (read_range demo_pread) 0 (direct_item 0) (\<lambda>_. 0) = Some (\<lparr>result_status = Ok, result_bytes = 6\<rparr>, 2, m')"
    by auto
  note exact = perform_reads_exactly [OF demo_pread_spec ret, unfolded fields]
  then have content: "\<forall>i < 6. m' (8192 + of_nat i) = demo_file 4 (0 + of_nat i)"
    and frame: "\<forall>a. (\<forall>i < 6. a \<noteq> 8192 + of_nat i) \<longrightarrow> m' a = 0"
    using readable by simp_all
  have "(8198 :: u64) \<noteq> 8192 + of_nat i" if "i < 6" for i
    using of_nat_eq_64 [of i 6] that by auto
  with frame have "m' 8198 = 0" by blast
  with content [rule_format, of 5] ret show ?thesis
    by simp
qed

text \<open>
  The second way is real: Linux moves at most 2147479552 bytes in one call. A direct fill of four gibibytes of a
  file that has them all, which every call serves up to that limit, is given up after the first call and
  delivered as \<open>Ok\<close> with a short count, which the pool and the transfer set take for the end of the file.
\<close>

definition limited_pread :: "(handle \<Rightarrow> u64 \<Rightarrow> byte) \<Rightarrow> nat \<Rightarrow> pread_fn" where
  "limited_pread file fsize k h off n =
     Got (map (\<lambda>i. file h (off + of_nat i)) [0..<min (min (unat n) 2147479552) (fsize - unat off)])"

lemma limited_pread_spec:
  assumes "fsize < 18446744073709551616"
  shows "pread_spec (limited_pread file fsize) file (\<lambda>_. fsize)"
proof -
  have "unat n = 0 \<longleftrightarrow> n = 0" for n :: u64
    by (rule unat_eq_0)
  with assms show ?thesis
    unfolding pread_spec_def chunk_ok_def limited_pread_def by (auto simp: min_def split: if_splits)
qed

definition huge_item :: work_item where
  "huge_item =
     \<lparr>wi_request = file_request 2 0 8192 4294967296, wi_handle = 4, wi_source_size = 4294967296, wi_access = Uncached,
      wi_known = True\<rparr>"

theorem huge_direct_read_cut:
  "\<exists>k' m'. lf_perform (read_range (limited_pread file 4294967296)) k huge_item m
     = Some (\<lparr>result_status = Ok, result_bytes = 2147479552\<rparr>, k', m') \<and>
   classify_fill \<lparr>result_status = Ok, result_bytes = 2147479552\<rparr> (item_len huge_item) = Short_Read"
proof -
  have fields: "item_readable huge_item" "item_in_place huge_item = 4294967296" "item_len huge_item = 4294967296"
    "item_offset huge_item = 0" "wi_access huge_item = Uncached"
    by code_simp+
  have "pread_attempt (limited_pread file 4294967296) True h 0 k 0 4294967296
      = Chunk (map (\<lambda>i. file h (of_nat i)) [0..<2147479552]) True" for h k
    by (simp add: pread_attempt_def limited_pread_def)
  then show ?thesis
    unfolding lf_perform_readable [OF fields(1)]
    by (simp add: read_range_def fill_loop.simps fields classify_fill_def Let_def)
qed

text \<open>
  C32: every performed request is delivered: the loops of a \<open>perform\<close> end when no call of \<open>pread\<close> is
  interrupted for ever, whatever the file, the request and the partial counts are.
\<close>

theorem perform_ends:
  assumes "pread_spec pread file fsize" "pread_fair pread"
  shows "\<exists>result k' m'. lf_perform (read_range pread) k item m = Some (result, k', m')"
  using posix_reader_returns [OF assms] by (rule perform_returns)

theorem perform_ends_witness:
  "\<exists>result k' m'. lf_perform (read_range demo_pread) 3 (direct_item 0) (\<lambda>_. 7) = Some (result, k', m')"
  by (rule perform_ends [OF demo_pread_spec demo_pread_fair])

section \<open>The queue\<close>

text \<open>
  C31: the ring is a bounded first-in first-out queue: a submission is refused exactly when the queue is full
  or \<open>shutdown\<close> has begun, and then only counted; an accepted one is appended; a worker takes the oldest; and
  \<open>shutdown\<close> takes all of them, oldest first, to cancel.
\<close>

theorem ring_is_fifo:
  assumes "ring_ok b"
  shows "(fst (lf_submit r b) \<longleftrightarrow> \<not> lf_shutting_down b \<and> length (ring_items b) < length (lf_ring b)) \<and>
    ring_items (snd (lf_submit r b))
      = (if fst (lf_submit r b) then ring_items b @ [make_item (lf_sources b) r] else ring_items b) \<and>
    (\<forall>item b'. lf_take b = Some (Some item, b') \<longrightarrow> ring_items b = item # ring_items b') \<and>
    (\<not> lf_shutting_down b \<longrightarrow>
      lf_cancelling (lf_shutdown_begin b) = ring_items b \<and> ring_items (lf_shutdown_begin b) = [])"
proof (intro conjI allI impI)
  obtain accepted b2 where submit: "lf_submit r b = (accepted, b2)"
    by (cases "lf_submit r b")
  show "fst (lf_submit r b) \<longleftrightarrow> \<not> lf_shutting_down b \<and> length (ring_items b) < length (lf_ring b)"
    using assms by (auto simp: lf_submit_def ring_ok_def Let_def)
  show "ring_items (snd (lf_submit r b))
      = (if fst (lf_submit r b) then ring_items b @ [make_item (lf_sources b) r] else ring_items b)"
    using lf_submit_accepted(1) [of r b b2] lf_submit_refused(1) [of r b b2] assms submit
    by (cases accepted) simp_all
  show "ring_items b = item # ring_items b'" if "lf_take b = Some (Some item, b')" for item b'
    using that assms by (auto elim: lf_takeE)
  show "lf_cancelling (lf_shutdown_begin b) = ring_items b" "ring_items (lf_shutdown_begin b) = []"
    if "\<not> lf_shutting_down b"
    using that lf_shutdown_beginE [OF assms] by (metis ring_items_none)+
qed

definition ring_demo :: local_backend where
  "ring_demo = snd (lf_submit (file_request 1 0 4096 4) (snd (lf_submit (file_request 1 4 4200 4)
     (snd (the (lf_take (snd (lf_submit (file_request 9 0 4300 4) (lf_construct 2 files_config)))))))))"

lemma ring_demo_ok: "ring_ok ring_demo"
  by code_simp

theorem ring_is_fifo_witness:
  "\<not> fst (lf_submit (file_request 9 0 4300 4) ring_demo) \<and>
   map (\<lambda>item. req_source_offset (wi_request item)) (lf_cancelling (lf_shutdown_begin ring_demo)) = [4, 0]"
proof -
  have facts: "\<not> lf_shutting_down ring_demo" "length (ring_items ring_demo) = length (lf_ring ring_demo)"
    "map (\<lambda>item. req_source_offset (wi_request item)) (ring_items ring_demo) = [4, 0]"
    by code_simp+
  show ?thesis
    using ring_is_fifo [OF ring_demo_ok, of "file_request 9 0 4300 4"] facts by simp
qed

section \<open>Deliveries\<close>

text \<open>
  C22: exactly one delivery. Under every interleaving of submissions, workers and \<open>shutdown\<close>, an accepted
  request is either still outstanding or was delivered, once; nothing else is ever delivered.
\<close>

theorem accepted_delivered_once:
  assumes "lf_reachable (posix_readers pread) config s"
  shows "ls_accepted s = lf_outstanding (ls_backend s) + mset (map fst (ls_log s))"
  using lf_reachable_inv [OF assms readers_honest_platforms(1)] by (simp add: lf_inv_def)

theorem accepted_delivered_once_witness:
  "size (ls_accepted files_state) = size (lf_outstanding (ls_backend files_state)) + 3 \<and>
   size (lf_outstanding (ls_backend files_state)) = 1"
proof -
  have "size (ls_accepted files_state) = 4" "length (ls_log files_state) = 3"
    by code_simp+
  then show ?thesis
    using arg_cong [OF accepted_delivered_once [OF files_state_reachable], of size] by simp
qed

text \<open>
  C23: shutdown ends and leaves nothing behind. From any moment after \<open>shutdown\<close> has begun, every step of a
  worker or of the canceller uses up a bounded amount of work, so they reach the join; every accepted request
  has been delivered then, and no later operation delivers anything or writes into any destination.
\<close>

theorem shutdown_joins:
  assumes "lf_reachable (posix_readers pread) config s" "lf_shutting_down (ls_backend s)"
    and "pread_spec pread file fsize" "pread_fair pread"
  shows "(\<forall>t. lf_worker_step (posix_readers pread) s t \<longrightarrow> lf_work (ls_backend t) < lf_work (ls_backend s)) \<and>
    (\<exists>t. (lf_worker_step (posix_readers pread))\<^sup>*\<^sup>* s t \<and> lf_joined (ls_backend t)) \<and>
    (lf_joined (ls_backend s) \<longrightarrow> ls_accepted s = mset (map fst (ls_log s)) \<and>
      (\<forall>t. lf_step (posix_readers pread) s t \<longrightarrow> lf_joined (ls_backend t) \<and> ls_memory t = ls_memory s \<and>
         ls_log t = ls_log s \<and> ls_accepted t = ls_accepted s))"
proof -
  note inv = lf_reachable_inv [OF assms(1) readers_honest_platforms(1)]
  then have ok: "ring_ok (ls_backend s)" and split: "ls_accepted s = lf_outstanding (ls_backend s) + mset (map fst (ls_log s))"
    by (simp_all add: lf_inv_def)
  have "lf_joined (ls_backend s) \<longrightarrow> ls_accepted s = mset (map fst (ls_log s))"
    using split lf_joined_nothing_left [OF inv] by simp
  moreover have "read_range pread \<in> posix_readers pread"
    by (simp add: posix_readers_def)
  ultimately show ?thesis
    using lf_worker_step_decreases [OF _ ok] lf_shutdown_joins [OF inv _ posix_reader_returns [OF assms(3,4)] readers_honest_platforms(1) assms(2)] lf_joined_final [OF inv]
    by blast
qed

theorem shutdown_joins_witness:
  "(\<exists>t. (lf_worker_step (posix_readers demo_pread))\<^sup>*\<^sup>* files_state t \<and> lf_joined (ls_backend t)) \<and>
   ls_accepted joined_state = mset (map fst (ls_log joined_state)) \<and> length (ls_log joined_state) = 4 \<and>
   ls_memory (joined_state\<lparr>ls_backend := lf_shutdown_begin (ls_backend joined_state)\<rparr>) = ls_memory joined_state"
proof -
  have joined: "lf_shutting_down (ls_backend joined_state)" "lf_joined (ls_backend joined_state)"
    "length (ls_log joined_state) = 4"
    by code_simp+
  note facts = shutdown_joins [OF joined_state_reachable joined(1) demo_pread_spec demo_pread_fair]
  then have "ls_accepted joined_state = mset (map fst (ls_log joined_state))"
    "ls_memory (joined_state\<lparr>ls_backend := lf_shutdown_begin (ls_backend joined_state)\<rparr>) = ls_memory joined_state"
    using joined(2) lf_step.shuts by blast+
  with joined(3) shutdown_joins [OF files_state_reachable files_state_facts(1) demo_pread_spec demo_pread_fair]
  show ?thesis by blast
qed

text \<open>
  Exact counters. In every reachable state: \<open>accepted\<close> is the number of accepted requests, \<open>in_flight\<close> the
  requests that a worker has taken and not yet counted, the three outcome counters together with the
  deliveries not yet counted are the deliveries of each outcome, \<open>cancelled\<close> the cancelled ones, \<open>bytes_read\<close>
  lags the delivered bytes by those not yet counted, and \<open>queue_high_water\<close> is between the queue's length and
  its capacity.
\<close>

theorem local_counters_exact:
  assumes "lf_reachable (posix_readers pread) config s"
  shows "let b = ls_backend s; c = lf_stats b; log = log_results (ls_log s) in
    lst_accepted c = size (ls_accepted s) \<and>
    lst_in_flight c = length (lf_performing b) + length (lf_uncounted b) \<and>
    lst_completed_ok c + count_where result_full (lf_uncounted b) = count_where result_full log \<and>
    lst_short_reads c + count_where result_short (lf_uncounted b) = count_where result_short log \<and>
    lst_errors c + count_where result_error (lf_uncounted b) = count_where result_error log \<and>
    lst_cancelled c = count_where result_cancelled log \<and>
    lst_bytes_read c + sum_list (map (\<lambda>(wanted, result). unat (result_bytes result)) (lf_uncounted b))
      = delivered_bytes (ls_log s) \<and>
    lf_ring_size b \<le> lst_queue_high_water c \<and> lst_queue_high_water c \<le> lc_queue_capacity config"
  using lf_reachable_inv [OF assms readers_honest_platforms(1)]
  by (simp add: lf_inv_def lf_counters_ok_def lf_workers_ok_def lf_stats_def Let_def)

theorem local_counters_exact_witness:
  "lst_completed_ok (lf_stats (ls_backend files_state)) = 1 \<and> lst_errors (lf_stats (ls_backend files_state)) = 0 \<and>
   lst_in_flight (lf_stats (ls_backend files_state)) = 1 \<and> lst_bytes_read (lf_stats (ls_backend files_state)) = 6"
proof -
  have facts: "lf_performing (ls_backend files_state) = []"
    "map (\<lambda>(wanted, result). result_status result) (lf_uncounted (ls_backend files_state)) = [Invalid_Argument]"
    "count_where result_full (lf_uncounted (ls_backend files_state)) = 0"
    "count_where result_full (log_results (ls_log files_state)) = 1"
    "count_where result_error (lf_uncounted (ls_backend files_state)) = 1"
    "count_where result_error (log_results (ls_log files_state)) = 1"
    "sum_list (map (\<lambda>(wanted, result). unat (result_bytes result)) (lf_uncounted (ls_backend files_state))) = 0"
    "delivered_bytes (ls_log files_state) = 6"
    by code_simp+
  have "length (lf_uncounted (ls_backend files_state)) = 1"
    using arg_cong [OF facts(2), of length] by simp
  with local_counters_exact [OF files_state_reachable] facts show ?thesis
    by (simp add: Let_def)
qed

section \<open>Handles\<close>

lemma concat_closed_handles:
  "invalid_handle \<notin> se_handle ` set entries \<Longrightarrow>
     concat (map (\<lambda>e. close_handle (se_handle e)) entries) = map se_handle entries"
  by (induction entries) (auto simp: close_handle_def)

text \<open>
  No handle leaks. \<open>register_file\<close> succeeds exactly for a source that opened, was sized and is new while the
  table has room, and then keeps its handle; otherwise it changes nothing and closes what it opened. Whatever is
  registered, the handles opened are the ones closed and the ones in the table, which the destructor closes, each once.
\<close>

theorem handles_closed_once:
  assumes "lf_reachable (posix_readers pread) config s"
    and "lf_register_file opened nocache sized source access (ls_backend s) = (st, closed, b')"
  shows "(st = Ok \<longleftrightarrow> opened \<noteq> invalid_handle \<and> (access = Uncached \<longrightarrow> nocache) \<and> sized \<noteq> None \<and>
      source \<notin> se_source ` set (lf_sources (ls_backend s)) \<and>
      length (lf_sources (ls_backend s)) \<noteq> lf_source_capacity (ls_backend s)) \<and>
    (if st = Ok then closed = [] \<and> map se_handle (lf_sources b') = map se_handle (lf_sources (ls_backend s)) @ [opened]
     else b' = ls_backend s \<and> closed = close_handle opened) \<and>
    distinct (map se_source (lf_sources b')) \<and>
    ls_opened s = ls_closed s + mset (lf_destroy (ls_backend s))"
proof (intro conjI)
  note inv = lf_reachable_inv [OF assms(1) readers_honest_platforms(1)]
  show "st = Ok \<longleftrightarrow> opened \<noteq> invalid_handle \<and> (access = Uncached \<longrightarrow> nocache) \<and> sized \<noteq> None \<and>
      source \<notin> se_source ` set (lf_sources (ls_backend s)) \<and>
      length (lf_sources (ls_backend s)) \<noteq> lf_source_capacity (ls_backend s)"
    using assms(2) by (auto simp: lf_register_file_def lf_add_source_def list_ex_iff Let_def split: if_splits option.splits)
  show "if st = Ok
      then closed = [] \<and> map se_handle (lf_sources b') = map se_handle (lf_sources (ls_backend s)) @ [opened]
      else b' = ls_backend s \<and> closed = close_handle opened"
    using disjI1 [OF assms(2)] by (rule lf_registerE) simp_all
  show "distinct (map se_source (lf_sources b'))"
    using lf_inv_register [OF inv disjI1 [OF assms(2)]] by (simp add: lf_inv_def lf_sources_ok_def Let_def)
  have "lf_destroy (ls_backend s) = map se_handle (lf_sources (ls_backend s))"
    using inv by (auto simp: lf_inv_def lf_sources_ok_def lf_destroy_def Let_def intro!: concat_closed_handles)
  with inv show "ls_opened s = ls_closed s + mset (lf_destroy (ls_backend s))"
    by (simp add: lf_inv_def lf_sources_ok_def Let_def)
qed

theorem handles_closed_once_witness:
  "lf_register_file 5 True (Some 6) 2 Uncached (ls_backend files_state)
     = (Ok, [], snd (snd (lf_register_file 5 True (Some 6) 2 Uncached (ls_backend files_state)))) \<and>
   ls_opened files_state = ls_closed files_state + {#3#}"
proof -
  let ?reg = "lf_register_file 5 True (Some 6) 2 Uncached (ls_backend files_state)"
  have reg: "?reg = (fst ?reg, fst (snd ?reg), snd (snd ?reg))"
    by simp
  have facts: "fst ?reg = Ok" "lf_destroy (ls_backend files_state) = [3]"
    by code_simp+
  show ?thesis
    using handles_closed_once [OF files_state_reachable reg] facts reg by (simp split: if_splits)
qed

section \<open>The contract, and the pool over files\<close>

text \<open>
  C7: the worker-pool backend refines the backend contract: over a file system whose \<open>pread\<close> behaves as
  documented, and under every schedule of its workers, each accepted request is delivered once, a delivery is
  terminal and writes inside the request's destination only, and full success means the source's bytes.
\<close>

theorem local_backend_refines_contract:
  assumes "pread_spec pread file fsize"
  shows "terminal_backend scheduled_submit scheduled_outstanding (scheduled_valid file content)
    (scheduled_completes (posix_readers pread)) content"
  by (rule scheduled_contract [OF readers_okI]) (rule posix_readers_ok [OF assms])

theorem local_backend_refines_contract_witness:
  "terminal_backend scheduled_submit scheduled_outstanding (scheduled_valid demo_file demo_content)
    (scheduled_completes (posix_readers demo_pread)) demo_content"
  by (rule local_backend_refines_contract [OF demo_pread_spec])

end
