(* ===== verification/Pool_Over_Files.thy ===== *)
theory Pool_Over_Files
  imports Slot_Pool_Demo Local_File_Props
begin

text \<open>
  The slot pool over the worker-pool backend, the composition that the program is built for: what a client
  reads through a lease are the bytes of the registered file.
\<close>

section \<open>A pool over one small file\<close>

definition file_pool_config :: slot_pool_config where
  "file_pool_config =
     \<lparr>sc_source = 1, sc_source_bytes = 7, sc_slot_bytes = 4, sc_num_slots = 2,
      sc_slot_storage = \<lparr>span_data = 4096, span_size = 8\<rparr>, sc_max_tickets = 1, sc_max_batch_chunks = 1\<rparr>"

text \<open>The backend with its file registered; a worker takes the request after the first call.\<close>

definition file_pool_backend :: scheduled_backend where
  "file_pool_backend =
     \<lparr>sb_backend = (lf_construct 2 files_config)\<lparr>lf_sources :=
         [\<lparr>se_source = 1, se_handle = 3, se_size = 7, se_access = Buffered\<rparr>]\<rparr>,
      sb_schedule = [[], [Worker_Takes]]\<rparr>"

abbreviation file_ps_reachable where
  "file_ps_reachable \<equiv> ps_reachable scheduled_submit scheduled_outstanding
     (scheduled_valid demo_file demo_content) (scheduled_completes (posix_readers demo_pread))"

text \<open>The newest request that a worker performs, delivered.\<close>

definition file_deliver ::
    "nat \<Rightarrow> scheduled_backend \<Rightarrow> memory \<Rightarrow> (fill_request \<times> fill_result \<times> scheduled_backend \<times> memory) option" where
  "file_deliver k b m =
     (case lf_performing (scheduled b) of
        [] \<Rightarrow> None
      | item # _ \<Rightarrow>
          map_option (\<lambda>(result, k', m').
              (wi_request item, result,
               \<lparr>sb_backend = lf_delivered item result (scheduled b), sb_schedule = tl (sb_schedule b)\<rparr>, m'))
            (lf_perform (read_range demo_pread) k item m))"

text \<open>One range resolved, its chunk delivered, its lease returned.\<close>

definition file_pool_run ::
    "byte_range list \<Rightarrow> slot_pool \<Rightarrow> scheduled_backend \<Rightarrow> memory
       \<Rightarrow> (slot_pool \<times> scheduled_backend \<times> memory \<times> lease list) option" where
  "file_pool_run ranges sp b m =
     (case sp_resolve_begin scheduled_submit 9 ranges (fresh_leases sp) sp b of
        Some (Inr n, out, sp, b) \<Rightarrow>
          (case file_deliver 1 b m of
             None \<Rightarrow> None
           | Some (r, result, b, m) \<Rightarrow>
               (case sp_resolve_end n out (sp_on_complete (req_token r) result sp) of
                  Some (Inr n, out, sp) \<Rightarrow> Some (sp, b, m, take n out)
                | _ \<Rightarrow> None))
      | _ \<Rightarrow> None)"

lemma file_deliver_completes:
  assumes "file_deliver k b m = Some (r, result, b', m')"
  shows "scheduled_completes (posix_readers demo_pread) b r result m b' m'"
proof -
  obtain item items k' where "lf_performing (scheduled b) = item # items"
      "lf_perform (read_range demo_pread) k item m = Some (result, k', m')"
      "r = wi_request item" "b' = \<lparr>sb_backend = lf_delivered item result (scheduled b), sb_schedule = tl (sb_schedule b)\<rparr>"
    using assms by (auto simp: file_deliver_def split: list.splits)
  then show ?thesis
    unfolding scheduled_completes_def lf_completes_def
    by (intro conjI disjI1 exI [of _ "read_range demo_pread"] exI [of _ item] exI [of _ k] exI [of _ k']) (simp_all add: posix_readers_def)
qed

lemma file_pool_start:
  "file_ps_reachable 9 (ps_init (sp_construct file_pool_config) file_pool_backend m)"
proof (rule ps_reachable.start [where config = file_pool_config])
  show "sp_create file_pool_config = Inr (sp_construct file_pool_config)"
    by (simp add: sp_create_def file_pool_config_def NONE_def UINT32_MAX_def UINT64_MAX_def)
qed (simp_all add: file_pool_backend_def scheduled_valid_def scheduled_outstanding_def lf_valid_def
    lf_outstanding_def ring_ok_def ring_items_none lf_construct_def files_config_def demo_content_def)

lemma file_pool_run_reachable:
  assumes "file_pool_run ranges (sp_construct file_pool_config) file_pool_backend m = Some (sp, b, m', leases)"
  shows "file_ps_reachable 9
    \<lparr>ps_pool = sp, ps_backend = b, ps_memory = m', ps_leases = leases, ps_waiting = [], ps_tickets = []\<rparr>"
proof -
  let ?sp = "sp_construct file_pool_config"
  obtain n out sp1 b1 r result n' out' where
      begin_: "sp_resolve_begin scheduled_submit 9 ranges (fresh_leases ?sp) ?sp file_pool_backend = Some (Inr n, out, sp1, b1)"
    and deliver: "file_deliver 1 b1 m = Some (r, result, b, m')"
    and end_: "sp_resolve_end n out (sp_on_complete (req_token r) result sp1) = Some (Inr n', out', sp)"
    and leases: "leases = take n' out'"
    using assms
    by (auto simp: file_pool_run_def split: option.splits prod.splits sum.splits)
  let ?s0 = "ps_init ?sp file_pool_backend m"
  let ?s1 = "?s0\<lparr>ps_pool := sp1, ps_backend := b1, ps_waiting := (n, out) # ps_waiting ?s0\<rparr>"
  let ?s2 = "?s1\<lparr>ps_pool := sp_on_complete (req_token r) result sp1, ps_backend := b, ps_memory := m'\<rparr>"
  have "file_ps_reachable 9 ?s1"
    using file_pool_start
    by (rule ps_reachable.step)
      (rule ps_step.resolving [where ranges = ranges, OF fresh_leases_empty [of ?sp]], simp add: ps_init_def begin_)
  then have "file_ps_reachable 9 ?s2"
    by (rule ps_reachable.step)
      (use ps_step.delivered [where s = ?s1 and completes = "scheduled_completes (posix_readers demo_pread)", of r result b m']
        file_deliver_completes [OF deliver] in \<open>simp add: ps_init_def\<close>)
  then have "file_ps_reachable 9 (?s2\<lparr>ps_pool := sp, ps_waiting := remove1 (n, out) (ps_waiting ?s2),
      ps_leases := ps_leases ?s2 @ take n' out'\<rparr>)"
    by (rule ps_reachable.step) (rule ps_step.resolved, simp_all add: ps_init_def end_)
  then show ?thesis
    by (simp add: ps_init_def leases)
qed

lemmas file_pool_eval =
  scheduled_submit_def lf_submit_def make_item_def find_source.simps scheduled_def lf_take_def lf_pop_def
  lf_construct_def lf_delivered_def lf_perform_def uncached_request_valid_def read_range_def fill_loop.simps pread_attempt_def
  demo_pread_def demo_fsize_def upd_lf_counters_def default_local_stats_def files_config_def file_pool_backend_def
  file_pool_config_def lf_act.simps file_deliver_def default_item_def default_request_def

lemma file_pool_result:
  "\<exists>sp b m'. file_pool_run [\<lparr>range_offset = 5, range_length = 2\<rparr>] (sp_construct file_pool_config)
       file_pool_backend (\<lambda>_. 205)
     = Some (sp, b, m', [\<lparr>lease_pool = Some 9, lease_slot = 0, lease_generation = 1,
         lease_bytes = \<lparr>span_data = 4097, span_size = 2\<rparr>, lease_source_offset = 5\<rparr>]) \<and>
     sc_source (sp_config sp) = 1 \<and>
     lf_sources (sb_backend b) = [\<lparr>se_source = 1, se_handle = 3, se_size = 7, se_access = Buffered\<rparr>]"
  by (simp add: file_pool_run_def pool_eval file_pool_eval cong: let_weak_cong)

section \<open>Leases show the file\<close>

text \<open>
  C3: end to end. A pool over the worker-pool backend, whatever its clients, the workers and the schedule do:
  every byte that a held lease shows is the byte of the file registered for the pool's source, at the lease's
  offset.
\<close>

theorem lease_shows_file:
  assumes "pread_spec pread file fsize"
    and "ps_reachable scheduled_submit scheduled_outstanding (scheduled_valid file content)
      (scheduled_completes (posix_readers pread)) self s"
    and "e \<in> set (lf_sources (sb_backend (ps_backend s)))" "se_source e = sc_source (sp_config (ps_pool s))"
    and "l \<in> set (ps_leases s)" "k < lease_size l"
  shows "ps_memory s (span_data (lease_bytes l) + of_nat k) = file (se_handle e) (lease_source_offset l + of_nat k)"
proof -
  have completing: "completing_backend scheduled_submit scheduled_outstanding (scheduled_valid file content)
      (scheduled_completes (posix_readers pread)) content"
    by (rule terminal_backend.axioms(1) [OF scheduled_contract [OF readers_okI]]) (rule posix_readers_ok [OF assms(1)])
  note inv = completing_backend.ps_reachable_inv [OF completing assms(2), unfolded ps_inv_def]
  then have "scheduled_valid file content (ps_backend s)"
    by (auto dest: pool_invD(5))
  then have "file (se_handle e) = content (sc_source (sp_config (ps_pool s)))"
    using assms(3,4) by (auto simp: scheduled_valid_def lf_valid_def)
  then show ?thesis
    using lease_content [OF _ assms(5,6)] inv by auto
qed

theorem lease_shows_file_witness:
  "\<exists>s. file_ps_reachable 9 s \<and> ps_memory s (4097 + of_nat 1) = demo_file 3 (5 + of_nat 1)"
proof -
  let ?l = "\<lparr>lease_pool = Some 9, lease_slot = 0, lease_generation = 1,
         lease_bytes = \<lparr>span_data = 4097, span_size = 2\<rparr>, lease_source_offset = 5\<rparr>"
  let ?e = "\<lparr>se_source = 1, se_handle = 3, se_size = 7, se_access = Buffered\<rparr>"
  obtain sp b m' where run: "file_pool_run [\<lparr>range_offset = 5, range_length = 2\<rparr>] (sp_construct file_pool_config)
       file_pool_backend (\<lambda>_. 205) = Some (sp, b, m', [?l])"
    and facts: "sc_source (sp_config sp) = 1" "lf_sources (sb_backend b) = [?e]"
    using file_pool_result by blast
  note reach = file_pool_run_reachable [OF run]
  show ?thesis
    using lease_shows_file [OF demo_pread_spec reach, of ?e ?l 1] facts reach
    by (intro exI [of _ "\<lparr>ps_pool = sp, ps_backend = b, ps_memory = m', ps_leases = [?l], ps_waiting = [], ps_tickets = []\<rparr>"])
      (simp add: lease_size_def)
qed

end
