(* ===== verification/Local_File_Windows.thy ===== *)
theory Local_File_Windows
  imports Local_File_Props
begin

text \<open>
  The worker-pool backend on Windows: overlapped reads on an event of the worker. It keeps the promises of
  the backend on POSIX systems, and the two differ only in how far a failing or cut transfer got.
\<close>

section \<open>Overlapped reads of the two small files\<close>

text \<open>The end of the file is reported by \<open>ReadFile\<close> or by \<open>GetOverlappedResult\<close>, in turn.\<close>

definition demo_win :: overlapped_fn where
  "demo_win k h lo hi n =
     (let pos = overlapped_pos lo hi in
      if h \<noteq> 3 \<and> h \<noteq> 4 then (Issue_Failed, Result_Failed)
      else if demo_fsize h \<le> unat pos then (if even k then Issue_Eof else Issued, Result_Eof)
      else (Issued, Transferred (map (\<lambda>i. demo_file h (pos + of_nat i)) [0..<min (unat n) (demo_fsize h - unat pos)])))"

lemma demo_win_spec: "win_spec demo_win demo_file demo_fsize"
proof -
  have size: "demo_fsize h < 18446744073709551616" for h
    by (simp add: demo_fsize_def)
  have "unat n = 0 \<longleftrightarrow> n = 0" for n :: "32 word"
    by (rule unat_eq_0)
  with size show ?thesis
    unfolding win_spec_def chunk_ok_def demo_win_def Let_def
    by (auto simp: unat_ucast_32_64 min_def split: if_splits)
qed

section \<open>Reading\<close>

text \<open>
  Exact reads on Windows. Through overlapped reads of at most a gibibyte each, at positions split into
  halves, a performed request puts the file's bytes into the first bytes of its destination and writes
  nowhere else, and reports \<open>Ok\<close> only with all that was asked for or all that the file has left, unless a direct
  transfer of one chunk was cut short where the count ends. A worker without an event reports an i/o error.
\<close>

theorem windows_reads_exactly:
  assumes "win_spec win file fsize"
    and "lf_perform (read_range_win win event) k item m = Some (result, k', m')"
  shows "if item_readable item
    then (\<forall>i < unat (result_bytes result).
            m' (span_data (item_span item) + of_nat i) = file (wi_handle item) (item_offset item + of_nat i)) \<and>
         (\<forall>a. (\<forall>i < unat (result_bytes result). a \<noteq> span_data (item_span item) + of_nat i) \<longrightarrow> m' a = m a) \<and>
         unat (result_bytes result) \<le> unat (item_len item) \<and>
         (result_status result = Io_Error \<and>
            (event \<longrightarrow> (\<exists>p. unat (item_offset item) + unat (result_bytes result) \<le> p \<and> win_fails_at win (k' - 1) (wi_handle item) p)) \<or>
          result_status result = Ok \<and>
            (unat (result_bytes result)
               = min (unat (item_len item)) (fsize (wi_handle item) - unat (item_offset item)) \<or>
             wi_access item = Uncached \<and> unat (result_bytes result) < unat (item_len item) \<and>
             (\<exists>asked \<le> max (unat (item_len item)) 4096. win_cut_at win (k' - 1) (wi_handle item)
                (unat (item_offset item) + unat (result_bytes result)) asked)))
    else result = \<lparr>result_status = Invalid_Argument, result_bytes = 0\<rparr> \<and> m' = m"
proof (cases "item_readable item")
  case True
  have "win_stops win event access h j Io_Error p n \<longleftrightarrow> \<not> event \<or> win_fails_at win j h p"
    "win_stops win event access h j Ok p n \<longleftrightarrow> access = Uncached \<and> win_cut_at win j h p n" for access h j p n
    by (simp_all add: win_stops_def)
  with True perform_exact [OF win_reader_ok [OF assms(1)] assms(2)] show ?thesis
    unfolding if_P [OF True] by blast
next
  case False
  with assms(2) show ?thesis by (simp add: lf_perform_unreadable)
qed

theorem windows_reads_exactly_witness:
  "\<exists>m'. lf_perform (read_range_win demo_win True) 0 (direct_item 0) (\<lambda>_. 0) = Some (\<lparr>result_status = Ok, result_bytes = 6\<rparr>, 1, m') \<and>
     m' (8192 + of_nat 5) = demo_file 4 (0 + of_nat 5)"
proof -
  have readable: "item_readable (direct_item 0)"
    by code_simp
  have fields: "wi_handle (direct_item 0) = 4" "span_data (item_span (direct_item 0)) = 8192"
    "item_offset (direct_item 0) = 0"
    by code_simp+
  have "map_option (\<lambda>(result, k, m'). (result, k)) (lf_perform (read_range_win demo_win True) 0 (direct_item 0) (\<lambda>_. 0))
      = Some (\<lparr>result_status = Ok, result_bytes = 6\<rparr>, 1)"
    by code_simp
  then obtain m' where
      ret: "lf_perform (read_range_win demo_win True) 0 (direct_item 0) (\<lambda>_. 0) = Some (\<lparr>result_status = Ok, result_bytes = 6\<rparr>, 1, m')"
    by auto
  have "\<forall>i < 6. m' (8192 + of_nat i) = demo_file 4 (0 + of_nat i)"
    using windows_reads_exactly [OF demo_win_spec ret] readable
    by (simp add: fields)
  from this [rule_format, of 5] ret show ?thesis
    by simp
qed



section \<open>The contract\<close>

text \<open>
  On Windows too the worker-pool backend refines the backend contract, under every schedule of its workers,
  whichever of them have an event.
\<close>

theorem windows_backend_refines_contract:
  assumes "win_spec win file fsize"
  shows "terminal_backend scheduled_submit scheduled_outstanding (scheduled_valid file content)
    (scheduled_completes (win_readers win)) content"
  by (rule scheduled_contract [OF readers_okI]) (rule win_readers_ok [OF assms])

theorem windows_backend_refines_contract_witness:
  "terminal_backend scheduled_submit scheduled_outstanding (scheduled_valid demo_file demo_content)
    (scheduled_completes (win_readers demo_win)) demo_content"
  by (rule windows_backend_refines_contract [OF demo_win_spec])

end
