(* ===== verification/Capability_Probe.thy ===== *)
theory Capability_Probe
  imports Mem_Prelude
begin

text \<open>
  The capability probe, \<open>src/tools/intel\<close>: its command line (\<open>ProbeOptions.hpp\<close>) and the selection of the one
  device that the command line names (\<open>usm_capabilities.cpp\<close>). What the SYCL runtime reports of its platforms
  and devices is data here.
\<close>

section \<open>Numbers\<close>

text \<open>
  \<open>std::from_chars\<close> for an unsigned 16-bit number in base 16: it reads the longest run of digits, without sign
  or prefix, and returns an error code, the value, and the text it has not read.
\<close>

datatype errc = No_Errc | Errc_Invalid_Argument | Errc_Result_Out_Of_Range

definition hex_digit :: "char \<Rightarrow> nat option" where
  "hex_digit c =
     (let n = of_char c :: nat in
      if 48 \<le> n \<and> n \<le> 57 then Some (n - 48)
      else if 97 \<le> n \<and> n \<le> 102 then Some (n - 87)
      else if 65 \<le> n \<and> n \<le> 70 then Some (n - 55)
      else None)"

fun take_hex :: "string \<Rightarrow> nat list \<times> string" where
  "take_hex [] = ([], [])"
| "take_hex (c # cs) =
     (case hex_digit c of
        None \<Rightarrow> ([], c # cs)
      | Some d \<Rightarrow> (case take_hex cs of (ds, rest) \<Rightarrow> (d # ds, rest)))"

definition hex_value :: "nat list \<Rightarrow> nat" where
  "hex_value ds = foldl (\<lambda>v d. 16 * v + d) 0 ds"

definition from_chars_hex16 :: "string \<Rightarrow> errc \<times> 16 word \<times> string" where
  "from_chars_hex16 text =
     (case take_hex text of
        (ds, rest) \<Rightarrow>
          if ds = [] then (Errc_Invalid_Argument, 0, text)
          else if hex_value ds < 65536 then (No_Errc, of_nat (hex_value ds), rest)
          else (Errc_Result_Out_Of_Range, 0, rest))"

section \<open>The command line\<close>

datatype probe_mode = Help | Inventory

record probe_options =
  po_mode :: probe_mode
  po_device_id :: "16 word"

definition probe_parse :: "string list \<Rightarrow> probe_options option" where
  "probe_parse arguments =
     (if length arguments = 1 \<and> arguments ! 0 = ''--help''
      then Some \<lparr>po_mode = Help, po_device_id = 0\<rparr>
      else if length arguments \<noteq> 2 \<or> arguments ! 0 \<noteq> ''--device-id'' then None
      else let id = arguments ! 1 in
           if take 2 id \<noteq> ''0x'' \<or> length id < 3 \<or> length id > 6 then None
           else case from_chars_hex16 (drop 2 id) of
             (ec, value, rest) \<Rightarrow>
               if ec \<noteq> No_Errc \<or> rest \<noteq> [] then None
               else Some \<lparr>po_mode = Inventory, po_device_id = value\<rparr>)"

section \<open>The device\<close>

datatype gpu_aspect =
  Usm_Host | Usm_Shared | Usm_Device | Usm_System | Usm_Atomic_Host | Usm_Atomic_Shared

record gpu_device =
  gd_name :: string
  gd_platform_name :: string
  gd_vendor_id :: "32 word"
  gd_has_device_id :: bool
  gd_device_id :: "32 word"
  gd_driver :: string
  gd_version :: string
  gd_aspects :: "gpu_aspect list"

record gpu_platform =
  gp_level_zero :: bool
  gp_devices :: "gpu_device list"

datatype probe_error = Ambiguous_Device | Device_Not_Found

definition device_matches :: "16 word \<Rightarrow> gpu_device \<Rightarrow> bool" where
  "device_matches requested d \<longleftrightarrow>
     \<not> (gd_vendor_id d \<noteq> 0x8086 \<or> \<not> gd_has_device_id d \<or> gd_device_id d \<noteq> ucast requested)"

fun select_among :: "16 word \<Rightarrow> gpu_device list \<Rightarrow> gpu_device option \<Rightarrow> probe_error + gpu_device option" where
  "select_among requested [] found = Inr found"
| "select_among requested (d # ds) found =
     (if \<not> device_matches requested d then select_among requested ds found
      else if found \<noteq> None then Inl Ambiguous_Device
      else select_among requested ds (Some d))"

fun select_platforms ::
    "16 word \<Rightarrow> gpu_platform list \<Rightarrow> gpu_device option \<Rightarrow> probe_error + gpu_device option" where
  "select_platforms requested [] found = Inr found"
| "select_platforms requested (p # ps) found =
     (if \<not> gp_level_zero p then select_platforms requested ps found
      else case select_among requested (gp_devices p) found of
        Inl e \<Rightarrow> Inl e
      | Inr found \<Rightarrow> select_platforms requested ps found)"

definition select_device :: "16 word \<Rightarrow> gpu_platform list \<Rightarrow> probe_error + gpu_device" where
  "select_device requested platforms =
     (case select_platforms requested platforms None of
        Inl e \<Rightarrow> Inl e
      | Inr None \<Rightarrow> Inl Device_Not_Found
      | Inr (Some d) \<Rightarrow> Inr d)"

section \<open>The report\<close>

text \<open>\<open>std::quoted\<close>, and a number written to a stream after \<open>std::hex\<close>: lower case, no prefix, no padding.\<close>

definition quoted :: "string \<Rightarrow> string" where
  "quoted s = CHR 0x22 # concat (map (\<lambda>c. if c = CHR 0x22 \<or> c = CHR 0x5C then [CHR 0x5C, c] else [c]) s) @ [CHR 0x22]"

definition hex_char :: "nat \<Rightarrow> char" where
  "hex_char d = (if d < 10 then char_of (48 + d) else char_of (87 + d))"

fun hex_text :: "nat \<Rightarrow> string" where
  "hex_text n = (if n < 16 then [hex_char n] else hex_text (n div 16) @ [hex_char (n mod 16)])"

declare hex_text.simps [simp del]

definition aspect_names :: "(string \<times> gpu_aspect) list" where
  "aspect_names =
     [(''usm_host'', Usm_Host), (''usm_shared'', Usm_Shared), (''usm_device'', Usm_Device),
      (''usm_system'', Usm_System), (''usm_atomic_host'', Usm_Atomic_Host),
      (''usm_atomic_shared'', Usm_Atomic_Shared)]"

text \<open>The lines of \<open>print_report\<close>; \<open>copy_header\<close> is the value of the macro of the SYCL extension, where it is defined.\<close>

definition print_report :: "string option \<Rightarrow> gpu_device \<Rightarrow> string list" where
  "print_report copy_header d =
     [''schema=sub0mempage.intel-usm.v1'',
      ''backend=level_zero'',
      ''device='' @ quoted (gd_name d),
      ''platform='' @ quoted (gd_platform_name d),
      ''vendor_id=0x'' @ hex_text (unat (gd_vendor_id d)),
      ''device_id=0x'' @ hex_text (unat (gd_device_id d)),
      ''sycl_driver='' @ quoted (gd_driver d),
      ''sycl_version='' @ quoted (gd_version d)] @
     map (\<lambda>(name, aspect). name @ ''='' @ (if aspect \<in> set (gd_aspects d) then ''1'' else ''0'')) aspect_names @
     [''prepared_copy_header='' @ (case copy_header of Some v \<Rightarrow> v | None \<Rightarrow> ''not_declared''),
      ''prepared_copy_runtime=not_tested'',
      ''allocation_runtime=not_tested'',
      ''level_zero_extensions=not_built'',
      ''direct_mapped_access=not_tested'',
      ''concurrent_cpu_gpu_access=not_tested'',
      ''physical_residency=not_tested'',
      ''performance=not_measured'',
      ''status=pass'']"

text \<open>
  \<open>main\<close>: the exit code and the report. \<open>written\<close> is the state of \<open>std::cout\<close> after the report.
\<close>

definition probe_main :: "string list \<Rightarrow> gpu_platform list \<Rightarrow> string option \<Rightarrow> bool \<Rightarrow> nat \<times> string list" where
  "probe_main arguments platforms copy_header written =
     (case probe_parse arguments of
        None \<Rightarrow> (2, [])
      | Some options \<Rightarrow>
          if po_mode options = Help then (0, [])
          else case select_device (po_device_id options) platforms of
            Inr d \<Rightarrow> (if written then 0 else 1, print_report copy_header d)
          | Inl e \<Rightarrow> (1, []))"

section \<open>Facts\<close>

lemma take_hex_all:
  "\<forall>c \<in> set cs. hex_digit c \<noteq> None \<Longrightarrow> take_hex cs = (map (the \<circ> hex_digit) cs, [])"
  by (induction cs) auto

lemma take_hex_rest: "take_hex cs = (ds, []) \<Longrightarrow> \<forall>c \<in> set cs. hex_digit c \<noteq> None"
  by (induction cs arbitrary: ds) (auto split: option.splits prod.splits)

lemma hex_digit_lt: "hex_digit c = Some d \<Longrightarrow> d < 16"
  by (auto simp: hex_digit_def Let_def split: if_splits)

lemma hex_value_snoc: "hex_value (ds @ [d]) = 16 * hex_value ds + d"
  by (simp add: hex_value_def)

lemma hex_value_lt: "\<forall>d \<in> set ds. d < 16 \<Longrightarrow> hex_value ds < 16 ^ length ds"
proof (induction ds rule: rev_induct)
  case (snoc d ds)
  then have "hex_value ds + 1 \<le> 16 ^ length ds" "d < 16"
    by auto
  then show ?case by (simp add: hex_value_snoc)
qed (simp add: hex_value_def)

lemma hex_value_short:
  assumes "\<forall>c \<in> set cs. hex_digit c \<noteq> None" "length cs \<le> 4"
  shows "hex_value (map (the \<circ> hex_digit) cs) < 65536"
proof -
  have "hex_value (map (the \<circ> hex_digit) cs) < 16 ^ length (map (the \<circ> hex_digit) cs)"
    using assms(1) hex_digit_lt by (intro hex_value_lt) auto
  also have "\<dots> \<le> 16 ^ 4"
    using assms(2) by (intro power_increasing) auto
  finally show ?thesis by simp
qed

lemma from_chars_hex16_short:
  assumes "cs \<noteq> []" "length cs \<le> 4"
  shows "from_chars_hex16 cs = (No_Errc, v, []) \<longleftrightarrow>
    (\<forall>c \<in> set cs. hex_digit c \<noteq> None) \<and> v = of_nat (hex_value (map (the \<circ> hex_digit) cs))"
proof
  assume "from_chars_hex16 cs = (No_Errc, v, [])"
  then have "take_hex cs = (fst (take_hex cs), [])" and v: "v = of_nat (hex_value (fst (take_hex cs)))"
    by (auto simp: from_chars_hex16_def split: prod.splits if_splits)
  then show "(\<forall>c \<in> set cs. hex_digit c \<noteq> None) \<and> v = of_nat (hex_value (map (the \<circ> hex_digit) cs))"
    using take_hex_rest [of cs] take_hex_all [of cs] by auto
next
  assume "(\<forall>c \<in> set cs. hex_digit c \<noteq> None) \<and> v = of_nat (hex_value (map (the \<circ> hex_digit) cs))"
  with assms show "from_chars_hex16 cs = (No_Errc, v, [])"
    using hex_value_short [of cs] by (simp add: from_chars_hex16_def take_hex_all)
qed

lemma from_chars_hex16_done:
  "(case from_chars_hex16 cs of (ec, value, rest) \<Rightarrow> if ec \<noteq> No_Errc \<or> rest \<noteq> [] then None else Some (f value))
     = Some x \<longleftrightarrow> (\<exists>v. from_chars_hex16 cs = (No_Errc, v, []) \<and> x = f v)"
  by (cases "from_chars_hex16 cs") auto

text \<open>What is written in base 16 is read back.\<close>

lemma hex_digit_char: "d < 16 \<Longrightarrow> hex_digit (hex_char d) = Some d"
  by (simp add: hex_digit_def hex_char_def Let_def)

lemma hex_text_digits: "\<forall>c \<in> set (hex_text n). hex_digit c \<noteq> None"
proof (induction n rule: hex_text.induct)
  case (1 n)
  then show ?case
    by (subst hex_text.simps) (auto simp: hex_digit_char)
qed

lemma hex_value_text: "hex_value (map (the \<circ> hex_digit) (hex_text n)) = n"
proof (induction n rule: hex_text.induct)
  case (1 n)
  show ?case
  proof (cases "n < 16")
    case True
    then show ?thesis by (simp add: hex_text.simps [of n] hex_digit_char hex_value_def)
  next
    case False
    with 1 show ?thesis
      by (simp add: hex_text.simps [of n] hex_value_snoc hex_digit_char)
  qed
qed

lemma hex_text_length: "n < 16 ^ Suc k \<Longrightarrow> length (hex_text n) \<le> Suc k"
proof (induction k arbitrary: n)
  case 0
  then show ?case by (simp add: hex_text.simps [of n])
next
  case (Suc k)
  have "n div 16 < 16 ^ Suc k"
    using Suc.prems by (simp add: less_mult_imp_div_less mult.commute)
  from Suc.IH [OF this] show ?case
    by (simp add: hex_text.simps [of n])
qed

lemma hex_text_some: "hex_text n \<noteq> []"
  by (simp add: hex_text.simps [of n])

lemma two_arguments: "length xs = 2 \<longleftrightarrow> (\<exists>a b. xs = [a, b])"
  by (auto simp: length_Suc_conv numeral_2_eq_2)

lemma prefix_split: "take 2 s = ''0x'' \<longleftrightarrow> (\<exists>t. s = ''0x'' @ t)"
proof
  assume "take 2 s = ''0x''"
  then show "\<exists>t. s = ''0x'' @ t"
    using append_take_drop_id [of 2 s] by metis
qed auto

text \<open>The selection keeps the one match seen so far.\<close>

lemma select_among_found:
  "select_among requested ds found =
     (case (case found of None \<Rightarrow> [] | Some d \<Rightarrow> [d]) @ filter (device_matches requested) ds of
        [] \<Rightarrow> Inr None
      | [d] \<Rightarrow> Inr (Some d)
      | _ \<Rightarrow> Inl Ambiguous_Device)"
  by (induction requested ds found rule: select_among.induct) (auto split: option.splits)

definition candidates :: "16 word \<Rightarrow> gpu_platform list \<Rightarrow> gpu_device list" where
  "candidates requested platforms =
     filter (device_matches requested) (concat (map gp_devices (filter gp_level_zero platforms)))"

lemma select_platforms_found:
  "select_platforms requested ps found =
     (case (case found of None \<Rightarrow> [] | Some d \<Rightarrow> [d]) @ candidates requested ps of
        [] \<Rightarrow> Inr None
      | [d] \<Rightarrow> Inr (Some d)
      | _ \<Rightarrow> Inl Ambiguous_Device)"
proof (induction requested ps found rule: select_platforms.induct)
  case (2 requested p ps found)
  show ?case
  proof (cases "gp_level_zero p")
    case True
    show ?thesis
    proof (cases "select_among requested (gp_devices p) found")
      case (Inl e)
      with True show ?thesis
        by (auto simp: select_among_found candidates_def split: option.splits list.splits)
    next
      case (Inr found')
      with 2(2) [of found'] True have "select_platforms requested (p # ps) found =
        (case (case found' of None \<Rightarrow> [] | Some d \<Rightarrow> [d]) @ candidates requested ps of
           [] \<Rightarrow> Inr None
         | [d] \<Rightarrow> Inr (Some d)
         | _ \<Rightarrow> Inl Ambiguous_Device)"
        by simp
      with Inr True show ?thesis
        by (auto simp: select_among_found candidates_def split: option.splits list.splits)
    qed
  next
    case False
    with 2(1) show ?thesis
      by (simp add: candidates_def)
  qed
qed (simp add: candidates_def split: option.split)

section \<open>Properties\<close>

text \<open>
  C38: the command line is decided exactly as documented: \<open>--help\<close> alone, or \<open>--device-id 0x\<close> with one to four
  digits in base 16 and nothing else, whose value is taken in full; every other command line is refused.
\<close>

theorem probe_parse_exact:
  "probe_parse arguments = Some options \<longleftrightarrow>
     arguments = [''--help''] \<and> options = \<lparr>po_mode = Help, po_device_id = 0\<rparr> \<or>
     (\<exists>digits. arguments = [''--device-id'', ''0x'' @ digits] \<and> digits \<noteq> [] \<and> length digits \<le> 4 \<and>
        list_all (\<lambda>c. hex_digit c \<noteq> None) digits \<and> po_mode options = Inventory \<and>
        unat (po_device_id options) = hex_value (map (the \<circ> hex_digit) digits))"
proof (cases "\<exists>digits. arguments = [''--device-id'', ''0x'' @ digits] \<and> digits \<noteq> [] \<and> length digits \<le> 4")
  case True
  then obtain digits where args: "arguments = [''--device-id'', ''0x'' @ digits]"
      and digits: "digits \<noteq> []" "length digits \<le> 4"
    by blast
  have "probe_parse arguments = Some options \<longleftrightarrow>
      (\<exists>v. from_chars_hex16 digits = (No_Errc, v, []) \<and> options = \<lparr>po_mode = Inventory, po_device_id = v\<rparr>)"
    using digits from_chars_hex16_done [where cs = digits and f = "\<lambda>v. \<lparr>po_mode = Inventory, po_device_id = v\<rparr>" and x = options]
    by (cases digits) (auto simp: probe_parse_def args)
  also have "\<dots> \<longleftrightarrow> list_all (\<lambda>c. hex_digit c \<noteq> None) digits \<and> po_mode options = Inventory \<and>
      po_device_id options = of_nat (hex_value (map (the \<circ> hex_digit) digits))"
    using from_chars_hex16_short [OF digits] by (cases options) (auto simp: list_all_iff)
  also have "\<dots> \<longleftrightarrow> list_all (\<lambda>c. hex_digit c \<noteq> None) digits \<and> po_mode options = Inventory \<and>
      unat (po_device_id options) = hex_value (map (the \<circ> hex_digit) digits)"
  proof -
    have "po_device_id options = of_nat n \<longleftrightarrow> unat (po_device_id options) = n" if "n < 65536" for n
      using that by (auto simp: unat_of_nat take_bit_nat_eq_self)
    with hex_value_short [of digits] digits show ?thesis
      by (auto simp: list_all_iff)
  qed
  finally show ?thesis
    using digits by (auto simp: args)
next
  case False
  have "probe_parse arguments = None" if "arguments \<noteq> [''--help'']"
  proof (cases "\<exists>id. arguments = [''--device-id'', id]")
    case True
    then obtain id where id: "arguments = [''--device-id'', id]" by blast
    show ?thesis
    proof (cases "take 2 id = ''0x''")
      case True
      then obtain t where "id = ''0x'' @ t" by (auto simp: prefix_split)
      with False id show ?thesis by (auto simp: probe_parse_def Let_def)
    qed (simp add: probe_parse_def id)
  next
    case False
    with that show ?thesis
      by (auto simp: probe_parse_def two_arguments length_Suc_conv)
  qed
  moreover have "probe_parse [''--help''] = Some \<lparr>po_mode = Help, po_device_id = 0\<rparr>"
    by (simp add: probe_parse_def)
  ultimately show ?thesis
    using False by (cases "arguments = [''--help'']") auto
qed

text \<open>
  A device is selected exactly when it is the only one that matches, over all platforms together; none and
  more than one are told apart, and there is no fallback.
\<close>

theorem select_device_unique:
  "select_device requested platforms =
     (case candidates requested platforms of
        [] \<Rightarrow> Inl Device_Not_Found
      | [d] \<Rightarrow> Inr d
      | _ \<Rightarrow> Inl Ambiguous_Device)"
  by (simp add: select_device_def select_platforms_found split: list.split)

text \<open>
  C39: the device id of a report names its device again: given back on the command line it is parsed as the id
  that the probe was asked for.
\<close>

theorem report_names_device:
  assumes "select_device requested platforms = Inr d"
  shows "\<exists>t. ''device_id='' @ t \<in> set (print_report copy_header d) \<and>
    probe_parse [''--device-id'', t] = Some \<lparr>po_mode = Inventory, po_device_id = requested\<rparr>"
proof -
  have "d \<in> set (candidates requested platforms)"
    using assms
    by (auto simp: select_device_def select_platforms_found split: list.splits option.splits sum.splits)
  then have id: "gd_device_id d = ucast requested"
    by (auto simp: candidates_def device_matches_def)
  let ?h = "hex_text (unat requested)"
  have "unat requested < 2 ^ LENGTH(16)"
    by (rule unsigned_less)
  then have bound: "unat requested < 16 ^ Suc 3"
    by (simp del: unsigned_less)
  have short: "?h \<noteq> []" "length ?h \<le> 4"
    using hex_text_some hex_text_length [OF bound] by simp_all
  have "from_chars_hex16 ?h = (No_Errc, requested, [])"
    using from_chars_hex16_short [OF short] hex_text_digits by (simp add: hex_value_text)
  then have "probe_parse [''--device-id'', ''0x'' @ ?h] = Some \<lparr>po_mode = Inventory, po_device_id = requested\<rparr>"
    using short by (cases ?h) (auto simp: probe_parse_def)
  moreover have "unat (ucast requested :: 32 word) = unat requested"
    using bound by (simp add: unsigned_ucast_eq take_bit_nat_eq_self)
  then have "''device_id=0x'' @ ?h \<in> set (print_report copy_header d)"
    by (simp add: print_report_def id)
  ultimately show ?thesis
    by (intro exI [of _ "''0x'' @ ?h"]) simp
qed

definition demo_gpu :: gpu_device where
  "demo_gpu =
     \<lparr>gd_name = ''GPU'', gd_platform_name = ''Level-Zero'', gd_vendor_id = 0x8086, gd_has_device_id = True,
      gd_device_id = 0x7d67, gd_driver = ''1.6'', gd_version = ''1.2'', gd_aspects = [Usm_Host, Usm_Device]\<rparr>"

theorem report_names_device_witness:
  "\<exists>t. ''device_id='' @ t \<in> set (print_report None demo_gpu) \<and>
    probe_parse [''--device-id'', t] = Some \<lparr>po_mode = Inventory, po_device_id = 0x7d67\<rparr>"
proof (rule report_names_device)
  show "select_device 0x7d67 [\<lparr>gp_level_zero = False, gp_devices = [demo_gpu]\<rparr>,
      \<lparr>gp_level_zero = True, gp_devices = [demo_gpu\<lparr>gd_device_id := 2\<rparr>, demo_gpu]\<rparr>] = Inr demo_gpu"
    by (simp add: select_device_def device_matches_def demo_gpu_def)
qed

end
