(* ===== verification/Shootout_Read.thy ===== *)
theory Shootout_Read
  imports Local_File_Windows "HOL-Library.Monad_Syntax"
begin

text \<open>
  The reading side of the read shootout, \<open>src/tools/read_shootout/read_shootout.cpp\<close>: the positional read that its
  strategies share, the aligned window of unbuffered reads, and the strategies that read on the calling thread
  or through a mapping. A strategy reads the row at \<open>miss_offset\<close> into a slot and returns a pointer to its bytes, or
  none; what that means is the locale \<open>strategy\<close>.
\<close>

section \<open>The aligned window\<close>

definition k_align :: u64 where
  "k_align = 4096"

definition round_up :: "u64 \<Rightarrow> u64 \<Rightarrow> u64" where
  "round_up v a = (v + a - 1) div a * a"

record window =
  w_offset :: u64
  w_length :: u64
  w_head :: u64

definition aligned_window :: "u64 \<Rightarrow> u64 \<Rightarrow> window" where
  "aligned_window off len =
     (let start = off div k_align * k_align;
          head = off - start
      in \<lparr>w_offset = start, w_length = round_up (head + len) k_align, w_head = head\<rparr>)"

text \<open>The pages that a prefetch of a mapped range names.\<close>

definition prefetch_range :: "u64 \<Rightarrow> u64 \<Rightarrow> u64 \<times> u64" where
  "prefetch_range p len =
     (let start = p div k_align * k_align in (start, round_up (p + len - start) k_align))"

section \<open>Positional reads\<close>

text \<open>
  \<open>read_at\<close>, on POSIX systems and on Windows: the loop of the backend's \<open>read_range\<close>, which here ends in one way for
  a failed call and for the end of the file. The result is the number of bytes read, the number of calls, and
  the memory; the status of the loop is dropped.
\<close>

type_synonym read_at_fn = "nat \<Rightarrow> handle \<Rightarrow> u64 \<Rightarrow> u64 \<Rightarrow> u64 \<Rightarrow> memory \<Rightarrow> (u64 \<times> nat \<times> memory) option"

definition read_at_attempt :: "pread_fn \<Rightarrow> handle \<Rightarrow> u64 \<Rightarrow> attempt_fn" where
  "read_at_attempt pread h off k filled remaining =
     (case pread k h (off + filled) remaining of
        Interrupted \<Rightarrow> Again
      | Pread_Failed \<Rightarrow> Failure
      | Got bytes \<Rightarrow> if bytes = [] then End_Of_File else Chunk bytes False)"

definition read_at :: "pread_fn \<Rightarrow> read_at_fn" where
  "read_at pread k h dst len off m =
     map_option (\<lambda>(filled, status, k, m). (filled, k, m))
       (fill_loop (read_at_attempt pread h off) dst k 0 len Ok m)"

definition read_at_win_attempt :: "overlapped_fn \<Rightarrow> handle \<Rightarrow> u64 \<Rightarrow> attempt_fn" where
  "read_at_win_attempt win h off k filled remaining =
     (let pos = off + filled;
          want = ucast (min remaining 0x40000000);
          (issue, result) = win k h (ucast (pos AND 0xFFFFFFFF)) (ucast (drop_bit 32 pos)) want
      in if issue \<noteq> Issued then Failure
         else case result of
           Transferred bytes \<Rightarrow> if bytes = [] then End_Of_File else Chunk bytes False
         | _ \<Rightarrow> Failure)"

definition read_at_win :: "overlapped_fn \<Rightarrow> read_at_fn" where
  "read_at_win win k h dst len off m =
     map_option (\<lambda>(filled, status, k, m). (filled, k, m))
       (fill_loop (read_at_win_attempt win h off) dst k 0 len Ok m)"

section \<open>Strategies\<close>

record miss =
  miss_offset :: u64
  miss_slot :: u64

text \<open>
  \<open>NaiveFread::read\<close>: \<open>fseek\<close> is whether the seek succeeded, and \<open>fread\<close> the bytes that \<open>std::fread\<close> has
  stored, given the position and the count.
\<close>

definition naive_read ::
    "(u64 \<Rightarrow> bool) \<Rightarrow> (u64 \<Rightarrow> u64 \<Rightarrow> byte list) \<Rightarrow> u64 \<Rightarrow> miss \<Rightarrow> memory \<Rightarrow> u64 option \<times> memory" where
  "naive_read fseek fread row miss m =
     (if \<not> fseek (miss_offset miss) then (None, m)
      else let bytes = fread (miss_offset miss) row;
               m = write_bytes m (miss_slot miss) (\<lambda>i. bytes ! i) (length bytes)
           in (if of_nat (length bytes) = row then Some (miss_slot miss) else None, m))"

definition inline_read ::
    "read_at_fn \<Rightarrow> bool \<Rightarrow> u64 \<Rightarrow> handle \<Rightarrow> nat \<Rightarrow> miss \<Rightarrow> memory \<Rightarrow> (u64 option \<times> nat \<times> memory) option" where
  "inline_read rd unbuffered row h k miss m =
     (if \<not> unbuffered then
        map_option (\<lambda>(got, k, m). (if got = row then Some (miss_slot miss) else None, k, m))
          (rd k h (miss_slot miss) row (miss_offset miss) m)
      else let w = aligned_window (miss_offset miss) row
           in map_option (\<lambda>(got, k, m). (if got \<ge> w_head w + row then Some (miss_slot miss + w_head w) else None, k, m))
                (rd k h (miss_slot miss) (w_length w) (w_offset w) m))"

text \<open>
  \<open>std::memcpy\<close>, and the copy by 16-byte non-temporal stores, four at a time. Such a store (\<open>_mm_stream_si128\<close>)
  faults unless its address is a multiple of 16; the loads (\<open>_mm_loadu_si128\<close>) take any address. \<open>None\<close> is a
  program that has faulted, or a loop that never ends.
\<close>

definition memcpy :: "u64 \<Rightarrow> u64 \<Rightarrow> nat \<Rightarrow> memory \<Rightarrow> memory" where
  "memcpy dst src n m = write_bytes m dst (\<lambda>i. m (src + of_nat i)) n"

definition stream_store :: "u64 \<Rightarrow> (nat \<Rightarrow> byte) \<Rightarrow> memory \<Rightarrow> memory option" where
  "stream_store p v m = (if unat p mod 16 = 0 then Some (write_bytes m p v 16) else None)"

definition nt_block :: "u64 \<Rightarrow> u64 \<Rightarrow> u64 \<Rightarrow> memory \<Rightarrow> memory option" where
  "nt_block dst src i m =
     (let load = (\<lambda>at j. m (at + of_nat j));
          a = load (src + i); b = load (src + i + 16); c = load (src + i + 32); d = load (src + i + 48)
      in do {
        m \<leftarrow> stream_store (dst + i) a m;
        m \<leftarrow> stream_store (dst + i + 16) b m;
        m \<leftarrow> stream_store (dst + i + 32) c m;
        stream_store (dst + i + 48) d m
      })"

partial_function (option) nt_loop :: "u64 \<Rightarrow> u64 \<Rightarrow> u64 \<Rightarrow> u64 \<Rightarrow> memory \<Rightarrow> (u64 \<times> memory) option" where
  "nt_loop dst src n i m =
     (if i + 64 \<le> n then do { m \<leftarrow> nt_block dst src i m; nt_loop dst src n (i + 64) m } else Some (i, m))"

declare nt_loop.simps [code]

definition nt_copy :: "u64 \<Rightarrow> u64 \<Rightarrow> u64 \<Rightarrow> memory \<Rightarrow> memory option" where
  "nt_copy dst src n m =
     map_option (\<lambda>(i, m). memcpy (dst + i) (src + i) (unat (n - i)) m) (nt_loop dst src n 0 m)"

text \<open>\<open>MappedRead::read\<close>; a prefetch and a touch of the pages change no memory.\<close>

datatype mapped_mode = Copy | Prefetch_Copy | Nt_Copy | Touch

definition mapped_read :: "mapped_mode \<Rightarrow> u64 \<Rightarrow> u64 \<Rightarrow> miss \<Rightarrow> memory \<Rightarrow> (u64 option \<times> memory) option" where
  "mapped_read mode base row miss m =
     (let src = base + miss_offset miss in
      case mode of
        Prefetch_Copy \<Rightarrow> Some (Some (miss_slot miss), memcpy (miss_slot miss) src (unat row) m)
      | Copy \<Rightarrow> Some (Some (miss_slot miss), memcpy (miss_slot miss) src (unat row) m)
      | Nt_Copy \<Rightarrow> map_option (\<lambda>m. (Some (miss_slot miss), m)) (nt_copy (miss_slot miss) src row m)
      | Touch \<Rightarrow> Some (Some src, m))"

section \<open>Window arithmetic\<close>

lemma unat_k_align [simp]: "unat k_align = 4096"
  by (simp add: k_align_def)

lemma unat_round_up:
  assumes "unat v + 4095 < 18446744073709551616"
  shows "unat (round_up v k_align) = (unat v + 4095) div 4096 * 4096"
proof -
  have "v + k_align - 1 = v + 4095"
    by (simp add: k_align_def)
  moreover have "unat (v + 4095) = unat v + 4095"
    using assms by (subst unat_plus_64) simp_all
  ultimately have "unat ((v + k_align - 1) div k_align) = (unat v + 4095) div 4096"
    by (simp only: unat_div_64 unat_k_align)
  moreover have "(unat v + 4095) div 4096 * 4096 < 18446744073709551616"
    using assms by (meson div_times_less_eq_dividend le_less_trans)
  ultimately show ?thesis
    unfolding round_up_def by (subst unat_times_64) simp_all
qed

lemma unat_align_down: "unat (off div k_align * k_align) = unat off div 4096 * 4096"
proof -
  have "unat off div 4096 * 4096 < 18446744073709551616"
    using unat_lt_64 [of off] by (meson div_times_less_eq_dividend le_less_trans)
  then show ?thesis
    by (subst unat_times_64) (simp_all add: unat_div_64)
qed

lemma unat_window:
  assumes "unat off mod 4096 + unat len + 4095 < 18446744073709551616"
  defines "w \<equiv> aligned_window off len"
  shows "unat (w_offset w) = unat off div 4096 * 4096" "unat (w_head w) = unat off mod 4096"
    "unat (w_length w) = (unat off mod 4096 + unat len + 4095) div 4096 * 4096"
    "w_offset w + w_head w = off"
proof -
  let ?start = "off div k_align * k_align"
  have le: "?start \<le> off"
    by (simp add: word_le_nat_alt unat_align_down)
  have head: "unat (off - ?start) = unat off mod 4096"
    by (simp add: minus_div_mult_eq_mod unat_mod_distrib)
  have "unat (off - ?start + len) = unat off mod 4096 + unat len"
    using assms by (subst unat_plus_64) (simp_all add: head)
  with assms head show "unat (w_offset w) = unat off div 4096 * 4096" "unat (w_head w) = unat off mod 4096"
    "unat (w_length w) = (unat off mod 4096 + unat len + 4095) div 4096 * 4096"
    "w_offset w + w_head w = off"
    by (simp_all add: aligned_window_def Let_def unat_align_down unat_round_up)
qed

text \<open>The slot of a miss, and a miss whose aligned window exists: what the slots are sized for.\<close>

definition bytes_at :: "u64 \<Rightarrow> nat \<Rightarrow> u64 set" where
  "bytes_at p n = (\<lambda>i. p + of_nat i) ` {i. i < n}"

lemma bytes_at_iff: "a \<in> bytes_at p n \<longleftrightarrow> (\<exists>i < n. a = p + of_nat i)"
  by (auto simp: bytes_at_def)

lemma bytes_atI: "i < n \<Longrightarrow> p + of_nat i \<in> bytes_at p n"
  by (auto simp: bytes_at_iff)

lemma bytes_at_mono: "a \<le> b \<Longrightarrow> bytes_at p a \<subseteq> bytes_at p b"
  unfolding bytes_at_def by (rule image_mono) auto

definition slot_addrs :: "u64 \<Rightarrow> miss \<Rightarrow> u64 set" where
  "slot_addrs row x = bytes_at (miss_slot x) (unat row + 8192)"

lemma row_in_slot: "bytes_at (miss_slot x) (unat row) \<subseteq> slot_addrs row x"
  unfolding slot_addrs_def by (rule bytes_at_mono) simp

definition miss_fits :: "u64 \<Rightarrow> miss \<Rightarrow> bool" where
  "miss_fits row x \<longleftrightarrow> unat (miss_offset x) + unat row + 8192 < 18446744073709551616"

lemma window_fits:
  assumes "miss_fits row x"
  defines "w \<equiv> aligned_window (miss_offset x) row"
  shows "unat (w_head w) < 4096" "unat (w_head w) + unat row \<le> unat (w_length w)" "unat (w_length w) \<le> unat row + 8192"
    "unat (w_head w + row) = unat (w_head w) + unat row" "w_offset w + w_head w = miss_offset x"
    "unat (w_offset w) + unat (w_head w) = unat (miss_offset x)"
proof -
  let ?head = "unat (miss_offset x) mod 4096"
  have head: "?head < 4096" "?head \<le> unat (miss_offset x)"
    by simp_all
  then have "?head + unat row + 4095 < 18446744073709551616"
    using assms(1) unfolding miss_fits_def by linarith
  note w = unat_window [OF this]
  show sum: "w_offset w + w_head w = miss_offset x" and h: "unat (w_head w) < 4096"
    using w head by (simp_all add: w_def)
  show "unat (w_head w + row) = unat (w_head w) + unat row"
    using assms(1) head unfolding miss_fits_def w_def by (subst unat_plus_64) (simp_all add: w)
  show "unat (w_head w) + unat row \<le> unat (w_length w)"
    using div_mult_mod_eq [of "?head + unat row + 4095" 4096] mod_less_divisor [of 4096 "?head + unat row + 4095"]
    unfolding w_def w(2,3) by linarith
  show "unat (w_length w) \<le> unat row + 8192"
    using div_times_less_eq_dividend [of "?head + unat row + 4095" 4096] head unfolding w_def w(3) by linarith
  show "unat (w_offset w) + unat (w_head w) = unat (miss_offset x)"
    unfolding w_def w(1,2) by simp
qed

section \<open>What a positional read has done\<close>

definition read_at_ok :: "(handle \<Rightarrow> u64 \<Rightarrow> byte) \<Rightarrow> (handle \<Rightarrow> nat) \<Rightarrow> read_at_fn \<Rightarrow> bool" where
  "read_at_ok file fsize rd \<longleftrightarrow>
     (\<forall>k h dst len off m got k' m'. rd k h dst len off m = Some (got, k', m') \<longrightarrow>
        unat got \<le> unat len \<and> (got = 0 \<or> unat off + unat got \<le> fsize h) \<and>
        bytes_read (file h) dst off 0 (unat got) m m')"

lemma bytes_readD:
  assumes "bytes_read content dst off 0 n m m'"
  shows "i < n \<Longrightarrow> m' (dst + of_nat i) = content (off + of_nat i)"
    "(\<And>i. i < n \<Longrightarrow> a \<noteq> dst + of_nat i) \<Longrightarrow> m' a = m a"
  using assms unfolding bytes_read_def by blast+

lemma loop_read_at_ok:
  assumes "\<And>h off. attempt_ok (file h) (fsize h) (stops h) off (att h off)"
  shows "read_at_ok file fsize
    (\<lambda>k h dst len off m. map_option (\<lambda>(filled, status, k, m). (filled, k, m)) (fill_loop (att h off) dst k 0 len Ok m))"
  unfolding read_at_ok_def
proof (intro allI impI)
  fix k h dst len off m got k' m'
  assume "map_option (\<lambda>(filled, status, k, m). (filled, k, m)) (fill_loop (att h off) dst k 0 len Ok m) = Some (got, k', m')"
  then obtain status where "fill_loop (att h off) dst k 0 len Ok m = Some (got, status, k', m')"
    by auto
  from fill_loop_post [OF assms this] show "unat got \<le> unat len \<and> (got = 0 \<or> unat off + unat got \<le> fsize h) \<and>
      bytes_read (file h) dst off 0 (unat got) m m'"
    by (simp add: loop_post_def unat_lt_64)
qed

definition read_at_stops :: "pread_fn \<Rightarrow> handle \<Rightarrow> stops" where
  "read_at_stops pread h k s p n \<longleftrightarrow> s = Io_Error \<and> pread_fails_at pread k h p n"

lemma read_at_attempt_ok:
  assumes "pread_spec pread file fsize"
  shows "attempt_ok (file h) (fsize h) (read_at_stops pread h) off (read_at_attempt pread h off)"
  using assms unfolding attempt_ok_def pread_spec_def read_at_attempt_def read_at_stops_def pread_fails_at_def
  by (auto split: pread_outcome.splits if_splits)

lemma read_at_posix_ok:
  assumes "pread_spec pread file fsize"
  shows "read_at_ok file fsize (read_at pread)"
  unfolding read_at_def [abs_def] using read_at_attempt_ok [OF assms] by (rule loop_read_at_ok)

lemma read_at_windows_ok:
  assumes spec: "win_spec win file fsize"
  shows "read_at_ok file fsize (read_at_win win)"
proof -
  have "attempt_ok (file h) (fsize h) (\<lambda>_ _ _ _. True) off (read_at_win_attempt win h off)" for h off
    unfolding attempt_ok_def
  proof (intro conjI allI impI)
    fix k bytes final and filled remaining :: u64
    let ?lo = "ucast ((off + filled) AND 0xFFFFFFFF) :: 32 word" and ?hi = "ucast (drop_bit 32 (off + filled)) :: 32 word"
    assume att: "read_at_win_attempt win h off k filled remaining = Chunk bytes final"
    obtain issue result where run: "win k h ?lo ?hi (ucast (min remaining 0x40000000)) = (issue, result)"
      by (cases "win k h ?lo ?hi (ucast (min remaining 0x40000000))")
    have "issue = Issued" "result = Transferred bytes" and some: "bytes \<noteq> []"
      using att run by (auto simp: read_at_win_attempt_def Let_def split: overlapped_result.splits if_splits)
    with spec run have chunk: "chunk_ok (file h) (fsize h) (off + filled) (ucast (ucast (min remaining 0x40000000) :: 32 word)) bytes"
      unfolding win_spec_def by (metis overlapped_pos_split)
    show "bytes \<noteq> []" by (rule some)
    from chunk show "chunk_ok (file h) (fsize h) (off + filled) remaining bytes"
      by (simp add: chunk_ok_def unat_ucast_32_64 unat_win_chunk)
  next
    fix k and filled remaining :: u64
    let ?lo = "ucast ((off + filled) AND 0xFFFFFFFF) :: 32 word" and ?hi = "ucast (drop_bit 32 (off + filled)) :: 32 word"
    assume att: "read_at_win_attempt win h off k filled remaining = End_Of_File" and some: "remaining \<noteq> 0"
    obtain issue result where run: "win k h ?lo ?hi (ucast (min remaining 0x40000000)) = (issue, result)"
      by (cases "win k h ?lo ?hi (ucast (min remaining 0x40000000))")
    have "issue = Issued" "result = Transferred []"
      using att run by (auto simp: read_at_win_attempt_def Let_def split: overlapped_result.splits if_splits)
    moreover have "unat (ucast (min remaining 0x40000000) :: 32 word) \<noteq> 0"
      using some by (simp add: unat_win_chunk unat_gt_0)
    then have "ucast (min remaining 0x40000000) \<noteq> (0 :: 32 word)"
      by auto
    ultimately show "fsize h \<le> unat (off + filled)"
      using spec run unfolding win_spec_def by (metis overlapped_pos_split)
  qed (use spec in \<open>simp_all add: win_spec_def\<close>)
  then show ?thesis
    unfolding read_at_win_def [abs_def] by (rule loop_read_at_ok)
qed

section \<open>The contract of a strategy\<close>

text \<open>
  A strategy that returns a pointer has the row's bytes behind it, and it writes inside the slot only. \<open>valid\<close> is what it
  needs of the memory (a mapping that shows the file), \<open>able\<close> what it needs of the miss.
\<close>

locale strategy =
  fixes reads :: "miss \<Rightarrow> memory \<Rightarrow> u64 option \<Rightarrow> memory \<Rightarrow> bool"
    and row :: u64
    and content :: "u64 \<Rightarrow> byte"
    and valid :: "memory \<Rightarrow> bool"
    and able :: "miss \<Rightarrow> bool"
  assumes reads_exact:
      "able x \<Longrightarrow> valid m \<Longrightarrow> reads x m (Some p) m' \<Longrightarrow> i < unat row \<Longrightarrow>
         m' (p + of_nat i) = content (miss_offset x + of_nat i)"
    and reads_frame: "able x \<Longrightarrow> valid m \<Longrightarrow> reads x m got m' \<Longrightarrow> a \<notin> slot_addrs row x \<Longrightarrow> m' a = m a"
    and reads_valid: "able x \<Longrightarrow> valid m \<Longrightarrow> reads x m got m' \<Longrightarrow> valid m'"

definition inline_reads :: "read_at_fn \<Rightarrow> bool \<Rightarrow> u64 \<Rightarrow> handle \<Rightarrow> miss \<Rightarrow> memory \<Rightarrow> u64 option \<Rightarrow> memory \<Rightarrow> bool" where
  "inline_reads rd unbuffered row h x m got m' \<longleftrightarrow> (\<exists>k k'. inline_read rd unbuffered row h k x m = Some (got, k', m'))"

lemma inline_readE:
  assumes "inline_read rd unbuffered row h k x m = Some (got, k', m')" and fits: "miss_fits row x" and ok: "read_at_ok file fsize rd"
  obtains n off head where "bytes_read (file h) (miss_slot x) off 0 n m m'" "n \<le> unat row + 8192"
    "off + head = miss_offset x" "\<And>p. got = Some p \<Longrightarrow> p = miss_slot x + head \<and> unat head + unat row \<le> n"
proof (cases unbuffered)
  case False
  then obtain n where rd: "rd k h (miss_slot x) row (miss_offset x) m = Some (n, k', m')"
      and got: "got = (if n = row then Some (miss_slot x) else None)"
    using assms(1) by (auto simp: inline_read_def)
  show thesis
    by (rule that [of "miss_offset x" "unat n" 0])
      (use ok rd got in \<open>auto simp: read_at_ok_def split: if_splits dest!: spec\<close>)
next
  case True
  let ?w = "aligned_window (miss_offset x) row"
  obtain n where rd: "rd k h (miss_slot x) (w_length ?w) (w_offset ?w) m = Some (n, k', m')"
      and got: "got = (if w_head ?w + row \<le> n then Some (miss_slot x + w_head ?w) else None)"
    using assms(1) True by (auto simp: inline_read_def Let_def)
  have "unat n \<le> unat (w_length ?w)" "bytes_read (file h) (miss_slot x) (w_offset ?w) 0 (unat n) m m'"
    using ok rd unfolding read_at_ok_def by blast+
  with window_fits [OF fits] got show thesis
    by (intro that [of "w_offset ?w" "unat n" "w_head ?w"]) (auto simp: word_le_nat_alt split: if_splits)
qed

lemma inline_strategy:
  assumes "read_at_ok file fsize rd"
  shows "strategy (inline_reads rd unbuffered row h) row (file h) (\<lambda>_. True) (miss_fits row)"
proof
  fix x m p m' i
  assume "miss_fits row x" "inline_reads rd unbuffered row h x m (Some p) m'" and i: "i < unat row"
  then obtain n off head where read: "bytes_read (file h) (miss_slot x) off 0 n m m'"
      and off: "off + head = miss_offset x" and p: "p = miss_slot x + head" "unat head + unat row \<le> n"
    by (auto simp: inline_reads_def elim: inline_readE [OF _ _ assms])
  from bytes_readD(1) [OF read, of "unat head + i"] p i
  show "m' (p + of_nat i) = file h (miss_offset x + of_nat i)"
    by (simp add: add.assoc [symmetric] off [symmetric])
next
  fix x m got m' a
  assume "miss_fits row x" "inline_reads rd unbuffered row h x m got m'" and a: "a \<notin> slot_addrs row x"
  then obtain n off where read: "bytes_read (file h) (miss_slot x) off 0 n m m'" "n \<le> unat row + 8192"
    by (auto simp: inline_reads_def elim: inline_readE [OF _ _ assms])
  with a show "m' a = m a"
    by (intro bytes_readD(2) [OF read(1)]) (auto simp: slot_addrs_def bytes_at_iff)
qed simp

section \<open>Copies\<close>

lemma write_bytes_append:
  "write_bytes (write_bytes m base f a) (base + of_nat a) (\<lambda>i. f (a + i)) b = write_bytes m base f (a + b)"
  by (induction b) (simp_all add: add.assoc)

lemma write_bytes_cong: "(\<And>i. i < n \<Longrightarrow> f i = g i) \<Longrightarrow> write_bytes m base f n = write_bytes m base g n"
  by (induction n) auto

lemma memcpy_inside: "n \<le> 18446744073709551616 \<Longrightarrow> i < n \<Longrightarrow> memcpy dst src n m (dst + of_nat i) = m (src + of_nat i)"
  unfolding memcpy_def by (rule write_bytes_inside)

lemma memcpy_outside: "a \<notin> bytes_at dst n \<Longrightarrow> memcpy dst src n m a = m a"
  unfolding memcpy_def by (rule write_bytes_outside) (simp add: bytes_at_iff)

lemma memcpy_append:
  assumes "bytes_at src (a + b) \<inter> bytes_at dst (a + b) = {}"
  shows "memcpy (dst + of_nat a) (src + of_nat a) b (memcpy dst src a m) = memcpy dst src (a + b) m"
proof -
  have "memcpy dst src a m (src + of_nat a + of_nat i) = m (src + of_nat (a + i))" if "i < b" for i
  proof -
    have "src + of_nat (a + i) \<in> bytes_at src (a + b)"
      using that by (intro bytes_atI) simp
    then have "src + of_nat (a + i) \<notin> bytes_at dst a"
      using assms bytes_at_mono [OF le_add1 [of a b], of dst] by blast
    moreover have "src + of_nat a + of_nat i = src + of_nat (a + i)"
      by simp
    ultimately show ?thesis
      by (simp only: memcpy_outside not_False_eq_True)
  qed
  then have "memcpy (dst + of_nat a) (src + of_nat a) b (memcpy dst src a m)
      = write_bytes (memcpy dst src a m) (dst + of_nat a) (\<lambda>i. m (src + of_nat (a + i))) b"
    unfolding memcpy_def [where dst = "dst + of_nat a"] by (rule write_bytes_cong)
  also have "\<dots> = memcpy dst src (a + b) m"
    unfolding memcpy_def by (rule write_bytes_append)
  finally show ?thesis .
qed

lemma aligned_plus:
  fixes p q :: u64
  assumes "n dvd 18446744073709551616"
  shows "unat (p + q) mod n = (unat p + unat q) mod n"
  using assms by (simp add: unat_word_ariths mod_mod_cancel)

lemma nt_block_memcpy:
  "nt_block dst src i m = (if unat (dst + i) mod 16 = 0 then Some (memcpy (dst + i) (src + i) 64 m) else None)"
proof -
  let ?f = "\<lambda>j. m (src + i + of_nat j)"
  have "write_bytes (write_bytes (write_bytes (write_bytes m (dst + i) ?f 16) (dst + i + of_nat 16) (\<lambda>j. ?f (16 + j)) 16)
      (dst + i + of_nat 32) (\<lambda>j. ?f (32 + j)) 16) (dst + i + of_nat 48) (\<lambda>j. ?f (48 + j)) 16 = write_bytes m (dst + i) ?f 64"
    using write_bytes_append [of m "dst + i" ?f 16 16] write_bytes_append [of m "dst + i" ?f 32 16]
      write_bytes_append [of m "dst + i" ?f 48 16] by simp
  moreover have "unat (dst + i + q) mod 16 = 0" if "unat (dst + i) mod 16 = 0" "unat q mod 16 = 0" for q
    using that by (subst aligned_plus) (simp_all add: mod_add_eq [symmetric])
  ultimately show ?thesis
    by (simp add: nt_block_def stream_store_def memcpy_def Let_def add.assoc)
qed

text \<open>Positions of the loop are multiples of 16, so the destination's alignment decides.\<close>

lemma nt_loop_memcpy:
  assumes "unat n + 64 < 18446744073709551616" "bytes_at src (unat n) \<inter> bytes_at dst (unat n) = {}" "unat dst mod 16 = 0"
    and "i \<le> n" "unat i mod 16 = 0"
  shows "\<exists>i'. nt_loop dst src n i (memcpy dst src (unat i) m) = Some (i', memcpy dst src (unat i') m) \<and> i' \<le> n"
  using assms(4,5)
proof (induction "unat n - unat i" arbitrary: i rule: less_induct)
  case less
  then have i: "unat (i + 64) = unat i + 64"
    using assms(1) unfolding word_le_nat_alt by (subst unat_plus_64) simp_all
  show ?case
  proof (cases "i + 64 \<le> n")
    case True
    then have le: "unat i + 64 \<le> unat n"
      by (simp add: word_le_nat_alt i)
    have "bytes_at src (unat i + 64) \<inter> bytes_at dst (unat i + 64) = {}"
      using assms(2) bytes_at_mono [OF le, of src] bytes_at_mono [OF le, of dst] by blast
    from memcpy_append [OF this, of m]
    have copy: "memcpy (dst + i) (src + i) 64 (memcpy dst src (unat i) m) = memcpy dst src (unat (i + 64)) m"
      by (simp add: i)
    have "unat (dst + i) mod 16 = 0"
      using assms(3) less(3) by (subst aligned_plus) (simp_all add: mod_add_eq [symmetric])
    then have "nt_block dst src i (memcpy dst src (unat i) m) = Some (memcpy dst src (unat (i + 64)) m)"
      by (simp only: nt_block_memcpy copy simp_thms if_True)
    moreover have "unat n - unat (i + 64) < unat n - unat i" "unat (i + 64) mod 16 = 0"
      using le less(3) by (simp_all add: i mod_add_eq [symmetric])
    note less(1) [OF this(1) True this(2)]
    ultimately show ?thesis
      using True by (simp add: nt_loop.simps [of dst src n i])
  next
    case False
    with less(2) show ?thesis
      by (simp add: nt_loop.simps [of dst src n i])
  qed
qed

lemma nt_copy_memcpy:
  assumes "unat n + 64 < 18446744073709551616" "bytes_at src (unat n) \<inter> bytes_at dst (unat n) = {}"
  shows "nt_copy dst src n m = (if unat dst mod 16 = 0 \<or> unat n < 64 then Some (memcpy dst src (unat n) m) else None)"
proof (cases "unat dst mod 16 = 0")
  case True
  obtain i where loop: "nt_loop dst src n 0 m = Some (i, memcpy dst src (unat i) m)" and le: "i \<le> n"
    using nt_loop_memcpy [OF assms True, of 0 m] by (auto simp: memcpy_def)
  have "unat i + unat (n - i) = unat n"
    using le by (simp add: unat_minus_64 word_le_nat_alt)
  with memcpy_append [of src "unat i" "unat (n - i)" dst m] assms(2) loop True show ?thesis
    by (simp add: nt_copy_def)
next
  case False
  then show ?thesis
    by (simp add: nt_copy_def nt_loop.simps [of dst src n 0] nt_block_memcpy word_le_nat_alt)
qed

section \<open>Mappings\<close>

definition mapping_shows :: "u64 \<Rightarrow> nat \<Rightarrow> (u64 \<Rightarrow> byte) \<Rightarrow> memory \<Rightarrow> bool" where
  "mapping_shows base extent content m \<longleftrightarrow> (\<forall>i < extent. m (base + of_nat i) = content (of_nat i))"

text \<open>A miss for a mapping: inside the file, and into a page-aligned slot outside the mapping.\<close>

definition mapped_able :: "u64 \<Rightarrow> nat \<Rightarrow> u64 \<Rightarrow> miss \<Rightarrow> bool" where
  "mapped_able base extent row x \<longleftrightarrow>
     miss_fits row x \<and> unat (miss_offset x) + unat row \<le> extent \<and> slot_addrs row x \<inter> bytes_at base extent = {} \<and>
     unat (miss_slot x) mod 4096 = 0"

definition mapped_reads :: "mapped_mode \<Rightarrow> u64 \<Rightarrow> u64 \<Rightarrow> miss \<Rightarrow> memory \<Rightarrow> u64 option \<Rightarrow> memory \<Rightarrow> bool" where
  "mapped_reads mode base row x m got m' \<longleftrightarrow> mapped_read mode base row x m = Some (got, m')"

lemma mapped_read_eq:
  assumes "mapped_able base extent row x"
  shows "mapped_read mode base row x m = Some (if mode = Touch then (Some (base + miss_offset x), m)
     else (Some (miss_slot x), memcpy (miss_slot x) (base + miss_offset x) (unat row) m))"
proof -
  have "bytes_at (base + miss_offset x) (unat row) \<subseteq> bytes_at base extent"
  proof
    fix a assume "a \<in> bytes_at (base + miss_offset x) (unat row)"
    then obtain i where a: "a = base + miss_offset x + of_nat i" and "i < unat row"
      by (auto simp: bytes_at_iff)
    then have "unat (miss_offset x) + i < extent"
      using assms by (simp add: mapped_able_def)
    moreover have "base + miss_offset x + of_nat i = base + of_nat (unat (miss_offset x) + i)"
      by simp
    ultimately show "a \<in> bytes_at base extent"
      unfolding a
      by (metis bytes_atI)
  qed
  moreover note row_in_slot [of x row]
  ultimately have "bytes_at (base + miss_offset x) (unat row) \<inter> bytes_at (miss_slot x) (unat row) = {}"
    using assms unfolding mapped_able_def by blast
  moreover have "unat row + 64 < 18446744073709551616"
    using assms by (simp add: mapped_able_def miss_fits_def)
  moreover have "unat (miss_slot x) mod 16 = unat (miss_slot x) mod 4096 mod 16"
    by (simp add: mod_mod_cancel)
  then have "unat (miss_slot x) mod 16 = 0"
    using assms by (simp add: mapped_able_def)
  ultimately show ?thesis
    by (cases mode) (simp_all add: mapped_read_def nt_copy_memcpy Let_def)
qed

lemma mapping_shows_row:
  assumes "mapping_shows base extent content m" "unat off + unat row \<le> extent" "i < unat row"
  shows "m (base + off + of_nat i) = content (off + of_nat i)"
  using assms(1) [unfolded mapping_shows_def, rule_format, of "unat off + i"] assms(2,3)
  by (simp add: add.assoc)

lemma mapped_strategy:
  "strategy (mapped_reads mode base row) row content (mapping_shows base extent content) (mapped_able base extent row)"
proof
  fix x m p m' i
  assume able: "mapped_able base extent row x" and shows_file: "mapping_shows base extent content m"
    and "mapped_reads mode base row x m (Some p) m'" and i: "i < unat row"
  then show "m' (p + of_nat i) = content (miss_offset x + of_nat i)"
    using mapping_shows_row [OF shows_file _ i, of "miss_offset x"] unat_lt_64 [of row]
    by (auto simp: mapped_reads_def mapped_read_eq mapped_able_def memcpy_inside split: if_splits)
next
  fix x m got m' and a :: u64
  assume "mapped_able base extent row x" "mapped_reads mode base row x m got m'" "a \<notin> slot_addrs row x"
  moreover from this have "a \<notin> bytes_at (miss_slot x) (unat row)"
    using row_in_slot [of x row] by blast
  ultimately show frame: "m' a = m a"
    by (auto simp: mapped_reads_def mapped_read_eq memcpy_outside split: if_splits)
next
  fix x m got m'
  assume able: "mapped_able base extent row x" and shows_file: "mapping_shows base extent content m"
    and reads: "mapped_reads mode base row x m got m'"
  have "m' a = m a" if "a \<in> bytes_at base extent" for a
  proof -
    have "a \<notin> bytes_at (miss_slot x) (unat row)"
      using able that row_in_slot [of x row] unfolding mapped_able_def by blast
    with able reads show ?thesis
      by (auto simp: mapped_reads_def mapped_read_eq memcpy_outside split: if_splits)
  qed
  with shows_file show "mapping_shows base extent content m'"
    by (simp add: mapping_shows_def bytes_atI)
qed

text \<open>\<open>std::fread\<close> stores at most the bytes asked for, and they are the stream's.\<close>

definition fread_spec :: "(u64 \<Rightarrow> u64 \<Rightarrow> byte list) \<Rightarrow> (u64 \<Rightarrow> byte) \<Rightarrow> bool" where
  "fread_spec fread content \<longleftrightarrow>
     (\<forall>off n. length (fread off n) \<le> unat n \<and> (\<forall>i < length (fread off n). fread off n ! i = content (off + of_nat i)))"

definition naive_reads ::
    "(u64 \<Rightarrow> bool) \<Rightarrow> (u64 \<Rightarrow> u64 \<Rightarrow> byte list) \<Rightarrow> u64 \<Rightarrow> miss \<Rightarrow> memory \<Rightarrow> u64 option \<Rightarrow> memory \<Rightarrow> bool" where
  "naive_reads fseek fread row x m got m' \<longleftrightarrow> naive_read fseek fread row x m = (got, m')"

lemma naive_strategy:
  assumes "fread_spec fread content"
  shows "strategy (naive_reads fseek fread row) row content (\<lambda>_. True) (miss_fits row)"
proof -
  have short: "length (fread off row) \<le> unat row" for off
    using assms by (simp add: fread_spec_def)
  show ?thesis
  proof
    fix x :: miss and m p m' i
    let ?bytes = "fread (miss_offset x) row"
    assume "naive_reads fseek fread row x m (Some p) m'" and i: "i < unat row"
    then have all: "of_nat (length ?bytes) = row" and p: "p = miss_slot x"
        and m': "m' = write_bytes m (miss_slot x) (\<lambda>i. ?bytes ! i) (length ?bytes)"
      by (auto simp: naive_reads_def naive_read_def Let_def split: if_splits)
    have "length ?bytes < 18446744073709551616"
      using short [of "miss_offset x"] unat_lt_64 [of row] by linarith
    then have n: "length ?bytes = unat row"
      using all unat_of_nat_64 by metis
    have "m' (p + of_nat i) = ?bytes ! i"
      unfolding m' p using n i unat_lt_64 [of row] by (intro write_bytes_inside) simp_all
    with assms n i show "m' (p + of_nat i) = content (miss_offset x + of_nat i)"
      by (simp add: fread_spec_def)
  next
    fix x :: miss and m got m' and a :: u64
    assume reads: "naive_reads fseek fread row x m got m'" and a: "a \<notin> slot_addrs row x"
    have "bytes_at (miss_slot x) (length (fread (miss_offset x) row)) \<subseteq> slot_addrs row x"
      unfolding slot_addrs_def by (rule bytes_at_mono) (use short [of "miss_offset x"] in simp)
    with a have "a \<noteq> miss_slot x + of_nat i" if "i < length (fread (miss_offset x) row)" for i
      using bytes_atI [OF that, of "miss_slot x"] by blast
    then have "write_bytes m (miss_slot x) (\<lambda>i. fread (miss_offset x) row ! i) (length (fread (miss_offset x) row)) a = m a"
      by (rule write_bytes_outside)
    with reads show "m' a = m a"
      by (auto simp: naive_reads_def naive_read_def Let_def split: if_splits)
  qed simp
qed

text \<open>Every copy through a mapping is a strategy; the reads of the two small files are instances of the others.\<close>

interpretation mapped: strategy "mapped_reads mode base row" row content "mapping_shows base extent content"
  "mapped_able base extent row" for mode base row content extent
  by (rule mapped_strategy)

interpretation inline_posix: strategy "inline_reads (read_at demo_pread) unbuffered row h" row "demo_file h"
  "\<lambda>_. True" "miss_fits row" for unbuffered row h
  by (rule inline_strategy [OF read_at_posix_ok [OF demo_pread_spec]])

interpretation inline_windows: strategy "inline_reads (read_at_win demo_win) unbuffered row h" row "demo_file h"
  "\<lambda>_. True" "miss_fits row" for unbuffered row h
  by (rule inline_strategy [OF read_at_windows_ok [OF demo_win_spec]])

section \<open>Properties\<close>

text \<open>
  The aligned window of a row starts and ends on a 4096-byte boundary, begins \<open>w_head\<close> bytes before the row,
  covers all of it, and is the smallest that does.
\<close>

theorem aligned_window_covers:
  assumes "unat off + unat len + 8192 < 18446744073709551616"
  shows "unat (w_offset (aligned_window off len)) mod 4096 = 0 \<and> unat (w_length (aligned_window off len)) mod 4096 = 0 \<and>
    unat (w_head (aligned_window off len)) < 4096 \<and>
    unat (w_offset (aligned_window off len)) + unat (w_head (aligned_window off len)) = unat off \<and>
    unat (w_head (aligned_window off len)) + unat len \<le> unat (w_length (aligned_window off len)) \<and>
    unat (w_length (aligned_window off len)) < unat (w_head (aligned_window off len)) + unat len + 4096"
proof -
  let ?x = "\<lparr>miss_offset = off, miss_slot = 0\<rparr>" and ?w = "aligned_window off len"
  have fits: "miss_fits len ?x"
    using assms by (simp add: miss_fits_def)
  have "unat off mod 4096 \<le> unat off"
    by simp
  with assms have "unat off mod 4096 + unat len + 4095 < 18446744073709551616"
    by linarith
  note w = unat_window [OF this]
  have "unat (w_length ?w) < unat (w_head ?w) + unat len + 4096"
    unfolding w using div_times_less_eq_dividend [of "unat off mod 4096 + unat len + 4095" 4096] by linarith
  with window_fits [OF fits] show ?thesis
    by (simp add: w(1,3))
qed

theorem aligned_window_covers_witness:
  "unat (w_offset (aligned_window 5000 3192)) + unat (w_head (aligned_window 5000 3192)) = unat (5000 :: u64) \<and>
   unat (w_length (aligned_window 5000 3192)) = 4096"
  using aligned_window_covers [of 5000 3192] by (simp add: aligned_window_def round_up_def k_align_def)

text \<open>
  An inline read that returns a pointer has the row behind it, byte for byte, and changed nothing but its slot:
  buffered or through the aligned window, over a \<open>pread\<close> that may be interrupted, return less, or fail.
\<close>

theorem inline_reads_row:
  assumes "pread_spec pread file fsize" "miss_fits row x"
    and "inline_read (read_at pread) unbuffered row h k x m = Some (Some p, k', m')"
  shows "(\<forall>i < unat row. m' (p + of_nat i) = file h (miss_offset x + of_nat i)) \<and> (\<forall>a. a \<in> slot_addrs row x \<or> m' a = m a)"
proof -
  have inline: "strategy (inline_reads (read_at pread) unbuffered row h) row (file h) (\<lambda>_. True) (miss_fits row)"
    by (rule inline_strategy [OF read_at_posix_ok [OF assms(1)]])
  have "inline_reads (read_at pread) unbuffered row h x m (Some p) m'"
    using assms(3) by (auto simp: inline_reads_def)
  with strategy.reads_exact [OF inline assms(2)] strategy.reads_frame [OF inline assms(2)] show ?thesis
    by blast
qed

text \<open>Four bytes at offset 1 of the direct file of six, whose last sector is short.\<close>

theorem inline_reads_row_witness:
  "\<exists>m'. inline_read (read_at demo_pread) True 4 4 0 \<lparr>miss_offset = 1, miss_slot = 8192\<rparr> (\<lambda>_. 0) = Some (Some 8193, 3, m') \<and>
     m' (8193 + of_nat 3) = demo_file 4 (1 + of_nat 3)"
proof -
  let ?x = "\<lparr>miss_offset = 1, miss_slot = 8192\<rparr>"
  have "map_option (\<lambda>(got, k, m'). (got, k)) (inline_read (read_at demo_pread) True 4 4 0 ?x (\<lambda>_. 0)) = Some (Some 8193, 3)"
    by code_simp
  then obtain m' where ret: "inline_read (read_at demo_pread) True 4 4 0 ?x (\<lambda>_. 0) = Some (Some 8193, 3, m')"
    by auto
  have fits: "miss_fits 4 ?x"
    by (simp add: miss_fits_def)
  have "\<forall>i < unat (4 :: u64). m' (8193 + of_nat i) = demo_file 4 (1 + of_nat i)"
    using inline_reads_row [OF demo_pread_spec fits ret] by simp
  then have "m' (8193 + of_nat 3) = demo_file 4 (1 + of_nat 3)"
    by (rule allE [of _ 3]) simp
  with ret show ?thesis
    by blast
qed

text \<open>
  C36: the copy by non-temporal stores, in blocks of 64 bytes and a rest, ends and leaves exactly the memory that
  \<open>memcpy\<close> leaves, for every length and every alignment of the source, into a destination that is 16-byte aligned
  and does not overlap the source. Into any other destination it faults, unless there is no whole block to store.
\<close>

theorem nt_copy_is_memcpy:
  assumes "unat n + 64 < 18446744073709551616" "bytes_at src (unat n) \<inter> bytes_at dst (unat n) = {}"
  shows "nt_copy dst src n m = (if unat dst mod 16 = 0 \<or> unat n < 64 then Some (memcpy dst src (unat n) m) else None)"
  using assms by (rule nt_copy_memcpy)

lemma bytes_at_span: "bytes_at p n = span_addrs \<lparr>span_data = p, span_size = of_nat n\<rparr>" if "n < 18446744073709551616"
  using that by (simp add: bytes_at_def span_addrs_def)

theorem nt_copy_is_memcpy_witness:
  "nt_copy 4096 8197 70 (\<lambda>a. ucast a) = Some (memcpy 4096 8197 (unat (70 :: u64)) (\<lambda>a. ucast a)) \<and>
   nt_copy 4104 8197 70 (\<lambda>a. ucast a) = None"
proof -
  let ?s = "\<lparr>span_data = 0, span_size = 0\<rparr> :: span"
  have "span_addrs (subspan ?s 8197 70) \<inter> span_addrs (subspan ?s dst 70) = {}" if "dst = 4096 \<or> dst = 4104" for dst
    using that by (intro subspan_disjoint) auto
  then have "bytes_at 8197 (unat (70 :: u64)) \<inter> bytes_at 4096 (unat (70 :: u64)) = {}"
    "bytes_at 8197 (unat (70 :: u64)) \<inter> bytes_at 4104 (unat (70 :: u64)) = {}"
    by (simp_all add: bytes_at_span subspan_def)
  note copies = nt_copy_is_memcpy [OF _ this(1)] nt_copy_is_memcpy [OF _ this(2)]
  show ?thesis
    using copies by simp
qed

end
