(* ===== verification/Shootout_Driver.thy ===== *)
theory Shootout_Driver
  imports Shootout_Read
begin

text \<open>
  The driver of the read shootout, \<open>src/tools/read_shootout/read_shootout.cpp\<close>: the checksum, the generated file, the
  rows and slots of the misses, the measured run of a strategy and the verification of its samples.
\<close>

section \<open>The checksum\<close>

definition fnv_step :: "u64 \<Rightarrow> byte \<Rightarrow> u64" where
  "fnv_step h b = (h XOR ucast b) * 1099511628211"

definition fnv1a :: "memory \<Rightarrow> u64 \<Rightarrow> u64 \<Rightarrow> u64" where
  "fnv1a m p n = foldl (\<lambda>h i. fnv_step h (m (p + of_nat i))) 1469598103934665603 [0..<unat n]"

section \<open>The generated file\<close>

definition xorshift :: "u64 \<Rightarrow> u64" where
  "xorshift x =
     (let x = x XOR push_bit 13 x;
          x = x XOR drop_bit 7 x
      in x XOR push_bit 17 x)"

fun fill_block :: "nat \<Rightarrow> u64 \<Rightarrow> u64 list \<times> u64" where
  "fill_block 0 x = ([], x)"
| "fill_block (Suc n) x = (let x = xorshift x; (vs, x') = fill_block n x in (x # vs, x'))"

text \<open>
  \<open>ensure_file\<close>: \<open>existing\<close> is the size of the file, where there is one. It is kept, or \<open>blocks\<close> of \<open>block_words\<close>
  words are written, which the code fixes at a mebibyte each.
\<close>

fun write_blocks :: "nat \<Rightarrow> nat \<Rightarrow> u64 \<Rightarrow> u64 list" where
  "write_blocks block_words 0 x = []"
| "write_blocks block_words (Suc n) x =
     (let (block, x) = fill_block block_words x in block @ write_blocks block_words n x)"

definition ensure_file :: "u64 \<Rightarrow> u64 option \<Rightarrow> u64 list option" where
  "ensure_file file_mib existing =
     (let want = push_bit 20 file_mib in
      case existing of
        Some bytes \<Rightarrow>
          if bytes \<ge> want then None else Some (write_blocks 131072 (unat want div 1048576) 0x9E3779B97F4A7C15)
      | None \<Rightarrow> Some (write_blocks 131072 (unat want div 1048576) 0x9E3779B97F4A7C15))"

section \<open>Rows and slots\<close>

definition shoot_rows :: "u64 \<Rightarrow> u64 \<Rightarrow> int" where
  "shoot_rows file_bytes row = sint (ucast ((file_bytes - 2 * k_align) div row) :: 32 word)"

definition shoot_misses :: "int \<Rightarrow> u64 \<Rightarrow> u64 \<Rightarrow> int" where
  "shoot_misses misses file_bytes row = min misses (shoot_rows file_bytes row)"

definition shoot_stride :: "u64 \<Rightarrow> u64" where
  "shoot_stride row = round_up (row + 2 * k_align) k_align"

definition k_slots :: nat where
  "k_slots = 8"

text \<open>\<open>order\<close> is the shuffled sequence of the rows.\<close>

definition shoot_miss :: "u64 \<Rightarrow> u64 \<Rightarrow> nat list \<Rightarrow> nat \<Rightarrow> miss" where
  "shoot_miss slots row order i =
     \<lparr>miss_offset = of_nat (order ! i) * row, miss_slot = slots + shoot_stride row * of_nat (i mod k_slots)\<rparr>"

section \<open>The measured run\<close>

text \<open>
  What the driver does with the results of the reads: a failed read ends the program, every
  \<open>verify_every\<close>-th row is checksummed in the memory that its read left.
\<close>

datatype shoot_failure = Read_Failed nat | Wrong_Bytes nat

fun measured_run ::
    "u64 \<Rightarrow> nat \<Rightarrow> nat list \<Rightarrow> nat \<Rightarrow> (u64 option \<times> memory) list \<Rightarrow> shoot_failure + (nat \<times> u64) list" where
  "measured_run row verify_every order i [] = Inr []"
| "measured_run row verify_every order i ((got, m) # results) =
     (case got of
        None \<Rightarrow> Inl (Read_Failed i)
      | Some p \<Rightarrow>
          (case measured_run row verify_every order (i + 1) results of
             Inl e \<Rightarrow> Inl e
           | Inr sampled \<Rightarrow>
               Inr (if i mod verify_every = 0 then (order ! i, fnv1a m p row) # sampled else sampled)))"

text \<open>The independent read of one sampled row, buffered or through its aligned window.\<close>

definition check_sample ::
    "read_at_fn \<Rightarrow> bool \<Rightarrow> handle \<Rightarrow> u64 \<Rightarrow> u64 \<Rightarrow> nat \<times> u64 \<Rightarrow> nat \<Rightarrow> memory \<Rightarrow> (bool \<times> nat \<times> memory) option" where
  "check_sample rd direct h buffer row sample k m =
     (let (r, sum) = sample;
          offset = of_nat r * row;
          w = aligned_window offset row;
          checked = (if direct then buffer + w_head w else buffer)
      in map_option (\<lambda>(read_ok, k, m). (read_ok \<and> fnv1a m checked row = sum, k, m))
           (if direct then map_option (\<lambda>(got, k, m). (got = w_length w, k, m)) (rd k h buffer (w_length w) (w_offset w) m)
            else map_option (\<lambda>(got, k, m). (got = row, k, m)) (rd k h buffer row offset m)))"

text \<open>The result is what ended the program, if anything, the number of calls and the memory.\<close>

fun verify_samples ::
    "read_at_fn \<Rightarrow> bool \<Rightarrow> handle \<Rightarrow> u64 \<Rightarrow> u64 \<Rightarrow> (nat \<times> u64) list \<Rightarrow> nat \<Rightarrow> memory
       \<Rightarrow> (shoot_failure option \<times> nat \<times> memory) option" where
  "verify_samples rd direct h buffer row [] k m = Some (None, k, m)"
| "verify_samples rd direct h buffer row (sample # samples) k m =
     (case check_sample rd direct h buffer row sample k m of
        None \<Rightarrow> None
      | Some (ok, k, m) \<Rightarrow>
          if ok then verify_samples rd direct h buffer row samples k m else Some (Some (Wrong_Bytes (fst sample)), k, m))"

section \<open>Checksums tell single bytes apart\<close>

definition fnv_row :: "(nat \<Rightarrow> byte) \<Rightarrow> nat \<Rightarrow> u64" where
  "fnv_row f n = foldl (\<lambda>h i. fnv_step h (f i)) 1469598103934665603 [0..<n]"

lemma fnv1a_row: "fnv1a m p n = fnv_row (\<lambda>i. m (p + of_nat i)) (unat n)"
  by (simp add: fnv1a_def fnv_row_def)

lemma fnv_row_Suc: "fnv_row f (Suc n) = fnv_step (fnv_row f n) (f n)"
  by (simp add: fnv_row_def)

lemma fnv_row_cong: "(\<And>i. i < n \<Longrightarrow> f i = g i) \<Longrightarrow> fnv_row f n = fnv_row g n"
  by (induction n) (simp_all add: fnv_row_def)

lemma times_prime_inj:
  fixes x y :: u64
  assumes "x * 1099511628211 = y * 1099511628211"
  shows "x = y"
proof -
  have "1099511628211 * 14886173955864302971 = (1 :: u64)"
    by simp
  then have "z = z * 1099511628211 * 14886173955864302971" for z :: u64
    by (simp only: mult.assoc mult_1_right)
  with assms show ?thesis by metis
qed

lemma xor_left_cancel: "(x :: u64) XOR z = y XOR z \<longleftrightarrow> x = y"
proof
  assume "x XOR z = y XOR z"
  then have "(x XOR z) XOR z = (y XOR z) XOR z" by simp
  then show "x = y" by (simp add: xor.assoc)
qed simp

lemma ucast_byte_inj: "(ucast (b :: byte) :: u64) = ucast c \<longleftrightarrow> b = c"
proof
  assume "(ucast b :: u64) = ucast c"
  then have "unat (ucast b :: u64) = unat (ucast c :: u64)" by simp
  moreover have "unat b < 2 ^ LENGTH(8)" "unat c < 2 ^ LENGTH(8)"
    by (rule unsigned_less)+
  ultimately show "b = c"
    by (simp add: unsigned_ucast_eq take_bit_nat_eq_self word_unat_eq_iff del: unsigned_less)
qed simp

lemma times_prime_cancel: "(x :: u64) * 1099511628211 = y * 1099511628211 \<longleftrightarrow> x = y"
  using times_prime_inj by blast

lemma fnv_step_inj: "fnv_step h b = fnv_step h' b \<longleftrightarrow> h = h'" "fnv_step h b = fnv_step h c \<longleftrightarrow> b = c"
  unfolding fnv_step_def times_prime_cancel
  by (rule xor_left_cancel) (simp only: xor.commute [of h] xor_left_cancel ucast_byte_inj)

text \<open>Two rows that differ in one byte have different checksums.\<close>

lemma fnv_row_one_byte:
  assumes "j < n" "f j \<noteq> g j" "\<And>i. i < n \<Longrightarrow> i \<noteq> j \<Longrightarrow> f i = g i"
  shows "fnv_row f n \<noteq> fnv_row g n"
  using assms
proof (induction n)
  case (Suc n)
  show ?case
  proof (cases "j = n")
    case True
    with Suc.prems have "fnv_row f n = fnv_row g n"
      by (intro fnv_row_cong) simp
    with Suc.prems True show ?thesis
      by (simp add: fnv_row_Suc fnv_step_inj(2))
  next
    case False
    with Suc.prems Suc.IH have "fnv_row f n \<noteq> fnv_row g n" "f n = g n"
      by simp_all
    then show ?thesis
      by (simp add: fnv_row_Suc fnv_step_inj(1))
  qed
qed simp

section \<open>The verification\<close>

text \<open>
  A positional read of bytes that the file has brings all of them, or it ends where its last call of \<open>pread\<close> failed.
\<close>

lemma read_at_outcome:
  assumes spec: "pread_spec pread file fsize" and fair: "pread_fair pread"
    and inside: "unat off + unat len \<le> fsize h"
  obtains got k' m' where "read_at pread k h dst len off m = Some (got, k', m')"
    "bytes_read (file h) dst off 0 (unat got) m m'"
    "got = len \<or> unat got < unat len \<and> (\<exists>n. pread_fails_at pread (k' - 1) h (unat off + unat got) n)"
proof -
  let ?att = "read_at_attempt pread h off"
  note ok = read_at_attempt_ok [OF spec, of h off]
  have "\<exists>j \<ge> k. ?att j filled remaining \<noteq> Again" for k filled remaining
    using fair unfolding pread_fair_def read_at_attempt_def
    by (auto split: pread_outcome.split) (metis pread_outcome.distinct(1,3))
  then have "attempt_fair ?att"
    by (simp add: attempt_fair_def)
  from fill_loop_returns [OF ok this] obtain got status k' m' where
      run: "fill_loop ?att dst k 0 len Ok m = Some (got, status, k', m')"
    by (metis prod_cases4)
  have post: "loop_post (file h) (fsize h) (read_at_stops pread h) dst off 0 len Ok m (got, status, k', m')"
    using fill_loop_post [OF ok run] by (simp add: unat_lt_64)
  have "got = len \<or> unat got < unat len \<and> (\<exists>n. pread_fails_at pread (k' - 1) h (unat off + unat got) n)"
  proof (cases "unat got = unat len")
    case True
    then show ?thesis
      using u64_eqI by blast
  next
    case False
    then have "unat got < unat len"
      using post by (simp add: loop_post_def)
    with post inside show ?thesis
      by (auto simp: loop_post_def read_at_stops_def)
  qed
  with post run show thesis
    by (intro that [of got k' m']) (simp_all add: read_at_def loop_post_def)
qed

abbreviation row_sum :: "(u64 \<Rightarrow> byte) \<Rightarrow> u64 \<Rightarrow> nat \<Rightarrow> u64" where
  "row_sum content row r \<equiv> fnv_row (\<lambda>i. content (of_nat r * row + of_nat i)) (unat row)"

definition row_inside :: "u64 \<Rightarrow> nat \<Rightarrow> nat \<Rightarrow> bool" where
  "row_inside row fsize r \<longleftrightarrow> unat (of_nat r * row) + unat row + 8192 \<le> fsize"

text \<open>
  The call of \<open>pread\<close> with number \<open>k\<close> fails inside the bytes that the verification reads for row \<open>r\<close>: the row or its
  window.
\<close>

definition reference_fails :: "pread_fn \<Rightarrow> bool \<Rightarrow> handle \<Rightarrow> u64 \<Rightarrow> nat \<Rightarrow> nat \<Rightarrow> bool" where
  "reference_fails pread direct h row r k \<longleftrightarrow>
     (let offset = of_nat r * row;
          w = aligned_window offset row;
          (start, len) = if direct then (w_offset w, w_length w) else (offset, row)
      in \<exists>p n. unat start \<le> p \<and> p < unat start + unat len \<and> pread_fails_at pread k h p n)"

lemma check_sample_outcome:
  fixes sum :: u64
  assumes spec: "pread_spec pread file fsize" and fair: "pread_fair pread" and inside: "row_inside row (fsize h) r"
  obtains k' m' verified where
    "check_sample (read_at pread) direct h buffer row (r, sum) k m = Some (verified, k', m')"
    "verified \<Longrightarrow> row_sum (file h) row r = sum"
    "\<not> verified \<Longrightarrow> row_sum (file h) row r \<noteq> sum \<or> reference_fails pread direct h row r (k' - 1)"
proof (cases direct)
  case False
  have "unat (of_nat r * row) + unat row \<le> fsize h"
    using inside by (simp add: row_inside_def)
  from read_at_outcome [OF spec fair this, of k buffer m] obtain got k' m' where
      run: "read_at pread k h buffer row (of_nat r * row) m = Some (got, k', m')"
      and read: "bytes_read (file h) buffer (of_nat r * row) 0 (unat got) m m'"
      and out: "got = row \<or> unat got < unat row \<and> (\<exists>n. pread_fails_at pread (k' - 1) h (unat (of_nat r * row) + unat got) n)"
    by blast
  have "fnv1a m' buffer row = row_sum (file h) row r" if "got = row"
    unfolding fnv1a_row using that read by (intro fnv_row_cong) (auto dest: bytes_readD(1))
  moreover have "reference_fails pread direct h row r (k' - 1)" if "got \<noteq> row"
    using out that False nat_add_left_cancel_less le_add1 unfolding reference_fails_def Let_def if_not_P [OF False] prod.case
    by metis
  ultimately show thesis
    using False run
    by (intro that [of "got = row \<and> fnv1a m' buffer row = sum" k' m']) (auto simp: check_sample_def Let_def)
next
  case True
  let ?x = "\<lparr>miss_offset = of_nat r * row, miss_slot = buffer\<rparr>"
  let ?w = "aligned_window (of_nat r * row) row"
  have "fsize h < 18446744073709551616"
    using spec by (simp add: pread_spec_def)
  then have fits: "miss_fits row ?x"
    using inside by (simp add: miss_fits_def row_inside_def)
  note w = window_fits [OF fits, simplified]
  have "unat (w_offset ?w) + unat (w_length ?w) \<le> fsize h"
    using w(3,6) inside unfolding row_inside_def by linarith
  from read_at_outcome [OF spec fair this, of k buffer m] obtain got k' m' where
      run: "read_at pread k h buffer (w_length ?w) (w_offset ?w) m = Some (got, k', m')"
      and read: "bytes_read (file h) buffer (w_offset ?w) 0 (unat got) m m'"
      and out: "got = w_length ?w \<or>
        unat got < unat (w_length ?w) \<and> (\<exists>n. pread_fails_at pread (k' - 1) h (unat (w_offset ?w) + unat got) n)"
    by blast
  have "fnv1a m' (buffer + w_head ?w) row = row_sum (file h) row r" if "got = w_length ?w"
  proof -
    have "m' (buffer + w_head ?w + of_nat i) = file h (of_nat r * row + of_nat i)" if "i < unat row" for i
      using bytes_readD(1) [OF read, of "unat (w_head ?w) + i"] \<open>got = w_length ?w\<close> that w(2,5)
      by (simp add: add.assoc [symmetric])
    then show ?thesis
      unfolding fnv1a_row by (rule fnv_row_cong)
  qed
  moreover have "reference_fails pread direct h row r (k' - 1)" if "got \<noteq> w_length ?w"
    using out that nat_add_left_cancel_less le_add1 unfolding reference_fails_def Let_def if_P [OF True] prod.case
    by metis
  ultimately show thesis
    using True run
    by (intro that [of "got = w_length ?w \<and> fnv1a m' (buffer + w_head ?w) row = sum" k' m'])
      (auto simp: check_sample_def Let_def)
qed

text \<open>
  The verification ends with the first sample that it does not accept; that sample is wrong, or the last call of
  its reference read failed.
\<close>

definition verify_outcome ::
    "pread_fn \<Rightarrow> bool \<Rightarrow> handle \<Rightarrow> (u64 \<Rightarrow> byte) \<Rightarrow> u64 \<Rightarrow> (nat \<times> u64) list \<Rightarrow> shoot_failure option \<Rightarrow> nat \<Rightarrow> bool" where
  "verify_outcome pread direct h content row samples outcome k' \<longleftrightarrow>
     (if outcome = None then \<forall>(r, sum) \<in> set samples. row_sum content row r = sum
      else \<exists>good r sum rest. outcome = Some (Wrong_Bytes r) \<and> samples = good @ (r, sum) # rest \<and>
        (\<forall>(r, sum) \<in> set good. row_sum content row r = sum) \<and>
        (row_sum content row r \<noteq> sum \<or> reference_fails pread direct h row r (k' - 1)))"

lemma verify_outcome_Cons:
  assumes "row_sum content row r = s" "verify_outcome pread direct h content row samples outcome k'"
  shows "verify_outcome pread direct h content row ((r, s) # samples) outcome k'"
proof (cases outcome)
  case None
  with assms show ?thesis
    by (simp add: verify_outcome_def)
next
  case (Some failure)
  then obtain good r' s' rest where wrong: "failure = Wrong_Bytes r'" "samples = good @ (r', s') # rest"
      "\<forall>(r, sum) \<in> set good. row_sum content row r = sum"
      "row_sum content row r' \<noteq> s' \<or> reference_fails pread direct h row r' (k' - 1)"
    using assms(2) by (auto simp: verify_outcome_def)
  then show ?thesis
    unfolding verify_outcome_def Some using assms(1)
    by simp (intro exI [of _ "(r, s) # good"] exI [of _ s'] exI [of _ rest], simp)
qed

lemma verify_samples_outcome:
  assumes "pread_spec pread file fsize" "pread_fair pread"
    and "\<forall>(r, sum) \<in> set samples. row_inside row (fsize h) r"
  obtains outcome k' m' where "verify_samples (read_at pread) direct h buffer row samples k m = Some (outcome, k', m')"
    "verify_outcome pread direct h (file h) row samples outcome k'"
proof -
  have "\<exists>outcome k' m'. verify_samples (read_at pread) direct h buffer row samples k m = Some (outcome, k', m') \<and>
      verify_outcome pread direct h (file h) row samples outcome k'"
    using assms(3)
  proof (induction samples arbitrary: k m)
    case (Cons sample samples)
    obtain r s where sample: "sample = (r, s)" by (cases sample)
    with Cons.prems have "row_inside row (fsize h) r" by simp
    from check_sample_outcome [OF assms(1,2) this, of direct buffer s k m] obtain k1 m1 verified where
        check: "check_sample (read_at pread) direct h buffer row (r, s) k m = Some (verified, k1, m1)"
        and good: "verified \<Longrightarrow> row_sum (file h) row r = s"
        and bad: "\<not> verified \<Longrightarrow> row_sum (file h) row r \<noteq> s \<or> reference_fails pread direct h row r (k1 - 1)"
      by blast
    show ?case
    proof (cases verified)
      case False
      have "verify_outcome pread direct h (file h) row ((r, s) # samples) (Some (Wrong_Bytes r)) k1"
        unfolding verify_outcome_def using bad [OF False]
        by (intro if_not_P [THEN iffD2] exI [of _ "[]"] exI [of _ r] exI [of _ s] exI [of _ samples]) simp_all
      with False check show ?thesis
        by (simp add: sample)
    next
      case True
      obtain outcome k' m' where rest: "verify_samples (read_at pread) direct h buffer row samples k1 m1 = Some (outcome, k', m')"
          and out: "verify_outcome pread direct h (file h) row samples outcome k'"
        using Cons.IH [of k1 m1] Cons.prems by auto
      with True check rest verify_outcome_Cons [where content = "file h", OF good [OF True] out] show ?thesis
        by (simp add: sample)
    qed
  qed (simp add: verify_outcome_def)
  then show thesis
    using that by blast
qed

lemma verify_outcomeD:
  assumes "verify_outcome pread direct h content row samples outcome k'"
  shows "outcome = None \<Longrightarrow> (r, s) \<in> set samples \<Longrightarrow> row_sum content row r = s"
    "outcome \<noteq> None \<Longrightarrow> \<exists>r s. outcome = Some (Wrong_Bytes r) \<and> (r, s) \<in> set samples \<and>
       (row_sum content row r \<noteq> s \<or> reference_fails pread direct h row r (k' - 1))"
  using assms by (fastforce simp: verify_outcome_def)+

section \<open>A strategy under the driver\<close>

text \<open>Reads one after the other, with the memory between them.\<close>

fun read_chain ::
    "(miss \<Rightarrow> memory \<Rightarrow> u64 option \<Rightarrow> memory \<Rightarrow> bool) \<Rightarrow> (nat \<Rightarrow> miss) \<Rightarrow> nat \<Rightarrow> memory
       \<Rightarrow> (u64 option \<times> memory) list \<Rightarrow> bool" where
  "read_chain reads miss_of i m [] = True"
| "read_chain reads miss_of i m ((got, m') # results) =
     (reads (miss_of i) m got m' \<and> read_chain reads miss_of (i + 1) m' results)"

context strategy
begin

lemma measured_exact:
  assumes "valid m" "read_chain reads miss_of i m results"
    and "\<And>j. i \<le> j \<Longrightarrow> j < i + length results \<Longrightarrow> able (miss_of j) \<and> miss_offset (miss_of j) = of_nat (order ! j) * row"
    and "measured_run row verify_every order i results = Inr sampled"
  shows "\<forall>(r, sum) \<in> set sampled. row_sum content row r = sum"
  using assms
proof (induction results arbitrary: i m sampled)
  case (Cons result results)
  obtain p m' rest where result: "result = (Some p, m')"
      and rest: "measured_run row verify_every order (i + 1) results = Inr rest"
      and sampled: "sampled = (if i mod verify_every = 0 then (order ! i, fnv1a m' p row) # rest else rest)"
    using Cons.prems(4) by (cases result) (auto split: option.splits sum.splits)
  have able: "able (miss_of i)" "miss_offset (miss_of i) = of_nat (order ! i) * row"
    using Cons.prems(3) [of i] by simp_all
  have reads: "reads (miss_of i) m (Some p) m'" and chain: "read_chain reads miss_of (i + 1) m' results"
    using Cons.prems(2) by (simp_all add: result)
  have "fnv1a m' p row = row_sum content row (order ! i)"
    unfolding fnv1a_row using reads_exact [OF able(1) Cons.prems(1) reads] by (intro fnv_row_cong) (simp add: able(2))
  moreover have "\<forall>(r, sum) \<in> set rest. row_sum content row r = sum"
    using Cons.IH [OF reads_valid [OF able(1) Cons.prems(1) reads] chain _ rest] Cons.prems(3) by auto
  ultimately show ?case
    by (simp add: sampled)
qed simp

end

end
