(* ===== verification/Shootout_Options.thy ===== *)
theory Shootout_Options
  imports Mem_Prelude
begin

text \<open>
  The command line of the read shootout, \<open>src/tools/read_shootout/read_shootout.cpp\<close>: its options, and the strategies
  that they choose.
\<close>

section \<open>Numbers\<close>

text \<open>
  \<open>std::stoull\<close>, \<open>std::stoul\<close> and \<open>std::stoi\<close>, with a 64-bit \<open>unsigned long\<close>: white space and a sign are skipped, what follows
  the digits is ignored, and a negated unsigned number wraps. Their exceptions end the program, as every
  other refusal of the command line does.
\<close>

datatype option_error =
  Missing_Value string | Unknown_Argument string | Not_Positive | Invalid_Number | Number_Out_Of_Range

definition is_space :: "char \<Rightarrow> bool" where
  "is_space c = (let n = of_char c :: nat in n = 32 \<or> 9 \<le> n \<and> n \<le> 13)"

definition digit :: "char \<Rightarrow> nat option" where
  "digit c = (let n = of_char c :: nat in if 48 \<le> n \<and> n \<le> 57 then Some (n - 48) else None)"

definition decimal :: "string \<Rightarrow> nat option" where
  "decimal s =
     (let ds = takeWhile (\<lambda>c. digit c \<noteq> None) s in
      if ds = [] then None else Some (foldl (\<lambda>v c. 10 * v + the (digit c)) 0 ds))"

definition signed_decimal :: "string \<Rightarrow> (bool \<times> nat) option" where
  "signed_decimal s =
     (case dropWhile is_space s of
        [] \<Rightarrow> None
      | c # cs \<Rightarrow>
          if c = CHR ''-'' then map_option (Pair True) (decimal cs)
          else if c = CHR ''+'' then map_option (Pair False) (decimal cs)
          else map_option (Pair False) (decimal (c # cs)))"

definition stoull :: "string \<Rightarrow> option_error + u64" where
  "stoull s =
     (case signed_decimal s of
        None \<Rightarrow> Inl Invalid_Number
      | Some (negative, n) \<Rightarrow>
          if n \<ge> 18446744073709551616 then Inl Number_Out_Of_Range
          else Inr (if negative then - of_nat n else of_nat n))"

definition stoi :: "string \<Rightarrow> option_error + int" where
  "stoi s =
     (case signed_decimal s of
        None \<Rightarrow> Inl Invalid_Number
      | Some (negative, n) \<Rightarrow>
          let v = (if negative then - int n else int n) in
          if v < -2147483648 \<or> v > 2147483647 then Inl Number_Out_Of_Range else Inr v)"

section \<open>Options\<close>

datatype gap = Gap_None | Gap_Busy | Gap_Sleep

record shoot_options =
  so_file :: string
  so_file_mib :: u64
  so_row_bytes :: u64
  so_chunk_bytes :: u64
  so_readers :: "32 word"
  so_misses :: int
  so_rounds :: int
  so_gap :: gap
  so_gap_us :: int
  so_cold :: bool
  so_load_threads :: "32 word"
  so_verify_every :: int
  so_only :: string
  so_list :: bool
  so_pin :: bool
  so_direct_session :: bool

definition default_options :: "string \<Rightarrow> shoot_options" where
  "default_options file =
     \<lparr>so_file = file, so_file_mib = 256, so_row_bytes = 1766400, so_chunk_bytes = 256 * 1024, so_readers = 8,
      so_misses = 100, so_rounds = 2, so_gap = Gap_Busy, so_gap_us = 2800, so_cold = False, so_load_threads = 0,
      so_verify_every = 4, so_only = '''', so_list = False, so_pin = True, so_direct_session = False\<rparr>"

text \<open>The options that take a value, \<open>None\<close> for every other argument.\<close>

definition value_option :: "string \<Rightarrow> string \<Rightarrow> shoot_options \<Rightarrow> (option_error + shoot_options) option" where
  "value_option a v o' =
     (if a = ''--file'' then Some (Inr (o'\<lparr>so_file := v\<rparr>))
      else if a = ''--file-mib'' then Some (map_sum id (\<lambda>n. o'\<lparr>so_file_mib := n\<rparr>) (stoull v))
      else if a = ''--row-bytes'' then Some (map_sum id (\<lambda>n. o'\<lparr>so_row_bytes := n\<rparr>) (stoull v))
      else if a = ''--chunk-kib'' then Some (map_sum id (\<lambda>n. o'\<lparr>so_chunk_bytes := n * 1024\<rparr>) (stoull v))
      else if a = ''--readers'' then Some (map_sum id (\<lambda>n. o'\<lparr>so_readers := ucast n\<rparr>) (stoull v))
      else if a = ''--misses'' then Some (map_sum id (\<lambda>n. o'\<lparr>so_misses := n\<rparr>) (stoi v))
      else if a = ''--rounds'' then Some (map_sum id (\<lambda>n. o'\<lparr>so_rounds := n\<rparr>) (stoi v))
      else if a = ''--gap'' then
        Some (Inr (o'\<lparr>so_gap := (if v = ''none'' then Gap_None else if v = ''sleep'' then Gap_Sleep else Gap_Busy)\<rparr>))
      else if a = ''--gap-us'' then Some (map_sum id (\<lambda>n. o'\<lparr>so_gap_us := n\<rparr>) (stoi v))
      else if a = ''--load-threads'' then Some (map_sum id (\<lambda>n. o'\<lparr>so_load_threads := ucast n\<rparr>) (stoull v))
      else if a = ''--verify-every'' then Some (map_sum id (\<lambda>n. o'\<lparr>so_verify_every := max 1 n\<rparr>) (stoi v))
      else if a = ''--only'' then Some (Inr (o'\<lparr>so_only := v\<rparr>))
      else None)"

definition takes_value :: "string \<Rightarrow> bool" where
  "takes_value a \<longleftrightarrow>
     a \<in> {''--file'', ''--file-mib'', ''--row-bytes'', ''--chunk-kib'', ''--readers'', ''--misses'', ''--rounds'', ''--gap'',
       ''--gap-us'', ''--load-threads'', ''--verify-every'', ''--only''}"

definition flag_option :: "string \<Rightarrow> shoot_options \<Rightarrow> shoot_options option" where
  "flag_option a o' =
     (if a = ''--cold'' then Some (o'\<lparr>so_cold := True\<rparr>)
      else if a = ''--list'' then Some (o'\<lparr>so_list := True\<rparr>)
      else if a = ''--no-pin'' then Some (o'\<lparr>so_pin := False\<rparr>)
      else if a = ''--direct-session'' then Some (o'\<lparr>so_direct_session := True\<rparr>)
      else None)"

fun parse_arguments :: "shoot_options \<Rightarrow> string list \<Rightarrow> option_error + shoot_options" where
  "parse_arguments o' [] = Inr o'"
| "parse_arguments o' (a # rest) =
     (if takes_value a then
        (case rest of
           [] \<Rightarrow> Inl (Missing_Value a)
         | v # rest \<Rightarrow>
             (case value_option a v o' of
                Some (Inr o') \<Rightarrow> parse_arguments o' rest
              | Some (Inl e) \<Rightarrow> Inl e
              | None \<Rightarrow> Inl (Unknown_Argument a)))
      else case flag_option a o' of
        Some o' \<Rightarrow> parse_arguments o' rest
      | None \<Rightarrow> Inl (Unknown_Argument a))"

text \<open>\<open>parse\<close>, given the default file and the arguments after the program's name.\<close>

definition shoot_parse :: "string \<Rightarrow> string list \<Rightarrow> option_error + shoot_options" where
  "shoot_parse file arguments =
     (case parse_arguments (default_options file) arguments of
        Inl e \<Rightarrow> Inl e
      | Inr o' \<Rightarrow>
          if so_row_bytes o' = 0 \<or> so_readers o' = 0 \<or> so_misses o' \<le> 0 \<or> so_rounds o' \<le> 0 then Inl Not_Positive
          else Inr o')"

section \<open>The strategies chosen\<close>

definition strategy_names :: "bool \<Rightarrow> bool \<Rightarrow> string list" where
  "strategy_names windows ioring =
     [''naive-fread'', ''inline-pread'', ''inline-unbuffered'', ''pool-pread'', ''pool-unbuffered''] @
     (if windows then [''iocp-unbuffered''] else []) @
     [''mempage'', ''mempage-unbuffered''] @
     (if ioring then [''ioring'', ''ioring-unbuffered''] else []) @
     [''map-copy'', ''map-prefetch-copy'', ''map-ntcopy'', ''map-touch'']"

text \<open>\<open>std::string::find\<close>, as a question.\<close>

fun str_contains :: "string \<Rightarrow> string \<Rightarrow> bool" where
  "str_contains [] needle \<longleftrightarrow> needle = []"
| "str_contains (c # cs) needle \<longleftrightarrow> take (length needle) (c # cs) = needle \<or> str_contains cs needle"

datatype choice_error = No_Strategy | Direct_Needs_Cold | Direct_Needs_Unbuffered

definition choose_strategies :: "shoot_options \<Rightarrow> string list \<Rightarrow> choice_error + string list" where
  "choose_strategies o' names =
     (let chosen = filter (\<lambda>name. so_only o' = '''' \<or> str_contains ('','' @ so_only o' @ '','') ('','' @ name @ '','')) names in
      if chosen = [] then Inl No_Strategy
      else if so_direct_session o' \<and> \<not> so_cold o' then Inl Direct_Needs_Cold
      else if so_direct_session o' \<and> \<not> list_all (\<lambda>name. str_contains name ''unbuffered'') chosen then Inl Direct_Needs_Unbuffered
      else Inr chosen)"

section \<open>Lists separated by commas\<close>

fun split_commas :: "string \<Rightarrow> string list" where
  "split_commas [] = [[]]"
| "split_commas (c # cs) =
     (if c = CHR '','' then [] # split_commas cs
      else case split_commas cs of [] \<Rightarrow> [[c]] | s # ss \<Rightarrow> (c # s) # ss)"

lemma split_commas_some: "split_commas s \<noteq> []"
  by (cases s) (auto split: list.split)

lemma split_commas_plain: "\<forall>s \<in> set (split_commas cs). CHR '','' \<notin> set s"
  by (induction cs) (auto split: list.splits)

lemma split_commas_concat: "CHR '','' # cs = concat (map ((#) CHR '','') (split_commas cs))"
proof (induction cs)
  case (Cons c cs)
  then show ?case
    using split_commas_some [of cs] by (auto split: list.split)
qed simp

lemma str_contains_skip:
  assumes "CHR '','' \<notin> set s"
  shows "str_contains (s @ hay) (CHR '','' # needle) = str_contains hay (CHR '','' # needle)"
  using assms by (induction s) auto

lemma take_comma:
  assumes "CHR '','' \<notin> set name" "CHR '','' \<notin> set s"
  shows "take (Suc (length name)) (s @ CHR '','' # rest) = name @ '','' \<longleftrightarrow> s = name"
proof
  assume *: "take (Suc (length name)) (s @ CHR '','' # rest) = name @ '',''"
  have "s @ CHR '','' # rest = take (Suc (length name)) (s @ CHR '','' # rest) @ drop (Suc (length name)) (s @ CHR '','' # rest)"
    by (simp only: append_take_drop_id)
  then have "s @ CHR '','' # rest = name @ CHR '','' # drop (Suc (length name)) (s @ CHR '','' # rest)"
    unfolding * by simp
  moreover have "takeWhile (\<lambda>c. c \<noteq> CHR '','') (s @ CHR '','' # t) = s" if "CHR '','' \<notin> set s" for s t
    using that by (induction s) auto
  ultimately show "s = name"
    using assms by metis
qed simp

lemma str_contains_segments:
  assumes "CHR '','' \<notin> set name" "\<forall>s \<in> set segments. CHR '','' \<notin> set s"
  shows "str_contains (concat (map ((#) CHR '','') segments) @ '','') ('','' @ name @ '','') \<longleftrightarrow> name \<in> set segments"
  using assms(2)
proof (induction segments)
  case (Cons s segments)
  obtain rest where rest: "concat (map ((#) CHR '','') segments) @ '','' = CHR '','' # rest"
    by (cases segments) auto
  have "str_contains (concat (map ((#) CHR '','') (s # segments)) @ '','') ('','' @ name @ '','') \<longleftrightarrow>
      s = name \<or> str_contains (s @ CHR '','' # rest) (CHR '','' # name @ '','')"
    using take_comma [OF assms(1), of s rest] Cons.prems by (simp add: rest)
  also have "\<dots> \<longleftrightarrow> s = name \<or> str_contains (concat (map ((#) CHR '','') segments) @ '','') ('','' @ name @ '','')"
    using Cons.prems by (subst str_contains_skip) (simp_all add: rest)
  finally show ?case
    using Cons by auto
qed simp

lemma str_contains_listed:
  assumes "CHR '','' \<notin> set name"
  shows "str_contains ('','' @ only @ '','') ('','' @ name @ '','') \<longleftrightarrow> name \<in> set (split_commas only)"
proof -
  have eq: "'','' @ only @ '','' = concat (map ((#) CHR '','') (split_commas only)) @ '',''"
    by (simp add: split_commas_concat [symmetric])
  show ?thesis
    unfolding eq by (rule str_contains_segments [OF assms split_commas_plain])
qed

lemma strategy_names_plain: "name \<in> set (strategy_names windows ioring) \<Longrightarrow> CHR '','' \<notin> set name"
  by (auto simp: strategy_names_def split: if_splits)

lemma value_option_some: "takes_value a \<Longrightarrow> value_option a v o' \<noteq> None"
  by (auto simp: takes_value_def value_option_def)

section \<open>Properties\<close>

definition options_in_range :: "shoot_options \<Rightarrow> bool" where
  "options_in_range o' \<longleftrightarrow>
     0 < unat (so_row_bytes o') \<and> 0 < unat (so_readers o') \<and> 0 < so_misses o' \<and> so_misses o' < 2 ^ 31 \<and>
     0 < so_rounds o' \<and> so_rounds o' < 2 ^ 31 \<and> - (2 ^ 31) \<le> so_gap_us o' \<and> so_gap_us o' < 2 ^ 31 \<and>
     1 \<le> so_verify_every o' \<and> so_verify_every o' < 2 ^ 31"

definition numbers_in_range :: "shoot_options \<Rightarrow> bool" where
  "numbers_in_range o' \<longleftrightarrow>
     so_misses o' < 2 ^ 31 \<and> so_rounds o' < 2 ^ 31 \<and> - (2 ^ 31) \<le> so_gap_us o' \<and> so_gap_us o' < 2 ^ 31 \<and>
     1 \<le> so_verify_every o' \<and> so_verify_every o' < 2 ^ 31"

lemma stoi_range: "stoi s = Inr v \<Longrightarrow> - (2 ^ 31) \<le> v \<and> v < 2 ^ 31"
  by (auto simp: stoi_def Let_def split: option.splits if_splits)

lemma map_sum_Inr: "map_sum id f x = Inr y \<longleftrightarrow> (\<exists>v. x = Inr v \<and> y = f v)"
  by (cases x) auto

definition keeps_range :: "(option_error + shoot_options) option \<Rightarrow> bool" where
  "keeps_range r \<longleftrightarrow> (\<forall>p. r = Some (Inr p) \<longrightarrow> numbers_in_range p)"

text \<open>A chain of tests, whatever they are.\<close>

lemma keeps_range_if: "keeps_range x \<Longrightarrow> keeps_range y \<Longrightarrow> keeps_range (if b then x else y)"
  by simp

lemma value_option_range: "numbers_in_range o' \<Longrightarrow> keeps_range (value_option a v o')"
  unfolding value_option_def
  by (intro keeps_range_if) (auto simp: keeps_range_def numbers_in_range_def map_sum_Inr dest!: stoi_range)

lemma flag_option_range: "numbers_in_range o' \<Longrightarrow> keeps_range (map_option Inr (flag_option a o'))"
  unfolding flag_option_def if_distrib [of "map_option Inr"]
  by (intro keeps_range_if) (auto simp: keeps_range_def numbers_in_range_def)

lemma parse_arguments_range:
  "parse_arguments o' arguments = Inr p \<Longrightarrow> numbers_in_range o' \<Longrightarrow> numbers_in_range p"
proof (induction o' arguments rule: parse_arguments.induct)
  case (2 o' a rest)
  show ?case
  proof (cases "takes_value a")
    case True
    with 2 value_option_range [OF 2(4), of a] show ?thesis
      by (auto simp: keeps_range_def split: list.splits option.splits sum.splits)
  next
    case False
    with 2 flag_option_range [OF 2(4), of a] show ?thesis
      by (auto simp: keeps_range_def split: option.splits)
  qed
qed simp

text \<open>
  C37: every accepted command line gives options in range: rows, readers, misses and rounds are positive, the signed
  numbers are 32-bit integers, and at least every \<open>verify_every\<close>-th row is verified, which is never zero.
\<close>

theorem parse_options_in_range:
  assumes "shoot_parse file arguments = Inr o'"
  shows "options_in_range o'"
proof -
  have "numbers_in_range (default_options file)"
    by (simp add: numbers_in_range_def default_options_def)
  with assms parse_arguments_range show ?thesis
    by (auto simp: shoot_parse_def options_in_range_def numbers_in_range_def unat_gt_0 split: sum.splits if_splits)
qed

theorem parse_options_in_range_witness:
  "\<exists>o'. shoot_parse ''f'' [''--misses'', '' +20x'', ''--cold'', ''--verify-every'', ''-3''] = Inr o' \<and> options_in_range o'"
proof -
  have "shoot_parse ''f'' [''--misses'', '' +20x'', ''--cold'', ''--verify-every'', ''-3'']
      = Inr ((default_options ''f'')\<lparr>so_misses := 20, so_cold := True, so_verify_every := 1\<rparr>)"
    by code_simp
  from parse_options_in_range [OF this] this show ?thesis
    by blast
qed

text \<open>
  \<open>--only\<close> selects exactly the strategies that its comma-separated list names, in the order of the tool, and all of
  them when it is empty; a direct session runs unbuffered strategies only.
\<close>

theorem only_selects_listed:
  "choose_strategies o' (strategy_names windows ioring) = Inr chosen \<longleftrightarrow>
     chosen = filter (\<lambda>name. so_only o' = '''' \<or> name \<in> set (split_commas (so_only o'))) (strategy_names windows ioring) \<and>
     chosen \<noteq> [] \<and>
     (if so_direct_session o' then so_cold o' \<and> list_all (\<lambda>name. str_contains name ''unbuffered'') chosen else True)"
proof -
  have "filter (\<lambda>name. so_only o' = '''' \<or> str_contains ('','' @ so_only o' @ '','') ('','' @ name @ '','')) (strategy_names windows ioring)
      = filter (\<lambda>name. so_only o' = '''' \<or> name \<in> set (split_commas (so_only o'))) (strategy_names windows ioring)"
    by (rule filter_cong [OF refl]) (use str_contains_listed strategy_names_plain in blast)
  then show ?thesis
    unfolding choose_strategies_def Let_def by auto
qed

end
