(* ===== verification/Shootout_Props.thy ===== *)
theory Shootout_Props
  imports Shootout_Driver Shootout_Options
begin

text \<open>
  What the driver of the read shootout guarantees: its reads stay inside the file and inside its slots, and no
  strategy that returns wrong bytes passes its verification.
\<close>

section \<open>The generated file\<close>

lemma push_bit_fixpoint:
  fixes x :: u64
  assumes "x = push_bit n x" "0 < n"
  shows "x = 0"
proof (rule bit_eqI)
  fix i
  have "\<not> bit x i"
  proof (induction i rule: less_induct)
    case (less i)
    have "bit x i = bit (push_bit n x) i"
      using assms(1) by simp
    with less [of "i - n"] assms(2) show ?case
      by (auto simp: bit_push_bit_iff)
  qed
  then show "bit x i = bit 0 i" by simp
qed

lemma drop_bit_fixpoint:
  fixes x :: u64
  assumes "x = drop_bit n x" "0 < n"
  shows "x = 0"
proof (rule bit_eqI)
  fix i
  have "\<not> bit x i"
  proof (induction "64 - i" arbitrary: i rule: less_induct)
    case less
    have "bit x i = bit (drop_bit n x) i"
      using assms(1) by simp
    moreover have "\<not> bit x (n + i)" if "i < 64"
      using that assms(2) by (intro less) linarith
    ultimately show ?case
      using bit_imp_le_length [of x i] by (auto simp: bit_drop_bit_eq)
  qed
  then show "bit x i = bit 0 i" by simp
qed

lemma xor_zero: "(x :: u64) XOR y = 0 \<longleftrightarrow> x = y"
  using xor_left_cancel [of x y y] by simp

lemma xor_push_nonzero: "x \<noteq> 0 \<Longrightarrow> 0 < n \<Longrightarrow> x XOR push_bit n x \<noteq> (0 :: u64)"
  using push_bit_fixpoint by (simp add: xor_zero) blast

lemma xor_drop_nonzero: "x \<noteq> 0 \<Longrightarrow> 0 < n \<Longrightarrow> x XOR drop_bit n x \<noteq> (0 :: u64)"
  using drop_bit_fixpoint by (simp add: xor_zero) blast

lemma xorshift_nonzero: "x \<noteq> 0 \<Longrightarrow> xorshift x \<noteq> 0"
  unfolding xorshift_def Let_def by (intro xor_push_nonzero xor_drop_nonzero) simp_all

lemma fill_block_nonzero: "x \<noteq> 0 \<Longrightarrow> 0 \<notin> set (fst (fill_block n x)) \<and> snd (fill_block n x) \<noteq> 0"
proof (induction n arbitrary: x)
  case (Suc n)
  from Suc.IH [OF xorshift_nonzero [OF Suc.prems]] xorshift_nonzero [OF Suc.prems] show ?case
    by (auto simp: Let_def split: prod.split)
qed simp

lemma fill_block_length: "length (fst (fill_block n x)) = n"
  by (induction n arbitrary: x) (auto simp: Let_def split: prod.split, metis fst_conv)

lemma write_blocks_nonzero: "x \<noteq> 0 \<Longrightarrow> 0 \<notin> set (write_blocks words n x)"
proof (induction n arbitrary: x)
  case (Suc n)
  then show ?case
    using fill_block_nonzero [of x words] by (auto simp: case_prod_beta)
qed simp

lemma write_blocks_length: "length (write_blocks words n x) = n * words"
proof (induction n arbitrary: x)
  case (Suc n)
  then show ?case
    using fill_block_length [of words x] by (simp add: case_prod_beta)
qed simp

text \<open>
  A generated file has exactly the size asked for, in bytes, and none of its words is zero, so that a block of a
  slot that a read has not filled is never the file's.
\<close>

theorem generated_file:
  assumes "ensure_file file_mib existing = Some words"
  shows "8 * length words = unat (push_bit 20 file_mib) \<and> 0 \<notin> set words"
proof -
  let ?want = "push_bit 20 file_mib"
  have words: "words = write_blocks 131072 (unat ?want div 1048576) 0x9E3779B97F4A7C15"
    using assms by (auto simp: ensure_file_def Let_def split: option.splits if_splits)
  have "unat ?want mod 2 ^ 20 = 0"
  proof -
    have "take_bit 20 ?want = 0"
      by (rule bit_eqI) (auto simp: bit_take_bit_iff bit_push_bit_iff)
    then have "take_bit 20 (unat ?want) = 0"
      by (metis unsigned_take_bit_eq unsigned_0)
    then show ?thesis
      by (simp only: take_bit_eq_mod)
  qed
  then have "8 * (unat ?want div 1048576 * 131072) = unat ?want"
    using div_mult_mod_eq [of "unat ?want" 1048576] by simp
  then show ?thesis
    unfolding words by (simp add: write_blocks_length write_blocks_nonzero)
qed

theorem generated_file_witness:
  "\<exists>words. ensure_file 1 (Some 1000) = Some words \<and> length words = 131072 \<and> 0 \<notin> set words"
proof -
  obtain words where words: "ensure_file 1 (Some 1000) = Some words"
    by (simp add: ensure_file_def Let_def)
  with generated_file [OF words] show ?thesis
    by simp
qed

section \<open>Rows and slots\<close>

lemma unat_two_pages [simp]: "unat (2 * k_align) = 8192"
  by (simp add: k_align_def)

lemma shoot_rows_le: "nat (shoot_rows file_bytes row) \<le> unat (file_bytes - 2 * k_align) div unat row"
proof -
  let ?q = "(file_bytes - 2 * k_align) div row" and ?w = "ucast ((file_bytes - 2 * k_align) div row) :: 32 word"
  have "uint ?w < 2 ^ LENGTH(32)"
    by (rule unsigned_less)
  then have "take_bit 32 (uint ?w) = uint ?w"
    by (intro take_bit_int_eq_self) simp_all
  then have "sint ?w \<le> uint ?w"
    by (simp add: sint_uint signed_take_bit_eq_take_bit_minus)
  then have "nat (shoot_rows file_bytes row) \<le> unat ?w"
    unfolding shoot_rows_def unat_eq_nat_uint by (rule nat_mono)
  also have "\<dots> \<le> unat ?q"
    by (simp add: unsigned_ucast_eq take_bit_nat_eq_self_iff take_bit_nat_less_eq_self)
  finally show ?thesis
    by (simp add: unat_div_64)
qed

lemma shoot_stride_ge:
  assumes "unat row + 12287 < 18446744073709551616"
  shows "unat row + 8192 \<le> unat (shoot_stride row)"
proof -
  have "unat (row + 2 * k_align) = unat row + 8192"
    using assms by (subst unat_plus_64) simp_all
  moreover from this have "unat (shoot_stride row) = (unat row + 8192 + 4095) div 4096 * 4096"
    unfolding shoot_stride_def using assms by (subst unat_round_up) simp_all
  ultimately show ?thesis
    using div_mult_mod_eq [of "unat row + 8192 + 4095" 4096] mod_less_divisor [of 4096 "unat row + 8192 + 4095"] by linarith
qed

lemma shoot_row_inside:
  assumes large: "8192 \<le> unat file_bytes" and "r < nat (shoot_rows file_bytes row)"
  shows "unat (of_nat r * row) = r * unat row" "r * unat row + unat row + 8192 \<le> unat file_bytes"
proof -
  have "r + 1 \<le> unat (file_bytes - 2 * k_align) div unat row"
    using assms(2) shoot_rows_le [of file_bytes row] by linarith
  then have "(r + 1) * unat row \<le> unat (file_bytes - 2 * k_align)"
    by (metis div_times_less_eq_dividend mult_le_mono1 order_trans)
  moreover have "unat (file_bytes - 2 * k_align) = unat file_bytes - 8192"
    using large by (subst unat_minus_64) (simp_all add: word_le_nat_alt)
  ultimately show inside: "r * unat row + unat row + 8192 \<le> unat file_bytes"
    using large by simp
  show "unat (of_nat r * row) = r * unat row"
  proof (cases "unat row = 0")
    case False
    then have "r \<le> r * unat row"
      by simp
    then have "r < 18446744073709551616" "r * unat row < 18446744073709551616"
      using inside unat_lt_64 [of file_bytes] by linarith+
    then show ?thesis
      by (subst unat_times_64) simp_all
  qed (simp add: unat_eq_0)
qed

text \<open>
  C33: every miss of a measured run stays in bounds: its row, with a page and a sector to spare on both sides, lies inside
  the file, its slot inside the allocation, and slots in use together do not overlap. So do the aligned windows of
  the unbuffered strategies, which are no longer than a slot.
\<close>

theorem misses_in_bounds:
  assumes "8192 \<le> unat file_bytes" "8 * unat (shoot_stride row) < 18446744073709551616"
    and "unat row + 12287 < 18446744073709551616"
    and "mset order = mset [0..<nat (shoot_rows file_bytes row)]"
    and "int i < shoot_misses misses file_bytes row"
  shows "unat (miss_offset (shoot_miss slots row order i)) + unat row + 8192 \<le> unat file_bytes \<and>
    miss_fits row (shoot_miss slots row order i) \<and>
    slot_addrs row (shoot_miss slots row order i) \<subseteq> bytes_at slots (8 * unat (shoot_stride row)) \<and>
    (if i mod 8 = j mod 8 then True
     else slot_addrs row (shoot_miss slots row order i) \<inter> slot_addrs row (shoot_miss slots row order j) = {})"
proof -
  let ?stride = "shoot_stride row" and ?x = "shoot_miss slots row order"
  have i: "i < nat (shoot_rows file_bytes row)"
    using assms(5) by (simp add: shoot_misses_def zless_nat_eq_int_zless)
  have "length order = nat (shoot_rows file_bytes row)"
    using assms(4) mset_eq_length by fastforce
  with i have "order ! i \<in> set order"
    by simp
  then have row: "order ! i < nat (shoot_rows file_bytes row)"
    using assms(4) mset_eq_setD by fastforce
  note inside = shoot_row_inside [OF assms(1) row]
  note stride = shoot_stride_ge [OF assms(3)]
  have at: "unat (?stride * of_nat (n mod 8)) = unat ?stride * (n mod 8)" "unat ?stride * (n mod 8) + unat ?stride \<le> 8 * unat ?stride" for n
  proof -
    have "n mod 8 + 1 \<le> 8"
      by (metis Suc_eq_plus1 Suc_leI mod_less_divisor zero_less_numeral)
    then have "unat ?stride * (n mod 8 + 1) \<le> unat ?stride * 8"
      by (rule mult_le_mono2)
    then show "unat ?stride * (n mod 8) + unat ?stride \<le> 8 * unat ?stride"
      by simp
    with assms(2) have "unat ?stride * (n mod 8) < 18446744073709551616"
      by linarith
    moreover have "unat (of_nat (n mod 8) :: u64) = n mod 8"
      by (rule unat_of_nat_64) (simp add: less_trans [OF mod_less_divisor])
    ultimately show "unat (?stride * of_nat (n mod 8)) = unat ?stride * (n mod 8)"
      by (subst unat_times_64) simp_all
  qed
  let ?s = "\<lparr>span_data = slots, span_size = 0\<rparr>"
  have slot: "slot_addrs row (?x n) = span_addrs (subspan ?s (?stride * of_nat (n mod 8)) (row + 8192))" for n
  proof -
    have "unat (row + 8192) = unat row + 8192"
      using assms(3) by (subst unat_plus_64) simp_all
    then show ?thesis
      by (simp add: slot_addrs_def bytes_at_def span_addrs_def shoot_miss_def k_slots_def)
  qed
  have "slot_addrs row (?x i) \<inter> slot_addrs row (?x j) = {}" if "i mod 8 \<noteq> j mod 8"
  proof -
    have apart: "unat ?stride * a + (unat row + 8192) \<le> unat ?stride * b" if "a < b" for a b
    proof -
      have "unat ?stride * (a + 1) \<le> unat ?stride * b"
        using that by (intro mult_le_mono2) simp
      with stride show ?thesis by simp
    qed
    have len: "unat (row + 8192) = unat row + 8192"
      using assms(3) by (subst unat_plus_64) simp_all
    have room: "unat ?stride * (n mod 8) + (unat row + 8192) < 18446744073709551616" for n
      using at(2) [of n] stride assms(2) by linarith
    have "unat ?stride * (i mod 8) + (unat row + 8192) \<le> unat ?stride * (j mod 8) \<or>
        unat ?stride * (j mod 8) + (unat row + 8192) \<le> unat ?stride * (i mod 8)"
      using that apart [of "i mod 8" "j mod 8"] apart [of "j mod 8" "i mod 8"] by linarith
    then show ?thesis
      unfolding slot using room [of i] room [of j]
      by (intro subspan_disjoint) (simp_all only: len at(1))
  qed
  moreover have "slot_addrs row (?x i) \<subseteq> bytes_at slots (8 * unat ?stride)"
  proof
    fix a assume "a \<in> slot_addrs row (?x i)"
    then obtain k where k: "k < unat row + 8192" "a = slots + ?stride * of_nat (i mod 8) + of_nat k"
      by (auto simp: slot_addrs_def bytes_at_iff shoot_miss_def k_slots_def)
    have "of_nat (unat ?stride * (i mod 8)) = ?stride * of_nat (i mod 8)"
      by (simp add: at(1) [symmetric])
    then have "a = slots + of_nat (unat ?stride * (i mod 8) + k)"
      by (simp add: k(2))
    moreover have "unat ?stride * (i mod 8) + k < 8 * unat ?stride"
      using at(2) [of i] k(1) stride by linarith
    ultimately show "a \<in> bytes_at slots (8 * unat ?stride)"
      using bytes_atI by metis
  qed
  moreover have "unat (miss_offset (?x i)) + unat row + 8192 \<le> unat file_bytes"
    using inside by (simp add: shoot_miss_def)
  moreover from this have "miss_fits row (?x i)"
    unfolding miss_fits_def using unat_lt_64 [of file_bytes] by linarith
  ultimately show ?thesis
    by simp
qed

theorem misses_in_bounds_witness:
  "unat (miss_offset (shoot_miss 65536 3000 [2, 0, 1] 0)) + 3000 + 8192 \<le> (20000 :: nat) \<and>
   slot_addrs 3000 (shoot_miss 65536 3000 [2, 0, 1] 0) \<inter> slot_addrs 3000 (shoot_miss 65536 3000 [2, 0, 1] 1) = {}"
proof -
  have rows: "shoot_rows 20000 3000 = 3"
    by code_simp
  have stride: "unat (shoot_stride 3000) = 12288"
    by code_simp
  have "mset [2, 0, 1] = mset [0..<nat (shoot_rows 20000 3000)]"
    by (simp add: rows upt_rec numeral_3_eq_3)
  from misses_in_bounds [of 20000 3000 "[2, 0, 1]" 0 100 65536 1] this show ?thesis
    by (simp add: rows stride shoot_misses_def)
qed

section \<open>The verification\<close>

text \<open>A file of 20000 bytes that is read in one call.\<close>

definition big_file :: "handle \<Rightarrow> u64 \<Rightarrow> byte" where
  "big_file h off = ucast off + 1"

definition big_pread :: pread_fn where
  "big_pread k h off n = Got (map (\<lambda>i. big_file h (off + of_nat i)) [0..<min (unat n) (20000 - unat off)])"

lemma big_pread_spec: "pread_spec big_pread big_file (\<lambda>h. 20000)"
proof -
  have "unat n = 0 \<longleftrightarrow> n = 0" for n :: u64
    by (rule unat_eq_0)
  then show ?thesis
    unfolding pread_spec_def chunk_ok_def big_pread_def by (auto simp: min_def split: if_splits)
qed

lemma big_pread_fair: "pread_fair big_pread"
  by (auto simp: pread_fair_def big_pread_def)

text \<open>
  The verification is exact: over any \<open>pread\<close>, it ends the program at the first sample whose checksum is not the
  checksum of its row of the file, or whose own reference read failed, and otherwise accepts.
\<close>

theorem verification_exact:
  assumes "pread_spec pread file fsize" "pread_fair pread"
    and "\<forall>(r, s) \<in> set samples. row_inside row (fsize h) r"
  shows "\<exists>outcome k' m'. verify_samples (read_at pread) direct h buffer row samples k m = Some (outcome, k', m') \<and>
    verify_outcome pread direct h (file h) row samples outcome k'"
  using verify_samples_outcome [OF assms] by metis

text \<open>
  C34: a strategy that returns one wrong byte cannot win: when a sampled row in memory differs from its row of the file in
  exactly one byte, the verification ends the program, whether its own reads succeed, come short or fail.
\<close>

theorem one_wrong_byte_caught:
  assumes "pread_spec pread file fsize" "pread_fair pread"
    and "\<forall>(r, s) \<in> set samples. row_inside row (fsize h) r" "(r, fnv1a m p row) \<in> set samples"
    and "j < unat row" "m (p + of_nat j) \<noteq> file h (of_nat r * row + of_nat j)"
    and "\<And>i. i < unat row \<Longrightarrow> i \<noteq> j \<Longrightarrow> m (p + of_nat i) = file h (of_nat r * row + of_nat i)"
  shows "\<exists>r' k' m''. verify_samples (read_at pread) direct h buffer row samples k m' = Some (Some (Wrong_Bytes r'), k', m'')"
proof -
  obtain outcome k' m'' where run: "verify_samples (read_at pread) direct h buffer row samples k m' = Some (outcome, k', m'')"
      and out: "verify_outcome pread direct h (file h) row samples outcome k'"
    using verify_samples_outcome [OF assms(1-3)] by metis
  have "fnv1a m p row \<noteq> row_sum (file h) row r"
    unfolding fnv1a_row using assms(5-7) by (rule fnv_row_one_byte)
  with verify_outcomeD(1) [OF out _ assms(4)] have "outcome \<noteq> None"
    by metis
  with verify_outcomeD(2) [OF out] run show ?thesis
    by blast
qed

theorem one_wrong_byte_caught_witness:
  "\<exists>r' k' m''. verify_samples (read_at big_pread) False 5 8192 2 [(4, fnv1a (\<lambda>a. if a = 1 then 3 else ucast a + 9) 0 2)] 0 (\<lambda>_. 0)
     = Some (Some (Wrong_Bytes r'), k', m'')"
proof (rule one_wrong_byte_caught [where m = "\<lambda>a. if a = 1 then 3 else ucast a + 9" and p = 0 and row = 2 and r = 4 and j = 1,
      OF big_pread_spec big_pread_fair])
  fix i assume "i < unat (2 :: u64)" "i \<noteq> (1 :: nat)"
  then have "i = 0" by simp
  then show "(if 0 + of_nat i = 1 then 3 else ucast (0 + of_nat i :: u64) + 9) = big_file 5 (of_nat 4 * 2 + of_nat i)"
    by (simp add: big_file_def)
qed (simp_all add: row_inside_def big_file_def)

lemma measured_rows:
  assumes "measured_run row verify_every order i results = Inr sampled" "(r, s) \<in> set sampled"
  shows "\<exists>j. i \<le> j \<and> j < i + length results \<and> r = order ! j"
  using assms
proof (induction results arbitrary: i sampled)
  case (Cons result results)
  obtain p m' rest where result: "result = (Some p, m')"
      and rest: "measured_run row verify_every order (i + 1) results = Inr rest"
      and sampled: "sampled = (if i mod verify_every = 0 then (order ! i, fnv1a m' p row) # rest else rest)"
    using Cons.prems(1) by (cases result) (auto split: option.splits sum.splits)
  show ?case
  proof (cases "(r, s) \<in> set rest")
    case True
    from Cons.IH [OF rest this] show ?thesis
      by (metis add_Suc_shift Suc_eq_plus1 length_Cons le_SucI le_trans add_leE)
  next
    case False
    with Cons.prems(2) sampled have "r = order ! i"
      by (auto split: if_splits)
    then show ?thesis
      by (intro exI [of _ i]) simp
  qed
qed simp

text \<open>
  C35: an honest strategy is refused only by a failing reference read: whatever a strategy that meets its contract
  reads, in whatever order and with whatever sampling, the verification ends, and it accepts the samples, or it names
  a sampled row, and the last call of \<open>pread\<close> that it made failed inside that row, or inside its window where the
  verification reads directly. (\<open>k' - 1\<close> is the number of that call.)
\<close>

theorem honest_strategy_verifies:
  assumes "strategy reads row (file h) valid able" "valid m"
    and "read_chain reads (shoot_miss slots row order) 0 m results"
    and "\<And>j. j < length results \<Longrightarrow> able (shoot_miss slots row order j) \<and> row_inside row (fsize h) (order ! j)"
    and "measured_run row verify_every order 0 results = Inr samples"
    and "pread_spec pread file fsize" "pread_fair pread"
  shows "\<exists>outcome k' m''. verify_samples (read_at pread) direct h buffer row samples k m' = Some (outcome, k', m'') \<and>
    (outcome = None \<or>
     (\<exists>r s. outcome = Some (Wrong_Bytes r) \<and> (r, s) \<in> set samples \<and> reference_fails pread direct h row r (k' - 1)))"
proof -
  have "\<forall>(r, s) \<in> set samples. row_inside row (fsize h) r"
    using measured_rows [OF assms(5)] assms(4) by fastforce
  then obtain outcome k' m'' where
      run: "verify_samples (read_at pread) direct h buffer row samples k m' = Some (outcome, k', m'')"
      and out: "verify_outcome pread direct h (file h) row samples outcome k'"
    using verify_samples_outcome [OF assms(6,7)] by metis
  have "\<forall>(r, s) \<in> set samples. row_sum (file h) row r = s"
    by (rule strategy.measured_exact [OF assms(1-3) _ assms(5)]) (use assms(4) in \<open>simp add: shoot_miss_def\<close>)
  with verify_outcomeD(2) [OF out] run show ?thesis
    by (cases "outcome = None") fastforce+
qed

text \<open>Two rows read through a mapping at address 65536, by touching them.\<close>

theorem honest_strategy_verifies_witness:
  "\<exists>samples. measured_run 2 1 [3, 1] 0 [(Some 65542, \<lambda>a. ucast (a - 65536) + 1), (Some 65538, \<lambda>a. ucast (a - 65536) + 1)]
       = Inr samples \<and> length samples = 2 \<and>
     (\<exists>k' m''. verify_samples (read_at big_pread) True 5 8192 2 samples 0 (\<lambda>_. 0) = Some (None, k', m''))"
proof -
  let ?m = "\<lambda>a. ucast (a - 65536) + 1 :: byte" and ?miss = "shoot_miss 1048576 2 [3, 1]"
  let ?results = "[(Some 65542, ?m), (Some 65538, ?m)]"
  obtain samples where run: "measured_run 2 1 [3, 1] 0 ?results = Inr samples" and two: "length samples = 2"
    by simp
  have shows_file: "mapping_shows 65536 20000 (big_file 5) ?m"
    by (simp add: mapping_shows_def big_file_def)
  have chain: "read_chain (mapped_reads Touch 65536 2) ?miss 0 ?m ?results"
    by (simp add: mapped_reads_def mapped_read_def shoot_miss_def)
  have stride: "shoot_stride 2 = 12288"
    by code_simp
  let ?s = "\<lparr>span_data = 0, span_size = 0\<rparr> :: span"
  have apart: "span_addrs (subspan ?s at 8194) \<inter> span_addrs (subspan ?s 65536 20000) = {}"
    if "at = 1048576 \<or> at = 1060864" for at
    using that by (intro subspan_disjoint) auto
  have able: "mapped_able 65536 20000 2 (?miss j) \<and> row_inside 2 20000 ([3, 1] ! j)" if "j < length ?results" for j
  proof -
    from that have "j = 0 \<or> j = 1" by auto
    then show ?thesis
      using apart [of 1048576] apart [of 1060864]
      by (auto simp: mapped_able_def miss_fits_def row_inside_def slot_addrs_def bytes_at_span subspan_def shoot_miss_def
          stride k_slots_def)
  qed
  have "\<not> reference_fails big_pread True 5 2 r k" for r k
    by (simp add: reference_fails_def pread_fails_at_def big_pread_def Let_def)
  then show ?thesis
    using honest_strategy_verifies [OF mapped.strategy_axioms shows_file chain able run
        big_pread_spec big_pread_fair] run two
    by blast
qed

end
