(* ===== verification/Shootout_Pool.thy ===== *)
theory Shootout_Pool
  imports Shootout_Read
begin

text \<open>
  The chunk pool of the read shootout, \<open>src/tools/read_shootout/read_shootout.cpp\<close>: parked worker threads that share
  the chunks of one read. The members of \<open>ChunkPool\<close> and the local variables of its threads are the state; a
  critical section of its mutex is a step.
\<close>

section \<open>Chunks of a window\<close>

text \<open>
  The loop over the chunks of a window, by their positions in it: \<open>None\<close> if the position wraps for ever.
\<close>

partial_function (option) chunk_ats :: "u64 \<Rightarrow> u64 \<Rightarrow> u64 \<Rightarrow> u64 list option" where
  "chunk_ats len chunk at =
     (if at < len then Option.bind (chunk_ats len chunk (at + chunk)) (\<lambda>ats. Some (at # ats)) else Some [])"

declare chunk_ats.simps [code]

definition pool_chunk :: "u64 \<Rightarrow> u64" where
  "pool_chunk chunk_bytes = max k_align (chunk_bytes div k_align * k_align)"

record pool_task =
  pt_dst :: u64
  pt_len :: u64
  pt_off :: u64
  pt_need :: u64

definition row_window :: "bool \<Rightarrow> u64 \<Rightarrow> u64 \<Rightarrow> window" where
  "row_window unbuffered off row =
     (if unbuffered then aligned_window off row else \<lparr>w_offset = off, w_length = row, w_head = 0\<rparr>)"

definition pool_task_at :: "window \<Rightarrow> u64 \<Rightarrow> u64 \<Rightarrow> u64 \<Rightarrow> u64 \<Rightarrow> pool_task" where
  "pool_task_at w row chunk slot at =
     (let len = min chunk (w_length w - at);
          need = min len (if w_head w + row > at then w_head w + row - at else 0)
      in \<lparr>pt_dst = slot + at, pt_len = len, pt_off = w_offset w + at, pt_need = need\<rparr>)"

definition pool_tasks :: "bool \<Rightarrow> u64 \<Rightarrow> u64 \<Rightarrow> miss \<Rightarrow> pool_task list option" where
  "pool_tasks unbuffered row chunk x =
     (let w = row_window unbuffered (miss_offset x) row
      in map_option (map (pool_task_at w row chunk (miss_slot x))) (chunk_ats (w_length w) chunk 0))"

section \<open>The pool\<close>

text \<open>A worker waits, with the generation it has seen; or reads a task, outside the lock; or has ended.\<close>

datatype pool_worker = Parked nat | Reading nat nat | Ended

record chunk_pool =
  cp_file :: handle
  cp_tasks :: "pool_task list"
  cp_next :: nat
  cp_done :: nat
  cp_generation :: nat
  cp_failed :: bool
  cp_stop :: bool
  cp_workers :: "pool_worker list"

definition cp_construct :: "nat \<Rightarrow> chunk_pool" where
  "cp_construct n =
     \<lparr>cp_file = 0, cp_tasks = [], cp_next = 0, cp_done = 0, cp_generation = 0, cp_failed = False, cp_stop = False,
      cp_workers = replicate n (Parked 0)\<rparr>"

text \<open>\<open>run\<close>, before and after its wait.\<close>

definition cp_run_begin :: "handle \<Rightarrow> pool_task list \<Rightarrow> chunk_pool \<Rightarrow> chunk_pool" where
  "cp_run_begin h tasks p =
     p\<lparr>cp_file := h, cp_tasks := tasks, cp_next := 0, cp_done := 0, cp_failed := False,
       cp_generation := cp_generation p + 1\<rparr>"

definition cp_run_end :: "chunk_pool \<Rightarrow> bool option" where
  "cp_run_end p = (if cp_done p = length (cp_tasks p) then Some (\<not> cp_failed p) else None)"

text \<open>
  \<open>loop\<close>: the head of its inner loop, which takes the next task or goes back to wait; the end of its wait; and the
  critical section after a read of \<open>got\<close> bytes.
\<close>

definition cp_next_task :: "nat \<Rightarrow> nat \<Rightarrow> chunk_pool \<Rightarrow> chunk_pool" where
  "cp_next_task i seen p =
     (if cp_next p < length (cp_tasks p)
      then p\<lparr>cp_workers := (cp_workers p)[i := Reading seen (cp_next p)], cp_next := cp_next p + 1\<rparr>
      else p\<lparr>cp_workers := (cp_workers p)[i := Parked seen]\<rparr>)"

definition cp_wake :: "nat \<Rightarrow> chunk_pool \<Rightarrow> chunk_pool option" where
  "cp_wake i p =
     (if i \<ge> length (cp_workers p) then None
      else case cp_workers p ! i of
        Parked seen \<Rightarrow>
          if cp_stop p then Some (p\<lparr>cp_workers := (cp_workers p)[i := Ended]\<rparr>)
          else if cp_generation p \<noteq> seen then Some (cp_next_task i (cp_generation p) p)
          else None
      | _ \<Rightarrow> None)"

definition cp_finish :: "nat \<Rightarrow> u64 \<Rightarrow> chunk_pool \<Rightarrow> chunk_pool option" where
  "cp_finish i got p =
     (if i \<ge> length (cp_workers p) then None
      else case cp_workers p ! i of
        Reading seen t \<Rightarrow>
          (let read_ok = (got \<ge> pt_need (cp_tasks p ! t));
               p = p\<lparr>cp_failed := (cp_failed p \<or> \<not> read_ok), cp_done := cp_done p + 1\<rparr>
           in Some (cp_next_task i seen p))
      | _ \<Rightarrow> None)"

text \<open>The destructor up to its join, and whether it is past it.\<close>

definition cp_stopping :: "chunk_pool \<Rightarrow> chunk_pool" where
  "cp_stopping p = p\<lparr>cp_stop := True\<rparr>"

definition cp_joined :: "chunk_pool \<Rightarrow> bool" where
  "cp_joined p \<longleftrightarrow> cp_stop p \<and> list_all (\<lambda>w. w = Ended) (cp_workers p)"

section \<open>The system\<close>

text \<open>
  A pool with its memory, and whether a \<open>run\<close> is waiting. A read writes inside the destination of its task at any time
  before it is finished; everything else writes elsewhere while a \<open>run\<close> is waiting.
\<close>

record pool_system =
  cs_pool :: chunk_pool
  cs_memory :: memory
  cs_running :: bool

definition task_addrs :: "pool_task \<Rightarrow> u64 set" where
  "task_addrs t = bytes_at (pt_dst t) (unat (pt_len t))"

text \<open>What a caller of \<open>run\<close> passes: tasks with destinations of their own.\<close>

definition tasks_apart :: "pool_task list \<Rightarrow> bool" where
  "tasks_apart tasks \<longleftrightarrow>
     (\<forall>i < length tasks. pt_need (tasks ! i) \<le> pt_len (tasks ! i)) \<and>
     (\<forall>i < length tasks. \<forall>j < length tasks. i \<noteq> j \<longrightarrow> task_addrs (tasks ! i) \<inter> task_addrs (tasks ! j) = {})"

inductive cp_step :: "read_at_fn \<Rightarrow> pool_system \<Rightarrow> pool_system \<Rightarrow> bool" for rd where
  begins: "\<not> cs_running s \<Longrightarrow> \<not> cp_stop (cs_pool s) \<Longrightarrow> tasks_apart tasks \<Longrightarrow>
    cp_step rd s (s\<lparr>cs_pool := cp_run_begin h tasks (cs_pool s), cs_running := True\<rparr>)"
| wakes: "cp_wake i (cs_pool s) = Some p \<Longrightarrow> cp_step rd s (s\<lparr>cs_pool := p\<rparr>)"
| scribbles: "Reading seen t \<in> set (cp_workers (cs_pool s)) \<Longrightarrow> a \<in> task_addrs (cp_tasks (cs_pool s) ! t) \<Longrightarrow>
    cp_step rd s (s\<lparr>cs_memory := (cs_memory s)(a := b)\<rparr>)"
| finishes: "cp_workers (cs_pool s) ! i = Reading seen t \<Longrightarrow> task = cp_tasks (cs_pool s) ! t \<Longrightarrow>
    rd k (cp_file (cs_pool s)) (pt_dst task) (pt_len task) (pt_off task) (cs_memory s) = Some (got, k', m) \<Longrightarrow>
    cp_finish i got (cs_pool s) = Some p \<Longrightarrow> cp_step rd s (s\<lparr>cs_pool := p, cs_memory := m\<rparr>)"
| returns: "cs_running s \<Longrightarrow> cp_run_end (cs_pool s) = Some result \<Longrightarrow> cp_step rd s (s\<lparr>cs_running := False\<rparr>)"
| others: "\<not> cs_running s \<or> (\<forall>task \<in> set (cp_tasks (cs_pool s)). a \<notin> task_addrs task) \<Longrightarrow>
    cp_step rd s (s\<lparr>cs_memory := (cs_memory s)(a := b)\<rparr>)"
| stops: "\<not> cs_running s \<Longrightarrow> cp_step rd s (s\<lparr>cs_pool := cp_stopping (cs_pool s)\<rparr>)"

inductive cp_reachable :: "read_at_fn \<Rightarrow> nat \<Rightarrow> pool_system \<Rightarrow> bool" for rd workers where
  start: "cp_reachable rd workers \<lparr>cs_pool = cp_construct workers, cs_memory = m, cs_running = False\<rparr>"
| step: "cp_reachable rd workers s \<Longrightarrow> cp_step rd s t \<Longrightarrow> cp_reachable rd workers t"

section \<open>The invariant\<close>

definition reading_of :: "pool_worker \<Rightarrow> nat list" where
  "reading_of w = (case w of Reading seen t \<Rightarrow> [t] | _ \<Rightarrow> [])"

definition cp_reading :: "chunk_pool \<Rightarrow> nat multiset" where
  "cp_reading p = mset (concat (map reading_of (cp_workers p)))"

lemma reading_of_simps [simp]:
  "reading_of (Parked seen) = []" "reading_of (Reading seen t) = [t]" "reading_of Ended = []"
  by (simp_all add: reading_of_def)

lemma in_reading_iff: "t \<in># cp_reading p \<longleftrightarrow> (\<exists>seen. Reading seen t \<in> set (cp_workers p))"
  by (fastforce simp: cp_reading_def reading_of_def split: pool_worker.splits)

lemma mset_concat_update:
  assumes "i < length ws"
  shows "mset (concat (map f (ws[i := w]))) + mset (f (ws ! i)) = mset (concat (map f ws)) + mset (f w)"
proof -
  have "mset (concat (map f ws)) = mset (concat (map f (take i ws @ ws ! i # drop (Suc i) ws)))"
    using id_take_nth_drop [OF assms] by simp
  then show ?thesis
    using assms by (simp add: upd_conv_take_nth_drop)
qed

definition task_settled :: "(handle \<Rightarrow> u64 \<Rightarrow> byte) \<Rightarrow> handle \<Rightarrow> memory \<Rightarrow> pool_task \<Rightarrow> bool" where
  "task_settled file h m task \<longleftrightarrow>
     (\<forall>i < unat (pt_need task). m (pt_dst task + of_nat i) = file h (pt_off task + of_nat i))"

definition cp_counts :: "chunk_pool \<Rightarrow> bool" where
  "cp_counts p \<longleftrightarrow>
     cp_next p \<le> length (cp_tasks p) \<and> cp_done p + size (cp_reading p) = cp_next p \<and>
     (\<forall>t. count (cp_reading p) t \<le> 1) \<and> (\<forall>t \<in># cp_reading p. t < cp_next p)"

definition seen_by :: "pool_worker \<Rightarrow> nat" where
  "seen_by w = (case w of Parked seen \<Rightarrow> seen | Reading seen t \<Rightarrow> seen | Ended \<Rightarrow> 0)"

lemma seen_by_simps [simp]: "seen_by (Parked seen) = seen" "seen_by (Reading seen t) = seen" "seen_by Ended = 0"
  by (simp_all add: seen_by_def)

definition cp_awake :: "chunk_pool \<Rightarrow> bool" where
  "cp_awake p \<longleftrightarrow>
     (\<forall>w \<in> set (cp_workers p). seen_by w \<le> cp_generation p) \<and>
     (cp_next p < length (cp_tasks p) \<longrightarrow> cp_reading p = {#} \<longrightarrow>
        (\<forall>seen. Parked seen \<in> set (cp_workers p) \<longrightarrow> seen \<noteq> cp_generation p))"

definition cs_inv :: "(handle \<Rightarrow> u64 \<Rightarrow> byte) \<Rightarrow> nat \<Rightarrow> pool_system \<Rightarrow> bool" where
  "cs_inv file workers s \<longleftrightarrow>
     (let p = cs_pool s in
      length (cp_workers p) = workers \<and> cp_counts p \<and> cp_awake p \<and> tasks_apart (cp_tasks p) \<and>
      (cp_stop p \<or> Ended \<notin> set (cp_workers p)) \<and>
      (if cs_running s then
         \<not> cp_stop p \<and>
         (\<forall>t < cp_next p. t \<notin># cp_reading p \<longrightarrow> cp_failed p \<or> task_settled file (cp_file p) (cs_memory s) (cp_tasks p ! t))
       else cp_done p = length (cp_tasks p)))"

section \<open>Every step keeps it\<close>

lemma cp_next_task_simps [simp]:
  "cp_file (cp_next_task i seen p) = cp_file p" "cp_tasks (cp_next_task i seen p) = cp_tasks p"
  "cp_done (cp_next_task i seen p) = cp_done p" "cp_generation (cp_next_task i seen p) = cp_generation p"
  "cp_failed (cp_next_task i seen p) = cp_failed p" "cp_stop (cp_next_task i seen p) = cp_stop p"
  "length (cp_workers (cp_next_task i seen p)) = length (cp_workers p)"
  "cp_next (cp_next_task i seen p) = (if cp_next p < length (cp_tasks p) then cp_next p + 1 else cp_next p)"
  by (simp_all add: cp_next_task_def)

lemma cp_reading_next:
  assumes "i < length (cp_workers p)"
  shows "cp_reading (cp_next_task i seen p) + mset (reading_of (cp_workers p ! i))
    = (if cp_next p < length (cp_tasks p) then add_mset (cp_next p) (cp_reading p) else cp_reading p)"
  using mset_concat_update [OF assms, of reading_of "Reading seen (cp_next p)"]
    mset_concat_update [OF assms, of reading_of "Parked seen"]
  by (simp add: cp_reading_def cp_next_task_def)

lemma cp_awake_next:
  assumes "\<forall>w \<in> set (cp_workers p). seen_by w \<le> cp_generation p" "seen \<le> cp_generation p" "i < length (cp_workers p)"
    and "cp_next p \<le> length (cp_tasks p)"
  shows "cp_awake (cp_next_task i seen p)"
proof (cases "cp_next p < length (cp_tasks p)")
  case True
  then have "Reading seen (cp_next p) \<in> set (cp_workers (cp_next_task i seen p))"
    using assms(3) by (simp add: cp_next_task_def set_update_memI)
  then have "cp_next p \<in># cp_reading (cp_next_task i seen p)"
    unfolding in_reading_iff by blast
  then have "cp_reading (cp_next_task i seen p) \<noteq> {#}"
    by auto
  with True assms(1,2) show ?thesis
    by (auto simp: cp_awake_def cp_next_task_def dest!: set_update_subset_insert [THEN subsetD])
next
  case False
  with assms show ?thesis
    by (auto simp: cp_awake_def cp_next_task_def dest!: set_update_subset_insert [THEN subsetD])
qed

lemma cp_wakeE:
  assumes "cp_wake i p = Some q" "\<not> cp_stop p"
  obtains seen where "i < length (cp_workers p)" "cp_workers p ! i = Parked seen" "seen \<noteq> cp_generation p"
    "q = cp_next_task i (cp_generation p) p"
  using assms by (auto simp: cp_wake_def split: if_splits pool_worker.splits)

lemma cp_finishE:
  assumes "cp_finish i got p = Some q"
  obtains seen t where "i < length (cp_workers p)" "cp_workers p ! i = Reading seen t"
    "q = cp_next_task i seen (p\<lparr>cp_failed := (cp_failed p \<or> \<not> got \<ge> pt_need (cp_tasks p ! t)), cp_done := cp_done p + 1\<rparr>)"
  using assms by (auto simp: cp_finish_def Let_def split: if_splits pool_worker.splits)

lemma cp_reading_upd [simp]:
  "cp_reading (p\<lparr>cp_failed := f, cp_done := d\<rparr>) = cp_reading p"
  by (simp add: cp_reading_def)

text \<open>A task whose destination is left alone stays settled.\<close>

lemma settled_frame:
  assumes "task_settled file h m task" "\<And>a. a \<in> bytes_at (pt_dst task) (unat (pt_need task)) \<Longrightarrow> m' a = m a"
  shows "task_settled file h m' task"
  using assms bytes_atI unfolding task_settled_def by metis

lemma need_in_task:
  assumes "tasks_apart tasks" "t < length tasks"
  shows "bytes_at (pt_dst (tasks ! t)) (unat (pt_need (tasks ! t))) \<subseteq> task_addrs (tasks ! t)"
  unfolding task_addrs_def using assms by (intro bytes_at_mono) (simp add: tasks_apart_def word_le_nat_alt)

lemma settled_other:
  assumes "tasks_apart tasks" "t < length tasks" "t' < length tasks" "t \<noteq> t'"
    and "task_settled file h m (tasks ! t')" "\<And>a. a \<notin> task_addrs (tasks ! t) \<Longrightarrow> m' a = m a"
  shows "task_settled file h m' (tasks ! t')"
proof (rule settled_frame [OF assms(5)])
  fix a assume "a \<in> bytes_at (pt_dst (tasks ! t')) (unat (pt_need (tasks ! t')))"
  then have "a \<in> task_addrs (tasks ! t')"
    using need_in_task [OF assms(1,3)] by blast
  moreover have "task_addrs (tasks ! t) \<inter> task_addrs (tasks ! t') = {}"
    using assms(1-4) unfolding tasks_apart_def by blast
  ultimately show "m' a = m a"
    using assms(6) by blast
qed

lemma cp_counts_begin: "cp_counts p \<Longrightarrow> cp_done p = length (cp_tasks p) \<Longrightarrow> cp_reading p = {#}"
  by (simp add: cp_counts_def flip: size_eq_0_iff_empty)

lemma cs_inv_init: "cs_inv file workers \<lparr>cs_pool = cp_construct workers, cs_memory = m, cs_running = False\<rparr>"
  by (auto simp: cs_inv_def cp_construct_def cp_counts_def cp_awake_def cp_reading_def tasks_apart_def Let_def
      in_set_replicate)

lemma cp_counts_next:
  assumes counts: "cp_counts p" and i: "i < length (cp_workers p)"
    and step: "cp_reading q + mset (reading_of (cp_workers p ! i))
       = (if cp_next p < length (cp_tasks p) then add_mset (cp_next p) (cp_reading p) else cp_reading p)"
    and q: "cp_tasks q = cp_tasks p" "cp_next q = (if cp_next p < length (cp_tasks p) then cp_next p + 1 else cp_next p)"
      "cp_done q = cp_done p + length (reading_of (cp_workers p ! i))"
  shows "cp_counts q"
proof -
  let ?r = "mset (reading_of (cp_workers p ! i))"
  have sub: "?r \<subseteq># cp_reading p"
    using i by (auto simp: reading_of_def in_reading_iff split: pool_worker.split) (metis nth_mem)
  have "cp_reading q = (if cp_next p < length (cp_tasks p) then {#cp_next p#} + cp_reading p else cp_reading p) - ?r"
    using step by (metis add_diff_cancel_right' add_mset_add_single union_commute)
  then have R: "cp_reading q = cp_reading p - ?r + (if cp_next p < length (cp_tasks p) then {#cp_next p#} else {#})"
    using multiset_diff_union_assoc [OF sub, of "{#cp_next p#}"] by (simp split: if_splits)
  from sub have size: "size (cp_reading p - ?r) = size (cp_reading p) - length (reading_of (cp_workers p ! i))"
      "length (reading_of (cp_workers p ! i)) \<le> size (cp_reading p)"
    using size_mset_mono [OF sub] by (simp_all add: size_Diff_submset)
  have fresh: "cp_next p \<notin># cp_reading p - ?r"
    using counts unfolding cp_counts_def by (meson in_diffD less_irrefl)
  have le: "count (cp_reading p - ?r) t \<le> 1" for t
    using counts unfolding cp_counts_def by (metis count_diff diff_le_self le_trans)
  have old: "t < cp_next p" if "t \<in># cp_reading p - ?r" for t
    using that counts unfolding cp_counts_def by (meson in_diffD)
  show ?thesis
    unfolding cp_counts_def q R
    using counts size le old fresh
    by (auto simp: cp_counts_def not_in_iff less_Suc_eq split: if_splits)
qed

lemma cp_counts_wake:
  assumes "cp_counts p" "i < length (cp_workers p)" "cp_workers p ! i = Parked seen"
  shows "cp_counts (cp_next_task i seen' p)"
  using cp_reading_next [OF assms(2), of seen'] assms(3)
  by (intro cp_counts_next [OF assms(1,2)]) simp_all

lemma cp_counts_finish:
  assumes "cp_counts p" "i < length (cp_workers p)" "cp_workers p ! i = Reading seen t"
  shows "cp_counts (cp_next_task i seen (p\<lparr>cp_failed := f, cp_done := cp_done p + 1\<rparr>))"
proof -
  let ?p = "p\<lparr>cp_failed := f, cp_done := cp_done p + 1\<rparr>"
  have "cp_reading (cp_next_task i seen ?p) + {#t#}
      = (if cp_next p < length (cp_tasks p) then add_mset (cp_next p) (cp_reading p) else cp_reading p)"
    using cp_reading_next [of i ?p seen] assms(2,3) by simp
  then show ?thesis
    using assms(3) by (intro cp_counts_next [OF assms(1,2)]) simp_all
qed

definition tasks_settled :: "(handle \<Rightarrow> u64 \<Rightarrow> byte) \<Rightarrow> chunk_pool \<Rightarrow> memory \<Rightarrow> bool" where
  "tasks_settled file p m \<longleftrightarrow>
     (\<forall>t < cp_next p. t \<notin># cp_reading p \<longrightarrow> cp_failed p \<or> task_settled file (cp_file p) m (cp_tasks p ! t))"

lemma cs_inv_alt:
  "cs_inv file workers s \<longleftrightarrow>
     length (cp_workers (cs_pool s)) = workers \<and> cp_counts (cs_pool s) \<and> cp_awake (cs_pool s) \<and>
     tasks_apart (cp_tasks (cs_pool s)) \<and> (cp_stop (cs_pool s) \<or> Ended \<notin> set (cp_workers (cs_pool s))) \<and>
     (if cs_running s then \<not> cp_stop (cs_pool s) \<and> tasks_settled file (cs_pool s) (cs_memory s)
      else cp_done (cs_pool s) = length (cp_tasks (cs_pool s)))"
  by (simp add: cs_inv_def tasks_settled_def Let_def)

lemma cs_invD:
  assumes "cs_inv file workers s"
  shows "cp_counts (cs_pool s)" "cp_awake (cs_pool s)" "tasks_apart (cp_tasks (cs_pool s))"
    "\<not> cs_running s \<Longrightarrow> cp_reading (cs_pool s) = {#}"
    "cs_running s \<Longrightarrow> \<not> cp_stop (cs_pool s)" "cs_running s \<Longrightarrow> tasks_settled file (cs_pool s) (cs_memory s)"
    "\<And>t. t \<in># cp_reading (cs_pool s) \<Longrightarrow> t < length (cp_tasks (cs_pool s))"
proof -
  note inv = assms [unfolded cs_inv_alt]
  show "cp_counts (cs_pool s)" "cp_awake (cs_pool s)" "tasks_apart (cp_tasks (cs_pool s))"
    using inv by auto
  show "cp_reading (cs_pool s) = {#}" if "\<not> cs_running s"
    using inv that by (intro cp_counts_begin) auto
  show "\<not> cp_stop (cs_pool s)" "tasks_settled file (cs_pool s) (cs_memory s)" if "cs_running s"
    using inv that by auto
  show "t < length (cp_tasks (cs_pool s))" if "t \<in># cp_reading (cs_pool s)" for t
    using inv that unfolding cp_counts_def by (meson less_le_trans)
qed

lemma not_ended_next:
  "Ended \<notin> set (cp_workers p) \<Longrightarrow> Ended \<notin> set (cp_workers (cp_next_task i seen p))"
  by (auto simp: cp_next_task_def dest!: set_update_subset_insert [THEN subsetD])

lemma cs_inv_begins:
  assumes "cs_inv file workers s" "\<not> cs_running s" "\<not> cp_stop (cs_pool s)" "tasks_apart tasks"
  shows "cs_inv file workers (s\<lparr>cs_pool := cp_run_begin h tasks (cs_pool s), cs_running := True\<rparr>)"
proof -
  have empty: "cp_reading (cp_run_begin h tasks (cs_pool s)) = {#}"
    using cs_invD(4) [OF assms(1,2)] by (simp add: cp_reading_def cp_run_begin_def)
  have seen: "\<forall>w \<in> set (cp_workers (cs_pool s)). seen_by w \<le> cp_generation (cs_pool s)"
    using cs_invD(2) [OF assms(1)] by (simp add: cp_awake_def)
  then have "cp_awake (cp_run_begin h tasks (cs_pool s))"
    using empty unfolding cp_awake_def cp_run_begin_def by (fastforce simp: le_Suc_eq)
  with empty assms show ?thesis
    by (simp add: cs_inv_alt cp_counts_def tasks_settled_def) (simp add: cp_run_begin_def)
qed

lemma tasks_settled_wake:
  assumes "tasks_settled file p m" "i < length (cp_workers p)" "cp_workers p ! i = Parked seen"
  shows "tasks_settled file (cp_next_task i seen' p) m"
  using assms(1) cp_reading_next [OF assms(2), of seen'] assms(3)
  by (auto simp: tasks_settled_def less_Suc_eq split: if_splits)

lemma cs_inv_wakes:
  assumes inv: "cs_inv file workers s" and wake: "cp_wake i (cs_pool s) = Some q"
  shows "cs_inv file workers (s\<lparr>cs_pool := q\<rparr>)"
proof (cases "cp_stop (cs_pool s)")
  case True
  then obtain seen where i: "i < length (cp_workers (cs_pool s))" "cp_workers (cs_pool s) ! i = Parked seen"
      and q: "q = (cs_pool s)\<lparr>cp_workers := (cp_workers (cs_pool s))[i := Ended]\<rparr>"
    using wake by (auto simp: cp_wake_def split: if_splits pool_worker.splits)
  have "cp_reading q = cp_reading (cs_pool s)"
    using mset_concat_update [OF i(1), of reading_of Ended] i(2) by (simp add: cp_reading_def q)
  moreover from this have "cp_awake q"
    using cs_invD(2) [OF inv] by (auto simp: cp_awake_def q dest!: set_update_subset_insert [THEN subsetD])
  ultimately show ?thesis
    using inv True by (auto simp: cs_inv_alt cp_counts_def q)
next
  case False
  with wake obtain seen where i: "i < length (cp_workers (cs_pool s))" "cp_workers (cs_pool s) ! i = Parked seen"
      and q: "q = cp_next_task i (cp_generation (cs_pool s)) (cs_pool s)"
    by (rule cp_wakeE)
  have "cp_awake q"
    unfolding q using cs_invD(1,2) [OF inv] i(1) by (intro cp_awake_next) (simp_all add: cp_awake_def cp_counts_def)
  then show ?thesis
    using inv False cp_counts_wake [OF cs_invD(1) [OF inv] i] not_ended_next tasks_settled_wake [OF _ i]
    by (simp add: cs_inv_alt q)
qed

text \<open>Memory changes inside the destination of a task that is being read, or outside all of them.\<close>

lemma tasks_settled_write:
  assumes inv: "cs_inv file workers s" and run: "cs_running s" and t: "t \<in># cp_reading (cs_pool s)"
    and frame: "\<And>a. a \<notin> task_addrs (cp_tasks (cs_pool s) ! t) \<Longrightarrow> m a = cs_memory s a"
  shows "tasks_settled file (cs_pool s) m"
  unfolding tasks_settled_def
proof (intro allI impI)
  fix t' assume t': "t' < cp_next (cs_pool s)" "t' \<notin># cp_reading (cs_pool s)"
  then have "t' < length (cp_tasks (cs_pool s))" "t' \<noteq> t"
    using cs_invD(1) [OF inv] t by (auto simp: cp_counts_def)
  with t' settled_other [OF cs_invD(3,7) [OF inv], OF t] frame cs_invD(6) [OF inv run]
  show "cp_failed (cs_pool s) \<or> task_settled file (cp_file (cs_pool s)) m (cp_tasks (cs_pool s) ! t')"
    unfolding tasks_settled_def by metis
qed

lemma cs_inv_finishes:
  assumes inv: "cs_inv file workers s" and ok: "read_at_ok file fsize rd"
    and worker: "cp_workers (cs_pool s) ! i = Reading seen t" and task: "task = cp_tasks (cs_pool s) ! t"
    and read: "rd k (cp_file (cs_pool s)) (pt_dst task) (pt_len task) (pt_off task) (cs_memory s) = Some (got, k', m)"
    and finish: "cp_finish i got (cs_pool s) = Some q"
  shows "cs_inv file workers (s\<lparr>cs_pool := q, cs_memory := m\<rparr>)"
proof -
  let ?p = "cs_pool s"
  let ?f = "(cs_pool s)\<lparr>cp_failed := (cp_failed ?p \<or> \<not> pt_need task \<le> got), cp_done := cp_done ?p + 1\<rparr>"
  have i: "i < length (cp_workers ?p)" and q: "q = cp_next_task i seen ?f"
    using finish worker by (auto simp: task elim!: cp_finishE)
  have t: "t \<in># cp_reading ?p"
    using i worker unfolding in_reading_iff by (metis nth_mem)
  then have run: "cs_running s"
    using cs_invD(4) [OF inv] by fastforce
  have bytes: "bytes_read (file (cp_file ?p)) (pt_dst task) (pt_off task) 0 (unat got) (cs_memory s) m"
      and got: "unat got \<le> unat (pt_len task)"
    using ok read unfolding read_at_ok_def by blast+
  have frame: "m a = cs_memory s a" if "a \<notin> task_addrs (cp_tasks ?p ! t)" for a
    using that got bytes_atI [of _ "unat (pt_len task)" "pt_dst task"]
    by (intro bytes_readD(2) [OF bytes]) (auto simp: task task_addrs_def)
  have settled: "tasks_settled file ?p m"
    using inv run t frame by (rule tasks_settled_write)
  have this_one: "task_settled file (cp_file ?p) m task" if "pt_need task \<le> got"
    using that bytes_readD(1) [OF bytes] by (simp add: task_settled_def word_le_nat_alt)
  have awake: "cp_awake q"
    unfolding q using cs_invD(1,2) [OF inv] i worker nth_mem [OF i]
    by (intro cp_awake_next) (auto simp: cp_awake_def cp_counts_def)
  have reading: "cp_reading q + {#t#}
      = (if cp_next ?p < length (cp_tasks ?p) then add_mset (cp_next ?p) (cp_reading ?p) else cp_reading ?p)"
    using cp_reading_next [of i ?f seen] i worker by (simp add: q)
  have "tasks_settled file q m"
    unfolding tasks_settled_def
  proof (intro allI impI)
    fix t' assume t': "t' < cp_next q" "t' \<notin># cp_reading q"
    have "t' \<noteq> cp_next ?p" if "cp_next ?p < length (cp_tasks ?p)"
    proof -
      have "t \<noteq> cp_next ?p"
        using t cs_invD(1) [OF inv] by (auto simp: cp_counts_def)
      then have "cp_next ?p \<in># cp_reading q"
        using arg_cong [OF reading, of "\<lambda>M. cp_next ?p \<in># M"] that by simp
      with t'(2) show ?thesis by auto
    qed
    then have "t' < cp_next ?p"
      using t'(1) by (auto simp: q split: if_splits)
    moreover have "t' \<notin># cp_reading ?p" if "t' \<noteq> t"
      using arg_cong [OF reading, of "\<lambda>M. t' \<in># M"] t'(2) that by (auto split: if_splits)
    ultimately show "cp_failed q \<or> task_settled file (cp_file q) m (cp_tasks q ! t')"
      using settled this_one by (cases "t' = t") (auto simp: q tasks_settled_def task)
  qed
  moreover have "Ended \<notin> set (cp_workers q)"
    unfolding q using inv run by (intro not_ended_next) (auto simp: cs_inv_alt)
  ultimately show ?thesis
    using inv run awake cp_counts_finish [OF cs_invD(1) [OF inv] i worker] by (simp add: cs_inv_alt q)
qed

lemma cs_inv_memory:
  assumes "cs_inv file workers s" "cs_running s \<Longrightarrow> tasks_settled file (cs_pool s) m"
  shows "cs_inv file workers (s\<lparr>cs_memory := m\<rparr>)"
  using assms by (simp add: cs_inv_alt)

lemma cp_step_inv:
  assumes "cp_step rd s t" "cs_inv file workers s" "read_at_ok file fsize rd"
  shows "cs_inv file workers t"
  using assms(1)
proof cases
  case (begins tasks h)
  with assms(2) cs_inv_begins show ?thesis by blast
next
  case (wakes i p)
  with assms(2) cs_inv_wakes show ?thesis by blast
next
  case (scribbles seen task a b)
  then have "task \<in># cp_reading (cs_pool s)"
    unfolding in_reading_iff by blast
  with assms(2) show ?thesis
    unfolding scribbles(1) by (intro cs_inv_memory tasks_settled_write) (use scribbles(3) in auto)
next
  case (finishes i seen n task k got k' m p)
  then show ?thesis
    using cs_inv_finishes [OF assms(2,3)] by simp
next
  case (returns result)
  with assms(2) show ?thesis
    by (auto simp: cs_inv_alt cp_run_end_def split: if_splits)
next
  case (others a b)
  have "tasks_settled file (cs_pool s) ((cs_memory s)(a := b))" if run: "cs_running s"
    unfolding tasks_settled_def
  proof (intro allI impI)
    fix n assume n: "n < cp_next (cs_pool s)" "n \<notin># cp_reading (cs_pool s)"
    then have len: "n < length (cp_tasks (cs_pool s))"
      using cs_invD(1) [OF assms(2)] by (simp add: cp_counts_def)
    then have "a \<notin> bytes_at (pt_dst (cp_tasks (cs_pool s) ! n)) (unat (pt_need (cp_tasks (cs_pool s) ! n)))"
      using others(2) run need_in_task [OF cs_invD(3) [OF assms(2)] len] nth_mem by blast
    then show "cp_failed (cs_pool s) \<or>
        task_settled file (cp_file (cs_pool s)) ((cs_memory s)(a := b)) (cp_tasks (cs_pool s) ! n)"
      using cs_invD(6) [OF assms(2) run] n settled_frame unfolding tasks_settled_def by (metis fun_upd_other)
  qed
  with assms(2) show ?thesis
    unfolding others(1) by (rule cs_inv_memory)
next
  case stops
  with assms(2) show ?thesis
    by (auto simp: cs_inv_alt cp_stopping_def cp_counts_def cp_awake_def cp_reading_def)
qed

theorem cp_reachable_inv:
  assumes "cp_reachable rd workers s" "read_at_ok file fsize rd"
  shows "cs_inv file workers s"
  using assms(1)
proof induction
  case (start m)
  show ?case by (rule cs_inv_init)
next
  case (step s t)
  with assms(2) show ?case by (blast intro: cp_step_inv)
qed

end
