(* ===== verification/Shootout_Pool_Props.thy ===== *)
theory Shootout_Pool_Props
  imports Shootout_Pool
begin

text \<open>
  What the chunk pool of the read shootout guarantees to \<open>PoolRead::read\<close>: the chunks of a window are taken once
  each, \<open>run\<close> returns when nothing reads any more, and a row that it reports is the file's.
\<close>

section \<open>The chunks of a window\<close>

lemma chunk_ats_from:
  assumes "0 < unat chunk" "unat len + unat chunk < 18446744073709551616"
  shows "\<exists>n. chunk_ats len chunk at = Some (map (\<lambda>j. at + of_nat j * chunk) [0..<n]) \<and>
    unat len \<le> unat at + n * unat chunk \<and> (\<forall>j < n. unat at + j * unat chunk < unat len)"
proof (induction "unat len - unat at" arbitrary: at rule: less_induct)
  case less
  show ?case
  proof (cases "at < len")
    case False
    then show ?thesis
      by (intro exI [of _ 0]) (simp add: chunk_ats.simps [of len chunk at] word_less_nat_alt)
  next
    case True
    then have at: "unat at < unat len" and next_at: "unat (at + chunk) = unat at + unat chunk"
      using assms(2) by (simp_all add: word_less_nat_alt unat_plus_64)
    with assms(1) have "unat len - unat (at + chunk) < unat len - unat at"
      by simp
    from less [OF this] obtain n where
        rest: "chunk_ats len chunk (at + chunk) = Some (map (\<lambda>j. at + chunk + of_nat j * chunk) [0..<n])"
      and bound: "unat len \<le> unat at + unat chunk + n * unat chunk" "\<forall>j < n. unat at + unat chunk + j * unat chunk < unat len"
      unfolding next_at by blast
    have "chunk_ats len chunk at = Some (map (\<lambda>j. at + of_nat j * chunk) [0..<Suc n])"
      using True rest
      by (simp add: chunk_ats.simps [of len chunk at] upt_conv_Cons map_Suc_upt [symmetric] algebra_simps del: upt_Suc)
    moreover have "unat at + j * unat chunk < unat len" if "j < Suc n" for j
      using bound(2) at that by (cases j) (simp_all add: add.assoc)
    ultimately show ?thesis
      using bound(1) by (intro exI [of _ "Suc n"]) simp
  qed
qed

text \<open>Every position of a window is in one of its chunks.\<close>

lemma chunk_ats_covers:
  assumes "0 < unat chunk" "unat len + unat chunk < 18446744073709551616" "chunk_ats len chunk 0 = Some ats" "q < unat len"
  obtains j r where "j < length ats" "r < unat (min chunk (len - ats ! j))" "of_nat q = ats ! j + of_nat r"
proof -
  obtain n where ats: "ats = map (\<lambda>j. of_nat j * chunk) [0..<n]" and n: "unat len \<le> n * unat chunk"
    using chunk_ats_from [OF assms(1,2), of 0] assms(3) by auto
  let ?j = "q div unat chunk" and ?r = "q mod unat chunk"
  have split: "?j * unat chunk + ?r = q"
    by simp
  have j: "?j < n"
    using assms(1,4) n by (meson less_le_trans less_mult_imp_div_less)
  have at: "unat (of_nat ?j * chunk) = ?j * unat chunk"
  proof -
    have "?j \<le> q" "?j * unat chunk \<le> q"
      by simp_all
    then have "?j < 18446744073709551616" "?j * unat chunk < 18446744073709551616"
      using assms(4) unat_lt_64 [of len] by linarith+
    then show ?thesis
      by (subst unat_times_64) simp_all
  qed
  have less: "?j * unat chunk + ?r < unat len"
    unfolding split by (rule assms(4))
  then have le: "of_nat ?j * chunk \<le> len" and r: "?r < unat len - ?j * unat chunk"
    unfolding word_le_nat_alt at by linarith+
  have "?r < unat chunk"
    using assms(1) by simp
  with r have "?r < unat (min chunk (len - of_nat ?j * chunk))"
    by (simp only: unat_min_64 unat_minus_64 [OF le] at min_less_iff_conj)
  moreover have "of_nat q = (of_nat ?j * chunk + of_nat ?r :: u64)"
  proof -
    have "(of_nat q :: u64) = of_nat (?j * unat chunk + ?r)"
      by (simp only: split)
    then show ?thesis
      by (simp only: of_nat_add of_nat_mult) simp
  qed
  ultimately show thesis
    using j by (intro that [of ?j ?r]) (simp_all add: ats)
qed

text \<open>The window of a row, buffered or not.\<close>

lemma row_window_fits:
  fixes unbuffered :: bool
  assumes "miss_fits row x"
  defines "w \<equiv> row_window unbuffered (miss_offset x) row"
  shows "unat (w_head w) + unat row \<le> unat (w_length w)" "unat (w_length w) \<le> unat row + 8192"
    "unat (w_head w + row) = unat (w_head w) + unat row" "w_offset w + w_head w = miss_offset x"
  using window_fits [OF assms(1)] by (cases unbuffered; simp add: w_def row_window_def)+

lemma pool_tasksE:
  fixes unbuffered :: bool
  assumes fits: "miss_fits row x" and chunk: "0 < unat chunk" "unat row + 8192 + unat chunk < 18446744073709551616"
  defines "w \<equiv> row_window unbuffered (miss_offset x) row"
  obtains tasks where "pool_tasks unbuffered row chunk x = Some tasks"
    "unat (w_length w) \<le> length tasks * unat chunk"
    "\<And>j. j < length tasks \<Longrightarrow> tasks ! j = pool_task_at w row chunk (miss_slot x) (of_nat j * chunk)"
    "\<And>j. j < length tasks \<Longrightarrow> unat (of_nat j * chunk) = j * unat chunk \<and> j * unat chunk < unat (w_length w)"
proof -
  have len: "unat (w_length w) + unat chunk < 18446744073709551616"
    using row_window_fits(2) [OF fits, of unbuffered] chunk(2) by (simp add: w_def)
  obtain n where ats: "chunk_ats (w_length w) chunk 0 = Some (map (\<lambda>j. of_nat j * chunk) [0..<n])"
      and bound: "unat (w_length w) \<le> n * unat chunk" "\<And>j. j < n \<Longrightarrow> j * unat chunk < unat (w_length w)"
    using chunk_ats_from [OF chunk(1) len, of 0] by auto
  let ?tasks = "map (\<lambda>j. pool_task_at w row chunk (miss_slot x) (of_nat j * chunk)) [0..<n]"
  have "unat (of_nat j * chunk) = j * unat chunk" if "j < n" for j
  proof -
    have "j \<le> j * unat chunk"
      using chunk(1) by simp
    with bound(2) [OF that] have "j < 18446744073709551616" "j * unat chunk < 18446744073709551616"
      using unat_lt_64 [of "w_length w"] by linarith+
    then show ?thesis
      by (subst unat_times_64) simp_all
  qed
  with bound ats show thesis
    by (intro that [of ?tasks]) (simp_all add: pool_tasks_def w_def [symmetric] Let_def comp_def)
qed

lemma pool_tasksD:
  fixes unbuffered :: bool
  assumes "miss_fits row x" "0 < unat chunk" "unat row + 8192 + unat chunk < 18446744073709551616"
    and tasks: "pool_tasks unbuffered row chunk x = Some tasks"
  defines "w \<equiv> row_window unbuffered (miss_offset x) row"
  shows "unat (w_length w) \<le> length tasks * unat chunk"
    "j < length tasks \<Longrightarrow> tasks ! j = pool_task_at w row chunk (miss_slot x) (of_nat j * chunk)"
    "j < length tasks \<Longrightarrow> unat (of_nat j * chunk) = j * unat chunk \<and> j * unat chunk < unat (w_length w)"
proof -
  obtain tasks' where tasks': "pool_tasks unbuffered row chunk x = Some tasks'"
    and facts: "unat (w_length w) \<le> length tasks' * unat chunk"
      "\<And>j. j < length tasks' \<Longrightarrow> tasks' ! j = pool_task_at w row chunk (miss_slot x) (of_nat j * chunk)"
      "\<And>j. j < length tasks' \<Longrightarrow> unat (of_nat j * chunk) = j * unat chunk \<and> j * unat chunk < unat (w_length w)"
    using pool_tasksE [OF assms(1-3), of unbuffered] unfolding w_def by blast
  moreover have "tasks' = tasks"
    using tasks tasks' by simp
  ultimately show "unat (w_length w) \<le> length tasks * unat chunk"
    "j < length tasks \<Longrightarrow> tasks ! j = pool_task_at w row chunk (miss_slot x) (of_nat j * chunk)"
    "j < length tasks \<Longrightarrow> unat (of_nat j * chunk) = j * unat chunk \<and> j * unat chunk < unat (w_length w)"
    by simp_all
qed

lemma pool_task_bounds:
  assumes "unat at < unat (w_length w)"
  shows "unat (pt_len (pool_task_at w row chunk slot at)) \<le> unat chunk"
    "unat at + unat (pt_len (pool_task_at w row chunk slot at)) \<le> unat (w_length w)"
    "pt_dst (pool_task_at w row chunk slot at) = slot + at" "pt_off (pool_task_at w row chunk slot at) = w_offset w + at"
    "pt_need (pool_task_at w row chunk slot at) \<le> pt_len (pool_task_at w row chunk slot at)"
  using assms by (auto simp: pool_task_at_def Let_def unat_min_64 unat_minus_64 word_le_nat_alt)

lemma pool_task_need:
  assumes "r < unat chunk" "unat at + r < unat (w_length w)" "unat at + r < unat (w_head w + row)"
  shows "r < unat (pt_need (pool_task_at w row chunk slot at))"
  using assms by (auto simp: pool_task_at_def Let_def unat_min_64 unat_minus_64 word_le_nat_alt word_less_nat_alt)

lemma bytes_at_apart:
  assumes "unat o1 + n1 \<le> unat o2" "unat o2 + n2 < 18446744073709551616"
  shows "bytes_at (base + o1) n1 \<inter> bytes_at (base + o2) n2 = {}"
proof -
  have "n1 < 18446744073709551616" "n2 < 18446744073709551616"
    using assms unat_lt_64 [of o2] by linarith+
  moreover from this have "span_addrs (subspan \<lparr>span_data = base, span_size = 0\<rparr> o1 (of_nat n1)) \<inter>
      span_addrs (subspan \<lparr>span_data = base, span_size = 0\<rparr> o2 (of_nat n2)) = {}"
    using assms unat_lt_64 [of o2] by (intro subspan_disjoint) simp_all
  ultimately show ?thesis
    by (simp add: bytes_at_span subspan_def)
qed

lemma pool_tasks_apart:
  assumes fits: "miss_fits row x" and chunk: "0 < unat chunk" "unat row + 8192 + unat chunk < 18446744073709551616"
    and tasks: "pool_tasks unbuffered row chunk x = Some tasks"
  shows "tasks_apart tasks"
proof -
  let ?w = "row_window unbuffered (miss_offset x) row"
  note at = pool_tasksD(2) [OF fits chunk tasks] and pos = pool_tasksD(3) [OF fits chunk tasks]
  have len: "unat (w_length ?w) < 18446744073709551616"
    by (rule unat_lt_64)
  have less: "task_addrs (tasks ! i) \<inter> task_addrs (tasks ! j) = {}" if "i < j" "j < length tasks" for i j
  proof -
    from that have i: "i < length tasks" by simp
    have "i * unat chunk + unat chunk \<le> j * unat chunk"
      using that(1) by (metis Suc_leI add.commute mult_Suc mult_le_mono1)
    then show ?thesis
      unfolding task_addrs_def at [OF i] at [OF that(2)]
      using pool_task_bounds [of "of_nat i * chunk" ?w row chunk "miss_slot x"]
        pool_task_bounds [of "of_nat j * chunk" ?w row chunk "miss_slot x"] pos [OF i] pos [OF that(2)] len
      by (auto intro!: bytes_at_apart)
  qed
  show ?thesis
    unfolding tasks_apart_def
  proof (intro conjI allI impI)
    fix i j assume "i < length tasks" "j < length tasks" "i \<noteq> j"
    then show "task_addrs (tasks ! i) \<inter> task_addrs (tasks ! j) = {}"
      using less [of i j] less [of j i] by (cases "i < j") auto
  qed (use at pos pool_task_bounds(5) in auto)
qed

text \<open>Settled tasks are the row.\<close>

lemma settled_tasks_row:
  assumes fits: "miss_fits row x" and chunk: "0 < unat chunk" "unat row + 8192 + unat chunk < 18446744073709551616"
    and tasks: "pool_tasks unbuffered row chunk x = Some tasks"
    and settled: "\<And>t. t < length tasks \<Longrightarrow> task_settled file h m (tasks ! t)"
    and i: "i < unat row"
  shows "m (miss_slot x + w_head (row_window unbuffered (miss_offset x) row) + of_nat i) = file h (miss_offset x + of_nat i)"
proof -
  let ?w = "row_window unbuffered (miss_offset x) row"
  note w = row_window_fits [OF fits, of unbuffered]
  let ?q = "unat (w_head ?w) + i"
  let ?j = "?q div unat chunk" and ?r = "?q mod unat chunk"
  note long = pool_tasksD(1) [OF fits chunk tasks] and at = pool_tasksD(2) [OF fits chunk tasks]
    and pos = pool_tasksD(3) [OF fits chunk tasks]
  have q: "?q < unat (w_length ?w)" "?q < unat (w_head ?w + row)"
    using w(1,3) i by linarith+
  have split: "?j * unat chunk + ?r = ?q"
    by simp
  have j: "?j < length tasks"
    using q(1) long chunk(1) by (meson less_le_trans less_mult_imp_div_less)
  let ?t = "pool_task_at ?w row chunk (miss_slot x) (of_nat ?j * chunk)"
  have r: "?r < unat chunk"
    using chunk(1) by simp
  have "unat (of_nat ?j * chunk) + ?r = ?q"
    using pos [OF j] by simp
  with q r have "?r < unat (pt_need ?t)"
    by (intro pool_task_need) (simp_all only:)
  with settled [OF j] at [OF j] pos [OF j] pool_task_bounds(3,4) [of "of_nat ?j * chunk" ?w row chunk "miss_slot x"]
  have "m (miss_slot x + of_nat ?j * chunk + of_nat ?r) = file h (w_offset ?w + of_nat ?j * chunk + of_nat ?r)"
    by (simp add: task_settled_def)
  moreover have "of_nat ?j * chunk + of_nat ?r = (w_head ?w + of_nat i :: u64)"
  proof -
    have "of_nat ?j * chunk + of_nat ?r = (of_nat (?j * unat chunk + ?r) :: u64)"
      by (simp only: of_nat_add of_nat_mult) simp
    also have "\<dots> = of_nat ?q"
      by (simp only: split)
    finally show ?thesis
      by simp
  qed
  ultimately show ?thesis
    by (metis (no_types, lifting) add.assoc w(4))
qed

section \<open>A run of two workers\<close>

datatype pool_command = Do_Wake nat | Do_Finish nat nat

definition pool_exec :: "read_at_fn \<Rightarrow> pool_command \<Rightarrow> pool_system \<Rightarrow> pool_system option" where
  "pool_exec rd cmd s =
     (case cmd of
        Do_Wake i \<Rightarrow> map_option (\<lambda>p. s\<lparr>cs_pool := p\<rparr>) (cp_wake i (cs_pool s))
      | Do_Finish i k \<Rightarrow>
          (if i \<ge> length (cp_workers (cs_pool s)) then None
           else case cp_workers (cs_pool s) ! i of
             Reading seen t \<Rightarrow>
               (let task = cp_tasks (cs_pool s) ! t in
                case rd k (cp_file (cs_pool s)) (pt_dst task) (pt_len task) (pt_off task) (cs_memory s) of
                  None \<Rightarrow> None
                | Some (got, k', m) \<Rightarrow>
                    map_option (\<lambda>p. s\<lparr>cs_pool := p, cs_memory := m\<rparr>) (cp_finish i got (cs_pool s)))
           | _ \<Rightarrow> None))"

fun pool_run :: "read_at_fn \<Rightarrow> pool_command list \<Rightarrow> pool_system \<Rightarrow> pool_system option" where
  "pool_run rd [] s = Some s"
| "pool_run rd (cmd # cmds) s = (case pool_exec rd cmd s of None \<Rightarrow> None | Some t \<Rightarrow> pool_run rd cmds t)"

lemma pool_exec_step: "pool_exec rd cmd s = Some t \<Longrightarrow> cp_step rd s t"
  by (auto simp: pool_exec_def Let_def split: pool_command.splits if_splits pool_worker.splits option.splits
      intro: cp_step.wakes cp_step.finishes [OF _ refl])

lemma pool_run_reachable:
  "cp_reachable rd workers s \<Longrightarrow> pool_run rd cmds s = Some t \<Longrightarrow> cp_reachable rd workers t"
proof (induction cmds arbitrary: s)
  case (Cons cmd cmds)
  from Cons.prems(2) obtain u where "pool_exec rd cmd s = Some u" "pool_run rd cmds u = Some t"
    by (auto split: option.splits)
  with Cons.prems(1) Cons.IH show ?case
    by (blast intro: cp_reachable.step pool_exec_step)
qed simp

text \<open>Six bytes at offset 1 of the file of seven, in chunks of four bytes, into the slot at 8192.\<close>

definition pool_miss :: miss where
  "pool_miss = \<lparr>miss_offset = 1, miss_slot = 8192\<rparr>"

definition pool_begun :: pool_system where
  "pool_begun =
     \<lparr>cs_pool = cp_run_begin 3 (the (pool_tasks False 6 4 pool_miss)) (cp_construct 2), cs_memory = (\<lambda>_. 0), cs_running = True\<rparr>"

definition pool_ended :: pool_system where
  "pool_ended = the (pool_run (read_at demo_pread) [Do_Wake 1, Do_Wake 0, Do_Finish 0 0, Do_Finish 1 1] pool_begun)"

lemma pool_miss_fits: "miss_fits 6 pool_miss"
  by (simp add: miss_fits_def pool_miss_def)

lemma pool_begun_tasks: "pool_tasks False 6 4 pool_miss = Some (cp_tasks (cs_pool pool_begun))"
proof -
  have "\<not> Option.is_none (pool_tasks False 6 4 pool_miss)"
    by code_simp
  then show ?thesis
    by (simp add: pool_begun_def cp_run_begin_def Option.is_none_def)
qed

lemma pool_begun_reachable: "cp_reachable (read_at demo_pread) 2 pool_begun"
proof -
  let ?init = "\<lparr>cs_pool = cp_construct 2, cs_memory = (\<lambda>_. 0), cs_running = False\<rparr>"
  have tasks: "pool_tasks False 6 4 pool_miss = Some (the (pool_tasks False 6 4 pool_miss))"
    using pool_begun_tasks by simp
  have "tasks_apart (the (pool_tasks False 6 4 pool_miss))"
    by (rule pool_tasks_apart [OF pool_miss_fits _ _ tasks]) simp_all
  from cp_step.begins [OF _ _ this, of ?init] have "cp_step (read_at demo_pread) ?init pool_begun"
    by (simp add: pool_begun_def cp_construct_def)
  with cp_reachable.start show ?thesis
    by (rule cp_reachable.step)
qed

lemma pool_ended_reachable: "cp_reachable (read_at demo_pread) 2 pool_ended"
proof (rule pool_run_reachable [OF pool_begun_reachable])
  have "\<not> Option.is_none (pool_run (read_at demo_pread) [Do_Wake 1, Do_Wake 0, Do_Finish 0 0, Do_Finish 1 1] pool_begun)"
    by code_simp
  then show "pool_run (read_at demo_pread) [Do_Wake 1, Do_Wake 0, Do_Finish 0 0, Do_Finish 1 1] pool_begun = Some pool_ended"
    by (simp add: pool_ended_def Option.is_none_def)
qed

lemma pool_ended_facts:
  "cs_running pool_ended" "cp_run_end (cs_pool pool_ended) = Some True" "cp_file (cs_pool pool_ended) = 3"
  "cp_tasks (cs_pool pool_ended) = cp_tasks (cs_pool pool_begun)"
  by code_simp+

section \<open>Properties\<close>

lemma no_reading:
  assumes "cp_reading p = {#}"
  shows "list_all (\<lambda>w. reading_of w = []) (cp_workers p)"
  using assms by (auto simp: cp_reading_def list_all_iff)

text \<open>
  C16: a row read by the pool is the file's. However the workers interleave, wake late or read on from one run into the next:
  when \<open>run\<close> returns for the chunks of a row, no worker is reading, so the slot is the caller's again; and when it
  reports success the row stands in the slot, byte for byte.
\<close>

theorem pool_reads_row:
  assumes "pread_spec pread file fsize" "cp_reachable (read_at pread) workers s" "cs_running s"
    and "miss_fits row x" "0 < unat chunk" "unat row + 8192 + unat chunk < 18446744073709551616"
    and "pool_tasks unbuffered row chunk x = Some (cp_tasks (cs_pool s))" "cp_run_end (cs_pool s) = Some ok"
  shows "list_all (\<lambda>w. reading_of w = []) (cp_workers (cs_pool s)) \<and>
    (if ok then \<forall>i < unat row.
       cs_memory s (miss_slot x + w_head (row_window unbuffered (miss_offset x) row) + of_nat i)
         = file (cp_file (cs_pool s)) (miss_offset x + of_nat i) else True)"
proof -
  note inv = cp_reachable_inv [OF assms(2) read_at_posix_ok [OF assms(1)]]
  have all: "cp_done (cs_pool s) = length (cp_tasks (cs_pool s))" and ok: "ok = (\<not> cp_failed (cs_pool s))"
    using assms(8) by (auto simp: cp_run_end_def split: if_splits)
  have none: "cp_reading (cs_pool s) = {#}"
    by (rule cp_counts_begin [OF cs_invD(1) [OF inv] all])
  then have "cp_next (cs_pool s) = length (cp_tasks (cs_pool s))"
    using cs_invD(1) [OF inv] all by (simp add: cp_counts_def)
  then have settled: "task_settled file (cp_file (cs_pool s)) (cs_memory s) (cp_tasks (cs_pool s) ! t)"
    if "ok" "t < length (cp_tasks (cs_pool s))" for t
    using cs_invD(6) [OF inv assms(3)] none that by (simp add: tasks_settled_def ok)
  from settled_tasks_row [OF assms(4-7) settled] no_reading [OF none] show ?thesis
    by simp
qed

theorem pool_reads_row_witness:
  "\<exists>s. cp_reachable (read_at demo_pread) 2 s \<and> cp_run_end (cs_pool s) = Some True \<and>
     cs_memory s (8192 + 0 + of_nat 5) = demo_file 3 (1 + of_nat 5)"
proof -
  have "pool_tasks False 6 4 pool_miss = Some (cp_tasks (cs_pool pool_ended))"
    using pool_begun_tasks pool_ended_facts(4) by simp
  from pool_reads_row [OF demo_pread_spec pool_ended_reachable pool_ended_facts(1) pool_miss_fits _ _ this pool_ended_facts(2)]
  have "\<forall>i < 6. cs_memory pool_ended (8192 + 0 + of_nat i) = demo_file 3 (1 + of_nat i)"
    by (simp add: pool_ended_facts(3) row_window_def pool_miss_def)
  then have "cs_memory pool_ended (8192 + 0 + of_nat 5) = demo_file 3 (1 + of_nat 5)"
    by (rule allE [of _ 5]) simp
  with pool_ended_reachable pool_ended_facts(2) show ?thesis
    by blast
qed

text \<open>
  C29: \<open>run\<close> never waits in vain: in every reachable state of a pool with a worker, it returns, or a worker can wake, or one
  is reading and its critical section follows whatever its read brings.
\<close>

theorem pool_run_progress:
  assumes "read_at_ok file fsize rd" "cp_reachable rd workers s" "cs_running s" "0 < workers"
  shows "(\<exists>result. cp_run_end (cs_pool s) = Some result) \<or> (\<exists>i p. cp_wake i (cs_pool s) = Some p) \<or>
    (\<exists>i. \<forall>got. \<exists>p. cp_finish i got (cs_pool s) = Some p)"
proof -
  let ?p = "cs_pool s"
  note inv = cp_reachable_inv [OF assms(2,1)]
  have counts: "cp_done ?p + size (cp_reading ?p) = cp_next ?p" "cp_next ?p \<le> length (cp_tasks ?p)"
    using cs_invD(1) [OF inv] by (simp_all add: cp_counts_def)
  show ?thesis
  proof (cases "cp_reading ?p = {#}")
    case False
    then obtain t where "t \<in># cp_reading ?p"
      by auto
    then obtain seen where "Reading seen t \<in> set (cp_workers ?p)"
      unfolding in_reading_iff by blast
    then obtain i where "i < length (cp_workers ?p)" "cp_workers ?p ! i = Reading seen t"
      by (auto simp: in_set_conv_nth)
    then have "\<forall>got. \<exists>p. cp_finish i got ?p = Some p"
      by (simp add: cp_finish_def Let_def)
    then show ?thesis by blast
  next
    case none: True
    show ?thesis
    proof (cases "cp_next ?p < length (cp_tasks ?p)")
      case True
      have i: "0 < length (cp_workers ?p)" and "\<not> cp_stop ?p" "Ended \<notin> set (cp_workers ?p)"
        using inv assms(3,4) by (auto simp: cs_inv_alt)
      moreover have "cp_workers ?p ! 0 \<in> set (cp_workers ?p)"
        using i by (rule nth_mem)
      moreover have "reading_of (cp_workers ?p ! 0) = []"
        using no_reading [OF none] nth_mem [OF i] by (simp add: list_all_iff)
      ultimately obtain seen where seen: "cp_workers ?p ! 0 = Parked seen" "Parked seen \<in> set (cp_workers ?p)"
        by (cases "cp_workers ?p ! 0") auto
      then have "seen \<noteq> cp_generation ?p"
        using cs_invD(2) [OF inv] True none by (simp add: cp_awake_def)
      with seen(1) i \<open>\<not> cp_stop ?p\<close> have "\<exists>p. cp_wake 0 ?p = Some p"
        by (simp add: cp_wake_def)
      then show ?thesis by blast
    next
      case False
      with counts none have "cp_done ?p = length (cp_tasks ?p)"
        by simp
      then show ?thesis
        by (simp add: cp_run_end_def)
    qed
  qed
qed

theorem pool_run_progress_witness:
  "(\<exists>i p. cp_wake i (cs_pool pool_begun) = Some p) \<or> (\<exists>i. \<forall>got. \<exists>p. cp_finish i got (cs_pool pool_begun) = Some p)"
proof -
  have "cs_running pool_begun" "Option.is_none (cp_run_end (cs_pool pool_begun))"
    by code_simp+
  then show ?thesis
    using pool_run_progress [OF read_at_posix_ok [OF demo_pread_spec] pool_begun_reachable] by auto
qed

text \<open>
  The chunks of a row: the loop that cuts its window ends, and the chunks are disjoint, inside the slot, and no chunk
  asks for more than it reads.
\<close>

theorem pool_tasks_cut:
  assumes "miss_fits row x" "0 < unat chunk" "unat row + 8192 + unat chunk < 18446744073709551616"
  shows "\<exists>tasks. pool_tasks unbuffered row chunk x = Some tasks \<and> tasks_apart tasks \<and>
    list_all (\<lambda>task. task_addrs task \<subseteq> slot_addrs row x) tasks"
proof -
  let ?w = "row_window unbuffered (miss_offset x) row"
  obtain tasks where tasks: "pool_tasks unbuffered row chunk x = Some tasks"
    using pool_tasksE [OF assms, of unbuffered] by blast
  have "task_addrs (tasks ! j) \<subseteq> slot_addrs row x" if j: "j < length tasks" for j
  proof
    let ?at = "of_nat j * chunk" and ?t = "pool_task_at ?w row chunk (miss_slot x) (of_nat j * chunk)"
    note bounds = pool_task_bounds [of ?at ?w row chunk "miss_slot x"]
    have pos: "unat ?at < unat (w_length ?w)"
      using pool_tasksD(3) [OF assms tasks j] by simp
    fix a assume "a \<in> task_addrs (tasks ! j)"
    then obtain i where i: "i < unat (pt_len ?t)" "a = miss_slot x + ?at + of_nat i"
      by (auto simp: task_addrs_def bytes_at_iff pool_tasksD(2) [OF assms tasks j] bounds(3) [OF pos])
    have "unat ?at + i < unat row + 8192"
      using i(1) bounds(2) [OF pos] row_window_fits(2) [OF assms(1), of unbuffered] by linarith
    moreover have "a = miss_slot x + of_nat (unat ?at + i)"
      unfolding i(2) by (simp only: of_nat_add add.assoc) simp
    ultimately show "a \<in> slot_addrs row x"
      unfolding slot_addrs_def by (metis bytes_atI)
  qed
  then have "list_all (\<lambda>task. task_addrs task \<subseteq> slot_addrs row x) tasks"
    by (simp add: list_all_length)
  with tasks pool_tasks_apart [OF assms tasks] show ?thesis
    by blast
qed

theorem pool_tasks_cut_witness:
  "\<exists>tasks. pool_tasks True 6 4096 pool_miss = Some tasks \<and> length tasks = 1 \<and> tasks_apart tasks"
proof -
  have "map_option length (pool_tasks True 6 4096 pool_miss) = Some 1"
    by code_simp
  moreover have "0 < unat (4096 :: u64)" "unat (6 :: u64) + 8192 + unat (4096 :: u64) < 18446744073709551616"
    by simp_all
  from pool_tasks_cut [OF pool_miss_fits this] obtain tasks where
      "pool_tasks True 6 4096 pool_miss = Some tasks" "tasks_apart tasks"
    by blast
  ultimately show ?thesis
    by (intro exI [of _ tasks]) simp
qed

end
