(* ===== verification/Shootout_Mempage.thy ===== *)
theory Shootout_Mempage
  imports Shootout_Pool_Props Transfer_Props
begin

text \<open>
  \<open>MemPageRead\<close> of the read shootout, \<open>src/tools/read_shootout/read_shootout.cpp\<close>: the library as its clients use it. A row is
  submitted to a transfer set in chunks, all claims are waited for, then dropped. Each call on the set is a step,
  and the backend works between any two of them.
\<close>

section \<open>What a claim keeps\<close>

lemma ts_step_config: "ts_step submit outstanding completes self s t \<Longrightarrow> ts_config (sys_set t) = ts_config (sys_set s)"
proof (induction rule: ts_step.induct)
  case (submitted source off s c ts' b')
  then show ?case
    by (auto simp: ts_submit_def Let_def split: if_splits option.splits prod.splits)
next
  case (rejected source off s e ts' b')
  then show ?case
    using ts_submit_InlD(1) [OF rejected] by simp
next
  case (dropped c s c' ts')
  then show ?case
    by (auto simp: claim_reset_def ts_release_claim_def retire_record_def Let_def split: if_splits)
qed simp_all

context completing_backend
begin

text \<open>While a claim is held, its record keeps its source offset, and once it is terminal it does not change.\<close>

lemma claim_stable:
  assumes inv: "sys_inv outstanding valid content self s" and step: "ts_step submit outstanding completes self s t"
    and c: "c \<in> set (sys_claims s)" "c \<in> set (sys_claims t)"
  shows "sys_offsets t (claim_record c) = sys_offsets s (claim_record c) \<and>
    (rec_state (ts_records (sys_set s) ! claim_record c) = Rec_Submitted \<or>
     ts_records (sys_set t) ! claim_record c = ts_records (sys_set s) ! claim_record c)"
proof -
  note I = sys_invD [OF inv]
  note C = claims_okD [OF I(4) c(1)]
  have complete: "ts_records (ts_on_complete token res (sys_set s)) ! claim_record c = ts_records (sys_set s) ! claim_record c"
    if "rec_state (ts_records (sys_set s) ! claim_record c) \<noteq> Rec_Submitted" for token res
    using that C(2) by (auto simp: ts_on_complete_records ts_stale_def nth_list_update_if)
  from step show ?thesis
  proof cases
    case (submitted source off c' ts' b')
    obtain i where i: "i < length (ts_records (sys_set s))" "rec_state (ts_records (sys_set s) ! i) = Rec_Free"
        and c': "claim_record c' = i" and ts': "ts' = ts_admit i source off (sys_set s)"
      using ts_submit_InrE [OF I(1) submitted(2)] by (metis claim.select_convs(2))
    have "\<not> rec_held (ts_records (sys_set s) ! i)"
      using records_okD(1) [OF ts_invD(3) [OF I(1)] i(1)] i(2) by (simp add: record_ok_def)
    with C(3) have "claim_record c \<noteq> i" by auto
    then show ?thesis
      by (simp add: submitted(1) c' ts')
  next
    case (rejected source off e ts' b')
    then show ?thesis
      using ts_submit_InlD(1) [OF rejected(2)] by simp
  next
    case (dropped d d' ts')
    have "distinct (map claim_record (sys_claims s))"
      using I(4) by (simp add: claims_ok_def)
    moreover have "c \<noteq> d"
      using c(2) dropped(1) calculation by (auto simp: distinct_map)
    ultimately have "claim_record c \<noteq> claim_record d"
      using c(1) dropped(2) by (auto simp: distinct_map dest: inj_onD)
    moreover note D = claims_okD [OF I(4) dropped(2)]
    ultimately show ?thesis
      using ts_release_claim_Some(2) [OF claim_reset_Some [OF dropped(3) D(1)] D(2)] by (simp add: dropped(1))
  qed (use complete in auto)
qed

lemma claim_status_stable:
  assumes inv: "sys_inv outstanding valid content self s" and step: "ts_step submit outstanding completes self s t"
    and c: "c \<in> set (sys_claims s)" "c \<in> set (sys_claims t)" and ok: "claim_status c (sys_set s) = Some Ok"
  shows "claim_status c (sys_set t) = Some Ok"
proof -
  have "claim_set c"
    using claims_okD(1) [OF sys_invD(4) [OF inv] c(1)] .
  with ok have "rec_state (ts_records (sys_set s) ! claim_record c) \<noteq> Rec_Submitted"
    by (auto simp: claim_status_def ts_claim_status_def Let_def)
  with claim_stable [OF inv step c] ok \<open>claim_set c\<close> show ?thesis
    by (simp add: claim_status_def ts_claim_status_def)
qed

text \<open>Memory changes inside the destinations of outstanding requests only, and only a submission adds one.\<close>

lemma step_memory:
  assumes inv: "sys_inv outstanding valid content self s" and step: "ts_step submit outstanding completes self s t"
    and free: "\<And>r. r \<in># outstanding (sys_backend s) \<Longrightarrow> a \<notin> span_addrs (req_destination r)"
  shows "sys_memory t a = sys_memory s a"
  using step
proof cases
  case (writing r m')
  with free show ?thesis by simp
next
  case (delivered r res b' m')
  then have "r \<in># outstanding (sys_backend s)"
    using completes_outstanding sys_invD(2) [OF inv] by blast
  with delivered free completes_frame [OF sys_invD(2) [OF inv]] show ?thesis by simp
qed simp_all

lemma step_outstanding:
  assumes inv: "sys_inv outstanding valid content self s" and step: "ts_step submit outstanding completes self s t"
    and claims: "length (sys_claims t) \<le> length (sys_claims s)" and r: "r \<in># outstanding (sys_backend t)"
  shows "r \<in># outstanding (sys_backend s)"
  using step
proof cases
  case (submitted source off c ts' b')
  with claims show ?thesis by simp
next
  case (rejected source off e ts' b')
  have "outstanding b' = outstanding (sys_backend s)"
    using ts_submit_InlD(2) [OF rejected(2)] submit_refused [OF sys_invD(2) [OF inv]] by auto
  with r rejected show ?thesis by simp
next
  case (delivered q res b' m')
  then have "outstanding b' = outstanding (sys_backend s) - {#q#}"
    using completes_once sys_invD(2) [OF inv] by blast
  with r delivered show ?thesis by (auto dest: in_diffD)
qed (use r in simp_all)

end

section \<open>The strategy\<close>

text \<open>
  \<open>read\<close> as its calls on the set: clear the claims of the read before, submit the chunks, wait for each claim, clear them,
  return. \<open>mp_claims\<close> is the member of the strategy; the phase holds its local variables.
\<close>

datatype mp_phase = Clearing_First | Submitting "u64 list" | Waiting "claim list" bool | Clearing_Last bool | Returned "u64 option"

record 'b mp_state =
  mp_system :: "'b ts_system"
  mp_claims :: "claim list"
  mp_phase :: mp_phase

definition mp_chunk :: "bool \<Rightarrow> u64 \<Rightarrow> u64" where
  "mp_chunk unbuffered chunk_bytes =
     (if unbuffered then max k_align (chunk_bytes div k_align * k_align) else max 1 chunk_bytes)"

definition mp_range :: "window \<Rightarrow> u64 \<Rightarrow> u64 \<Rightarrow> byte_range" where
  "mp_range w chunk at = \<lparr>range_offset = w_offset w + at, range_length = min chunk (w_length w - at)\<rparr>"

definition mp_clear :: "'b mp_state \<Rightarrow> 'b mp_state option" where
  "mp_clear s =
     map_option (\<lambda>(c, ts). s\<lparr>mp_system := (mp_system s)\<lparr>sys_set := ts,
           sys_claims := remove1 (hd (mp_claims s)) (sys_claims (mp_system s))\<rparr>,
         mp_claims := tl (mp_claims s)\<rparr>)
       (claim_reset (hd (mp_claims s)) (sys_set (mp_system s)))"

definition mp_client ::
    "'b submit_fn \<Rightarrow> sink \<Rightarrow> bool \<Rightarrow> u64 \<Rightarrow> u64 \<Rightarrow> miss \<Rightarrow> 'b mp_state \<Rightarrow> 'b mp_state option" where
  "mp_client submit self unbuffered row chunk x s =
     (let sys = mp_system s;
          slots = tc_destination (ts_config (sys_set sys));
          base = miss_slot x - span_data slots;
          w = row_window unbuffered (miss_offset x) row
      in case mp_phase s of
        Clearing_First \<Rightarrow>
          if mp_claims s \<noteq> [] then mp_clear s
          else map_option (\<lambda>ats. s\<lparr>mp_phase := Submitting ats\<rparr>) (chunk_ats (w_length w) chunk 0)
      | Submitting (at # ats) \<Rightarrow>
          (case ts_submit submit self (mp_range w chunk at) (base + at) (sys_set sys) (sys_backend sys) of
             (Inl e, ts, b) \<Rightarrow> Some (s\<lparr>mp_system := sys\<lparr>sys_set := ts, sys_backend := b\<rparr>, mp_phase := Returned None\<rparr>)
           | (Inr c, ts, b) \<Rightarrow>
               Some (s\<lparr>mp_system := sys\<lparr>sys_set := ts, sys_backend := b, sys_claims := c # sys_claims sys,
                       sys_offsets := (sys_offsets sys)(claim_record c := range_offset (mp_range w chunk at))\<rparr>,
                     mp_claims := mp_claims s @ [c], mp_phase := Submitting ats\<rparr>))
      | Submitting [] \<Rightarrow> Some (s\<lparr>mp_phase := Waiting (mp_claims s) True\<rparr>)
      | Waiting (c # cs) ok \<Rightarrow>
          map_option (\<lambda>status. s\<lparr>mp_phase := Waiting cs (status = Ok \<and> ok)\<rparr>) (claim_wait c False (sys_set sys))
      | Waiting [] ok \<Rightarrow> Some (s\<lparr>mp_phase := Clearing_Last ok\<rparr>)
      | Clearing_Last ok \<Rightarrow>
          if mp_claims s \<noteq> [] then mp_clear s
          else Some (s\<lparr>mp_phase := Returned (if ok then Some (miss_slot x + w_head w) else None)\<rparr>)
      | Returned p \<Rightarrow> None)"

text \<open>The strategy is the only client of its set; between its steps the backend writes and delivers.\<close>

inductive mp_reachable ::
    "'b submit_fn \<Rightarrow> ('b \<Rightarrow> fill_request multiset) \<Rightarrow> ('b \<Rightarrow> bool) \<Rightarrow> 'b completes_rel \<Rightarrow> sink
       \<Rightarrow> bool \<Rightarrow> u64 \<Rightarrow> u64 \<Rightarrow> miss \<Rightarrow> 'b mp_state \<Rightarrow> bool"
  for submit outstanding valid completes self unbuffered row chunk x where
  start: "ts_reachable submit outstanding valid completes self sys \<Longrightarrow> mset claims = mset (sys_claims sys) \<Longrightarrow>
    mp_reachable submit outstanding valid completes self unbuffered row chunk x
      \<lparr>mp_system = sys, mp_claims = claims, mp_phase = Clearing_First\<rparr>"
| client: "mp_reachable submit outstanding valid completes self unbuffered row chunk x s \<Longrightarrow>
    mp_client submit self unbuffered row chunk x s = Some t \<Longrightarrow>
    mp_reachable submit outstanding valid completes self unbuffered row chunk x t"
| backend: "mp_reachable submit outstanding valid completes self unbuffered row chunk x s \<Longrightarrow>
    ts_step submit outstanding completes self (mp_system s) sys \<Longrightarrow> sys_claims sys = sys_claims (mp_system s) \<Longrightarrow>
    mp_reachable submit outstanding valid completes self unbuffered row chunk x (s\<lparr>mp_system := sys\<rparr>)"

section \<open>The invariant\<close>

definition claim_covers :: "window \<Rightarrow> u64 \<Rightarrow> u64 \<Rightarrow> 'b ts_system \<Rightarrow> u64 \<Rightarrow> claim \<Rightarrow> bool" where
  "claim_covers w chunk slot sys at c \<longleftrightarrow>
     claim_bytes c = \<lparr>span_data = slot + at, span_size = min chunk (w_length w - at)\<rparr> \<and>
     sys_offsets sys (claim_record c) = w_offset w + at"

definition row_shown :: "(source_id \<Rightarrow> u64 \<Rightarrow> byte) \<Rightarrow> window \<Rightarrow> u64 \<Rightarrow> 'b ts_system \<Rightarrow> bool" where
  "row_shown content w slot sys \<longleftrightarrow>
     (\<forall>q < unat (w_length w). sys_memory sys (slot + of_nat q)
        = content (tc_source (ts_config (sys_set sys))) (w_offset w + of_nat q))"

definition window_quiet :: "('b \<Rightarrow> fill_request multiset) \<Rightarrow> window \<Rightarrow> u64 \<Rightarrow> 'b ts_system \<Rightarrow> bool" where
  "window_quiet outstanding w slot sys \<longleftrightarrow>
     (\<forall>r \<in># outstanding (sys_backend sys). \<forall>q < unat (w_length w). slot + of_nat q \<notin> span_addrs (req_destination r))"

definition phase_ok ::
    "('b \<Rightarrow> fill_request multiset) \<Rightarrow> (source_id \<Rightarrow> u64 \<Rightarrow> byte) \<Rightarrow> window \<Rightarrow> u64 \<Rightarrow> u64 \<Rightarrow> 'b mp_state \<Rightarrow> bool" where
  "phase_ok outstanding content w chunk slot s \<longleftrightarrow>
     (case mp_phase s of
        Clearing_First \<Rightarrow> True
      | Submitting rest \<Rightarrow>
          (\<exists>ats. chunk_ats (w_length w) chunk 0 = Some (ats @ rest) \<and> list_all2 (claim_covers w chunk slot (mp_system s)) ats (mp_claims s))
      | Waiting pending ok \<Rightarrow>
          (\<exists>ats waited. chunk_ats (w_length w) chunk 0 = Some ats \<and> list_all2 (claim_covers w chunk slot (mp_system s)) ats (mp_claims s) \<and>
             mp_claims s = waited @ pending \<and> (ok \<longrightarrow> (\<forall>c \<in> set waited. claim_status c (sys_set (mp_system s)) = Some Ok)))
      | Clearing_Last ok \<Rightarrow> ok \<longrightarrow> row_shown content w slot (mp_system s) \<and> window_quiet outstanding w slot (mp_system s)
      | Returned p \<Rightarrow> p \<noteq> None \<longrightarrow> p = Some (slot + w_head w) \<and> row_shown content w slot (mp_system s) \<and> window_quiet outstanding w slot (mp_system s))"

definition mp_inv ::
    "('b \<Rightarrow> fill_request multiset) \<Rightarrow> ('b \<Rightarrow> bool) \<Rightarrow> (source_id \<Rightarrow> u64 \<Rightarrow> byte) \<Rightarrow> sink \<Rightarrow> window \<Rightarrow> u64 \<Rightarrow> u64
       \<Rightarrow> 'b mp_state \<Rightarrow> bool" where
  "mp_inv outstanding valid content self w chunk slot s \<longleftrightarrow>
     sys_inv outstanding valid content self (mp_system s) \<and> mset (mp_claims s) = mset (sys_claims (mp_system s)) \<and>
     phase_ok outstanding content w chunk slot s"

context completing_backend
begin

text \<open>All claims waited for: the row is there, and nothing writes to it any more.\<close>

lemma claims_show_row:
  assumes inv: "sys_inv outstanding valid content self sys" and chunk: "0 < unat chunk"
    "unat (w_length w) + unat chunk < 18446744073709551616"
    and ats: "chunk_ats (w_length w) chunk 0 = Some ats" "list_all2 (claim_covers w chunk slot sys) ats claims"
    and held: "set claims \<subseteq> set (sys_claims sys)" and ok: "\<forall>c \<in> set claims. claim_status c (sys_set sys) = Some Ok"
  shows "row_shown content w slot sys \<and> window_quiet outstanding w slot sys"
proof -
  have "sys_memory sys (slot + of_nat q) = content (tc_source (ts_config (sys_set sys))) (w_offset w + of_nat q) \<and>
      (\<forall>r \<in># outstanding (sys_backend sys). slot + of_nat q \<notin> span_addrs (req_destination r))"
    if q: "q < unat (w_length w)" for q
  proof -
    obtain j r where j: "j < length ats" and r: "r < unat (min chunk (w_length w - ats ! j))"
        and eq: "of_nat q = ats ! j + of_nat r"
      using chunk_ats_covers [OF chunk ats(1) q] .
    let ?c = "claims ! j"
    have len: "j < length claims" and covers: "claim_covers w chunk slot sys (ats ! j) ?c"
      using ats(2) j by (auto simp: list_all2_conv_all_nth)
    then have c: "?c \<in> set (sys_claims sys)" and status: "claim_status ?c (sys_set sys) = Some Ok"
      using held ok nth_mem by blast+
    have "r < unat (span_size (claim_bytes ?c))"
      using covers r by (simp add: claim_covers_def)
    from claim_content [OF inv c status this]
    have "sys_memory sys (slot + of_nat q) = content (tc_source (ts_config (sys_set sys))) (w_offset w + of_nat q)"
      using covers by (simp add: claim_covers_def eq add.assoc)
    moreover have "slot + of_nat q \<in> span_addrs (claim_bytes ?c)"
      using covers r by (auto simp: claim_covers_def span_addrs_iff eq add.assoc)
    moreover have "span_addrs (req_destination r) \<inter> span_addrs (claim_bytes ?c) = {}" if "r \<in># outstanding (sys_backend sys)" for r
      using writer_exclusive [OF inv c that] status by simp
    ultimately show ?thesis by blast
  qed
  then show ?thesis
    by (auto simp: row_shown_def window_quiet_def)
qed

lemma covers_stable:
  assumes inv: "sys_inv outstanding valid content self s" and step: "ts_step submit outstanding completes self s t"
    and covers: "list_all2 (claim_covers w chunk slot s) ats claims"
    and held: "set claims \<subseteq> set (sys_claims s)" "set claims \<subseteq> set (sys_claims t)"
  shows "list_all2 (claim_covers w chunk slot t) ats claims"
  unfolding list_all2_conv_all_nth
proof (intro conjI allI impI)
  show "length ats = length claims"
    using covers by (rule list_all2_lengthD)
  fix j assume "j < length ats"
  then have j: "j < length claims" "claim_covers w chunk slot s (ats ! j) (claims ! j)"
    using covers by (auto simp: list_all2_conv_all_nth)
  then have "claims ! j \<in> set (sys_claims s)" "claims ! j \<in> set (sys_claims t)"
    using held nth_mem by blast+
  from claim_stable [OF inv step this] j(2) show "claim_covers w chunk slot t (ats ! j) (claims ! j)"
    by (simp add: claim_covers_def)
qed

lemma shown_stable:
  assumes inv: "sys_inv outstanding valid content self s" and step: "ts_step submit outstanding completes self s t"
    and shown: "row_shown content w slot s \<and> window_quiet outstanding w slot s"
    and claims: "length (sys_claims t) \<le> length (sys_claims s)"
  shows "row_shown content w slot t \<and> window_quiet outstanding w slot t"
  using shown step_memory [OF inv step] step_outstanding [OF inv step claims] ts_step_config [OF step]
  unfolding row_shown_def window_quiet_def by auto

lemma held_claims: "mset claims = mset (sys_claims sys) \<Longrightarrow> set claims \<subseteq> set (sys_claims sys)"
  by (metis order_refl set_mset_mset)

lemma phase_backend:
  assumes inv: "mp_inv outstanding valid content self w chunk slot s"
    and step: "ts_step submit outstanding completes self (mp_system s) sys" and claims: "sys_claims sys = sys_claims (mp_system s)"
  shows "mp_inv outstanding valid content self w chunk slot (s\<lparr>mp_system := sys\<rparr>)"
proof -
  have sys: "sys_inv outstanding valid content self (mp_system s)" and mset: "mset (mp_claims s) = mset (sys_claims (mp_system s))"
    and phase: "phase_ok outstanding content w chunk slot s"
    using inv by (simp_all add: mp_inv_def)
  have held: "set (mp_claims s) \<subseteq> set (sys_claims (mp_system s))" "set (mp_claims s) \<subseteq> set (sys_claims sys)"
    using held_claims [OF mset] claims by simp_all
  note covers = covers_stable [OF sys step _ held]
  have status: "claim_status c (sys_set sys) = Some Ok"
    if "c \<in> set (mp_claims s)" "claim_status c (sys_set (mp_system s)) = Some Ok" for c
    using that held claim_status_stable [OF sys step] by blast
  note shown = shown_stable [OF sys step, of w slot]
  have "phase_ok outstanding content w chunk slot (s\<lparr>mp_system := sys\<rparr>)"
  proof (cases "mp_phase s")
    case (Submitting rest)
    with phase covers show ?thesis
      by (auto simp: phase_ok_def)
  next
    case (Waiting pending ok)
    with phase obtain ats waited where ats: "chunk_ats (w_length w) chunk 0 = Some ats"
        and before: "list_all2 (claim_covers w chunk slot (mp_system s)) ats (mp_claims s)"
        and split: "mp_claims s = waited @ pending"
        and statuses: "ok \<longrightarrow> (\<forall>c \<in> set waited. claim_status c (sys_set (mp_system s)) = Some Ok)"
      by (auto simp: phase_ok_def)
    have "ok \<longrightarrow> (\<forall>c \<in> set waited. claim_status c (sys_set sys) = Some Ok)"
      using statuses status split by simp
    with ats covers [OF before] split show ?thesis
      unfolding phase_ok_def by (simp add: Waiting)
  qed (use phase shown claims in \<open>auto simp: phase_ok_def\<close>)
  with step_inv [OF step sys] mset claims show ?thesis
    by (simp add: mp_inv_def)
qed

lemma phase_clear:
  assumes inv: "mp_inv outstanding valid content self w chunk slot s" and clear: "mp_clear s = Some t" "mp_claims s \<noteq> []"
    and phase: "mp_phase s = Clearing_First \<or> (\<exists>ok. mp_phase s = Clearing_Last ok)"
  shows "mp_inv outstanding valid content self w chunk slot t"
proof -
  have sys: "sys_inv outstanding valid content self (mp_system s)" and mset: "mset (mp_claims s) = mset (sys_claims (mp_system s))"
    and ok: "phase_ok outstanding content w chunk slot s"
    using inv by (simp_all add: mp_inv_def)
  obtain c cs where claims: "mp_claims s = c # cs"
    using clear(2) by (cases "mp_claims s") auto
  then have c: "c \<in> set (sys_claims (mp_system s))"
    using held_claims [OF mset] by simp
  obtain c' ts where reset: "claim_reset c (sys_set (mp_system s)) = Some (c', ts)"
      and t: "t = s\<lparr>mp_system := (mp_system s)\<lparr>sys_set := ts, sys_claims := remove1 c (sys_claims (mp_system s))\<rparr>, mp_claims := cs\<rparr>"
    using clear(1) by (auto simp: mp_clear_def claims)
  from c reset have step: "ts_step submit outstanding completes self (mp_system s) (mp_system t)"
    unfolding t by (auto intro: ts_step.dropped)
  have "length (sys_claims (mp_system t)) \<le> length (sys_claims (mp_system s))"
    by (simp add: t length_remove1)
  note shown = shown_stable [OF sys step _ this, of w slot]
  have "phase_ok outstanding content w chunk slot t"
    using phase ok shown by (auto simp: phase_ok_def t Let_def)
  moreover have "mset cs = mset (remove1 c (sys_claims (mp_system s)))"
    using mset by (simp add: claims) (metis add_mset_remove_trivial)
  ultimately show ?thesis
    using step_inv [OF step sys] by (simp add: mp_inv_def t)
qed

lemma phase_submit:
  assumes inv: "mp_inv outstanding valid content self w chunk slot s" and phase: "mp_phase s = Submitting (at # rest)"
    and slot: "slot = span_data (tc_destination (ts_config (sys_set (mp_system s)))) + base"
    and sub: "ts_submit submit self (mp_range w chunk at) (base + at) (sys_set (mp_system s)) (sys_backend (mp_system s)) = (Inr c, ts, b)"
  shows "mp_inv outstanding valid content self w chunk slot
    (s\<lparr>mp_system := (mp_system s)\<lparr>sys_set := ts, sys_backend := b, sys_claims := c # sys_claims (mp_system s),
                       sys_offsets := (sys_offsets (mp_system s))(claim_record c := range_offset (mp_range w chunk at))\<rparr>,
       mp_claims := mp_claims s @ [c], mp_phase := Submitting rest\<rparr>)" (is "mp_inv _ _ _ _ _ _ _ ?t")
proof -
  have sys: "sys_inv outstanding valid content self (mp_system s)" and mset: "mset (mp_claims s) = mset (sys_claims (mp_system s))"
    and ok: "phase_ok outstanding content w chunk slot s"
    using inv by (simp_all add: mp_inv_def)
  have step: "ts_step submit outstanding completes self (mp_system s) (mp_system ?t)"
    using ts_step.submitted [OF sub] by simp
  obtain ats where ats: "chunk_ats (w_length w) chunk 0 = Some (ats @ at # rest)"
      and covers: "list_all2 (claim_covers w chunk slot (mp_system s)) ats (mp_claims s)"
    using ok phase by (auto simp: phase_ok_def)
  have held: "set (mp_claims s) \<subseteq> set (sys_claims (mp_system s))" "set (mp_claims s) \<subseteq> set (sys_claims (mp_system ?t))"
    using held_claims [OF mset] by auto
  have "claim_bytes c = subspan (tc_destination (ts_config (sys_set (mp_system s)))) (base + at) (range_length (mp_range w chunk at))"
    using ts_submit_InrE [OF sys_invD(1) [OF sys] sub] by (metis claim.select_convs(4))
  then have "claim_covers w chunk slot (mp_system ?t) at c"
    by (simp add: claim_covers_def mp_range_def subspan_def slot add.assoc)
  with covers_stable [OF sys step covers held]
  have "list_all2 (claim_covers w chunk slot (mp_system ?t)) (ats @ [at]) (mp_claims s @ [c])"
    by (intro list_all2_appendI) simp_all
  with ats have "phase_ok outstanding content w chunk slot ?t"
    unfolding phase_ok_def by (simp add: Let_def)
  with step_inv [OF step sys] mset show ?thesis
    by (simp add: mp_inv_def)
qed

lemma phase_client:
  assumes inv: "mp_inv outstanding valid content self w chunk slot s"
    and step: "mp_client submit self unbuffered row chunk x s = Some t"
    and w: "w = row_window unbuffered (miss_offset x) row" and slot: "slot = miss_slot x"
    and chunk: "0 < unat chunk" "unat (w_length w) + unat chunk < 18446744073709551616"
  shows "mp_inv outstanding valid content self w chunk slot t"
proof -
  have sys: "sys_inv outstanding valid content self (mp_system s)" and mset: "mset (mp_claims s) = mset (sys_claims (mp_system s))"
    and ok: "phase_ok outstanding content w chunk slot s"
    using inv by (simp_all add: mp_inv_def)
  note same = inv [unfolded mp_inv_def] and run = step [unfolded mp_client_def Let_def w [symmetric]]
  show ?thesis
  proof (cases "mp_phase s")
    case Clearing_First
    show ?thesis
    proof (cases "mp_claims s = []")
      case True
      with run Clearing_First same show ?thesis
        by (auto simp: mp_inv_def phase_ok_def)
    next
      case False
      with run Clearing_First phase_clear [OF inv _ False] show ?thesis
        by simp
    qed
  next
    case (Submitting rest)
    show ?thesis
    proof (cases rest)
      case Nil
      with run Submitting same show ?thesis
        by (auto simp: mp_inv_def phase_ok_def)
    next
      case (Cons at ats)
      let ?sys = "mp_system s" and ?base = "miss_slot x - span_data (tc_destination (ts_config (sys_set (mp_system s))))"
      obtain out ts b where sub: "ts_submit submit self (mp_range w chunk at) (?base + at) (sys_set ?sys) (sys_backend ?sys) = (out, ts, b)"
        by (cases "ts_submit submit self (mp_range w chunk at) (?base + at) (sys_set ?sys) (sys_backend ?sys)")
      show ?thesis
      proof (cases out)
        case (Inl e)
        with run Submitting Cons sub have t: "t = s\<lparr>mp_system := ?sys\<lparr>sys_set := ts, sys_backend := b\<rparr>, mp_phase := Returned None\<rparr>"
          by simp
        have "ts_step submit outstanding completes self ?sys (?sys\<lparr>sys_set := ts, sys_backend := b\<rparr>)"
          using sub Inl by (blast intro: ts_step.rejected)
        from step_inv [OF this sys] mset show ?thesis
          by (simp add: mp_inv_def phase_ok_def t)
      next
        case (Inr c)
        with run Submitting Cons sub phase_submit [OF inv _ _ sub [unfolded Inr]] show ?thesis
          by (simp add: slot)
      qed
    qed
  next
    case (Waiting pending fine)
    obtain ats waited where ats: "chunk_ats (w_length w) chunk 0 = Some ats"
        and covers: "list_all2 (claim_covers w chunk slot (mp_system s)) ats (mp_claims s)"
        and split: "mp_claims s = waited @ pending"
        and statuses: "fine \<longrightarrow> (\<forall>c \<in> set waited. claim_status c (sys_set (mp_system s)) = Some Ok)"
      using ok Waiting by (auto simp: phase_ok_def)
    show ?thesis
    proof (cases pending)
      case Nil
      have "fine \<longrightarrow> row_shown content w slot (mp_system s) \<and> window_quiet outstanding w slot (mp_system s)"
        using claims_show_row [OF sys chunk ats covers held_claims [OF mset]] statuses split Nil by simp
      with run Waiting Nil same show ?thesis
        by (auto simp: mp_inv_def phase_ok_def Let_def)
    next
      case (Cons c cs)
      with run Waiting obtain status where wait: "claim_wait c False (sys_set (mp_system s)) = Some status"
          and t: "t = s\<lparr>mp_phase := Waiting cs (status = Ok \<and> fine)\<rparr>"
        by auto
      have "claim_status c (sys_set (mp_system s)) = Some Ok" if "status = Ok"
        using wait that by (auto simp: claim_wait_def claim_status_def ts_claim_status_def Let_def split: if_splits)
      then have "phase_ok outstanding content w chunk slot t"
        using ats covers split statuses Cons unfolding phase_ok_def t
        by (auto simp: Let_def intro!: exI [of _ "waited @ [c]"])
      with sys mset show ?thesis
        by (simp add: mp_inv_def t)
    qed
  next
    case (Clearing_Last fine)
    show ?thesis
    proof (cases "mp_claims s = []")
      case True
      with run Clearing_Last same slot show ?thesis
        by (auto simp: mp_inv_def phase_ok_def Let_def split: if_splits)
    next
      case False
      with run Clearing_Last phase_clear [OF inv _ False] show ?thesis
        by simp
    qed
  next
    case (Returned p)
    with run show ?thesis by simp
  qed
qed

lemma mp_reachable_inv:
  assumes "mp_reachable submit outstanding valid completes self unbuffered row chunk x s"
    and "0 < unat chunk" "unat (w_length (row_window unbuffered (miss_offset x) row)) + unat chunk < 18446744073709551616"
  shows "mp_inv outstanding valid content self (row_window unbuffered (miss_offset x) row) chunk (miss_slot x) s"
  using assms(1)
proof induction
  case (start sys claims)
  then show ?case
    using reachable_inv by (simp add: mp_inv_def phase_ok_def)
next
  case (client s t)
  from client.IH client.hyps(2) refl refl assms(2,3) show ?case
    by (rule phase_client)
next
  case (backend s sys)
  then show ?case
    by (blast intro: phase_backend)
qed

end

section \<open>A read over the fake backend\<close>

datatype mp_command = Mp_Client | Mp_Backend nat

definition mp_exec ::
    "sink \<Rightarrow> bool \<Rightarrow> u64 \<Rightarrow> u64 \<Rightarrow> miss \<Rightarrow> mp_command \<Rightarrow> fake_backend mp_state \<Rightarrow> fake_backend mp_state option" where
  "mp_exec self unbuffered row chunk x cmd s =
     (case cmd of
        Mp_Client \<Rightarrow> mp_client fake_submit self unbuffered row chunk x s
      | Mp_Backend position \<Rightarrow>
          map_option (\<lambda>sys. s\<lparr>mp_system := sys\<rparr>) (ts_exec self (Do_Complete position Full) (mp_system s)))"

fun mp_run ::
    "sink \<Rightarrow> bool \<Rightarrow> u64 \<Rightarrow> u64 \<Rightarrow> miss \<Rightarrow> mp_command list \<Rightarrow> fake_backend mp_state \<Rightarrow> fake_backend mp_state option" where
  "mp_run self unbuffered row chunk x [] s = Some s"
| "mp_run self unbuffered row chunk x (cmd # cmds) s =
     (case mp_exec self unbuffered row chunk x cmd s of None \<Rightarrow> None | Some t \<Rightarrow> mp_run self unbuffered row chunk x cmds t)"

abbreviation fake_mp_reachable where
  "fake_mp_reachable \<equiv> mp_reachable fake_submit fake_outstanding fake_valid fake_completes"

lemma mp_exec_reachable:
  assumes "fake_mp_reachable self unbuffered row chunk x s" "mp_exec self unbuffered row chunk x cmd s = Some t"
  shows "fake_mp_reachable self unbuffered row chunk x t"
proof (cases cmd)
  case Mp_Client
  with assms show ?thesis
    by (auto simp: mp_exec_def intro: mp_reachable.client)
next
  case (Mp_Backend position)
  then obtain sys where exec: "ts_exec self (Do_Complete position Full) (mp_system s) = Some sys"
      and t: "t = s\<lparr>mp_system := sys\<rparr>"
    using assms(2) by (auto simp: mp_exec_def)
  have "sys_claims sys = sys_claims (mp_system s)"
    using exec by (auto simp: ts_exec_def)
  with assms(1) ts_exec_step [OF exec] show ?thesis
    unfolding t by (rule mp_reachable.backend)
qed

lemma mp_run_reachable:
  "fake_mp_reachable self unbuffered row chunk x s \<Longrightarrow> mp_run self unbuffered row chunk x cmds s = Some t \<Longrightarrow>
     fake_mp_reachable self unbuffered row chunk x t"
  by (induction cmds arbitrary: s) (auto split: option.splits dest: mp_exec_reachable)

text \<open>Six bytes at offset 100 in chunks of four; the newer chunk arrives first, between the calls.\<close>

definition mp_demo_miss :: miss where
  "mp_demo_miss = \<lparr>miss_offset = 100, miss_slot = 4104\<rparr>"

definition mp_demo_commands :: "mp_command list" where
  "mp_demo_commands =
     [Mp_Client, Mp_Client, Mp_Client, Mp_Backend 1, Mp_Client, Mp_Backend 0, Mp_Client, Mp_Client, Mp_Client, Mp_Client,
      Mp_Client, Mp_Client]"

definition mp_demo :: "fake_backend mp_state" where
  "mp_demo = the (mp_run 7 False 6 4 mp_demo_miss mp_demo_commands
     \<lparr>mp_system = demo_start, mp_claims = [], mp_phase = Clearing_First\<rparr>)"

lemma mp_demo_reachable: "fake_mp_reachable 7 False 6 4 mp_demo_miss mp_demo"
proof (rule mp_run_reachable)
  let ?init = "\<lparr>mp_system = demo_start, mp_claims = [], mp_phase = Clearing_First\<rparr>"
  show "fake_mp_reachable 7 False 6 4 mp_demo_miss ?init"
    by (rule mp_reachable.start [OF demo_start_reachable]) (simp add: demo_start_def ts_system_init_def)
  have "\<not> Option.is_none (mp_run 7 False 6 4 mp_demo_miss mp_demo_commands ?init)"
    by code_simp
  then show "mp_run 7 False 6 4 mp_demo_miss mp_demo_commands ?init = Some mp_demo"
    by (simp add: mp_demo_def Option.is_none_def)
qed

lemma mp_demo_facts: "mp_phase mp_demo = Returned (Some 4104)" "tc_source (ts_config (sys_set (mp_system mp_demo))) = 3"
  by code_simp+

section \<open>Properties\<close>

text \<open>
  What a returned pointer means, in one place for the properties below.
\<close>

lemma mempage_returned:
  assumes "completing_backend submit outstanding valid completes content"
    and "mp_reachable submit outstanding valid completes self unbuffered row chunk x s"
    and "mp_phase s = Returned (Some p)"
    and "miss_fits row x" "0 < unat chunk" "unat row + 8192 + unat chunk < 18446744073709551616" "i < unat row"
  shows "sys_memory (mp_system s) (p + of_nat i)
      = content (tc_source (ts_config (sys_set (mp_system s)))) (miss_offset x + of_nat i)"
    "r \<in># outstanding (sys_backend (mp_system s)) \<Longrightarrow> p + of_nat i \<notin> span_addrs (req_destination r)"
    "valid (sys_backend (mp_system s))"
proof -
  let ?w = "row_window unbuffered (miss_offset x) row"
  note fits = row_window_fits [OF assms(4), of unbuffered]
  have inv: "mp_inv outstanding valid content self ?w chunk (miss_slot x) s"
    by (rule completing_backend.mp_reachable_inv [OF assms(1,2)]) (use fits(2) assms(5,6) in simp_all)
  then show "valid (sys_backend (mp_system s))"
    by (simp add: mp_inv_def sys_inv_def)
  from inv have p: "p = miss_slot x + w_head ?w" and shown: "row_shown content ?w (miss_slot x) (mp_system s)"
    and quiet: "window_quiet outstanding ?w (miss_slot x) (mp_system s)"
    using assms(3) by (auto simp: mp_inv_def phase_ok_def)
  have in_window: "unat (w_head ?w) + i < unat (w_length ?w)"
    using fits(1) assms(7) by linarith
  note at = shown [unfolded row_shown_def, rule_format, OF in_window]
  have "w_offset ?w + of_nat (unat (w_head ?w) + i) = miss_offset x + of_nat i"
    using fits(4) by (simp add: add.assoc [symmetric])
  moreover have slot: "p + of_nat i = miss_slot x + of_nat (unat (w_head ?w) + i)"
    by (simp add: p add.assoc)
  ultimately show "sys_memory (mp_system s) (p + of_nat i)
      = content (tc_source (ts_config (sys_set (mp_system s)))) (miss_offset x + of_nat i)"
    using at by (simp only:)
  show "p + of_nat i \<notin> span_addrs (req_destination r)" if "r \<in># outstanding (sys_backend (mp_system s))"
    using quiet that in_window unfolding window_quiet_def slot by blast
qed

text \<open>
  C15: a row that \<open>MemPageRead::read\<close> returns is the source's and stays it: over every backend that meets the contract,
  whatever it does between the calls on the set, and whatever the reads before left in flight, in every state from
  the return to the next read the bytes behind the returned pointer are the row, and no request that the backend
  still holds has any of them in its destination.
\<close>

theorem mempage_reads_row:
  assumes "completing_backend submit outstanding valid completes content"
    and "mp_reachable submit outstanding valid completes self unbuffered row chunk x s"
    and "mp_phase s = Returned (Some p)"
    and "miss_fits row x" "0 < unat chunk" "unat row + 8192 + unat chunk < 18446744073709551616" "i < unat row"
  shows "sys_memory (mp_system s) (p + of_nat i)
      = content (tc_source (ts_config (sys_set (mp_system s)))) (miss_offset x + of_nat i) \<and>
    (\<forall>r \<in># outstanding (sys_backend (mp_system s)). p + of_nat i \<notin> span_addrs (req_destination r))"
  using mempage_returned [OF assms] by blast

theorem mempage_reads_row_witness:
  "mp_phase mp_demo = Returned (Some 4104) \<and> sys_memory (mp_system mp_demo) (4104 + of_nat 5) = fake_content 3 (100 + of_nat 5)"
proof -
  have "miss_fits 6 mp_demo_miss"
    by (simp add: miss_fits_def mp_demo_miss_def)
  from mempage_reads_row [OF fake.completing_backend_axioms mp_demo_reachable mp_demo_facts(1) this, of 5] show ?thesis
    using mp_demo_facts by (simp add: mp_demo_miss_def)
qed

text \<open>
  Over the files of the worker-pool backend the row is the file's: whatever the workers and the schedule do.
\<close>

theorem mempage_shows_file:
  assumes "pread_spec pread file fsize"
    and "mp_reachable scheduled_submit scheduled_outstanding (scheduled_valid file content)
      (scheduled_completes (posix_readers pread)) self unbuffered row chunk x s"
    and "mp_phase s = Returned (Some p)"
    and "e \<in> set (lf_sources (sb_backend (sys_backend (mp_system s))))"
    and "se_source e = tc_source (ts_config (sys_set (mp_system s)))"
    and "miss_fits row x" "0 < unat chunk" "unat row + 8192 + unat chunk < 18446744073709551616" "i < unat row"
  shows "sys_memory (mp_system s) (p + of_nat i) = file (se_handle e) (miss_offset x + of_nat i)"
proof -
  have completing: "completing_backend scheduled_submit scheduled_outstanding (scheduled_valid file content)
      (scheduled_completes (posix_readers pread)) content"
    by (rule terminal_backend.axioms(1) [OF scheduled_contract [OF readers_okI]]) (rule posix_readers_ok [OF assms(1)])
  note returned = mempage_returned [OF completing assms(2,3,6-9)]
  from returned(3) have "file (se_handle e) = content (tc_source (ts_config (sys_set (mp_system s))))"
    using assms(4,5) by (auto simp: scheduled_valid_def lf_valid_def)
  then show ?thesis
    using returned(1) by simp
qed

end
