(* ===== verification/Shootout_Ports.thy ===== *)
theory Shootout_Ports
  imports Shootout_Pool_Props
begin

text \<open>
  The strategies of the read shootout that hand all chunks of a window to Windows at once,
  \<open>src/tools/read_shootout/read_shootout.cpp\<close>: \<open>IocpRead::read\<close> over a completion port and \<open>IoRingRead::read\<close> over a ring.
  What the system answers is data here: which requests it accepts, and the completions in the order they are
  dequeued.
\<close>

section \<open>The completion port\<close>

definition iocp_chunk :: "u64 \<Rightarrow> u64" where
  "iocp_chunk chunk_bytes = min (max (chunk_bytes div k_align * k_align) k_align) 0x40000000"

text \<open>A dequeued completion: its request, where there is one, whether it succeeded, and its bytes.\<close>

record port_completion =
  pc_request :: "nat option"
  pc_completed :: bool
  pc_bytes :: "32 word"

text \<open>Issuing stops at the first request that is refused: the number issued, and whether all were.\<close>

fun issue_all :: "(nat \<Rightarrow> bool) \<Rightarrow> u64 list \<Rightarrow> nat \<Rightarrow> nat \<times> bool" where
  "issue_all accepts [] issued = (issued, True)"
| "issue_all accepts (at # ats) issued =
     (if accepts issued then issue_all accepts ats (issued + 1) else (issued, False))"

text \<open>One completion is dequeued for every request issued; \<open>None\<close> while the port has none.\<close>

fun drain_port ::
    "window \<Rightarrow> u64 \<Rightarrow> nat \<Rightarrow> nat \<Rightarrow> port_completion list \<Rightarrow> bool \<Rightarrow> (bool \<times> port_completion list) option" where
  "drain_port w chunk issued 0 completions ok = Some (ok, completions)"
| "drain_port w chunk issued (Suc n) [] ok = None"
| "drain_port w chunk issued (Suc n) (c # completions) ok =
     (case pc_request c of
        None \<Rightarrow> drain_port w chunk issued n completions False
      | Some index \<Rightarrow>
          let at = of_nat index * chunk
          in drain_port w chunk issued n completions
               (ok \<and> pc_completed c \<and> index < issued \<and> ucast (pc_bytes c) = min chunk (w_length w - at)))"

definition iocp_read ::
    "u64 \<Rightarrow> u64 \<Rightarrow> miss \<Rightarrow> (nat \<Rightarrow> bool) \<Rightarrow> port_completion list \<Rightarrow> (u64 option \<times> port_completion list) option" where
  "iocp_read row chunk x accepts completions =
     (let w = aligned_window (miss_offset x) row in
      case chunk_ats (w_length w) chunk 0 of
        None \<Rightarrow> None
      | Some ats \<Rightarrow>
          (let (issued, ok) = issue_all accepts ats 0
           in map_option (\<lambda>(ok, rest). (if ok then Some (miss_slot x + w_head w) else None, rest))
                (drain_port w chunk issued issued completions ok)))"

section \<open>The ring\<close>

text \<open>
  \<open>build\<close> is whether the entry of a chunk is built, \<open>submitted\<close> whether the submission succeeds; a pop gives nothing, or
  whether a chunk succeeded and its bytes.
\<close>

fun drain_ring_queue :: "nat \<Rightarrow> (bool \<times> u64) option list \<Rightarrow> bool \<Rightarrow> u64 \<Rightarrow> (bool \<times> u64) option" where
  "drain_ring_queue 0 pops ok bytes = Some (ok, bytes)"
| "drain_ring_queue (Suc n) [] ok bytes = None"
| "drain_ring_queue (Suc n) (None # pops) ok bytes = drain_ring_queue (Suc n) pops ok bytes"
| "drain_ring_queue (Suc n) (Some (succeeded, information) # pops) ok bytes =
     drain_ring_queue n pops (ok \<and> succeeded) (bytes + information)"

definition ioring_read ::
    "bool \<Rightarrow> u64 \<Rightarrow> u64 \<Rightarrow> miss \<Rightarrow> (u64 \<Rightarrow> bool) \<Rightarrow> bool \<Rightarrow> (bool \<times> u64) option list \<Rightarrow> u64 option option" where
  "ioring_read unbuffered row chunk x build submitted pops =
     (let w = row_window unbuffered (miss_offset x) row in
      case chunk_ats (w_length w) chunk 0 of
        None \<Rightarrow> None
      | Some ats \<Rightarrow>
          if \<not> list_all build ats \<or> \<not> submitted then Some None
          else map_option (\<lambda>(ok, bytes). if ok \<and> bytes \<ge> w_head w + row then Some (miss_slot x + w_head w) else None)
                 (drain_ring_queue (length ats) pops True 0))"

section \<open>Draining\<close>

definition exact_completion :: "window \<Rightarrow> u64 \<Rightarrow> nat \<Rightarrow> port_completion \<Rightarrow> bool" where
  "exact_completion w chunk issued c \<longleftrightarrow>
     (\<exists>index < issued. pc_request c = Some index \<and> pc_completed c \<and>
        ucast (pc_bytes c) = min chunk (w_length w - of_nat index * chunk))"

lemma drain_port_taken:
  assumes "drain_port w chunk issued n completions ok = Some (fine, rest)"
  shows "n \<le> length completions \<and> rest = drop n completions \<and>
    (fine \<longrightarrow> ok \<and> (\<forall>c \<in> set (take n completions). exact_completion w chunk issued c))"
  using assms
proof (induction n arbitrary: completions ok)
  case (Suc n)
  obtain c cs where [simp]: "completions = c # cs"
    using Suc.prems by (cases completions) simp_all
  show ?case
  proof (cases "pc_request c")
    case None
    then have "drain_port w chunk issued n cs False = Some (fine, rest)"
      using Suc.prems by simp
    from Suc.IH [OF this] show ?thesis
      by simp
  next
    case (Some index)
    then have "drain_port w chunk issued n cs (ok \<and> pc_completed c \<and> index < issued \<and>
        ucast (pc_bytes c) = min chunk (w_length w - of_nat index * chunk)) = Some (fine, rest)"
      using Suc.prems by (simp only: drain_port.simps option.case Let_def \<open>completions = c # cs\<close>)
    from Suc.IH [OF this] Some show ?thesis
      by (simp add: exact_completion_def del: min.absorb_iff1 min_def)
  qed
qed simp

lemma issue_all_bound: "issue_all accepts ats n = (issued, ok) \<Longrightarrow> issued \<le> n + length ats \<and> (ok \<longrightarrow> issued = n + length ats)"
proof (induction ats arbitrary: n)
  case (Cons at ats)
  show ?case
    using Cons.prems Cons.IH [of "n + 1"] by (cases "accepts n") auto
qed simp

text \<open>Requests that complete once each: all of them are among as many completions.\<close>

lemma all_requests_dequeued:
  assumes "n \<le> length completions" "distinct (map pc_request (take n completions))"
    and "\<forall>c \<in> set (take n completions). \<exists>index < n. pc_request c = Some index"
  shows "pc_request ` set (take n completions) = Some ` {0..<n}"
proof (rule card_subset_eq)
  show "finite (Some ` {0..<n})"
    by simp
  show "pc_request ` set (take n completions) \<subseteq> Some ` {0..<n}"
    using assms(3) by fastforce
  have "card (pc_request ` set (take n completions)) = length (map pc_request (take n completions))"
    using distinct_card [OF assms(2)] by simp
  then show "card (pc_request ` set (take n completions)) = card (Some ` {0..<n})"
    using assms(1) by (simp add: card_image)
qed

section \<open>Properties\<close>

text \<open>What the completion of a request says of the memory: its bytes are the file's.\<close>

definition port_shows :: "(u64 \<Rightarrow> byte) \<Rightarrow> window \<Rightarrow> u64 \<Rightarrow> u64 \<Rightarrow> memory \<Rightarrow> port_completion \<Rightarrow> bool" where
  "port_shows content w chunk slot m c \<longleftrightarrow>
     (\<forall>index. pc_request c = Some index \<longrightarrow> pc_completed c \<longrightarrow>
        (\<forall>i < unat (pc_bytes c). m (slot + of_nat index * chunk + of_nat i)
           = content (w_offset w + of_nat index * chunk + of_nat i)))"

text \<open>
  The completion port gives the slot back before it is used. A read takes one completion for every request that was
  accepted, on errors too; and when it returns a pointer, every request of the window has been dequeued and the
  row is the file's.
\<close>

theorem iocp_reads_row:
  assumes "iocp_read row chunk x accepts completions = Some (Some p, rest)"
    and "miss_fits row x" "0 < unat chunk" "unat row + 8192 + unat chunk < 18446744073709551616"
    and "taken = take (length completions - length rest) completions"
    and "distinct (map pc_request taken)"
    and "list_all (port_shows content (aligned_window (miss_offset x) row) chunk (miss_slot x) m) taken"
  shows "pc_request ` set taken = Some ` {0..<length taken} \<and>
    unat (w_length (aligned_window (miss_offset x) row)) \<le> length taken * unat chunk \<and>
    (\<forall>i < unat row. m (p + of_nat i) = content (miss_offset x + of_nat i))"
proof -
  let ?w = "aligned_window (miss_offset x) row"
  note fits = window_fits [OF assms(2)]
  have len: "unat (w_length ?w) + unat chunk < 18446744073709551616"
    using fits(3) assms(4) by linarith
  obtain n where n: "chunk_ats (w_length ?w) chunk 0 = Some (map (\<lambda>j. of_nat j * chunk) [0..<n])"
      "unat (w_length ?w) \<le> n * unat chunk"
    using chunk_ats_from [OF assms(3) len, of 0] by auto
  obtain issued ok where issue: "issue_all accepts (map (\<lambda>j. of_nat j * chunk) [0..<n]) 0 = (issued, ok)"
    by (cases "issue_all accepts (map (\<lambda>j. of_nat j * chunk) [0..<n]) 0")
  have drain: "drain_port ?w chunk issued issued completions ok = Some (True, rest)" and p: "p = miss_slot x + w_head ?w"
    using assms(1) n(1) issue by (auto simp: iocp_read_def Let_def split: if_splits)
  note D = drain_port_taken [OF drain]
  then have issued: "issued = n"
    using issue_all_bound [OF issue] by simp
  with D have taken: "taken = take n completions" "length taken = n"
    unfolding assms(5) by auto
  have exact: "\<forall>c \<in> set taken. exact_completion ?w chunk n c"
    using D issued taken by simp
  have all: "pc_request ` set taken = Some ` {0..<n}"
    unfolding taken(1)
  proof (rule all_requests_dequeued)
    show "n \<le> length completions" using D issued by simp
    show "distinct (map pc_request (take n completions))" using assms(6) taken by simp
    show "\<forall>c \<in> set (take n completions). \<exists>index < n. pc_request c = Some index"
      using exact taken by (auto simp: exact_completion_def)
  qed
  have "m (p + of_nat i) = content (miss_offset x + of_nat i)" if i: "i < unat row" for i
  proof -
    let ?q = "unat (w_head ?w) + i"
    have q: "?q < unat (w_length ?w)"
      using fits(2) i by linarith
    obtain j r where j: "j < n" and r: "r < unat (min chunk (w_length ?w - of_nat j * chunk))"
        and eq: "of_nat ?q = of_nat j * chunk + (of_nat r :: u64)"
      using chunk_ats_covers [OF assms(3) len n(1) q] by auto
    have "Some j \<in> pc_request ` set taken"
      using all j by simp
    then obtain c where c: "c \<in> set taken" "pc_request c = Some j"
      by auto
    with exact have "pc_completed c" "ucast (pc_bytes c) = min chunk (w_length ?w - of_nat j * chunk)"
      by (auto simp: exact_completion_def)
    moreover from this r have "r < unat (pc_bytes c)"
      by (metis unat_ucast_32_64)
    moreover have "port_shows content ?w chunk (miss_slot x) m c"
      using assms(7) c(1) by (simp add: list_all_iff)
    ultimately have "m (miss_slot x + of_nat j * chunk + of_nat r) = content (w_offset ?w + of_nat j * chunk + of_nat r)"
      using c(2) by (simp add: port_shows_def)
    moreover have split: "w_head ?w + of_nat i = of_nat j * chunk + (of_nat r :: u64)"
      unfolding eq [symmetric] by (simp only: of_nat_add) simp
    moreover have "p + of_nat i = miss_slot x + of_nat j * chunk + of_nat r"
      unfolding p add.assoc split ..
    moreover have "miss_offset x + of_nat i = w_offset ?w + of_nat j * chunk + of_nat r"
      unfolding add.assoc split [symmetric] by (simp only: fits(5) flip: add.assoc)
    ultimately show ?thesis
      by (simp only:)
  qed
  with all n(2) taken show ?thesis
    by simp
qed

definition port_miss :: miss where
  "port_miss = \<lparr>miss_offset = 4095, miss_slot = 8192\<rparr>"

definition port_memory :: memory where
  "port_memory a = ucast (a - 8192)"

definition port_completions :: "port_completion list" where
  "port_completions =
     [\<lparr>pc_request = Some 1, pc_completed = True, pc_bytes = 4096\<rparr>, \<lparr>pc_request = Some 0, pc_completed = True, pc_bytes = 4096\<rparr>]"

theorem iocp_reads_row_witness:
  "iocp_read 4097 4096 port_miss (\<lambda>_. True) port_completions = Some (Some 12287, []) \<and>
   pc_request ` set port_completions = {Some 0, Some 1} \<and> port_memory (12287 + of_nat 4096) = ucast (4095 + of_nat 4096 :: u64)"
proof -
  have read: "iocp_read 4097 4096 port_miss (\<lambda>_. True) port_completions = Some (Some 12287, [])"
    by code_simp
  have offset: "w_offset (aligned_window (miss_offset port_miss) 4097) = 0"
    by code_simp
  have taken: "port_completions = take (length port_completions - length ([] :: port_completion list)) port_completions"
    by simp
  have fits: "miss_fits 4097 port_miss"
    by (simp add: miss_fits_def port_miss_def)
  have "port_shows ucast (aligned_window (miss_offset port_miss) 4097) 4096 (miss_slot port_miss) port_memory c" for c
    unfolding port_shows_def offset by (simp add: port_memory_def port_miss_def)
  then have shown: "list_all (port_shows ucast (aligned_window (miss_offset port_miss) 4097) 4096 (miss_slot port_miss) port_memory)
      port_completions"
    by (simp add: list_all_iff)
  have "distinct (map pc_request port_completions)"
    by (simp add: port_completions_def)
  from iocp_reads_row [OF read fits _ _ taken this shown]
  have "pc_request ` set port_completions = Some ` {0..<length port_completions}"
      and rows: "\<forall>i < 4097. port_memory (12287 + of_nat i) = ucast (4095 + of_nat i :: u64)"
    by (simp_all only: port_miss_def miss.simps unat_numeral) simp_all
  have "port_memory (12287 + of_nat 4096) = ucast (4095 + of_nat 4096 :: u64)"
    by (rule rows [rule_format]) simp
  with read show ?thesis
    by (simp add: port_completions_def insert_commute)
qed

text \<open>
  The ring compares the sum of all bytes with the end of the row only: a chunk that came up short is accepted when a
  later one, beyond the row, makes up for it. Here 96 bytes of the row were never read.
\<close>

theorem ioring_accepts_hole:
  "ioring_read True 4096 4096 \<lparr>miss_offset = 1, miss_slot = 8192\<rparr> (\<lambda>_. True) True [Some (True, 4000), None, Some (True, 4096)]
     = Some (Some 8193)"
  by code_simp

end
