(* ===== verification/Bench_Rig.thy ===== *)
theory Bench_Rig
  imports Slot_Pool_Props
begin

text \<open>
  The bookkeeping benchmarks of the pool, \<open>src/bench/bench_main.cpp\<close>: \<open>NullBackend\<close>, which completes requests without
  touching a byte, \<open>PoolRig\<close>, and the bodies that are timed. \<open>None\<close> is a body that reads a result that is not there,
  blocks, or terminates. The clock is not modelled.
\<close>

section \<open>The backend\<close>

text \<open>\<open>nb_capacity\<close> is the capacity of the vector, which is at least what was reserved.\<close>

record null_backend =
  nb_pending :: "fill_request list"
  nb_capacity :: nat

definition null_submit :: "null_backend submit_fn" where
  "null_submit r b =
     (if length (nb_pending b) = nb_capacity b then (False, b) else (True, b\<lparr>nb_pending := nb_pending b @ [r]\<rparr>))"

definition null_result :: "fill_request \<Rightarrow> fill_result" where
  "null_result r = \<lparr>result_status = Ok, result_bytes = span_size (req_destination r)\<rparr>"

text \<open>\<open>complete_all\<close>: the newest first, each delivered outside the lock.\<close>

function null_complete_all ::
    "(transfer_token \<Rightarrow> fill_result \<Rightarrow> 's \<Rightarrow> 's) \<Rightarrow> null_backend \<Rightarrow> 's \<Rightarrow> null_backend \<times> 's" where
  "null_complete_all deliver b s =
     (if nb_pending b = [] then (b, s)
      else let r = last (nb_pending b)
           in null_complete_all deliver (b\<lparr>nb_pending := butlast (nb_pending b)\<rparr>) (deliver (req_token r) (null_result r) s))"
  by auto

termination
  by (relation "measure (\<lambda>(_, b, _). length (nb_pending b))") auto

declare null_complete_all.simps [simp del]

text \<open>Nothing is written: in memory that is zero throughout it is a source of zeros.\<close>

definition null_outstanding :: "null_backend \<Rightarrow> fill_request multiset" where
  "null_outstanding b = mset (nb_pending b)"

definition null_valid :: "null_backend \<Rightarrow> bool" where
  "null_valid b \<longleftrightarrow> length (nb_pending b) \<le> nb_capacity b"

definition null_completes ::
    "null_backend \<Rightarrow> fill_request \<Rightarrow> fill_result \<Rightarrow> memory \<Rightarrow> null_backend \<Rightarrow> memory \<Rightarrow> bool" where
  "null_completes b r res m b' m' \<longleftrightarrow>
     nb_pending b \<noteq> [] \<and> r = last (nb_pending b) \<and> res = null_result r \<and>
     b' = b\<lparr>nb_pending := butlast (nb_pending b)\<rparr> \<and> m = (\<lambda>_. 0) \<and> m' = m"

interpretation null: terminal_backend null_submit null_outstanding null_valid null_completes "\<lambda>_ _. 0"
proof unfold_locales
  fix b r b' and a :: bool
  assume "null_valid b"
  then show "null_submit r b = (True, b') \<Longrightarrow> null_outstanding b' = add_mset r (null_outstanding b)"
    and "null_submit r b = (False, b') \<Longrightarrow> null_outstanding b' = null_outstanding b"
    and "null_submit r b = (a, b') \<Longrightarrow> null_valid b'"
    by (auto simp: null_submit_def null_outstanding_def null_valid_def split: if_splits)
next
  fix b r res m b' m'
  assume "null_valid b" and c: "null_completes b r res m b' m'"
  then show "r \<in># null_outstanding b" "null_valid b'" "result_status res \<noteq> Pending"
    by (auto simp: null_completes_def null_outstanding_def null_valid_def null_result_def)
  have "nb_pending b = butlast (nb_pending b) @ [r]"
    using c by (auto simp: null_completes_def)
  from arg_cong [OF this, of mset]
  have "mset (nb_pending b) = add_mset r (mset (butlast (nb_pending b)))"
    by simp
  then show "null_outstanding b' = null_outstanding b - {# r #}"
    using c by (simp add: null_completes_def null_outstanding_def)
  show "m' a = m a" for a
    using c by (simp add: null_completes_def)
  show "m' (span_data (req_destination r) + of_nat k) = 0" for k
    using c by (simp add: null_completes_def)
qed

section \<open>The rig\<close>

definition rig_config :: "nat \<Rightarrow> u64 \<Rightarrow> u64 \<Rightarrow> nat \<Rightarrow> slot_pool_config" where
  "rig_config slots slot_bytes storage max_batch =
     \<lparr>sc_source = 1, sc_source_bytes = of_nat slots * slot_bytes * 4, sc_slot_bytes = slot_bytes, sc_num_slots = slots,
      sc_slot_storage = \<lparr>span_data = storage, span_size = of_nat slots * slot_bytes\<rparr>, sc_max_tickets = 8,
      sc_max_batch_chunks = max_batch\<rparr>"

text \<open>One round of the constructor: the ticket is dropped unread at the end of the round.\<close>

definition rig_warm :: "sink \<Rightarrow> u64 \<Rightarrow> slot_pool \<times> null_backend \<Rightarrow> (slot_pool \<times> null_backend) option" where
  "rig_warm self chunk rig =
     (let (sp, b) = rig;
          rng = \<lparr>range_offset = chunk * sc_slot_bytes (sp_config sp), range_length = sc_slot_bytes (sp_config sp)\<rparr>;
          (res, sp, b) = sp_prefetch null_submit self [rng] Declared sp b;
          (b, sp) = null_complete_all sp_on_complete b sp
      in case res of
           Inl e \<Rightarrow> Some (sp, b)
         | Inr t \<Rightarrow> map_option (\<lambda>(t, sp). (sp, b)) (ticket_reset t sp))"

fun rig_warm_all :: "sink \<Rightarrow> nat \<Rightarrow> nat \<Rightarrow> slot_pool \<times> null_backend \<Rightarrow> (slot_pool \<times> null_backend) option" where
  "rig_warm_all self chunk 0 rig = Some rig"
| "rig_warm_all self chunk (Suc rounds) rig =
     Option.bind (rig_warm self (of_nat chunk) rig) (rig_warm_all self (chunk + 1) rounds)"

definition pool_rig ::
    "sink \<Rightarrow> nat \<Rightarrow> nat \<Rightarrow> u64 \<Rightarrow> u64 \<Rightarrow> nat \<Rightarrow> nat \<Rightarrow> (slot_pool \<times> null_backend) option" where
  "pool_rig self capacity slots slot_bytes storage warmed max_batch =
     (case sp_create (rig_config slots slot_bytes storage max_batch) of
        Inl e \<Rightarrow> None
      | Inr sp \<Rightarrow> rig_warm_all self 0 warmed (sp, \<lparr>nb_pending = [], nb_capacity = capacity\<rparr>))"

section \<open>The bodies\<close>

text \<open>
  One operation of \<open>try_resolve_hit\<close>: whether it hit, the next chunk, and the lease of \<open>out\<close>, which lives on.
\<close>

definition try_and_reset ::
    "sink \<Rightarrow> byte_range \<Rightarrow> lease \<Rightarrow> slot_pool \<Rightarrow> (bool \<times> lease \<times> slot_pool) option" where
  "try_and_reset self rng out sp =
     (case sp_try_resolve self [rng] [out] sp of
        None \<Rightarrow> None
      | Some (Inl e, outs, sp) \<Rightarrow> Some (False, hd outs, sp)
      | Some (Inr n, outs, sp) \<Rightarrow> map_option (\<lambda>(l, sp). (True, l, sp)) (lease_reset (hd outs) sp))"

fun try_resolve_hit ::
    "sink \<Rightarrow> nat \<Rightarrow> nat \<Rightarrow> nat \<Rightarrow> lease \<Rightarrow> slot_pool \<Rightarrow> (bool list \<times> nat \<times> slot_pool) option" where
  "try_resolve_hit self slots 0 chunk out sp = Some ([], chunk, sp)"
| "try_resolve_hit self slots (Suc n) chunk out sp =
     (case try_and_reset self \<lparr>range_offset = of_nat chunk * 4096 + 16, range_length = 256\<rparr> out sp of
        None \<Rightarrow> None
      | Some (hit, out, sp) \<Rightarrow>
          map_option (\<lambda>(hits, r). (hit # hits, r))
            (try_resolve_hit self slots n (if chunk + 1 = slots then 0 else chunk + 1) out sp))"

definition miss_once ::
    "sink \<Rightarrow> u64 \<Rightarrow> lease \<Rightarrow> slot_pool \<Rightarrow> null_backend \<Rightarrow> (bool \<times> lease \<times> slot_pool \<times> null_backend) option" where
  "miss_once self chunk out sp b =
     (let rng = \<lparr>range_offset = chunk * 4096, range_length = 4096\<rparr>;
          (res, sp, b) = sp_prefetch null_submit self [rng] Declared sp b;
          (b, sp) = null_complete_all sp_on_complete b sp
      in case res of
           Inl e \<Rightarrow> None
         | Inr t \<Rightarrow>
             (case sp_wait self t False sp of
                None \<Rightarrow> None
              | Some outcome \<Rightarrow>
                  (case try_and_reset self rng out sp of
                     None \<Rightarrow> None
                   | Some (hit, out, sp) \<Rightarrow> map_option (\<lambda>(t, sp). (hit, out, sp, b)) (ticket_reset t sp))))"

fun miss_cycle ::
    "sink \<Rightarrow> nat \<Rightarrow> u64 \<Rightarrow> lease \<Rightarrow> slot_pool \<Rightarrow> null_backend
       \<Rightarrow> (bool list \<times> u64 \<times> slot_pool \<times> null_backend) option" where
  "miss_cycle self 0 chunk out sp b = Some ([], chunk, sp, b)"
| "miss_cycle self (Suc n) chunk out sp b =
     (case miss_once self chunk out sp b of
        None \<Rightarrow> None
      | Some (hit, out, sp, b) \<Rightarrow>
          map_option (\<lambda>(hits, r). (hit # hits, r)) (miss_cycle self n ((chunk + 1) mod 32) out sp b))"

end
