(* ===== verification/Bench_Facts.thy ===== *)
theory Bench_Facts
  imports Bench_Rig
begin

text \<open>
  The pool of a benchmark rig between two operations, and what one operation does to it: a prefetch of one chunk is
  granted, completing everything makes the chunk resident, and a resident chunk is resolved and released.
\<close>

section \<open>Idle rigs\<close>

abbreviation rig_reachable :: "sink \<Rightarrow> null_backend pool_system \<Rightarrow> bool" where
  "rig_reachable \<equiv> ps_reachable null_submit null_outstanding null_valid null_completes"

text \<open>A pool without leases over a backend that owns nothing and has room.\<close>

definition rig_quiet :: "sink \<Rightarrow> slot_pool \<Rightarrow> null_backend \<Rightarrow> bool" where
  "rig_quiet self sp b \<longleftrightarrow>
     pool_inv null_outstanding null_valid (\<lambda>_ _. 0) [] self [] sp b (\<lambda>_. 0) \<and> nb_pending b = [] \<and> 0 < nb_capacity b"

lemma rig_quietD:
  assumes "rig_quiet self sp b"
  shows "pool_inv null_outstanding null_valid (\<lambda>_ _. 0) [] self [] sp b (\<lambda>_. 0)" "core_ok sp"
    "s \<in> set (sp_slots sp) \<Longrightarrow> slot_state s \<noteq> Slot_Filling"
proof -
  show inv: "pool_inv null_outstanding null_valid (\<lambda>_ _. 0) [] self [] sp b (\<lambda>_. 0)"
    using assms by (simp add: rig_quiet_def)
  then show "core_ok sp"
    by (rule pool_invD)
  show "slot_state s \<noteq> Slot_Filling" if "s \<in> set (sp_slots sp)"
    using idle_slots [OF inv _ that] assms by (simp add: rig_quiet_def null_outstanding_def)
qed

text \<open>Between two operations of a benchmark: no ticket is held either.\<close>

definition rig_idle :: "sink \<Rightarrow> slot_pool \<Rightarrow> null_backend \<Rightarrow> bool" where
  "rig_idle self sp b \<longleftrightarrow> rig_reachable self (ps_init sp b (\<lambda>_. 0)) \<and> nb_pending b = [] \<and> 0 < nb_capacity b"

lemma rig_idle_quiet:
  assumes "rig_idle self sp b"
  shows "rig_quiet self sp b" "find_free_record (sp_tickets sp) 0 = Some 0"
proof -
  have reach: "rig_reachable self (ps_init sp b (\<lambda>_. 0))"
    using assms by (simp add: rig_idle_def)
  show "rig_quiet self sp b"
    using reachable_pool_inv [OF null.completing_backend_axioms reach] assms
    by (simp add: rig_quiet_def rig_idle_def ps_init_def all_leases_def waiting_leases_def)
  show "find_free_record (sp_tickets sp) 0 = Some 0"
    using ticket_records_recycled [OF null.terminal_backend_axioms reach] assms
    by (simp add: ps_init_def rig_idle_def null_outstanding_def)
qed

text \<open>A chunk that is resident, or will be.\<close>

definition chunk_live :: "u64 \<Rightarrow> slot_pool \<Rightarrow> bool" where
  "chunk_live c sp \<longleftrightarrow> (\<exists>i < length (sp_slots sp). slot_live (sp_slots sp ! i) \<and> slot_chunk (sp_slots sp ! i) = c)"

text \<open>What the slots hold, and what they hold once every fill has succeeded.\<close>

definition cache_view :: "slot_pool \<Rightarrow> (u64 \<times> slot_state) list" where
  "cache_view sp = map (\<lambda>s. (slot_chunk s, slot_state s)) (sp_slots sp)"

definition filled :: "u64 \<times> slot_state \<Rightarrow> u64 \<times> slot_state" where
  "filled x = (fst x, if snd x = Slot_Filling then Slot_Ready else snd x)"

lemma length_cache_view [simp]: "length (cache_view sp) = length (sp_slots sp)"
  by (simp add: cache_view_def)

lemma cache_view_nth [simp]:
  "i < length (sp_slots sp) \<Longrightarrow> cache_view sp ! i = (slot_chunk (sp_slots sp ! i), slot_state (sp_slots sp ! i))"
  by (simp add: cache_view_def)

lemma cache_view_update:
  "sp_slots sp' = (sp_slots sp)[i := s] \<Longrightarrow> cache_view sp' = (cache_view sp)[i := (slot_chunk s, slot_state s)]"
  by (simp add: cache_view_def map_update)

lemma cache_view_unchanged:
  "sp_slots sp' = (sp_slots sp)[i := s] \<Longrightarrow> slot_chunk s = slot_chunk (sp_slots sp ! i) \<Longrightarrow>
     slot_state s = slot_state (sp_slots sp ! i) \<Longrightarrow> cache_view sp' = cache_view sp"
  by (cases "i < length (sp_slots sp)") (simp_all add: cache_view_def map_update list_update_same_conv list_update_beyond)

lemma chunk_live_view: "chunk_live c sp \<longleftrightarrow> (c, Slot_Ready) \<in> set (map filled (cache_view sp))"
proof -
  have "(c, Slot_Ready) = filled (slot_chunk s, slot_state s) \<longleftrightarrow> slot_live s \<and> slot_chunk s = c" for s
    by (auto simp: filled_def slot_live_def)
  then have "(c, Slot_Ready) \<in> set (map filled (cache_view sp)) \<longleftrightarrow> (\<exists>s \<in> set (sp_slots sp). slot_live s \<and> slot_chunk s = c)"
    by (simp add: cache_view_def image_iff)
  also have "\<dots> \<longleftrightarrow> chunk_live c sp"
    unfolding chunk_live_def by (metis in_set_conv_nth)
  finally show ?thesis ..
qed

lemma resident_view: "resident sp = {c. (c, Slot_Ready) \<in> set (cache_view sp)}"
  by (force simp: resident_def cache_view_def)

lemma all_filled_view:
  "(\<And>s. s \<in> set (sp_slots sp) \<Longrightarrow> slot_state s \<noteq> Slot_Filling) \<Longrightarrow> map filled (cache_view sp) = cache_view sp"
  by (auto simp: cache_view_def filled_def)

lemma chunk_live_resident:
  assumes "chunk_live c sp" "\<And>s. s \<in> set (sp_slots sp) \<Longrightarrow> slot_state s \<noteq> Slot_Filling"
  shows "c \<in> resident sp"
  using assms by (fastforce simp: chunk_live_def resident_def slot_live_def)

text \<open>The slots of an idle rig can all be evicted, so a declared claim finds one.\<close>

lemma rig_quiet_claim:
  assumes idle: "rig_quiet self sp b" and n: "sc_num_slots (sp_config sp) < 2147483648"
  shows "fst (claim_victim Declared sp) \<noteq> NONE"
proof (rule claim_declared_finds [OF rig_quietD(2) [OF idle] n])
  note core = rig_quietD(2) [OF idle]
  show len: "0 < length (sp_slots sp)"
    using core_okD(1,2) [OF core] by (simp add: config_ok_def)
  have "slot_pins (sp_slots sp ! 0) = 0"
    using pool_invD(2) [OF rig_quietD(1) [OF idle]] len by (simp add: leases_ok_def)
  moreover from this have "slot_state (sp_slots sp ! 0) \<noteq> Slot_Failed"
    using slot_ok_nth [OF core len] by (auto simp: slot_ok_def)
  ultimately show "evictable (sp_slots sp ! 0)"
    using rig_quietD(3) [OF idle, of "sp_slots sp ! 0"] len
    by (cases "slot_state (sp_slots sp ! 0)") (simp_all add: evictable_def)
qed

section \<open>A fetch\<close>

lemma null_submit_room: "length (nb_pending b) < nb_capacity b \<Longrightarrow> null_submit r b = (True, b\<lparr>nb_pending := nb_pending b @ [r]\<rparr>)"
  by (simp add: null_submit_def)

text \<open>Under the hand there is a free slot: it is the one that a new chunk takes.\<close>

definition takes_free :: "u64 \<Rightarrow> slot_pool \<Rightarrow> slot_pool \<Rightarrow> bool" where
  "takes_free c sp sp' \<longleftrightarrow>
     (slot_state (sp_slots sp ! sp_clock_hand sp) = Slot_Free \<longrightarrow> sp_find c sp = NONE \<longrightarrow>
        sp_clock_hand sp' = next_hand sp \<and> cache_view sp' = (cache_view sp)[sp_clock_hand sp := (c, Slot_Filling)])"

lemma claim_under_hand:
  assumes core: "core_ok sp" and n: "sc_num_slots (sp_config sp) < 2147483648"
    and free: "slot_state (sp_slots sp ! sp_clock_hand sp) = Slot_Free"
  shows "claim_victim Declared sp = (sp_clock_hand sp, sp\<lparr>sp_clock_hand := next_hand sp\<rparr>)"
proof -
  have "0 < sc_num_slots (sp_config sp)"
    using core_okD(1) [OF core] by (simp add: config_ok_def)
  then obtain steps where "u32 (2 * sc_num_slots (sp_config sp)) = Suc steps"
    using n by (cases "2 * sc_num_slots (sp_config sp)") simp_all
  moreover have "slot_pins (sp_slots sp ! sp_clock_hand sp) = 0"
    using slot_ok_nth [OF core, of "sp_clock_hand sp"] core_okD(2,3) [OF core] free by (simp add: slot_ok_def)
  ultimately show ?thesis
    using free by (simp add: claim_victim_def next_hand_def Let_def)
qed

lemma quiet_prefetch_slot:
  assumes idle: "rig_quiet self sp b" and n: "sc_num_slots (sp_config sp) < 2147483648"
    and c: "chunk_inside (sp_config sp) c"
    and run: "prefetch_slot null_submit self Declared entry c sp b = (i, sp', b')"
  shows "chunk_live c sp' \<and> nb_capacity b' = nb_capacity b \<and> takes_free c sp sp'"
proof (cases "sp_find c sp = NONE")
  case False
  note F = sp_find_slot [OF rig_quietD(2) [OF idle] False]
  then have "sp_slots sp' = sp_slots sp" "b' = b"
    using run False
    by (auto simp: prefetch_slot_def Let_def set_outcome_def count_hint_resident_def count_coalesced_def split: if_splits)
  with F False show ?thesis
    by (auto simp: chunk_live_def takes_free_def)
next
  case True
  note core = rig_quietD(2) [OF idle]
  obtain v sp1 where claim: "claim_victim Declared sp = (v, sp1)"
    by (cases "claim_victim Declared sp")
  then have some: "v \<noteq> NONE"
    using rig_quiet_claim [OF idle n] by simp
  note C = claim_victim_core [OF core claim]
  have cfg: "sp_config sp1 = sp_config sp" "length (sp_slots sp1) = length (sp_slots sp)"
    using C(2) by (simp_all add: sweep_frame_def)
  have v: "v < length (sp_slots sp1)" "slot_state (sp_slots sp1 ! v) = Slot_Free"
    using C(3) [OF some] cfg by simp_all
  have absent: "sp_find c sp1 = NONE"
    using sweep_absent [OF core C(1,2) True] .
  obtain st sp2 b2 where fill: "start_fill null_submit self v c sp1 b = (st, sp2, b2)"
    by (cases "start_fill null_submit self v c sp1 b") auto
  obtain accepted where F: "null_submit (sp_request (begin_fill v c sp1) self v c) b = (accepted, b2)"
      "st = (if accepted then Ok else Queue_Exhausted)"
      "sp_slots sp2 = (sp_slots sp1)[v := fill_effect accepted c (sp_slots sp1 ! v)]"
    by (rule start_fill_core [OF C(1) v absent _ fill, unfolded cfg(1), OF c]) (rule that)
  have "accepted" "nb_capacity b2 = nb_capacity b"
    using F(1) idle by (auto simp: null_submit_def rig_quiet_def split: if_splits)
  then have st: "st = Ok" and slots: "sp_slots sp2 = (sp_slots sp1)[v := filling c (sp_slots sp1 ! v)]"
    using F(2,3) by (simp_all add: fill_effect_def)
  have "i = v" "b' = b2" "sp' = upd_slot v (\<lambda>s. s\<lparr>slot_hint_unconsumed := True\<rparr>)
      (upd_counters (\<lambda>c. c\<lparr>sps_hint_admitted := sps_hint_admitted c + 1\<rparr>) sp2)"
    using run True some claim fill st by (auto simp: prefetch_slot_def Let_def)
  note res = this
  have "chunk_live c sp'"
    using v(1) slots res unfolding chunk_live_def by (intro exI [of _ v]) (simp_all add: slot_live_def)
  moreover have "takes_free c sp sp'"
    unfolding takes_free_def
  proof (intro impI)
    assume free: "slot_state (sp_slots sp ! sp_clock_hand sp) = Slot_Free"
    then have hand: "v = sp_clock_hand sp" "sp1 = sp\<lparr>sp_clock_hand := next_hand sp\<rparr>"
      using claim_under_hand [OF core n] claim by simp_all
    have "sp_clock_hand sp2 = sp_clock_hand sp1"
      using fill F(1) \<open>accepted\<close> by (auto simp: start_fill_def Let_def)
    moreover have "cache_view sp2 = (cache_view sp)[sp_clock_hand sp := (c, Slot_Filling)]"
      using cache_view_update [OF slots] hand by (simp add: cache_view_def)
    moreover have "cache_view sp' = cache_view sp2"
      using res by (intro cache_view_unchanged [of _ _ v "(sp_slots sp2 ! v)\<lparr>slot_hint_unconsumed := True\<rparr>"]) simp_all
    ultimately show "sp_clock_hand sp' = next_hand sp \<and> cache_view sp' = (cache_view sp)[sp_clock_hand sp := (c, Slot_Filling)]"
      using res hand(2) by simp
  qed
  ultimately show ?thesis
    using res \<open>nb_capacity b2 = nb_capacity b\<close> by simp
qed

lemma link_waiter_view: "cache_view (link_waiter r e i sp) = cache_view sp" "sp_clock_hand (link_waiter r e i sp) = sp_clock_hand sp"
  by (auto simp: link_waiter_def Let_def intro: cache_view_unchanged [of _ sp i "(sp_slots sp ! i)\<lparr>slot_waiter_head := e\<rparr>"])

lemma chunk_live_link: "chunk_live c (link_waiter r e i sp) = chunk_live c sp"
  by (simp add: chunk_live_view link_waiter_view)

text \<open>A prefetch of one chunk in an idle rig is granted, and the chunk is on its way or there.\<close>

lemma idle_prefetch:
  assumes idle: "rig_idle self sp b" and n: "sc_num_slots (sp_config sp) < 2147483648"
    and batch: "validate_batch (sp_config sp) [rng] = (Ok, 1)"
    and chunk: "range_chunks (sp_config sp) rng = [c]"
  obtains t sp' b' where "sp_prefetch null_submit self [rng] Declared sp b = (Inr t, sp', b')"
    "chunk_live c sp'" "nb_capacity b' = nb_capacity b" "sp_config sp' = sp_config sp"
    "rig_reachable self ((ps_init sp' b' (\<lambda>_. 0))\<lparr>ps_tickets := [t]\<rparr>)" "takes_free c sp sp'"
proof -
  note quiet = rig_idle_quiet(1) [OF idle]
  note inv = rig_quietD(1) [OF quiet] and core = rig_quietD(2) [OF quiet]
  let ?sp1 = "open_record 0 1 sp"
  let ?sp2 = "upd_counters (\<lambda>c. c\<lparr>sps_hint_issued := sps_hint_issued c + 1\<rparr>) (upd_waiter 0 (\<lambda>w. w\<lparr>wait_next := NONE\<rparr>) ?sp1)"
  have same: "sp_config ?sp1 = sp_config sp" "sp_config ?sp2 = sp_config sp" "sp_slots ?sp2 = sp_slots sp"
    by (simp_all add: open_record_def Let_def)
  obtain i sp3 b3 where slot: "prefetch_slot null_submit self Declared 0 c ?sp2 b = (i, sp3, b3)"
    by (cases "prefetch_slot null_submit self Declared 0 c ?sp2 b") auto
  have "rig_quiet self ?sp2 b"
    using quiet unfolding rig_quiet_def
    by (intro conjI) (auto intro!: pool_inv_slots_same [OF inv] simp: open_record_def Let_def)
  moreover have inside: "chunk_inside (sp_config sp) c"
    by (rule null.for_each_chunk_inside [OF core_okD(1) [OF core] validate_batch_Ok(1) [OF core_okD(1) [OF core] batch]])
      (simp add: chunk)
  ultimately have P: "chunk_live c sp3" "nb_capacity b3 = nb_capacity b" and free: "takes_free c ?sp2 sp3"
    using quiet_prefetch_slot [OF _ _ _ slot] n same by simp_all
  obtain t where run: "sp_prefetch null_submit self [rng] Declared sp b = (Inr t, link_waiter 0 0 i sp3, b3)"
    using rig_idle_quiet(2) [OF idle] batch slot same(1) [simplified]
    by (simp add: chunk sp_prefetch_def prefetch_chunk_def same(1) Let_def)
  have reach: "rig_reachable self ((ps_init (link_waiter 0 0 i sp3) b3 (\<lambda>_. 0))\<lparr>ps_tickets := [t]\<rparr>)"
    using ps_reachable.step [OF _ ps_step.prefetched [of null_submit self "[rng]" Declared "ps_init sp b (\<lambda>_. 0)" t]] run idle
    by (simp add: ps_init_def rig_idle_def)
  have inv1: "pool_inv null_outstanding null_valid (\<lambda>_ _. 0) [] self [] ?sp1 b (\<lambda>_. 0)"
    using inv by (rule pool_inv_slots_same) (simp_all add: open_record_def Let_def)
  have "prefetch_chunk null_submit self Declared 0 0 c ?sp1 b = (link_waiter 0 0 i sp3, b3)"
    using slot by (simp add: prefetch_chunk_def Let_def)
  from null.pool_inv_prefetch_chunk(2) [OF inv1 _ this] inside
  have "sp_config (link_waiter 0 0 i sp3) = sp_config sp"
    by (simp add: same(1) [unfolded One_nat_def])
  moreover have key: "slot_key ?sp2 = slot_key sp"
    by (rule ext) (simp add: slot_key_def open_record_def Let_def)
  moreover have same2: "sp_clock_hand ?sp2 = sp_clock_hand sp" "next_hand ?sp2 = next_hand sp"
      "cache_view ?sp2 = cache_view sp" "sp_find c ?sp2 = sp_find c sp"
    unfolding sp_find_def key by (simp_all add: next_hand_def cache_view_def open_record_def Let_def)
  moreover have "takes_free c sp (link_waiter 0 0 i sp3)"
    using free unfolding takes_free_def link_waiter_view same(3) same2 .
  ultimately show thesis
    using that [OF run] P reach by (simp add: chunk_live_link)
qed

text \<open>Completing everything: the chunk becomes resident, and nothing is owned any more.\<close>

lemma null_complete_all_empty: "null_complete_all deliver b s = (b', s') \<Longrightarrow> nb_pending b' = [] \<and> nb_capacity b' = nb_capacity b"
proof (induction deliver b s rule: null_complete_all.induct)
  case (1 deliver b s)
  then show ?case
    by (cases "nb_pending b = []") (auto simp: null_complete_all.simps [of deliver b] Let_def)
qed

text \<open>What deliveries leave alone.\<close>

definition settles :: "slot_pool \<Rightarrow> slot_pool \<Rightarrow> bool" where
  "settles sp sp' \<longleftrightarrow>
     sp_config sp' = sp_config sp \<and> sp_clock_hand sp' = sp_clock_hand sp \<and>
     map filled (cache_view sp') = map filled (cache_view sp)"

lemma null_deliver_settles:
  assumes inv: "pool_inv null_outstanding null_valid (\<lambda>_ _. 0) R self L sp b m" and r: "null_completes b r res m b' m'"
  shows "settles sp (sp_on_complete (req_token r) res sp)"
proof -
  obtain i where i: "i \<in> filling_set sp" "r = slot_request self sp i" "\<not> sp_is_stale (req_token r) sp" "token_index (req_token r) = i"
    using null.delivered_request [OF inv r] .
  let ?s = "sp_slots sp ! i"
  have ok: "classify_fill res (chunk_length (sp_config sp) (slot_chunk ?s)) = Ok"
    using r i(2) by (simp add: null_completes_def null_result_def classify_fill_def slot_request_destination slot_span_def)
  then have "sp_slots (sp_on_complete (req_token r) res sp) = (sp_slots sp)[i := delivered_slot Ok ?s]"
    using sp_on_complete_slots [OF i(3), of res] i(4) by simp
  from cache_view_update [OF this]
  have view: "cache_view (sp_on_complete (req_token r) res sp) = (cache_view sp)[i := (slot_chunk ?s, Slot_Ready)]"
    by simp
  have "i < length (sp_slots sp)" "slot_state ?s = Slot_Filling"
    using i(1) by (simp_all add: filling_set_def)
  then have "filled (slot_chunk ?s, Slot_Ready) = map filled (cache_view sp) ! i"
    by (simp add: filled_def)
  then have "map filled (cache_view (sp_on_complete (req_token r) res sp)) = map filled (cache_view sp)"
    unfolding view map_update by (simp add: list_update_id)
  then show ?thesis
    using i(3) ok by (simp add: settles_def sp_on_complete_live Let_def)
qed

lemma null_drain_reachable:
  assumes "null_complete_all sp_on_complete b sp = (b', sp')"
    and "rig_reachable self (s\<lparr>ps_pool := sp, ps_backend := b, ps_memory := (\<lambda>_. 0)\<rparr>)"
  shows "rig_reachable self (s\<lparr>ps_pool := sp', ps_backend := b', ps_memory := (\<lambda>_. 0)\<rparr>) \<and>
    settles sp sp'"
  using assms
proof (induction sp_on_complete b sp rule: null_complete_all.induct)
  case (1 b sp)
  show ?case
  proof (cases "nb_pending b = []")
    case True
    then show ?thesis
      using 1 by (simp add: null_complete_all.simps [of sp_on_complete b] settles_def)
  next
    case False
    let ?r = "last (nb_pending b)" and ?b = "b\<lparr>nb_pending := butlast (nb_pending b)\<rparr>"
    let ?sp = "sp_on_complete (req_token ?r) (null_result ?r) sp" and ?s = "s\<lparr>ps_pool := sp, ps_backend := b, ps_memory := (\<lambda>_. 0)\<rparr>"
    have all: "null_complete_all sp_on_complete ?b ?sp = (b', sp')"
      using False "1.prems"(1) by (simp add: null_complete_all.simps [of sp_on_complete b] Let_def)
    have c: "null_completes b ?r (null_result ?r) (\<lambda>_. 0) ?b (\<lambda>_. 0)"
      using False by (simp add: null_completes_def)
    have "rig_reachable self (s\<lparr>ps_pool := ?sp, ps_backend := ?b, ps_memory := (\<lambda>_. 0)\<rparr>)"
      using ps_reachable.step [OF "1.prems"(2) ps_step.delivered [where completes = null_completes and s = ?s]] c
      by simp
    note IH = "1.hyps" [OF False refl all this]
    have inv: "pool_inv null_outstanding null_valid (\<lambda>_ _. 0) (ps_leases s) self (all_leases ?s) sp b (\<lambda>_. 0)"
      using reachable_pool_inv [OF null.completing_backend_axioms "1.prems"(2)] by simp
    show ?thesis
      using IH null_deliver_settles [OF inv c] by (simp add: settles_def)
  qed
qed

section \<open>A hit\<close>

lemma resident_hit:
  assumes reach: "rig_reachable self ((ps_init sp b m)\<lparr>ps_tickets := ts\<rparr>)" and out: "lease_pool out = None"
    and batch: "validate_batch (sp_config sp) [rng] = (Ok, 1)"
    and chunk: "range_chunks (sp_config sp) rng = [c]" and c: "c \<in> resident sp"
  obtains l sp' where "try_and_reset self rng out sp = Some (True, l, sp')" "lease_pool l = None"
    "sp_config sp' = sp_config sp" "cache_view sp' = cache_view sp"
    "rig_reachable self ((ps_init sp' b m)\<lparr>ps_tickets := ts\<rparr>)"
proof -
  let ?s = "(ps_init sp b m)\<lparr>ps_tickets := ts\<rparr>"
  have core: "core_ok sp"
    using pool_invD(1) [OF reachable_pool_inv [OF null.completing_backend_axioms reach]] by (simp add: ps_init_def)
  define i where "i = sp_find c sp"
  have i: "i < length (sp_slots sp)" "slot_state (sp_slots sp ! i) = Slot_Ready" "i \<noteq> NONE"
    using c resident_find [OF core, of c] sp_find_slot(1) [OF core, of c] by (simp_all add: i_def)
  obtain l sp1 where lease: "make_lease self i c rng (upd_slot i (\<lambda>s. s\<lparr>slot_referenced := True, slot_hint_unconsumed := False\<rparr>)
      (upd_counters (\<lambda>c. c\<lparr>sps_resolve_hits := sps_resolve_hits c + 1\<rparr>) sp)) = (l, sp1)"
    by (cases "make_lease self i c rng (upd_slot i (\<lambda>s. s\<lparr>slot_referenced := True, slot_hint_unconsumed := False\<rparr>)
      (upd_counters (\<lambda>c. c\<lparr>sps_resolve_hits := sps_resolve_hits c + 1\<rparr>) sp))")
  have l: "lease_slot l = i" "lease_pool l = Some self" "sp_config sp1 = sp_config sp"
    "length (sp_slots sp1) = length (sp_slots sp)"
    using lease by (auto simp: make_lease_def Let_def)
  have slots: "slot_state (sp_slots sp1 ! j) = slot_state (sp_slots sp ! j) \<and> slot_chunk (sp_slots sp1 ! j) = slot_chunk (sp_slots sp ! j)"
    if "j < length (sp_slots sp)" for j
    using lease that i(1) by (cases "j = i") (auto simp: make_lease_def Let_def)
  have "all_ready [c] sp"
    using i by (simp add: i_def)
  then have tried: "sp_try_resolve self [rng] [out] sp = Some (Inr 1, [l], sp1)"
    using batch chunk out lease
    by (simp add: sp_try_resolve_def lease_reset_def pin_chunk_def Let_def i_def)
  have "\<forall>l \<in> set [out]. lease_pool l = None"
    using out by simp
  from ps_step.try_resolved [OF this, of self "[rng]" ?s 1 "[l]" sp1] tried
  have "ps_step null_submit null_outstanding null_completes self ?s (?s\<lparr>ps_pool := sp1, ps_leases := [l]\<rparr>)"
    by (simp add: ps_init_def)
  with reach have reach1: "rig_reachable self (?s\<lparr>ps_pool := sp1, ps_leases := [l]\<rparr>)"
    by (rule ps_reachable.step)
  have "pool_inv null_outstanding null_valid (\<lambda>_ _. 0) [l] self [l] sp1 b m"
    using reachable_pool_inv [OF null.completing_backend_axioms reach1]
    by (simp add: ps_init_def all_leases_def waiting_leases_def)
  from release_lease_held [OF this, of l]
  have reset: "lease_reset l sp1 = Some (l\<lparr>lease_pool := None, lease_bytes := empty_span\<rparr>, unpin_locked i sp1)"
    by (simp add: l)
  from ps_step.released [of l "?s\<lparr>ps_pool := sp1, ps_leases := [l]\<rparr>"] reset
  have "ps_step null_submit null_outstanding null_completes self (?s\<lparr>ps_pool := sp1, ps_leases := [l]\<rparr>)
      ((ps_init (unpin_locked i sp1) b m)\<lparr>ps_tickets := ts\<rparr>)"
    by (simp add: ps_init_def)
  with reach1 have reach2: "rig_reachable self ((ps_init (unpin_locked i sp1) b m)\<lparr>ps_tickets := ts\<rparr>)"
    by (rule ps_reachable.step)
  have ready: "slot_state (sp_slots sp1 ! i) = Slot_Ready"
    using slots [OF i(1)] i(2) by simp
  then have unpin: "sp_slots (unpin_locked i sp1) = (sp_slots sp1)[i := (sp_slots sp1 ! i)\<lparr>slot_pins := slot_pins (sp_slots sp1 ! i) - 1\<rparr>]"
    "sp_config (unpin_locked i sp1) = sp_config sp1"
    using i(1) l(4) by (simp_all add: unpin_locked_def Let_def)
  have "cache_view (unpin_locked i sp1) = cache_view sp1"
    by (rule cache_view_unchanged [OF unpin(1)]) simp_all
  moreover have "cache_view sp1 = cache_view sp"
    using slots l(4) by (intro nth_equalityI) simp_all
  moreover have "try_and_reset self rng out sp = Some (True, l\<lparr>lease_pool := None, lease_bytes := empty_span\<rparr>, unpin_locked i sp1)"
    by (simp add: try_and_reset_def tried reset)
  ultimately show thesis
    using that reach2 by (simp add: unpin l)
qed

section \<open>Ranges of one chunk\<close>

lemma one_chunk:
  fixes config :: slot_pool_config and rng :: byte_range and c :: u64
  defines "sb \<equiv> unat (sc_slot_bytes config)" and "off \<equiv> unat (range_offset rng)" and "len \<equiv> unat (range_length rng)"
  assumes "0 < sb" "0 < len" "off + len \<le> unat (sc_source_bytes config)"
    and "0 < sc_max_batch_chunks config" "sc_max_batch_chunks config < 18446744073709551616"
    and "off div sb = unat c" "(off + len - 1) div sb = unat c"
  shows "validate_batch config [rng] = (Ok, 1)" "range_chunks config rng = [c]"
proof -
  have "off + len < 18446744073709551616"
    using assms(6) unat_lt_64 [of "sc_source_bytes config"] by linarith
  then have sum: "unat (range_offset rng + range_length rng) = off + len"
    unfolding off_def len_def by (rule unat_plus_64)
  then have "1 \<le> range_offset rng + range_length rng"
    using assms(5) by (simp add: word_le_nat_alt)
  from unat_minus_64 [OF this] have last: "unat (range_offset rng + range_length rng - 1) = off + len - 1"
    by (simp add: sum)
  have first: "range_offset rng div sc_slot_bytes config = c"
    by (rule u64_eqI) (use assms(9) in \<open>simp add: unat_div_64 off_def sb_def\<close>)
  have final: "(range_offset rng + range_length rng - 1) div sc_slot_bytes config = c"
    by (rule u64_eqI) (use assms(10) last in \<open>simp add: unat_div_64 sb_def\<close>)
  show "range_chunks config rng = [c]"
    by (simp add: range_chunks_def first final)
  have "validate_range rng (sc_source_bytes config) = Ok"
    using assms(5,6) by (simp add: validate_range_Ok_unat off_def len_def)
  moreover have "span_chunks config rng = 1"
    by (simp add: span_chunks_def first final)
  moreover have "\<not> (1 :: u64) > of_nat (sc_max_batch_chunks config) - 0"
    using assms(7,8) by (simp add: word_less_nat_alt unat_of_nat_64)
  ultimately show "validate_batch config [rng] = (Ok, 1)"
    by (simp add: validate_batch_def)
qed

section \<open>A round of a benchmark\<close>

text \<open>A prefetch of one chunk, completed: the chunk is resident, and nothing is being filled.\<close>

lemma idle_fetch:
  assumes idle: "rig_idle self sp b" and n: "sc_num_slots (sp_config sp) < 2147483648"
    and batch: "validate_batch (sp_config sp) [rng] = (Ok, 1)" and chunk: "range_chunks (sp_config sp) rng = [c]"
  obtains t sp1 b1 sp2 b2 where "sp_prefetch null_submit self [rng] Declared sp b = (Inr t, sp1, b1)"
    "null_complete_all sp_on_complete b1 sp1 = (b2, sp2)" "takes_free c sp sp1" "settles sp1 sp2"
    "nb_pending b2 = []" "nb_capacity b2 = nb_capacity b" "sp_config sp2 = sp_config sp" "c \<in> resident sp2"
    "rig_reachable self ((ps_init sp2 b2 (\<lambda>_. 0))\<lparr>ps_tickets := [t]\<rparr>)"
    "map filled (cache_view sp2) = cache_view sp2" "sp_wait self t False sp2 \<noteq> None"
proof -
  obtain t sp1 b1 where pre: "sp_prefetch null_submit self [rng] Declared sp b = (Inr t, sp1, b1)"
      "chunk_live c sp1" "nb_capacity b1 = nb_capacity b" "sp_config sp1 = sp_config sp"
      "rig_reachable self ((ps_init sp1 b1 (\<lambda>_. 0))\<lparr>ps_tickets := [t]\<rparr>)" "takes_free c sp sp1"
    by (rule idle_prefetch [OF idle n batch chunk]) (rule that)
  obtain b2 sp2 where all: "null_complete_all sp_on_complete b1 sp1 = (b2, sp2)"
    by (cases "null_complete_all sp_on_complete b1 sp1")
  have empty: "nb_pending b2 = []" "nb_capacity b2 = nb_capacity b"
    using null_complete_all_empty [OF all] pre(3) by simp_all
  let ?s = "(ps_init sp2 b2 (\<lambda>_. 0))\<lparr>ps_tickets := [t]\<rparr>"
  have "rig_reachable self ?s \<and> settles sp1 sp2"
    using null_drain_reachable [OF all, of self "(ps_init sp1 b1 (\<lambda>_. 0))\<lparr>ps_tickets := [t]\<rparr>"] pre(5)
    by (simp add: ps_init_def)
  then have reach: "rig_reachable self ?s" and settles: "settles sp1 sp2"
    by simp_all
  then have live: "chunk_live c sp2" and cfg: "sp_config sp2 = sp_config sp"
    using pre(2,4) by (simp_all add: settles_def chunk_live_view)
  have inv: "pool_inv null_outstanding null_valid (\<lambda>_ _. 0) [] self [] sp2 b2 (\<lambda>_. 0)"
    using reachable_pool_inv [OF null.completing_backend_axioms reach]
    by (simp add: ps_init_def all_leases_def waiting_leases_def)
  have no_fill: "slot_state s \<noteq> Slot_Filling" if "s \<in> set (sp_slots sp2)" for s
    using idle_slots [OF inv _ that] empty(1) by (simp add: null_outstanding_def)
  have tk: "waiters_ok sp2" "tickets_ok self sp2 [t]"
    using terminal_backend.ps_reachable_tickets [OF null.terminal_backend_axioms reach]
    by (simp_all add: ps_tickets_inv_def ps_init_def)
  have "tick_pending (sp_tickets sp2 ! ticket_record t) = 0"
    using tk by (intro idle_pending(1) [OF pool_invD(1) [OF inv] tk(1) _ no_fill]) (simp_all add: tickets_ok_def)
  then have "sp_wait self t False sp2 \<noteq> None"
    by (simp add: sp_wait_def Let_def)
  then show thesis
    using that [OF pre(1) all pre(6) settles empty cfg chunk_live_resident [OF live no_fill] reach all_filled_view [OF no_fill]]
    by simp
qed

lemma drop_ticket:
  assumes "rig_reachable self ((ps_init sp b m)\<lparr>ps_tickets := [t]\<rparr>)"
  obtains t' sp' where "ticket_reset t sp = Some (t', sp')" "rig_reachable self (ps_init sp' b m)"
    "sp_config sp' = sp_config sp" "sp_slots sp' = sp_slots sp" "sp_clock_hand sp' = sp_clock_hand sp"
proof -
  have "tickets_ok self sp [t]"
    using terminal_backend.ps_reachable_tickets [OF null.terminal_backend_axioms assms]
    by (simp add: ps_tickets_inv_def ps_init_def)
  then obtain sp' where drop: "ticket_reset t sp = Some (t\<lparr>ticket_pool := None\<rparr>, sp')"
    using ticket_reset_held [of self sp "[t]" t] by auto
  have "ps_step null_submit null_outstanding null_completes self ((ps_init sp b m)\<lparr>ps_tickets := [t]\<rparr>) (ps_init sp' b m)"
    using ps_step.discarded [of t "(ps_init sp b m)\<lparr>ps_tickets := [t]\<rparr>"] drop by (simp add: ps_init_def)
  with assms have "rig_reachable self (ps_init sp' b m)"
    by (rule ps_reachable.step)
  moreover have "sp_config sp' = sp_config sp" "sp_slots sp' = sp_slots sp" "sp_clock_hand sp' = sp_clock_hand sp"
    using drop by (auto simp: ticket_reset_def discard_ticket_def Let_def split: if_splits)
  ultimately show thesis
    using that [OF drop] by simp
qed

lemma idle_miss:
  assumes idle: "rig_idle self sp b" and cfg: "sp_config sp = rig_config 8 4096 storage 16"
    and chunk: "unat chunk < 32" and out: "lease_pool out = None"
  obtains l sp' b' where "miss_once self chunk out sp b = Some (True, l, sp', b')" "lease_pool l = None"
    "rig_idle self sp' b'" "sp_config sp' = sp_config sp"
proof -
  let ?rng = "\<lparr>range_offset = chunk * 4096, range_length = 4096\<rparr>"
  have off: "unat (chunk * 4096) = unat chunk * 4096"
    using chunk by (subst unat_times_64) simp_all
  have one: "validate_batch (sp_config sp) [?rng] = (Ok, 1)" "range_chunks (sp_config sp) ?rng = [chunk]"
    using chunk by (intro one_chunk; simp add: cfg rig_config_def off; linarith)+
  have slots: "sc_num_slots (sp_config sp) < 2147483648"
    by (simp add: cfg rig_config_def)
  obtain t sp1 b1 sp2 b2 where fetch: "sp_prefetch null_submit self [?rng] Declared sp b = (Inr t, sp1, b1)"
      "null_complete_all sp_on_complete b1 sp1 = (b2, sp2)" "nb_pending b2 = []" "nb_capacity b2 = nb_capacity b"
      "sp_config sp2 = sp_config sp" "chunk \<in> resident sp2"
      "rig_reachable self ((ps_init sp2 b2 (\<lambda>_. 0))\<lparr>ps_tickets := [t]\<rparr>)" "sp_wait self t False sp2 \<noteq> None"
    by (rule idle_fetch [OF idle slots one]) (rule that)
  obtain l sp3 where hit: "try_and_reset self ?rng out sp2 = Some (True, l, sp3)" "lease_pool l = None"
      "sp_config sp3 = sp_config sp2" "rig_reachable self ((ps_init sp3 b2 (\<lambda>_. 0))\<lparr>ps_tickets := [t]\<rparr>)"
    using resident_hit [OF fetch(7) out one [folded fetch(5)] fetch(6)] .
  obtain t' sp4 where drop: "ticket_reset t sp3 = Some (t', sp4)" "rig_reachable self (ps_init sp4 b2 (\<lambda>_. 0))"
      "sp_config sp4 = sp_config sp3"
    using drop_ticket [OF hit(4)] .
  have "miss_once self chunk out sp b = Some (True, l, sp4, b2)"
    using fetch(8) by (auto simp: miss_once_def fetch(1,2) hit(1) drop(1))
  moreover have "rig_idle self sp4 b2"
    using drop(2) fetch(3,4) idle by (simp add: rig_idle_def)
  ultimately show thesis
    using that hit(2,3) fetch(5) drop(3) by simp
qed

section \<open>Warming\<close>

text \<open>The first \<open>k\<close> chunks are in the first \<open>k\<close> slots, the others are free, and the hand is at the first of them.\<close>

definition warm :: "nat \<Rightarrow> slot_pool \<Rightarrow> bool" where
  "warm k sp \<longleftrightarrow>
     sp_clock_hand sp = k mod length (sp_slots sp) \<and>
     (\<forall>j < length (sp_slots sp). if j < k then cache_view sp ! j = (of_nat j, Slot_Ready) else snd (cache_view sp ! j) = Slot_Free)"

lemma warm_absent:
  assumes core: "core_ok sp" and warm: "warm k sp" and k: "k < 2147483648"
    and quiet: "\<And>s. s \<in> set (sp_slots sp) \<Longrightarrow> slot_state s \<noteq> Slot_Filling"
  shows "sp_find (of_nat k) sp = NONE"
proof (rule ccontr)
  let ?i = "sp_find (of_nat k) sp"
  assume "?i \<noteq> NONE"
  note F = sp_find_slot [OF core this]
  then have "slot_state (sp_slots sp ! ?i) = Slot_Ready"
    using quiet [OF nth_mem [OF F(1)]] by (simp add: slot_live_def)
  then have "?i < k" "of_nat k = (of_nat ?i :: u64)"
    using warm F unfolding warm_def by (auto split: if_splits)
  then have "unat (of_nat k :: u64) = unat (of_nat ?i :: u64)"
    by simp
  then show False
    using \<open>?i < k\<close> k by (simp add: unat_of_nat_64)
qed

lemma idle_warm:
  assumes idle: "rig_idle self sp b" and cfg: "sp_config sp = rig_config n 4096 storage 16" and n: "n < 2147483648"
    and warm: "warm k sp" and k: "k < n"
  obtains sp' b' where "rig_warm self (of_nat k) (sp, b) = Some (sp', b')" "rig_idle self sp' b'"
    "sp_config sp' = sp_config sp" "warm (Suc k) sp'"
proof -
  let ?rng = "\<lparr>range_offset = of_nat k * 4096, range_length = 4096\<rparr>"
  note quiet = rig_idle_quiet(1) [OF idle]
  note core = rig_quietD(2) [OF quiet]
  have len: "length (sp_slots sp) = n"
    using core_okD(2) [OF core] by (simp add: cfg rig_config_def)
  have un: "unat (of_nat k :: u64) = k" "unat (of_nat n :: u64) = n"
    using k n by (simp_all add: unat_of_nat_64)
  have off: "unat (of_nat k * 4096 :: u64) = k * 4096"
    using k n un by (subst unat_times_64) simp_all
  have bytes: "unat (16384 * of_nat n :: u64) = 16384 * n"
    using n un by (subst unat_times_64) simp_all
  have one: "validate_batch (sp_config sp) [?rng] = (Ok, 1)" "range_chunks (sp_config sp) ?rng = [of_nat k]"
    using k by (intro one_chunk [where c = "of_nat k"]; simp add: cfg rig_config_def off bytes un)+
  have slots: "sc_num_slots (sp_config sp) < 2147483648"
    using n by (simp add: cfg rig_config_def)
  obtain t sp1 b1 sp2 b2 where fetch: "sp_prefetch null_submit self [?rng] Declared sp b = (Inr t, sp1, b1)"
      "null_complete_all sp_on_complete b1 sp1 = (b2, sp2)" "takes_free (of_nat k) sp sp1" "settles sp1 sp2"
      "nb_pending b2 = []" "nb_capacity b2 = nb_capacity b" "sp_config sp2 = sp_config sp"
      "rig_reachable self ((ps_init sp2 b2 (\<lambda>_. 0))\<lparr>ps_tickets := [t]\<rparr>)" "map filled (cache_view sp2) = cache_view sp2"
    by (rule idle_fetch [OF idle slots one]) (rule that)
  obtain t' sp3 where drop: "ticket_reset t sp2 = Some (t', sp3)" "rig_reachable self (ps_init sp3 b2 (\<lambda>_. 0))"
      "sp_config sp3 = sp_config sp2" "sp_slots sp3 = sp_slots sp2" "sp_clock_hand sp3 = sp_clock_hand sp2"
    using drop_ticket [OF fetch(8)] .
  have hand: "sp_clock_hand sp = k" and free: "slot_state (sp_slots sp ! k) = Slot_Free"
    using warm k len by (simp_all add: warm_def) fastforce
  have taken: "sp_clock_hand sp1 = next_hand sp" "cache_view sp1 = (cache_view sp)[k := (of_nat k, Slot_Filling)]"
    using fetch(3) hand free warm_absent [OF core warm _ rig_quietD(3) [OF quiet]] k n by (simp_all add: takes_free_def)
  have view: "cache_view sp3 = map filled ((cache_view sp)[k := (of_nat k, Slot_Filling)])"
  proof -
    have "cache_view sp3 = cache_view sp2"
      by (simp add: cache_view_def drop(4))
    also have "\<dots> = map filled (cache_view sp1)"
      using fetch(4,9) unfolding settles_def by (simp only:)
    finally show ?thesis
      by (simp only: taken(2))
  qed
  then have len3: "length (sp_slots sp3) = n"
    using len by (metis length_cache_view length_list_update length_map)
  have "sp_clock_hand sp3 = Suc k mod n"
    using fetch(4) taken(1) drop(5) hand k by (auto simp: settles_def next_hand_def cfg rig_config_def)
  moreover have "if j < Suc k then cache_view sp3 ! j = (of_nat j, Slot_Ready) else snd (cache_view sp3 ! j) = Slot_Free"
    if "j < n" for j
  proof (cases "j = k")
    case True
    then show ?thesis
      using that len unfolding view by (simp add: filled_def)
  next
    case False
    then have "cache_view sp3 ! j = filled (cache_view sp ! j)"
      using that len unfolding view by simp
    moreover have "if j < k then cache_view sp ! j = (of_nat j, Slot_Ready) else snd (cache_view sp ! j) = Slot_Free"
      using warm that len unfolding warm_def by blast
    ultimately show ?thesis
      using False by (auto simp: filled_def split: if_splits)
  qed
  ultimately have "warm (Suc k) sp3"
    unfolding warm_def len3 by blast
  moreover have "rig_warm self (of_nat k) (sp, b) = Some (sp3, b2)"
    using fetch(1,2) drop(1) by (simp add: rig_warm_def cfg rig_config_def)
  moreover have "rig_idle self sp3 b2"
    using drop(2) fetch(5,6) idle by (simp add: rig_idle_def)
  ultimately show thesis
    using that fetch(7) drop(3) by simp
qed

end
