(* ===== verification/Bench_Props.thy ===== *)
theory Bench_Props
  imports Bench_Facts
begin

text \<open>
  What the benchmarks of the pool measure: every operation of the hit benchmark is a hit, and every round of the miss
  benchmark fetches its chunk and then has it, whatever the number of operations.
\<close>

section \<open>Rigs\<close>

lemma rig_create:
  assumes "0 < n" "n < 2147483648"
  shows "sp_create (rig_config n 4096 storage 16) = Inr (sp_construct (rig_config n 4096 storage 16))"
proof -
  have "unat (UINT64_MAX div of_nat n) = 18446744073709551615 div n"
    using assms(2) by (simp add: unat_div_64 unat_UINT64_MAX unat_of_nat_64)
  moreover have "18446744073709551615 div 2147483648 \<le> 18446744073709551615 div n"
    using assms by (intro div_le_mono2) simp_all
  ultimately have "\<not> (4096 :: u64) > UINT64_MAX div of_nat n"
    by (simp add: word_less_nat_alt)
  moreover have "(of_nat n * 4096 * 4 :: u64) \<noteq> 0"
  proof -
    have "unat (16384 * of_nat n :: u64) = 16384 * n"
      using assms(2) by (subst unat_times_64) (simp_all add: unat_of_nat_64)
    then show ?thesis
      using assms(1) by (auto simp: mult.commute simp flip: unat_eq_zero)
  qed
  ultimately show ?thesis
    using assms by (simp add: sp_create_def rig_config_def NONE_def UINT32_MAX_def unat_UINT64_MAX mult.commute)
qed

lemma rig_start:
  fixes storage :: u64
  assumes "0 < n" "n < 2147483648" "0 < capacity"
  defines "sp \<equiv> sp_construct (rig_config n 4096 storage 16)"
  shows "rig_idle self sp \<lparr>nb_pending = [], nb_capacity = capacity\<rparr>" "sp_config sp = rig_config n 4096 storage 16" "warm 0 sp"
proof -
  show "rig_idle self sp \<lparr>nb_pending = [], nb_capacity = capacity\<rparr>"
    using ps_reachable.start [OF rig_create [OF assms(1,2)], of null_valid "\<lparr>nb_pending = [], nb_capacity = capacity\<rparr>" null_outstanding]
      assms(3)
    by (simp add: rig_idle_def sp_def null_valid_def null_outstanding_def)
  show "sp_config sp = rig_config n 4096 storage 16" "warm 0 sp"
    by (simp_all add: sp_def sp_construct_def warm_def default_slot_def rig_config_def Let_def)
qed

lemma rig_warm_all_warm:
  assumes "rig_idle self sp b" "sp_config sp = rig_config n 4096 storage 16" "n < 2147483648" "warm k sp" "k + rounds \<le> n"
  shows "\<exists>sp' b'. rig_warm_all self k rounds (sp, b) = Some (sp', b') \<and> rig_idle self sp' b' \<and>
    sp_config sp' = rig_config n 4096 storage 16 \<and> warm (k + rounds) sp'"
  using assms
proof (induction rounds arbitrary: k sp b)
  case (Suc rounds)
  obtain sp1 b1 where one: "rig_warm self (of_nat k) (sp, b) = Some (sp1, b1)" "rig_idle self sp1 b1"
      "sp_config sp1 = sp_config sp" "warm (Suc k) sp1"
    by (rule idle_warm [OF Suc.prems(1-4)]) (use Suc.prems(5) in simp)
  from Suc.IH [OF this(2) _ Suc.prems(3) this(4)] this Suc.prems show ?case
    by simp
qed simp

section \<open>Hits\<close>

lemma warm_hit:
  assumes idle: "rig_idle self sp b" and cfg: "sp_config sp = rig_config n 4096 storage 16" and n: "n < 2147483648"
    and warm: "\<forall>c < n. of_nat c \<in> resident sp" and k: "k < n" and out: "lease_pool out = None"
  obtains l sp' where "try_and_reset self \<lparr>range_offset = of_nat k * 4096 + 16, range_length = 256\<rparr> out sp = Some (True, l, sp')"
    "lease_pool l = None" "sp_config sp' = sp_config sp" "rig_idle self sp' b" "\<forall>c < n. of_nat c \<in> resident sp'"
proof -
  let ?rng = "\<lparr>range_offset = of_nat k * 4096 + 16, range_length = 256\<rparr>"
  have un: "unat (of_nat k :: u64) = k" "unat (of_nat n :: u64) = n"
    using k n by (simp_all add: unat_of_nat_64)
  have "unat (of_nat k * 4096 :: u64) = k * 4096"
    using k n un by (subst unat_times_64) simp_all
  then have off: "unat (of_nat k * 4096 + 16 :: u64) = k * 4096 + 16"
    using k n by (subst unat_plus_64) simp_all
  have bytes: "unat (16384 * of_nat n :: u64) = 16384 * n"
    using n un by (subst unat_times_64) simp_all
  have one: "validate_batch (sp_config sp) [?rng] = (Ok, 1)" "range_chunks (sp_config sp) ?rng = [of_nat k]"
    using k by (intro one_chunk [where c = "of_nat k"]; simp add: cfg rig_config_def off bytes un)+
  have "rig_reachable self ((ps_init sp b (\<lambda>_. 0))\<lparr>ps_tickets := []\<rparr>)"
    using idle by (simp add: rig_idle_def ps_init_def)
  then obtain l sp' where hit: "try_and_reset self ?rng out sp = Some (True, l, sp')" "lease_pool l = None"
      "sp_config sp' = sp_config sp" "cache_view sp' = cache_view sp"
      "rig_reachable self ((ps_init sp' b (\<lambda>_. 0))\<lparr>ps_tickets := []\<rparr>)"
    using resident_hit [OF _ out one] warm k by blast
  then have "rig_idle self sp' b" "\<forall>c < n. of_nat c \<in> resident sp'"
    using idle warm by (simp_all add: rig_idle_def ps_init_def resident_view)
  then show thesis
    using that hit(1-3) by blast
qed

lemma hits_all:
  assumes "rig_idle self sp b" "sp_config sp = rig_config n 4096 storage 16" "n < 2147483648"
    "\<forall>c < n. of_nat c \<in> resident sp" "k < n" "lease_pool out = None"
  shows "\<exists>c sp'. try_resolve_hit self n ops k out sp = Some (replicate ops True, c, sp')"
  using assms
proof (induction ops arbitrary: k out sp)
  case (Suc ops)
  obtain l sp1 where hit: "try_and_reset self \<lparr>range_offset = of_nat k * 4096 + 16, range_length = 256\<rparr> out sp = Some (True, l, sp1)"
      "lease_pool l = None" "sp_config sp1 = sp_config sp" "rig_idle self sp1 b" "\<forall>c < n. of_nat c \<in> resident sp1"
    using warm_hit [OF Suc.prems] .
  have "(if k + 1 = n then 0 else k + 1) < n"
    using Suc.prems(5) by simp
  from Suc.IH [OF hit(4) _ Suc.prems(3) hit(5) this hit(2)] hit(1,3) Suc.prems(2) show ?case
    by simp
qed simp

lemma warm_resident:
  assumes core: "core_ok sp" and n: "sc_num_slots (sp_config sp) = n" and warm: "warm n sp"
  shows "\<forall>c < n. of_nat c \<in> resident sp"
proof (intro allI impI)
  fix c assume "c < n"
  then have "c < length (sp_slots sp)" "cache_view sp ! c = (of_nat c, Slot_Ready)"
    using warm core_okD(2) [OF core] n unfolding warm_def by simp_all
  then show "of_nat c \<in> resident sp"
    unfolding resident_view by (metis length_cache_view mem_Collect_eq nth_mem)
qed

section \<open>Misses\<close>

lemma misses_all:
  assumes "rig_idle self sp b" "sp_config sp = rig_config 8 4096 storage 16" "unat chunk < 32" "lease_pool out = None"
  shows "\<exists>chunk' sp' b'. miss_cycle self n chunk out sp b = Some (replicate n True, chunk', sp', b') \<and> rig_idle self sp' b'"
  using assms
proof (induction n arbitrary: chunk out sp b)
  case (Suc n)
  obtain l sp1 b1 where miss: "miss_once self chunk out sp b = Some (True, l, sp1, b1)" "lease_pool l = None"
      "rig_idle self sp1 b1" "sp_config sp1 = sp_config sp"
    using idle_miss [OF Suc.prems] .
  have "unat ((chunk + 1) mod 32) < 32"
    by (simp add: unat_mod)
  from Suc.IH [OF miss(3) _ this miss(2)] miss(1,4) Suc.prems(2) show ?case
    by auto
qed simp

lemma idle_destroy:
  assumes "rig_idle self sp b"
  shows "sp_drain expired sp = Some Ok" "sp_destroy sp = Some ()"
proof -
  have reach: "rig_reachable self (ps_init sp b (\<lambda>_. 0))"
    using assms by (simp add: rig_idle_def)
  note inv = reachable_pool_inv [OF null.completing_backend_axioms reach]
  have tk: "waiters_ok sp" "tickets_ok self sp []"
    using terminal_backend.ps_reachable_tickets [OF null.terminal_backend_axioms reach]
    by (simp_all add: ps_tickets_inv_def ps_init_def)
  show drain: "sp_drain expired sp = Some Ok"
    using in_flight_outstanding [OF inv] assms by (simp add: sp_drain_def ps_init_def rig_idle_def null_outstanding_def)
  show "sp_destroy sp = Some ()"
    using in_flight_outstanding [OF inv] pins_no_leases [OF inv] tickets_held_none [OF tk] assms
    by (simp add: sp_destroy_def ps_init_def rig_idle_def null_outstanding_def all_leases_def waiting_leases_def)
qed

section \<open>Properties\<close>

text \<open>
  The hit benchmark measures hits. A rig with any number of slots below \<open>2 ^ 31\<close>, all of them warmed, has every chunk
  resident, so that each operation is a hit, however many there are.
\<close>

theorem hit_benchmark_hits:
  assumes "0 < n" "n < 2147483648" "0 < capacity"
  shows "\<exists>sp b chunk sp'. pool_rig self capacity n 4096 storage n 16 = Some (sp, b) \<and>
    try_resolve_hit self n ops 0 default_lease sp = Some (replicate ops True, chunk, sp')"
proof -
  note start = rig_start(1) [OF assms, where self = self and storage = storage] rig_start(2,3) [OF assms, where storage = storage]
  obtain sp b where rig: "rig_warm_all self 0 n (sp_construct (rig_config n 4096 storage 16), \<lparr>nb_pending = [], nb_capacity = capacity\<rparr>)
        = Some (sp, b)" "rig_idle self sp b" "sp_config sp = rig_config n 4096 storage 16" "warm n sp"
    using rig_warm_all_warm [OF start(1,2) assms(2) start(3), of n] by auto
  have "\<forall>c < n. of_nat c \<in> resident sp"
    using rig(3,4) rig_quietD(2) [OF rig_idle_quiet(1) [OF rig(2)]] by (intro warm_resident) (simp_all add: rig_config_def)
  from hits_all [OF rig(2,3) assms(2) this assms(1), of default_lease ops] rig(1) show ?thesis
    by (simp add: pool_rig_def rig_create [OF assms(1,2)] default_lease_def)
qed

theorem hit_benchmark_hits_witness:
  "\<exists>sp b chunk sp'. pool_rig 7 64 64 4096 65536 64 16 = Some (sp, b) \<and>
     try_resolve_hit 7 64 200 0 default_lease sp = Some (replicate 200 True, chunk, sp')"
  by (rule hit_benchmark_hits) simp_all

text \<open>
  C30: a miss is served. In the miss benchmark, where there are four times as many chunks as slots, each round
  finds a slot, has its request accepted, returns from its wait and then hits, however many rounds there are; the
  handles are all given back, so that the pool drains and is destroyed without termination.
\<close>

theorem miss_benchmark_served:
  assumes "0 < capacity"
  shows "\<exists>sp b chunk sp' b'. pool_rig self capacity 8 4096 storage 0 16 = Some (sp, b) \<and>
    miss_cycle self n 0 default_lease sp b = Some (replicate n True, chunk, sp', b') \<and>
    sp_drain False sp' = Some Ok \<and> sp_destroy sp' = Some ()"
proof -
  have eight: "(0 :: nat) < 8" "(8 :: nat) < 2147483648"
    by simp_all
  note start = rig_start(1) [OF eight assms, where self = self and storage = storage] rig_start(2) [OF eight assms, where storage = storage]
  obtain chunk sp' b' where "miss_cycle self n 0 default_lease (sp_construct (rig_config 8 4096 storage 16))
      \<lparr>nb_pending = [], nb_capacity = capacity\<rparr> = Some (replicate n True, chunk, sp', b')" "rig_idle self sp' b'"
    using misses_all [OF start(1,2), of 0 default_lease n] by (auto simp: default_lease_def)
  then show ?thesis
    using idle_destroy by (auto simp: pool_rig_def rig_create [OF eight])
qed

theorem miss_benchmark_served_witness:
  "\<exists>sp b chunk sp' b'. pool_rig 7 8 8 4096 65536 0 16 = Some (sp, b) \<and>
     miss_cycle 7 100 0 default_lease sp b = Some (replicate 100 True, chunk, sp', b') \<and>
     sp_drain False sp' = Some Ok \<and> sp_destroy sp' = Some ()"
  by (rule miss_benchmark_served) simp

end
