(* ===== verification/Bench_Transfer.thy ===== *)
theory Bench_Transfer
  imports Bench_Rig Transfer_Props
begin

text \<open>
  The benchmark of the transfer set, \<open>bench_transfer_submit_complete\<close> of \<open>src/bench/bench_main.cpp\<close>, over \<open>NullBackend\<close>.
\<close>

definition transfer_config :: "u64 \<Rightarrow> transfer_set_config" where
  "transfer_config storage =
     \<lparr>tc_source = 2, tc_source_bytes = 1048576, tc_destination = \<lparr>span_data = storage, span_size = 65536\<rparr>, tc_max_claims = 8\<rparr>"

text \<open>
  One operation. It reads the claim without asking whether it was granted: \<open>None\<close> where it was not. The result is what
  the operation saw, the status and the bytes of its claim.
\<close>

definition transfer_once ::
    "sink \<Rightarrow> u64 \<Rightarrow> transfer_set \<Rightarrow> null_backend \<Rightarrow> ((status \<times> span) \<times> transfer_set \<times> null_backend) option" where
  "transfer_once self off ts b =
     (let (res, ts, b) = ts_submit null_submit self \<lparr>range_offset = off, range_length = 4096\<rparr> (off mod 16 * 4096) ts b;
          (b, ts) = null_complete_all ts_on_complete b ts
      in case res of
           Inl e \<Rightarrow> None
         | Inr c \<Rightarrow>
             (case claim_wait c False ts of
                None \<Rightarrow> None
              | Some st \<Rightarrow> map_option (\<lambda>(c', ts). ((st, claim_bytes c), ts, b)) (claim_reset c ts)))"

fun submit_complete ::
    "sink \<Rightarrow> nat \<Rightarrow> u64 \<Rightarrow> transfer_set \<Rightarrow> null_backend
       \<Rightarrow> ((status \<times> span) list \<times> u64 \<times> transfer_set \<times> null_backend) option" where
  "submit_complete self 0 off ts b = Some ([], off, ts, b)"
| "submit_complete self (Suc n) off ts b =
     (case transfer_once self off ts b of
        None \<Rightarrow> None
      | Some (seen, ts, b) \<Rightarrow>
          map_option (\<lambda>(all, r). (seen # all, r)) (submit_complete self n ((off + 4096) mod 524288) ts b))"

section \<open>Rounds\<close>

definition transfer_idle :: "u64 \<Rightarrow> transfer_set \<Rightarrow> bool" where
  "transfer_idle storage ts \<longleftrightarrow>
     ts_config ts = transfer_config storage \<and> length (ts_records ts) = 8 \<and> length (ts_live_at ts) = 8 \<and>
     ts_free ts \<noteq> [] \<and> last (ts_free ts) < 8 \<and> ts_live ts = [] \<and> tst_in_flight (ts_counters ts) = 0 \<and> ts_held ts = 0"

definition on_page :: "u64 \<Rightarrow> bool" where
  "on_page off \<longleftrightarrow> unat off < 524288 \<and> unat off mod 4096 = 0"

lemma on_page_next: "on_page off \<Longrightarrow> on_page ((off + 4096) mod 524288)"
proof -
  assume page: "on_page off"
  then have "unat (off + 4096) = unat off + 4096"
    by (subst unat_plus_64) (simp_all add: on_page_def)
  moreover have "(524288 :: nat) = 4096 * 128"
    by simp
  ultimately show ?thesis
    using page by (simp add: on_page_def unat_mod mod_mod_cancel)
qed

lemma on_page_destination: "on_page off \<Longrightarrow> off mod 16 = 0"
proof -
  assume "on_page off"
  then have "unat off mod 4096 mod 16 = 0"
    by (simp add: on_page_def)
  then have "unat off mod 16 = 0"
    by (simp add: mod_mod_cancel)
  then show ?thesis
    by (intro u64_eqI) (simp add: unat_mod)
qed

lemma transfer_round:
  assumes idle: "transfer_idle storage ts" and b: "nb_pending b = []" "0 < nb_capacity b" and off: "on_page off"
  obtains ts' where "transfer_once self off ts b = Some ((Ok, \<lparr>span_data = storage, span_size = 4096\<rparr>), ts', b)"
    "transfer_idle storage ts'"
proof -
  let ?i = "last (ts_free ts)" and ?src = "\<lparr>range_offset = off, range_length = 4096\<rparr>"
  let ?r = "ts_request ts self ?i ?src 0" and ?ts1 = "ts_admit ?i ?src 0 ts"
  note idle' = idle [unfolded transfer_idle_def transfer_config_def]
  have "validate_range ?src 1048576 = Ok"
    using off by (simp add: validate_range_Ok_unat on_page_def)
  moreover have "checked_end 0 4096 = Some 4096"
    by (simp add: checked_end_Some_iff)
  ultimately have submit: "ts_submit null_submit self ?src (off mod 16 * 4096) ts b =
      (Inr \<lparr>claim_set = True, claim_record = ?i, claim_generation = token_generation (req_token ?r), claim_bytes = req_destination ?r\<rparr>,
       ?ts1, b\<lparr>nb_pending := [?r]\<rparr>)"
    using idle' b on_page_destination [OF off] by (simp add: ts_submit_def null_submit_def Let_def)
  let ?rec = "\<lparr>rec_destination_offset = 0, rec_length = 4096, rec_generation = rec_generation (ts_records ts ! ?i) + 1,
      rec_state = Rec_Submitted, rec_result = Pending, rec_held = True\<rparr>"
  have admitted: "ts_records ?ts1 = (ts_records ts)[?i := ?rec]" "ts_records ?ts1 ! ?i = ?rec" "?i < length (ts_records ?ts1)"
    using idle' by simp_all
  have request: "req_token ?r = \<lparr>token_index = ?i, token_generation = rec_generation (ts_records ts ! ?i) + 1\<rparr>"
      "req_destination ?r = \<lparr>span_data = storage, span_size = 4096\<rparr>" "null_result ?r = \<lparr>result_status = Ok, result_bytes = 4096\<rparr>"
    using idle' by (simp_all add: ts_request_def subspan_def null_result_def)
  define ts2 where "ts2 = ?ts1\<lparr>ts_records := (ts_records ts)[?i := ?rec\<lparr>rec_result := Ok, rec_state := Rec_Completed\<rparr>],
      ts_counters := settle_counters (null_result ?r) ?rec (ts_counters ?ts1)\<rparr>"
  have "\<not> ts_stale ?ts1 (req_token ?r)"
    using admitted by (simp add: ts_stale_def request(1))
  then have "ts_on_complete (req_token ?r) (null_result ?r) ?ts1 = ts2"
    using admitted
    by (simp add: ts_on_complete_live ts2_def settle_def classify_fill_def request Let_def)
  then have all: "null_complete_all ts_on_complete (b\<lparr>nb_pending := [?r]\<rparr>) ?ts1 = (b, ts2)"
    using b(1) by (simp add: null_complete_all.simps [of ts_on_complete "b\<lparr>nb_pending := [?r]\<rparr>"]
        null_complete_all.simps [of ts_on_complete "b\<lparr>nb_pending := []\<rparr>"])
  have records: "ts_records ts2 ! ?i = ?rec\<lparr>rec_result := Ok, rec_state := Rec_Completed\<rparr>"
    using idle' by (simp add: ts2_def)
  let ?c = "\<lparr>claim_set = True, claim_record = ?i, claim_generation = token_generation (req_token ?r), claim_bytes = req_destination ?r\<rparr>"
  have wait: "claim_wait ?c False ts2 = Some Ok"
    using records by (simp add: claim_wait_def ts_claim_status_def)
  let ?ts3 = "ts2\<lparr>ts_held := ts_held ts2 - 1,
      ts_records := (ts_records ts2)[?i := (ts_records ts2 ! ?i)\<lparr>rec_held := False, rec_state := Rec_Free\<rparr>],
      ts_counters := (ts_counters ts2)\<lparr>tst_records_in_use := tst_records_in_use (ts_counters ts2) - 1\<rparr>\<rparr>"
  have "?i < length (ts_records ts2)"
    using idle' by (simp add: ts2_def)
  then have reset: "claim_reset ?c ts2 = Some (?c\<lparr>claim_set := False, claim_bytes := empty_span\<rparr>, retire_record ?i ?ts3)"
    using records by (simp add: claim_reset_def ts_release_claim_def request(1) Let_def)
  have "transfer_idle storage (retire_record ?i ?ts3)"
    using idle' b(1)
    by (simp add: transfer_idle_def transfer_config_def retire_record_def ts2_def ts_admit_def settle_counters_def Let_def)
  moreover have "transfer_once self off ts b = Some ((Ok, req_destination ?r), retire_record ?i ?ts3, b)"
    by (simp add: transfer_once_def submit all wait reset)
  ultimately show thesis
    using that unfolding request(2) by blast
qed

lemma transfer_rounds:
  assumes "transfer_idle storage ts" "nb_pending b = []" "0 < nb_capacity b" "on_page off"
  shows "\<exists>off' ts'. submit_complete self n off ts b = Some (replicate n (Ok, \<lparr>span_data = storage, span_size = 4096\<rparr>), off', ts', b) \<and>
    transfer_idle storage ts'"
  using assms
proof (induction n arbitrary: off ts)
  case (Suc n)
  obtain ts1 where one: "transfer_once self off ts b = Some ((Ok, \<lparr>span_data = storage, span_size = 4096\<rparr>), ts1, b)"
      "transfer_idle storage ts1"
    using transfer_round [OF Suc.prems] .
  from Suc.IH [OF one(2) Suc.prems(2,3) on_page_next [OF Suc.prems(4)]] one(1) show ?case
    by auto
qed simp

section \<open>Properties\<close>

text \<open>
  Every operation of the benchmark is granted a claim, completes with ok and gives its claim back, however many there
  are, and the set drains and is destroyed without termination. All of them read into the same page: the offset is a
  multiple of 4096, so that its remainder by 16, from which the destination is computed, is zero.
\<close>

theorem transfer_benchmark_one_page:
  assumes "0 < capacity"
  shows "\<exists>ts off ts' b'. ts_create (transfer_config storage) = Inr ts \<and>
    submit_complete self n 0 ts \<lparr>nb_pending = [], nb_capacity = capacity\<rparr> =
      Some (replicate n (Ok, \<lparr>span_data = storage, span_size = 4096\<rparr>), off, ts', b') \<and>
    ts_drain False ts' = Some Ok \<and> ts_destroy ts' = Some ()"
proof -
  let ?ts = "ts_construct (transfer_config storage)"
  have create: "ts_create (transfer_config storage) = Inr ?ts"
    by (simp add: ts_create_def transfer_config_def UINT32_MAX_def)
  have "transfer_idle storage ?ts"
    by (simp add: transfer_idle_def ts_construct_def transfer_config_def default_stats_def upt_rec)
  moreover have "on_page 0"
    by (simp add: on_page_def)
  ultimately obtain off ts' where
      "submit_complete self n 0 ?ts \<lparr>nb_pending = [], nb_capacity = capacity\<rparr> =
         Some (replicate n (Ok, \<lparr>span_data = storage, span_size = 4096\<rparr>), off, ts', \<lparr>nb_pending = [], nb_capacity = capacity\<rparr>)"
      "transfer_idle storage ts'"
    using transfer_rounds [of storage ?ts "\<lparr>nb_pending = [], nb_capacity = capacity\<rparr>" 0 self n] assms by auto
  then show ?thesis
    using create by (auto simp: ts_drain_def ts_destroy_def transfer_idle_def)
qed

theorem transfer_benchmark_one_page_witness:
  "\<exists>ts off ts' b'. ts_create (transfer_config 65536) = Inr ts \<and>
     submit_complete 7 300 0 ts \<lparr>nb_pending = [], nb_capacity = 8\<rparr> =
       Some (replicate 300 (Ok, \<lparr>span_data = 65536, span_size = 4096\<rparr>), off, ts', b') \<and>
     ts_drain False ts' = Some Ok \<and> ts_destroy ts' = Some ()"
  by (rule transfer_benchmark_one_page) simp

end
