(* ===== verification/Spec2Isabelle.thy ===== *)
theory Spec2Isabelle
  imports Transfer_Props Chunk_Index_Props Slot_Pool_Props Local_File_Props Pool_Over_Files Local_File_Windows
    Capability_Probe Shootout_Props Shootout_Mempage Shootout_Ports Bench_Props Bench_Transfer
begin

text \<open>
  A model of Sub0MemPage (\<open>src/include/sub0mempage\<close>), a library that brings byte ranges of a large source
  into caller-owned memory, asynchronously, without allocation on its hot path, and of its benchmarks and two of its tools, the read
  shootout (\<open>src/tools/read_shootout\<close>) and the capability probe (\<open>src/tools/intel\<close>).

  \<^bold>\<open>The program.\<close> Two ownership modes use one seam. A \<open>SlotPool\<close> caches chunks of a source in the slots of
  a caller-owned storage and hands out leases on them; a \<open>TransferSet\<close> fills destination ranges that the
  caller names and hands out claims. Both submit \<open>FillRequest\<close>s to a backend through \<open>FillBackendRef\<close>, and the
  backend calls \<open>on_complete\<close> once for every request it accepted. \<open>LocalFileBackend\<close> is the backend that reads
  files with a pool of worker threads; \<open>FakeBackend\<close> is the one of the tests.

  \<^bold>\<open>Theories and code.\<close>
  \<^item> \<open>Mem_Prelude\<close>: 64-bit words read as natural numbers, spans of memory, byte writes, list lemmas.
  \<^item> \<open>Transfer_Core\<close> is \<open>transfer.hpp\<close>: status values, ranges, tokens, requests, \<open>checked_end\<close>,
    \<open>validate_range\<close>, \<open>classify_fill\<close>. A backend is a state and a submit function; what its clients may rely
    on are the locales \<open>fill_backend\<close>, \<open>completing_backend\<close> and \<open>terminal_backend\<close>.
  \<^item> \<open>Transfer_Set\<close> is \<open>transfer_set.hpp\<close>, operation by operation. \<open>Transfer_Set_Inv\<close> holds its invariant,
    \<open>Transfer_System\<close> the interleaving system of a set, a backend, the memory and the claims,
    \<open>Transfer_Props\<close> the properties.
  \<^item> \<open>Chunk_Index\<close> is the open-addressed table of \<open>slot_pool.hpp\<close> (\<open>index_find\<close>, \<open>index_insert\<close>,
    \<open>index_erase\<close>); \<open>Chunk_Index_Inv\<close> its reachability invariant, \<open>Chunk_Index_Props\<close> its laws as a map.
  \<^item> \<open>Slot_Pool\<close> is the rest of \<open>slot_pool.hpp\<close>: slots, tickets, waiters, admission sweep, fills,
    completions, leases, \<open>prefetch\<close>, \<open>wait\<close>, \<open>resolve\<close>, \<open>try_resolve\<close>, \<open>wont_need\<close>, \<open>drain\<close>, \<open>stats\<close>.
    \<open>Slot_Pool_Inv\<close> has the core invariant (index, counters, slots), \<open>Slot_Pool_Chunks\<close> the arithmetic of
    chunks and batches, \<open>Slot_Pool_System\<close> and \<open>Slot_Pool_Steps\<close> the invariant that ties slots, leases and
    outstanding requests together and its preservation by every step, \<open>Slot_Pool_Waiters\<close> the waiter lists of
    tickets, \<open>Slot_Pool_Policy\<close> sweeps and accounting, \<open>Slot_Pool_Facts\<close> the consequences the properties
    share, \<open>Slot_Pool_Demo\<close> concrete reachable states, \<open>Slot_Pool_Props\<close> the properties.
  \<^item> \<open>Fake_Backend\<close> is \<open>fake_backend.hpp\<close> of the test support library; it interprets \<open>terminal_backend\<close>.
  \<^item> \<open>Local_File_Backend\<close> is \<open>local_file_backend.hpp\<close>: registration, ring, workers, \<open>read_range\<close> in its branches
    for POSIX systems and for Windows, \<open>perform\<close>, \<open>shutdown\<close>. \<open>Read_Loop\<close> holds the loop that both branches and the
    shootout's \<open>read_at\<close> share, over the outcome of one attempt, and proves what it reads and that it ends;
    \<open>Local_File_Read\<close> states what the system calls promise and proves \<open>read_range\<close>, \<open>Local_File_Perform\<close>
    \<open>perform\<close>; \<open>Local_File_Contract\<close> that the ring is a queue and the backend meets the contract under every
    schedule of its workers; \<open>Local_File_System\<close> its deliveries, counters, handles and shutdown; \<open>Local_File_Props\<close>
    the properties, and \<open>Local_File_Windows\<close> those of the Windows branch and of both together.
  \<^item> \<open>Pool_Over_Files\<close> composes the pool with the worker-pool backend.
  \<^item> \<open>Shootout_Read\<close> has the aligned windows, \<open>read_at\<close>, and the strategies of \<open>read_shootout.cpp\<close> that read on the
    calling thread; what every strategy promises is the locale \<open>strategy\<close>. \<open>Shootout_Pool\<close> and
    \<open>Shootout_Pool_Props\<close> are its chunk pool, a step system of parked threads; \<open>Shootout_Mempage\<close> the strategy that
    reads through a transfer set; \<open>Shootout_Ports\<close> those over a completion port and a ring. \<open>Shootout_Driver\<close> is its
    \<open>main\<close> (generated file, misses, measured run, verification), \<open>Shootout_Options\<close> its command line, and
    \<open>Shootout_Props\<close> the properties.
  \<^item> \<open>Bench_Rig\<close> is the null backend, the rig and the timed bodies of the pool benchmarks (\<open>src/bench/bench_main.cpp\<close>),
    \<open>Bench_Facts\<close> what one operation does to an idle rig, \<open>Bench_Props\<close> that they hit and miss as meant;
    \<open>Bench_Transfer\<close> is the benchmark of the transfer set.
  \<^item> \<open>Capability_Probe\<close> is \<open>ProbeOptions.hpp\<close> and \<open>usm_capabilities.cpp\<close>: command line, choice of the device, report.

  \<^bold>\<open>State and interleaving.\<close> Every member of a class is a field of its record. A critical section of a mutex is
  one step; a wait on a condition variable is a partial function of the state it wakes in, \<open>None\<close> while it
  blocks; \<open>std::terminate\<close> is \<open>None\<close> as well. \<open>resolve\<close> is its two critical sections, before and after its wait.
  The step relations (\<open>ts_step\<close>, \<open>ps_step\<close>, \<open>lf_step\<close>) interleave client calls, backend writes at any time
  before a delivery, deliveries, and duplicate or late deliveries, in any order; the properties hold in every
  reachable state. A duplicate is a delivery whose token is stale in the current state: an old token that a
  generation counter has reached again, after \<open>2 ^ 32\<close> fills of one slot, is not modelled. A wait is modelled by its
  predicate, the notification that wakes it is not. A client of \<open>ps_step\<close> passes \<open>resolve\<close> and \<open>try_resolve\<close> an output
  without leases: they release what an output holds before they take the lock, which is a step of its own;
  what a call does with an output that still holds leases is stated separately. Local variables that live across critical sections (a waiting \<open>resolve\<close>, an item that a
  worker performs, what \<open>shutdown\<close> has still to cancel) are components of the system states.

  \<^bold>\<open>Integers.\<close> Offsets, lengths, addresses and byte counts are 64-bit words, generations 32-bit words, both
  wrapping. Indices and counts bounded by a container's size are natural numbers; where the code computes in
  \<open>uint32_t\<close> and could wrap (the bound of the declared sweep) the reduction is written out. The 64-bit event
  counters of the statistics are natural numbers.

  \<^bold>\<open>Loops.\<close> The probe loops of the index have the number of table entries as fuel, which the invariant (an empty
  entry is always there) shows to be enough; the sweep of \<open>claim_victim\<close> has the bound of the code. The walk over
  waiters terminates by a measure. The read loop has no bound in the code and is a \<open>partial_function\<close>
  (\<open>fill_loop\<close>): that it ends is proved from the hypothesis that no call is interrupted for ever. The loops of the
  shootout over chunks (\<open>chunk_ats\<close>) and blocks of 64 bytes (\<open>nt_loop\<close>) would run for ever where a position wraps;
  they are partial functions too, proved to return within the sizes of their callers.

  \<^bold>\<open>Assumptions.\<close> The backend contract for the two ownership modes (discharged for both backends); for the
  file backend, what POSIX documents of \<open>pread\<close> on a regular file (\<open>pread_spec\<close>: at most the requested bytes, the
  file's, none of them only at its end), and, where a claim says that a read ends, that no \<open>pread\<close> is interrupted for
  ever (\<open>pread_fair\<close>); that a registered file does not change. A call may fail at any time, and may bring fewer bytes
  than requested anywhere in the file (Linux moves at most 2147479552 bytes in one call): such a call is not assumed
  away but named in the conclusions (\<open>pread_fails_at\<close>, \<open>pread_cut_at\<close>; \<open>huge_direct_read_cut\<close> shows what a direct
  read then reports). For the Windows branch, what is documented of overlapped reads (\<open>win_spec\<close>); for the shootout, a
  \<open>fread\<close> that stores what it counts (\<open>fread_spec\<close>), a non-temporal store that faults at an address that is not a
  multiple of 16 (\<open>stream_store\<close>), page-aligned slots where a mapping is copied into them (\<open>mapped_able\<close>), and 64
  bits of \<open>unsigned long\<close> in its command line.

  \<^bold>\<open>Not modelled.\<close> The memory model below the mutexes and the fairness of the thread scheduler; of the shootout,
  clocks, gaps, statistics of times, the load on the memory bus, eviction, page pinning, opening and mapping of
  files, and printing; the clock, the calibration and the contended run of the benchmarks; the other
  measurement programs under \<open>src/tools\<close>, which are glue around clocks, devices and reads; the tests, whose scenarios appear as witnesses.
\<close>

end
